(* ===== verification/Mesh_Prelude.thy ===== *)
theory Mesh_Prelude
  imports Main "HOL-Library.Word"
begin

text \<open>
  Shared vocabulary of the MeshBus development: results (\<open>Err\<close>/\<open>Ok\<close> for Rust's
  \<^verbatim>\<open>Result\<close>, with the \<^verbatim>\<open>?\<close> operator as \<open>res_bind\<close> and a fallible
  \<^verbatim>\<open>for\<close> loop as \<open>check_all\<close>), unsigned integers with their saturating and
  wrapping additions, big- and little-endian byte images of integers, and the generic
  list lemmas the components share.

  Conventions. A \<^verbatim>\<open>u64\<close>/\<^verbatim>\<open>usize\<close> the code only compares, subtracts under a guard
  or combines with saturating operations is a \<^typ>\<open>nat\<close>; an addition the source leaves
  unchecked goes through \<open>wrap64\<close>, the behaviour of a release build; fields that travel on the wire
  and bit vectors are machine words, so their ranges hold by typing. A Rust string is the
  list of its bytes.
\<close>

unbundle bit_operations_syntax

named_theorems result_simps \<open>rewriting of results, binds and fallible loops\<close>
named_theorems codec_simps \<open>byte images of integers and buffers\<close>
named_theorems wf_intros \<open>introduction rules for the invariants of the components\<close>

section \<open>Results\<close>

abbreviation Err :: "'e \<Rightarrow> 'e + 'a" where
  "Err \<equiv> Inl"

abbreviation Ok :: "'a \<Rightarrow> 'e + 'a" where
  "Ok \<equiv> Inr"

definition is_Ok :: "'e + 'a \<Rightarrow> bool" where
  "is_Ok r \<longleftrightarrow> (case r of Inl _ \<Rightarrow> False | Inr _ \<Rightarrow> True)"

definition res_bind :: "'e + 'a \<Rightarrow> ('a \<Rightarrow> 'e + 'b) \<Rightarrow> 'e + 'b" where
  "res_bind r f = (case r of Inl e \<Rightarrow> Inl e | Inr x \<Rightarrow> f x)"

definition ok_or :: "'a option \<Rightarrow> 'e \<Rightarrow> 'e + 'a" where
  "ok_or x e = (case x of None \<Rightarrow> Inl e | Some y \<Rightarrow> Inr y)"

definition ok :: "'e + 'a \<Rightarrow> 'a option" where
  "ok r = (case r of Inl _ \<Rightarrow> None | Inr x \<Rightarrow> Some x)"

text \<open>A \<^verbatim>\<open>for\<close> loop whose body may leave the function with an error.\<close>

fun check_all :: "('a \<Rightarrow> 'e + unit) \<Rightarrow> 'a list \<Rightarrow> 'e + unit" where
  "check_all f [] = Inr ()"
| "check_all f (x # xs) = (case f x of Inl e \<Rightarrow> Inl e | Inr _ \<Rightarrow> check_all f xs)"

definition ensure :: "bool \<Rightarrow> 'e \<Rightarrow> 'e + unit" where
  "ensure b e = (if b then Inr () else Inl e)"

lemma is_Ok_simps [simp, result_simps]: "is_Ok (Inr x)" "\<not> is_Ok (Inl e)"
  by (simp_all add: is_Ok_def)

lemma is_Ok_iff: "is_Ok r \<longleftrightarrow> (\<exists>x. r = Inr x)"
  by (cases r) auto

lemma res_bind_simps [simp, result_simps]:
  "res_bind (Inl e) f = Inl e" "res_bind (Inr x) f = f x"
  by (simp_all add: res_bind_def)

lemma res_bind_eq_Inr [result_simps]:
  "res_bind r f = Inr y \<longleftrightarrow> (\<exists>x. r = Inr x \<and> f x = Inr y)"
  by (cases r) auto

lemma res_bind_eq_Inl [result_simps]:
  "res_bind r f = Inl e \<longleftrightarrow> r = Inl e \<or> (\<exists>x. r = Inr x \<and> f x = Inl e)"
  by (cases r) auto

lemma ok_or_simps [simp, result_simps]: "ok_or None e = Inl e" "ok_or (Some x) e = Inr x"
  by (simp_all add: ok_or_def)

lemma ok_or_eq_Inr [result_simps]: "ok_or x e = Inr y \<longleftrightarrow> x = Some y"
  by (cases x) auto

lemma ok_simps [simp, result_simps]: "ok (Inl e) = None" "ok (Inr x) = Some x"
  by (simp_all add: ok_def)

lemma check_all_Ok [result_simps]: "check_all f xs = Inr u \<longleftrightarrow> (\<forall>x \<in> set xs. f x = Inr ())"
  by (induction xs) (auto split: sum.splits)

lemma check_all_Err: "check_all f xs = Inl e \<Longrightarrow> \<exists>x \<in> set xs. f x = Inl e"
  by (induction xs) (auto split: sum.splits)

lemma check_all_append [result_simps]:
  "check_all f (xs @ ys) = res_bind (check_all f xs) (\<lambda>_. check_all f ys)"
  by (induction xs) (auto split: sum.splits)

lemma ensure_Ok [simp, result_simps]: "ensure b e = Inr u \<longleftrightarrow> b"
  by (simp add: ensure_def)

lemma ensure_Err [simp, result_simps]: "ensure b e = Inl e' \<longleftrightarrow> \<not> b \<and> e' = e"
  by (auto simp: ensure_def)

section \<open>Unsigned integers\<close>

type_synonym u8 = "8 word"
type_synonym u16 = "16 word"
type_synonym u32 = "32 word"
type_synonym u64 = "64 word"
type_synonym bytes = "u8 list"

definition u32_max :: nat where
  "u32_max = 2 ^ 32 - 1"

definition u64_max :: nat where
  "u64_max = 2 ^ 64 - 1"

definition wrap64 :: "nat \<Rightarrow> nat" where
  "wrap64 n = n mod 2 ^ 64"

definition sat_add64 :: "nat \<Rightarrow> nat \<Rightarrow> nat" where
  "sat_add64 a b = min (a + b) u64_max"

definition sat_mul64 :: "nat \<Rightarrow> nat \<Rightarrow> nat" where
  "sat_mul64 a b = min (a * b) u64_max"

definition sat_add32 :: "nat \<Rightarrow> nat \<Rightarrow> nat" where
  "sat_add32 a b = min (a + b) u32_max"

text \<open>\<open>saturating_sub\<close> is the truncating subtraction of \<^typ>\<open>nat\<close>.\<close>

abbreviation (input) sat_sub :: "nat \<Rightarrow> nat \<Rightarrow> nat" where
  "sat_sub a b \<equiv> a - b"

lemma wrap64_id [simp]: "n < 2 ^ 64 \<Longrightarrow> wrap64 n = n"
  by (simp add: wrap64_def)

lemma wrap64_less: "wrap64 n < 2 ^ 64"
  by (simp add: wrap64_def)

lemma u64_max_conv: "n \<le> u64_max \<longleftrightarrow> n < 2 ^ 64"
  by (auto simp: u64_max_def)

lemma sat_add64_le: "sat_add64 a b \<le> u64_max"
  by (simp add: sat_add64_def)

lemma sat_add64_ge: "a \<le> u64_max \<Longrightarrow> a \<le> sat_add64 a b"
  by (simp add: sat_add64_def)

lemma sat_add64_exact: "a + b \<le> u64_max \<Longrightarrow> sat_add64 a b = a + b"
  by (simp add: sat_add64_def)

section \<open>Byte images of integers\<close>

fun le_bytes :: "nat \<Rightarrow> nat \<Rightarrow> bytes" where
  "le_bytes 0 x = []"
| "le_bytes (Suc k) x = of_nat x # le_bytes k (x div 256)"

fun le_val :: "bytes \<Rightarrow> nat" where
  "le_val [] = 0"
| "le_val (b # bs) = unat b + 256 * le_val bs"

definition be_bytes :: "nat \<Rightarrow> nat \<Rightarrow> bytes" where
  "be_bytes k x = rev (le_bytes k x)"

definition be_val :: "bytes \<Rightarrow> nat" where
  "be_val bs = le_val (rev bs)"

lemma length_le_bytes [simp, codec_simps]: "length (le_bytes k x) = k"
  by (induction k arbitrary: x) auto

lemma length_be_bytes [simp, codec_simps]: "length (be_bytes k x) = k"
  by (simp add: be_bytes_def)

lemma unat_u8_less: "unat (b :: u8) < 256"
proof -
  have "unat b < 2 ^ LENGTH(8)" by (rule unsigned_less)
  then show ?thesis by simp
qed

lemma unat_u8_of_nat: "unat (of_nat x :: u8) = x mod 256"
  by (simp add: unat_of_nat)

lemma le_val_le_bytes [simp, codec_simps]: "le_val (le_bytes k x) = x mod 256 ^ k"
proof (induction k arbitrary: x)
  case (Suc k)
  have "le_val (le_bytes (Suc k) x) = x mod 256 + 256 * ((x div 256) mod 256 ^ k)"
    by (simp only: le_bytes.simps le_val.simps unat_u8_of_nat Suc.IH)
  also have "\<dots> = x mod (256 * 256 ^ k)"
    by (simp add: mod_mult2_eq)
  finally show ?case by simp
qed simp

lemma be_val_be_bytes [simp, codec_simps]: "be_val (be_bytes k x) = x mod 256 ^ k"
  by (simp add: be_val_def be_bytes_def)

lemma le_val_bound: "le_val bs < 256 ^ length bs"
proof (induction bs)
  case (Cons b bs)
  have "unat b < 256" by (rule unat_u8_less)
  with Cons show ?case by simp
qed simp

lemma be_val_bound: "be_val bs < 256 ^ length bs"
  using le_val_bound [of "rev bs"] by (simp add: be_val_def)

lemma le_bytes_le_val [simp, codec_simps]: "le_bytes (length bs) (le_val bs) = bs"
proof (induction bs)
  case (Cons b bs)
  have b: "unat b < 256" by (rule unat_u8_less)
  have "of_nat (unat b + 256 * le_val bs) = b"
  proof (rule word_unat_eq_iff [THEN iffD2])
    show "unat (of_nat (unat b + 256 * le_val bs) :: u8) = unat b"
      using b by (simp only: unat_u8_of_nat) simp
  qed
  moreover have "(unat b + 256 * le_val bs) div 256 = le_val bs" using b by simp
  ultimately show ?case using Cons by (simp only: length_Cons le_bytes.simps le_val.simps)
qed simp

lemma be_bytes_be_val [simp, codec_simps]: "be_bytes (length bs) (be_val bs) = bs"
proof -
  have "le_bytes (length (rev bs)) (le_val (rev bs)) = rev bs" by (rule le_bytes_le_val)
  then show ?thesis by (simp add: be_bytes_def be_val_def)
qed

lemma be_val_two [codec_simps]: "be_val [a, b] = 256 * unat a + unat b"
  by (simp add: be_val_def)

section \<open>Lists and options\<close>

text \<open>Rust's \<^verbatim>\<open>slice.get(i)\<close> and \<^verbatim>\<open>iter.position(p)\<close>.\<close>

definition nth_opt :: "'a list \<Rightarrow> nat \<Rightarrow> 'a option" where
  "nth_opt xs i = (if i < length xs then Some (xs ! i) else None)"

fun position :: "('a \<Rightarrow> bool) \<Rightarrow> 'a list \<Rightarrow> nat option" where
  "position p [] = None"
| "position p (x # xs) = (if p x then Some 0 else map_option Suc (position p xs))"

definition remove_at :: "nat \<Rightarrow> 'a list \<Rightarrow> 'a list" where
  "remove_at i xs = take i xs @ drop (Suc i) xs"

lemma position_Some:
  "position p xs = Some i \<Longrightarrow> i < length xs \<and> p (xs ! i) \<and> (\<forall>j < i. \<not> p (xs ! j))"
proof (induction xs arbitrary: i)
  case (Cons x xs)
  show ?case
  proof (cases "p x")
    case False
    with Cons.prems obtain k where k: "position p xs = Some k" "i = Suc k" by auto
    have "\<not> p ((x # xs) ! j)" if "j < i" for j
      using that k False Cons.IH [OF k(1)] by (cases j) auto
    with k Cons.IH [OF k(1)] show ?thesis by auto
  qed (use Cons.prems in auto)
qed simp

lemma position_None: "position p xs = None \<longleftrightarrow> (\<forall>x \<in> set xs. \<not> p x)"
  by (induction xs) auto

lemma remove_at_perm:
  "i < length xs \<Longrightarrow> set (xs ! i # remove_at i xs) = set xs"
  by (metis id_take_nth_drop list.simps(15) remove_at_def set_append Un_insert_right)

lemma remove_at_distinct:
  "i < length xs \<Longrightarrow> distinct xs \<Longrightarrow> distinct (xs ! i # remove_at i xs)"
  by (metis id_take_nth_drop distinct.simps(2) distinct_append list.simps(15) remove_at_def
      set_append Un_iff disjoint_insert(2))

lemma length_remove_at: "i < length xs \<Longrightarrow> length (remove_at i xs) = length xs - 1"
  by (simp add: remove_at_def)

text \<open>A component driven by a sequence of calls: the results in order and the final state.\<close>

fun run_steps :: "('s \<Rightarrow> 'c \<Rightarrow> 'r \<times> 's) \<Rightarrow> 's \<Rightarrow> 'c list \<Rightarrow> 'r list \<times> 's" where
  "run_steps f s [] = ([], s)"
| "run_steps f s (c # cs) =
     (case f s c of (r, s') \<Rightarrow> case run_steps f s' cs of (rs, s'') \<Rightarrow> (r # rs, s''))"

lemma length_run_steps [simp]: "length (fst (run_steps f s cs)) = length cs"
  by (induction cs arbitrary: s) (auto split: prod.splits dest: sym, metis fst_conv)

lemma run_steps_Cons_eq:
  "fst (run_steps f s (c # cs)) = fst (f s c) # fst (run_steps f (snd (f s c)) cs)"
  "snd (run_steps f s (c # cs)) = snd (run_steps f (snd (f s c)) cs)"
  by (simp_all split: prod.splits)

lemma run_steps_simulation:
  assumes "R s t"
    and "\<And>s t c. R s t \<Longrightarrow> fst (f s c) = fst (g t c) \<and> R (snd (f s c)) (snd (g t c))"
  shows "fst (run_steps f s cs) = fst (run_steps g t cs)
       \<and> R (snd (run_steps f s cs)) (snd (run_steps g t cs))"
  using assms(1)
proof (induction cs arbitrary: s t)
  case (Cons c cs)
  from assms(2) [OF Cons.prems] have eq: "fst (f s c) = fst (g t c)"
    and R: "R (snd (f s c)) (snd (g t c))" by simp_all
  from Cons.IH [OF R] eq show ?case
    by (cases "f s c"; cases "g t c") (auto split: prod.splits)
qed simp

lemma map_of_map_fst:
  "map_of xs k = Some v \<Longrightarrow> k \<in> fst ` set xs"
  by (force dest: map_of_SomeD)

section \<open>Decimal text\<close>

text \<open>Rust's \<^verbatim>\<open>to_string\<close> of an unsigned integer, and its \<^verbatim>\<open>parse\<close>: an optional leading
  plus sign, then one or more decimal digits, within the range of the type.\<close>

definition digit_char :: "nat \<Rightarrow> char" where
  "digit_char d = char_of (48 + d)"

definition digit_val :: "char \<Rightarrow> nat option" where
  "digit_val c = (let n = of_char c in if 48 \<le> n \<and> n \<le> 57 then Some (n - 48) else None)"

fun show_nat :: "nat \<Rightarrow> string" where
  "show_nat n = (if n < 10 then [digit_char n] else show_nat (n div 10) @ [digit_char (n mod 10)])"

declare show_nat.simps [simp del]

fun digits_val :: "nat \<Rightarrow> string \<Rightarrow> nat option" where
  "digits_val acc [] = Some acc"
| "digits_val acc (c # cs) =
     (case digit_val c of None \<Rightarrow> None | Some d \<Rightarrow> digits_val (10 * acc + d) cs)"

definition parse_uint :: "nat \<Rightarrow> string \<Rightarrow> nat option" where
  "parse_uint maxv s =
     (let ds = (case s of [] \<Rightarrow> [] | c # cs \<Rightarrow> if c = CHR ''+'' \<and> cs \<noteq> [] then cs else s)
      in if ds = [] then None
         else case digits_val 0 ds of None \<Rightarrow> None | Some n \<Rightarrow> if n \<le> maxv then Some n else None)"

lemma digit_val_char [simp]: "d < 10 \<Longrightarrow> digit_val (digit_char d) = Some d"
  by (simp add: digit_val_def digit_char_def Let_def)

lemma digit_char_neq:
  assumes "d < 10" "digit_val c = None"
  shows "digit_char d \<noteq> c"
  using assms digit_val_char [of d] by auto

lemma digits_val_append:
  "digits_val acc (xs @ ys) = (case digits_val acc xs of None \<Rightarrow> None | Some a \<Rightarrow> digits_val a ys)"
  by (induction xs arbitrary: acc) (auto split: option.splits)

lemma digits_val_show [simp]: "digits_val 0 (show_nat n) = Some n"
proof (induction n rule: show_nat.induct)
  case (1 n)
  show ?case
  proof (cases "n < 10")
    case True
    then show ?thesis by (subst show_nat.simps) simp
  next
    case False
    with 1 have "digits_val 0 (show_nat (n div 10)) = Some (n div 10)" by simp
    with False show ?thesis by (subst show_nat.simps) (simp add: digits_val_append)
  qed
qed

lemma set_show_nat: "c \<in> set (show_nat n) \<Longrightarrow> digit_val c \<noteq> None"
proof (induction n rule: show_nat.induct)
  case (1 n)
  show ?case
  proof (cases "n < 10")
    case True
    with "1.prems" show ?thesis by (subst (asm) show_nat.simps) simp
  next
    case False
    with "1.prems" have "c \<in> set (show_nat (n div 10)) \<or> c = digit_char (n mod 10)"
      by (subst (asm) show_nat.simps) auto
    with 1(1) [OF False] show ?thesis by auto
  qed
qed

lemma show_nat_nonempty [simp]: "show_nat n \<noteq> []"
  by (subst show_nat.simps) simp

lemma show_nat_no_sign: "CHR ''+'' \<notin> set (show_nat n)" "CHR '':'' \<notin> set (show_nat n)"
  using set_show_nat [of "CHR ''+''" n] set_show_nat [of "CHR '':''" n] by (auto simp: digit_val_def)

lemma parse_show [simp]: "n \<le> maxv \<Longrightarrow> parse_uint maxv (show_nat n) = Some n"
proof -
  have "(case show_nat n of [] \<Rightarrow> [] | c # cs \<Rightarrow> if c = CHR ''+'' \<and> cs \<noteq> [] then cs else show_nat n)
      = show_nat n"
    using show_nat_no_sign(1) [of n] by (auto split: list.splits)
  moreover assume "n \<le> maxv"
  ultimately show ?thesis by (simp add: parse_uint_def)
qed

lemma show_nat_inj: "show_nat m = show_nat n \<Longrightarrow> m = n"
  by (metis digits_val_show option.inject)

lemma parse_uint_bound: "parse_uint maxv s = Some n \<Longrightarrow> n \<le> maxv"
  by (auto simp: parse_uint_def Let_def split: if_splits option.splits)

text \<open>Zero-padded lower-case hexadecimal, Rust's \<^verbatim>\<open>{:0wx}\<close> for values of at most \<open>w\<close> digits.\<close>

definition hex_char :: "nat \<Rightarrow> char" where
  "hex_char d = (if d < 10 then char_of (48 + d) else char_of (87 + d))"

definition hex_fixed :: "nat \<Rightarrow> nat \<Rightarrow> string" where
  "hex_fixed w n = map (\<lambda>i. hex_char (n div 16 ^ i mod 16)) (rev [0..<w])"

lemma length_hex_fixed [simp]: "length (hex_fixed w n) = w"
  by (simp add: hex_fixed_def)

definition str_bytes :: "string \<Rightarrow> bytes" where
  "str_bytes s = map of_char s"

end
