(* ===== verification/Endpoint.thy ===== *)
theory Endpoint
  imports Mesh_Prelude
begin

text \<open>
  Endpoints (\<^verbatim>\<open>lib/mb-endpoint/src/lib.rs\<close>): a host and a port, built by \<open>endpoint_new\<close>, read from
  text by \<open>endpoint_parse\<close> and written by \<open>endpoint_display\<close>. The lemmas show that every endpoint
  the constructor or the parser yields is well formed, and when printing and parsing are inverse.
\<close>

section \<open>Definitions\<close>

record Endpoint =
  ep_host :: string
  ep_port :: u16

datatype ParseError =
    PeEmptyHost
  | PeMissingColon
  | PeInvalidPort string
  | PeHostTooLong nat
  | PeMalformedIpv6

text \<open>The text of an endpoint error.\<close>

fun parse_error_text :: "ParseError \<Rightarrow> string" where
  "parse_error_text PeEmptyHost = ''empty host''"
| "parse_error_text PeMissingColon = ''missing colon between host and port''"
| "parse_error_text (PeInvalidPort s) = ''invalid port: '' @ s"
| "parse_error_text (PeHostTooLong n) = ''host too long: '' @ show_nat n @ '' bytes (max 255)''"
| "parse_error_text PeMalformedIpv6 = ''malformed ipv6 address (missing closing bracket)''"

definition endpoint_new :: "string \<Rightarrow> u16 \<Rightarrow> ParseError + Endpoint" where
  "endpoint_new host port =
     (if host = [] then Err PeEmptyHost
      else if length host > 255 then Err (PeHostTooLong (length host))
      else if port = 0 then Err (PeInvalidPort ''0'')
      else Ok \<lparr>ep_host = host, ep_port = port\<rparr>)"

text \<open>\<^verbatim>\<open>rest.find(c)\<close> and \<^verbatim>\<open>input.rfind(c)\<close>: the text before and after the first and the last \<open>c\<close>.\<close>

definition split_first :: "char \<Rightarrow> string \<Rightarrow> (string \<times> string) option" where
  "split_first c s = (case position (\<lambda>x. x = c) s of None \<Rightarrow> None
     | Some i \<Rightarrow> Some (take i s, drop (Suc i) s))"

definition split_last :: "char \<Rightarrow> string \<Rightarrow> (string \<times> string) option" where
  "split_last c s = (case split_first c (rev s) of None \<Rightarrow> None
     | Some (a, b) \<Rightarrow> Some (rev b, rev a))"

definition endpoint_split :: "string \<Rightarrow> ParseError + (string \<times> string)" where
  "endpoint_split input =
     (case input of
        c # rest \<Rightarrow>
          if c = CHR ''['' then
            res_bind (ok_or (split_first (CHR '']'') rest) PeMalformedIpv6) (\<lambda>(host, after).
              case after of
                d # port_str \<Rightarrow> if d = CHR '':'' then Ok (host, port_str) else Err PeMissingColon
              | [] \<Rightarrow> Err PeMissingColon)
          else ok_or (split_last (CHR '':'') input) PeMissingColon
      | [] \<Rightarrow> ok_or (split_last (CHR '':'') input) PeMissingColon)"

definition endpoint_parse :: "string \<Rightarrow> ParseError + Endpoint" where
  "endpoint_parse input =
     res_bind (endpoint_split input) (\<lambda>(host, port_str).
       case parse_uint 65535 port_str of
         None \<Rightarrow> Err (PeInvalidPort port_str)
       | Some p \<Rightarrow> endpoint_new host (of_nat p))"

definition endpoint_display :: "Endpoint \<Rightarrow> string" where
  "endpoint_display e =
     (if CHR '':'' \<in> set (ep_host e)
      then ''['' @ ep_host e @ '']:'' @ show_nat (unat (ep_port e))
      else ep_host e @ '':'' @ show_nat (unat (ep_port e)))"

definition wf_endpoint :: "Endpoint \<Rightarrow> bool" where
  "wf_endpoint e \<longleftrightarrow> ep_host e \<noteq> [] \<and> length (ep_host e) \<le> 255 \<and> ep_port e \<noteq> 0"

text \<open>The hosts whose printed form reads back: an address with colons is printed in brackets and
  must not hold a closing one; any other host must not open with a bracket.\<close>

definition printable_host :: "string \<Rightarrow> bool" where
  "printable_host h \<longleftrightarrow>
     (if CHR '':'' \<in> set h then CHR '']'' \<notin> set h else hd h \<noteq> CHR ''['')"

section \<open>Lemmas\<close>

lemma endpoint_new_Ok [simp]:
  "endpoint_new h p = Ok e \<longleftrightarrow> e = \<lparr>ep_host = h, ep_port = p\<rparr> \<and> wf_endpoint e"
  by (auto simp: endpoint_new_def wf_endpoint_def)

lemma endpoint_new_wf: "wf_endpoint e \<Longrightarrow> endpoint_new (ep_host e) (ep_port e) = Ok e"
  by simp

lemma position_append_first: "c \<notin> set a \<Longrightarrow> position (\<lambda>x. x = c) (a @ c # b) = Some (length a)"
  by (induction a) auto

lemma split_first_append: "c \<notin> set a \<Longrightarrow> split_first c (a @ c # b) = Some (a, b)"
  by (simp add: split_first_def position_append_first)

lemma split_last_append: "c \<notin> set b \<Longrightarrow> split_last c (a @ c # b) = Some (a, b)"
  by (simp add: split_last_def split_first_append)

lemma u16_of_nat_unat: "of_nat (unat (p :: u16)) = p"
  by simp

lemma unat_u16_le: "unat (p :: u16) \<le> 65535"
proof -
  have "unat p < 2 ^ LENGTH(16)" by (rule unsigned_less)
  then show ?thesis by simp
qed

lemma endpoint_split_display:
  assumes "wf_endpoint e" "printable_host (ep_host e)"
  shows "endpoint_split (endpoint_display e) = Ok (ep_host e, show_nat (unat (ep_port e)))"
proof (cases "CHR '':'' \<in> set (ep_host e)")
  case True
  with assms split_first_append [of "CHR '']''" "ep_host e"] show ?thesis
    by (simp add: endpoint_split_def endpoint_display_def printable_host_def)
next
  case False
  then obtain c cs where h: "ep_host e = c # cs" "c \<noteq> CHR ''[''"
    using assms by (cases "ep_host e") (auto simp: wf_endpoint_def printable_host_def)
  with False show ?thesis
    using split_last_append [OF show_nat_no_sign(2), of "ep_host e"]
    by (simp add: endpoint_split_def endpoint_display_def)
qed

section \<open>Properties\<close>

text \<open>An endpoint the parser yields is well formed: a host of 1 to 255 bytes and a port that is
  not zero.\<close>

lemma endpoint_parse_wf: "endpoint_parse s = Ok e \<Longrightarrow> wf_endpoint e"
  by (auto simp: endpoint_parse_def result_simps split: option.splits)

text \<open>C4: parsing the printed form of a well-formed endpoint gives it back, for every host whose
  printed form is unambiguous.\<close>

theorem endpoint_roundtrip:
  assumes "wf_endpoint e" "printable_host (ep_host e)"
  shows "endpoint_parse (endpoint_display e) = Ok e"
  using assms unat_u16_le [of "ep_port e"]
  by (simp add: endpoint_parse_def endpoint_split_display)

theorem endpoint_roundtrip_witness:
  "endpoint_parse (endpoint_display \<lparr>ep_host = ''::1'', ep_port = 443\<rparr>)
   = Ok \<lparr>ep_host = ''::1'', ep_port = 443\<rparr>"
  by (rule endpoint_roundtrip) (simp_all add: wf_endpoint_def printable_host_def)

end
