(* ===== verification/Framing.thy ===== *)
theory Framing
  imports Mesh_Prelude
begin

text \<open>
  The contract of a self-delimiting encoding read from a stream: \<open>enc\<close> writes a message, \<open>dec\<close> takes one from the front of a
  buffer or answers that the buffer is incomplete and leaves it alone. Every stream codec of the program is an instance:
  mesh frames and events, DNS messages over TCP, SOCKS5 greetings, requests and authentication.
\<close>

text \<open>\<open>n\<close> successive reads of a buffer.\<close>

fun decode_n :: "(bytes \<Rightarrow> ('d + 'a) \<times> bytes) \<Rightarrow> nat \<Rightarrow> bytes \<Rightarrow> ('d + 'a) list \<times> bytes" where
  "decode_n dec 0 buf = ([], buf)"
| "decode_n dec (Suc n) buf =
     (case dec buf of (r, buf') \<Rightarrow> case decode_n dec n buf' of (rs, buf'') \<Rightarrow> (r # rs, buf''))"

locale framing =
  fixes enc :: "'a \<Rightarrow> 'e + bytes"
    and dec :: "bytes \<Rightarrow> ('d + 'a) \<times> bytes"
    and good :: "'a \<Rightarrow> bool"
    and incomplete :: 'd
  assumes enc_total: "good x \<Longrightarrow> \<exists>b. enc x = Ok b"
    and dec_enc: "good x \<Longrightarrow> enc x = Ok b \<Longrightarrow> dec (b @ rest) = (Ok x, rest)"
    and dec_short: "good x \<Longrightarrow> enc x = Ok (buf @ suf) \<Longrightarrow> suf \<noteq> [] \<Longrightarrow> dec buf = (Err incomplete, buf)"
begin

lemma stream_roundtrip:
  assumes "\<forall>x \<in> set xs. good x"
  shows "decode_n dec (length xs) (concat (map (\<lambda>x. projr (enc x)) xs) @ rest) = (map Ok xs, rest)"
  using assms
proof (induction xs)
  case (Cons x xs)
  then obtain b where "enc x = Ok b" using enc_total by auto
  with Cons dec_enc [of x b] show ?case by simp
qed simp

lemma stream_partial:
  assumes "\<forall>x \<in> set xs. good x" "good y" "enc y = Ok (buf @ suf)" "suf \<noteq> []"
  shows "decode_n dec (Suc (length xs)) (concat (map (\<lambda>x. projr (enc x)) xs) @ buf)
       = (map Ok xs @ [Err incomplete], buf)"
  using assms(1)
proof (induction xs)
  case Nil
  from dec_short [OF assms(2-4)] show ?case by simp
next
  case (Cons x xs)
  then obtain b where "enc x = Ok b" using enc_total by auto
  with Cons dec_enc [of x b] show ?case by simp
qed

end

end
