(* ===== verification/Wire.thy ===== *)
theory Wire
  imports Endpoint Framing
begin

text \<open>
  The mesh protocol codec (\<^verbatim>\<open>lib/mb-proto-mesh/src/lib.rs\<close>): frames, native events, their common
  eight-byte header, the classification of a frame as an event, and the XOR parity of a generation
  of chunks. The body of a frame or event is written and read by the \<^verbatim>\<open>bincode\<close> crate, a parameter
  here: \<open>ser\<close> and \<open>deser\<close> give the bytes or the text of an error. The lemmas show that the framing is
  prefix-free and self-delimiting, that a wrapped frame comes back unchanged, and that the parity
  recovers any single lost chunk.
\<close>

section \<open>Frames\<close>

datatype BindingKind = RawUdp | Quic | TcpReference

datatype FlowSemanticsWire = FsByteStream | FsDatagram | FsMessage

datatype ReturnSemanticsWire = RsDirect | RsPacketDedup | RsSequenceReorder

datatype CloseReasonWire = CrNormal | CrUnsupported | CrNoUsableExit | CrProtocolError

datatype StreamOpenRejectReason =
  RrReliableStreamUnsupported | RrNoUsableExit | RrPolicyRejected | RrProtocolError

record Hello =
  he_node_id :: string
  he_binding :: BindingKind
  he_nonce :: u64
  he_spki_pin_sha256 :: "bytes option"

record StreamOpen =
  so_session_id :: string
  so_open_token :: u64
  so_target :: Endpoint
  so_route_group :: "string option"
  so_flow_semantics :: FlowSemanticsWire
  so_return_semantics :: ReturnSemanticsWire
  so_source_node_id :: string
  so_path_trace :: "string list"

record DatagramOpen =
  do_session_id :: string
  do_fixed_target :: "Endpoint option"
  do_max_datagram_bytes :: u64

record ReceiverMouth =
  rm_mouth_id :: string
  rm_udp_addr :: string
  rm_family_filter :: "string list"
  rm_advertised_capacity :: u32
  rm_epoch :: u64

record LinkSample =
  ls_source_node_id :: string
  ls_mouth_id :: string
  ls_epoch :: u64
  ls_seq :: u64
  ls_observed_at_ms :: u64
  ls_rtt_us :: u32
  ls_loss_permille :: u16
  ls_goodput_bps :: u64
  ls_queue_delay_us :: u32
  ls_close_count :: u32
  ls_saturated :: bool

text \<open>An inclusive range of missing sequence numbers, and the feedback that carries it.\<close>

record SeqRange =
  sr_start :: u64
  sr_end :: u64

record AckNack =
  an_family_id :: string
  an_cumulative_seq :: u64
  an_received_bitmap :: string
  an_missing_ranges :: "SeqRange list"

datatype MeshFrame =
    MfHello Hello
  | MfStreamOpen StreamOpen
  | MfStreamOpenReject string u64 StreamOpenRejectReason CloseReasonWire
  | MfStreamData string u64 bytes
  | MfStreamShutdownWrite string
  | MfStreamClose string CloseReasonWire
  | MfDatagramOpen DatagramOpen
  | MfDatagramSend string u64 Endpoint bytes
  | MfDatagramReturn string u64 Endpoint bytes
  | MfDatagramClose string CloseReasonWire
  | MfPortOpen ReceiverMouth
  | MfPortClose string u64
  | MfLinkSample LinkSample
  | MfAckNack AckNack
  | MfStreamOpenAccepted string u64

fun msg_type :: "MeshFrame \<Rightarrow> u8" where
  "msg_type (MfHello _) = 1"
| "msg_type (MfStreamOpen _) = 16"
| "msg_type (MfStreamOpenReject _ _ _ _) = 17"
| "msg_type (MfStreamData _ _ _) = 18"
| "msg_type (MfStreamShutdownWrite _) = 19"
| "msg_type (MfStreamClose _ _) = 20"
| "msg_type (MfDatagramOpen _) = 31"
| "msg_type (MfDatagramSend _ _ _ _) = 32"
| "msg_type (MfDatagramReturn _ _ _ _) = 33"
| "msg_type (MfDatagramClose _ _) = 34"
| "msg_type (MfPortOpen _) = 48"
| "msg_type (MfPortClose _ _) = 49"
| "msg_type (MfLinkSample _) = 50"
| "msg_type (MfAckNack _) = 51"
| "msg_type (MfStreamOpenAccepted _ _) = 52"

text \<open>The field codecs that \<^verbatim>\<open>serde\<close> calls for endpoints.\<close>

definition endpoint_serialize :: "Endpoint \<Rightarrow> string \<times> u16" where
  "endpoint_serialize e = (ep_host e, ep_port e)"

definition endpoint_deserialize :: "string \<times> u16 \<Rightarrow> ParseError + Endpoint" where
  "endpoint_deserialize hp = (case hp of (host, port) \<Rightarrow> endpoint_new host port)"

definition option_endpoint_serialize :: "Endpoint option \<Rightarrow> (string \<times> u16) option" where
  "option_endpoint_serialize = map_option (\<lambda>e. (ep_host e, ep_port e))"

definition option_endpoint_deserialize :: "(string \<times> u16) option \<Rightarrow> ParseError + Endpoint option" where
  "option_endpoint_deserialize x =
     (case x of None \<Rightarrow> Ok None
      | Some (host, port) \<Rightarrow> res_bind (endpoint_new host port) (\<lambda>e. Ok (Some e)))"

section \<open>Framing\<close>

datatype CodecError =
    CeIncomplete
  | CeBadMagic u16
  | CeUnsupportedVersion u8
  | CeEncode string
  | CeDecode string

definition MAGIC :: nat where
  "MAGIC = 0x4d42"

definition PROTOCOL_VERSION :: u8 where
  "PROTOCOL_VERSION = 1"

definition HEADER_LEN :: nat where
  "HEADER_LEN = 8"

definition EVENT_MSG_TYPE :: u8 where
  "EVENT_MSG_TYPE = 64"

definition frame_bytes :: "u8 \<Rightarrow> bytes \<Rightarrow> bytes" where
  "frame_bytes ty payload =
     be_bytes 2 MAGIC @ [PROTOCOL_VERSION] @ [ty] @ be_bytes 4 (length payload mod 2 ^ 32) @ payload"

definition encode_frame :: "(MeshFrame \<Rightarrow> string + bytes) \<Rightarrow> MeshFrame \<Rightarrow> CodecError + bytes" where
  "encode_frame ser frame =
     (case ser frame of Inl e \<Rightarrow> Err (CeEncode e)
      | Inr payload \<Rightarrow> Ok (frame_bytes (msg_type frame) payload))"

definition decode_body :: "(bytes \<Rightarrow> string + 'a) \<Rightarrow> bytes \<Rightarrow> CodecError + 'a" where
  "decode_body deser payload = (case deser payload of Inl e \<Rightarrow> Err (CeDecode e) | Inr x \<Rightarrow> Ok x)"

text \<open>\<open>decode_frame\<close> reads from the front of the buffer and drops what it read; the buffer is
  returned with the result.\<close>

definition decode_frame ::
    "(bytes \<Rightarrow> string + MeshFrame) \<Rightarrow> bytes \<Rightarrow> (CodecError + MeshFrame) \<times> bytes" where
  "decode_frame deser buf =
     (if length buf < HEADER_LEN then (Err CeIncomplete, buf)
      else let magic = be_val [buf ! 0, buf ! 1] in
      if magic \<noteq> MAGIC then (Err (CeBadMagic (of_nat magic)), buf)
      else let version = buf ! 2 in
      if version \<noteq> PROTOCOL_VERSION then (Err (CeUnsupportedVersion version), buf)
      else let payload_len = be_val [buf ! 4, buf ! 5, buf ! 6, buf ! 7] in
      if length buf < HEADER_LEN + payload_len then (Err CeIncomplete, buf)
      else (decode_body deser (take payload_len (drop HEADER_LEN buf)),
            drop (HEADER_LEN + payload_len) buf))"

definition decode_mesh_frame_clear ::
    "(bytes \<Rightarrow> string + MeshFrame) \<Rightarrow> bytes \<Rightarrow> CodecError + MeshFrame" where
  "decode_mesh_frame_clear deser clear = decode_body deser clear"

section \<open>Native events\<close>

datatype EventSemantic = EsStream | EsDatagram | EsControl | EsObservation

datatype ReliabilityClass = RcBestEffort | RcReliable | RcRepairable

datatype OrderingClass = OcUnordered | OcOrderedWithinFamily

datatype DeliveryMode = DmSteer | DmStripe | DmReplicate | DmRepair | DmProbe

datatype NativeEventMode = NmSecureUdpNative | NmMeshFrame

record EventPci =
  pci_checksum :: "string option"
  pci_compression :: "string option"

record DataPackage =
  dp_package_id :: string
  dp_seq :: u64
  dp_offset :: u64
  dp_len :: u32
  dp_fragment_id :: u16
  dp_fragment_count :: u16
  dp_payload :: bytes

record MeshEvent =
  me_event_id :: string
  me_family_id :: string
  me_semantic :: EventSemantic
  me_reliability :: ReliabilityClass
  me_ordering :: OrderingClass
  me_delivery_policy_id :: string
  me_path_epoch :: u64
  me_ttl :: u8
  me_pci :: EventPci
  me_package :: "DataPackage option"

fun policy_id :: "DeliveryMode \<Rightarrow> string" where
  "policy_id DmSteer = ''steer''"
| "policy_id DmStripe = ''stripe''"
| "policy_id DmReplicate = ''replicate''"
| "policy_id DmRepair = ''repair''"
| "policy_id DmProbe = ''probe''"

definition from_policy_id :: "string \<Rightarrow> DeliveryMode" where
  "from_policy_id i =
     (if i = ''stripe'' then DmStripe else if i = ''replicate'' then DmReplicate
      else if i = ''repair'' then DmRepair else if i = ''probe'' then DmProbe else DmSteer)"

definition encode_event :: "(MeshEvent \<Rightarrow> string + bytes) \<Rightarrow> MeshEvent \<Rightarrow> CodecError + bytes" where
  "encode_event ser event =
     (case ser event of Inl e \<Rightarrow> Err (CeEncode e)
      | Inr payload \<Rightarrow> Ok (frame_bytes EVENT_MSG_TYPE payload))"

definition decode_event ::
    "(bytes \<Rightarrow> string + MeshEvent) \<Rightarrow> bytes \<Rightarrow> (CodecError + MeshEvent) \<times> bytes" where
  "decode_event deser buf =
     (if length buf < HEADER_LEN then (Err CeIncomplete, buf)
      else let magic = be_val [buf ! 0, buf ! 1] in
      if magic \<noteq> MAGIC then (Err (CeBadMagic (of_nat magic)), buf)
      else let version = buf ! 2 in
      if version \<noteq> PROTOCOL_VERSION then (Err (CeUnsupportedVersion version), buf)
      else if buf ! 3 \<noteq> EVENT_MSG_TYPE then
        (Err (CeDecode (''not a mesh event: msg_type '' @ show_nat (unat (buf ! 3)))), buf)
      else let payload_len = be_val [buf ! 4, buf ! 5, buf ! 6, buf ! 7] in
      if length buf < HEADER_LEN + payload_len then (Err CeIncomplete, buf)
      else (decode_body deser (take payload_len (drop HEADER_LEN buf)),
            drop (HEADER_LEN + payload_len) buf))"

fun native_frame_classes :: "EventSemantic \<Rightarrow> ReliabilityClass \<times> OrderingClass" where
  "native_frame_classes EsControl = (RcBestEffort, OcUnordered)"
| "native_frame_classes EsObservation = (RcBestEffort, OcUnordered)"
| "native_frame_classes EsStream = (RcReliable, OcOrderedWithinFamily)"
| "native_frame_classes EsDatagram = (RcReliable, OcOrderedWithinFamily)"

definition wrap_frame_event ::
    "string \<Rightarrow> u64 \<Rightarrow> EventSemantic \<Rightarrow> string \<Rightarrow> bytes \<Rightarrow> MeshEvent" where
  "wrap_frame_event family_id seq semantic delivery_policy frame_clear =
     (let (reliability, ordering) = native_frame_classes semantic;
          event_id = family_id @ '':'' @ show_nat (unat seq)
      in \<lparr>me_event_id = event_id, me_family_id = family_id, me_semantic = semantic,
          me_reliability = reliability, me_ordering = ordering,
          me_delivery_policy_id = delivery_policy, me_path_epoch = 0, me_ttl = 64,
          me_pci = \<lparr>pci_checksum = None, pci_compression = None\<rparr>,
          me_package = Some \<lparr>dp_package_id = event_id, dp_seq = seq, dp_offset = 0,
            dp_len = of_nat (length frame_clear), dp_fragment_id = 0, dp_fragment_count = 1,
            dp_payload = frame_clear\<rparr>\<rparr>)"

definition event_frame_payload :: "MeshEvent \<Rightarrow> bytes option" where
  "event_frame_payload event = map_option dp_payload (me_package event)"

fun frame_event_meta :: "MeshFrame \<Rightarrow> string \<times> u64 \<times> EventSemantic" where
  "frame_event_meta (MfDatagramOpen d) = (do_session_id d, 0, EsControl)"
| "frame_event_meta (MfDatagramSend sid seq _ _) = (sid, seq, EsDatagram)"
| "frame_event_meta (MfDatagramReturn sid seq _ _) = (sid, seq, EsDatagram)"
| "frame_event_meta (MfDatagramClose sid _) = (sid, 0, EsControl)"
| "frame_event_meta (MfStreamOpen s) = (so_session_id s, 0, EsControl)"
| "frame_event_meta (MfStreamData sid seq _) = (sid, seq, EsStream)"
| "frame_event_meta (MfStreamOpenAccepted sid _) = (sid, 0, EsControl)"
| "frame_event_meta (MfStreamOpenReject sid _ _ _) = (sid, 0, EsControl)"
| "frame_event_meta (MfStreamShutdownWrite sid) = (sid, 0, EsControl)"
| "frame_event_meta (MfStreamClose sid _) = (sid, 0, EsControl)"
| "frame_event_meta (MfHello _) = ('''', 0, EsControl)"
| "frame_event_meta (MfPortOpen m) = (rm_mouth_id m, 0, EsControl)"
| "frame_event_meta (MfPortClose mouth _) = (mouth, 0, EsControl)"
| "frame_event_meta (MfLinkSample s) = (ls_mouth_id s, ls_seq s, EsObservation)"
| "frame_event_meta (MfAckNack a) = (an_family_id a, 0, EsControl)"

section \<open>Parity\<close>

text \<open>\<^verbatim>\<open>for (p, b) in parity.iter_mut().zip(chunk) { *p ^= *b }\<close>.\<close>

fun xor_into :: "bytes \<Rightarrow> bytes \<Rightarrow> bytes" where
  "xor_into (p # ps) (b # bs) = (p XOR b) # xor_into ps bs"
| "xor_into ps [] = ps"
| "xor_into [] bs = []"

definition parity_width :: "bytes list \<Rightarrow> nat" where
  "parity_width chunks = foldr max (map length chunks) 0"

definition xor_parity :: "bytes list \<Rightarrow> bytes" where
  "xor_parity chunks = foldl xor_into (replicate (parity_width chunks) 0) chunks"

definition resize_to :: "nat \<Rightarrow> bytes \<Rightarrow> bytes" where
  "resize_to n xs = (if n > length xs then xs @ replicate (n - length xs) 0 else xs)"

fun find_missing :: "bytes option list \<Rightarrow> nat \<Rightarrow> nat option \<Rightarrow> nat option option" where
  "find_missing [] idx missing = Some missing"
| "find_missing (slot # present) idx missing =
     (if slot = None then
        (if missing \<noteq> None then None else find_missing present (Suc idx) (Some idx))
      else find_missing present (Suc idx) missing)"

definition reconstruct_missing :: "bytes option list \<Rightarrow> bytes \<Rightarrow> bytes option" where
  "reconstruct_missing present parity =
     (case find_missing present 0 None of
        None \<Rightarrow> None
      | Some None \<Rightarrow> None
      | Some (Some _) \<Rightarrow>
          Some (foldl (\<lambda>out slot. xor_into (resize_to (length slot) out) slot) parity
                  (List.map_filter id present)))"

section \<open>Framing lemmas\<close>

lemma be_bytes_4:
  obtains a b c d where "be_bytes 4 n = [a, b, c, d]"
proof -
  define xs where "xs = be_bytes 4 n"
  then have "length xs = 4" by simp
  then have "\<exists>a b c d. xs = [a, b, c, d]" by (auto simp: numeral_eq_Suc length_Suc_conv)
  with that show ?thesis by (auto simp: xs_def)
qed

lemma be_bytes_magic: "be_bytes 2 MAGIC = [0x4d, 0x42]"
proof -
  have "le_bytes 2 n = [of_nat n, of_nat (n div 256)]" for n by (simp add: numeral_2_eq_2)
  then show ?thesis by (simp add: be_bytes_def MAGIC_def)
qed

lemma be_val_magic [simp]: "be_val [0x4d, 0x42] = MAGIC"
  by (simp add: be_val_def MAGIC_def)

lemma length_frame_bytes [simp]: "length (frame_bytes ty p) = HEADER_LEN + length p"
  by (simp add: frame_bytes_def HEADER_LEN_def)

text \<open>The header of a buffer that starts with a frame, or with at least the header of one.\<close>

lemma frame_bytes_header:
  assumes "length p < 2 ^ 32" "frame_bytes ty p @ rest = buf @ suf" "HEADER_LEN \<le> length buf"
  shows "be_val [buf ! 0, buf ! 1] = MAGIC" "buf ! 2 = PROTOCOL_VERSION" "buf ! 3 = ty"
    "be_val [buf ! 4, buf ! 5, buf ! 6, buf ! 7] = length p"
proof -
  obtain a b c d where len: "be_bytes 4 (length p mod 2 ^ 32) = [a, b, c, d]" by (rule be_bytes_4)
  have "be_val (be_bytes 4 (length p mod 2 ^ 32)) = length p" using assms(1) by simp
  then have val: "be_val [a, b, c, d] = length p" by (simp only: len)
  have all: "frame_bytes ty p @ rest = [0x4d, 0x42, PROTOCOL_VERSION, ty, a, b, c, d] @ p @ rest"
    by (simp only: frame_bytes_def be_bytes_magic len append.simps append_assoc)
  have nth: "buf ! i = [0x4d, 0x42, PROTOCOL_VERSION, ty, a, b, c, d] ! i" if "i < 8" for i
  proof -
    have "buf ! i = (frame_bytes ty p @ rest) ! i"
      using assms(2,3) that by (simp add: nth_append HEADER_LEN_def)
    also have "\<dots> = [0x4d, 0x42, PROTOCOL_VERSION, ty, a, b, c, d] ! i"
      using that by (simp only: all nth_append) simp
    finally show ?thesis .
  qed
  show "be_val [buf ! 0, buf ! 1] = MAGIC" using nth [of 0] nth [of 1] by simp
  show "buf ! 2 = PROTOCOL_VERSION" using nth [of 2] by simp
  show "buf ! 3 = ty" using nth [of 3] by simp
  show "be_val [buf ! 4, buf ! 5, buf ! 6, buf ! 7] = length p"
    using nth [of 4] nth [of 5] nth [of 6] nth [of 7] val by simp
qed

lemma drop_frame_bytes: "drop HEADER_LEN (frame_bytes ty p @ rest) = p @ rest"
  by (simp add: frame_bytes_def HEADER_LEN_def)

lemma drop_frame_bytes_all: "drop (HEADER_LEN + length p) (frame_bytes ty p @ rest) = rest"
  by simp

lemma decode_frame_bytes:
  assumes "length p < 2 ^ 32"
  shows "decode_frame deser (frame_bytes ty p @ rest) = (decode_body deser p, rest)"
  using frame_bytes_header [OF assms, of ty rest "frame_bytes ty p @ rest" "[]"]
  by (simp add: decode_frame_def Let_def drop_frame_bytes drop_frame_bytes_all
      del: drop_append length_frame_bytes)
     (simp add: HEADER_LEN_def)

lemma decode_event_bytes:
  assumes "length p < 2 ^ 32"
  shows "decode_event deser (frame_bytes EVENT_MSG_TYPE p @ rest) = (decode_body deser p, rest)"
  using frame_bytes_header [OF assms, of EVENT_MSG_TYPE rest "frame_bytes EVENT_MSG_TYPE p @ rest" "[]"]
  by (simp add: decode_event_def Let_def drop_frame_bytes drop_frame_bytes_all
      del: drop_append length_frame_bytes)
     (simp add: HEADER_LEN_def)

lemma decode_frame_short:
  assumes "length p < 2 ^ 32" "frame_bytes ty p = buf @ suf" "suf \<noteq> []"
  shows "decode_frame deser buf = (Err CeIncomplete, buf)"
proof (cases "HEADER_LEN \<le> length buf")
  case True
  have "length buf < HEADER_LEN + length p"
    using assms(3) arg_cong [OF assms(2), of length] by (cases suf) auto
  with True frame_bytes_header [OF assms(1), of ty "[]" buf suf] assms(2) show ?thesis
    by (simp add: decode_frame_def)
qed (simp add: decode_frame_def)

lemma decode_event_short:
  assumes "length p < 2 ^ 32" "frame_bytes EVENT_MSG_TYPE p = buf @ suf" "suf \<noteq> []"
  shows "decode_event deser buf = (Err CeIncomplete, buf)"
proof (cases "HEADER_LEN \<le> length buf")
  case True
  have "length buf < HEADER_LEN + length p"
    using assms(3) arg_cong [OF assms(2), of length] by (cases suf) auto
  with True frame_bytes_header [OF assms(1), of EVENT_MSG_TYPE "[]" buf suf] assms(2) show ?thesis
    by (simp add: decode_event_def)
qed (simp add: decode_event_def)

text \<open>What is assumed of \<^verbatim>\<open>bincode\<close> at one value: it reads back what it wrote, and the written form
  fits the 32-bit length field.\<close>

definition bincode_ok :: "('a \<Rightarrow> string + bytes) \<Rightarrow> (bytes \<Rightarrow> string + 'a) \<Rightarrow> 'a \<Rightarrow> bool" where
  "bincode_ok ser deser x \<longleftrightarrow>
     (case ser x of Inl _ \<Rightarrow> False | Inr b \<Rightarrow> deser b = Ok x \<and> length b < 2 ^ 32)"

section \<open>Framed streams\<close>

lemma bincode_okE:
  assumes "bincode_ok ser deser x"
  obtains p where "ser x = Ok p" "deser p = Ok x" "length p < 2 ^ 32"
  using assms by (cases "ser x") (auto simp: bincode_ok_def)

interpretation frames: framing "encode_frame ser" "decode_frame deser" "bincode_ok ser deser" CeIncomplete
  for ser deser
proof
  fix x b rest buf suf
  assume "bincode_ok ser deser x"
  then obtain p where p: "ser x = Ok p" "deser p = Ok x" "length p < 2 ^ 32" by (rule bincode_okE)
  then have enc: "encode_frame ser x = Ok (frame_bytes (msg_type x) p)" by (simp add: encode_frame_def)
  then show "\<exists>b. encode_frame ser x = Ok b" by simp
  show "decode_frame deser (b @ rest) = (Ok x, rest)" if "encode_frame ser x = Ok b"
    using that enc p decode_frame_bytes [OF p(3), of deser "msg_type x" rest]
    by (simp add: decode_body_def)
  show "decode_frame deser buf = (Err CeIncomplete, buf)"
    if "encode_frame ser x = Ok (buf @ suf)" "suf \<noteq> []"
    using that enc decode_frame_short [OF p(3)] by simp
qed

interpretation events: framing "encode_event ser" "decode_event deser" "bincode_ok ser deser" CeIncomplete
  for ser deser
proof
  fix x b rest buf suf
  assume "bincode_ok ser deser x"
  then obtain p where p: "ser x = Ok p" "deser p = Ok x" "length p < 2 ^ 32" by (rule bincode_okE)
  then have enc: "encode_event ser x = Ok (frame_bytes EVENT_MSG_TYPE p)" by (simp add: encode_event_def)
  then show "\<exists>b. encode_event ser x = Ok b" by simp
  show "decode_event deser (b @ rest) = (Ok x, rest)" if "encode_event ser x = Ok b"
    using that enc p decode_event_bytes [OF p(3), of deser rest]
    by (simp add: decode_body_def)
  show "decode_event deser buf = (Err CeIncomplete, buf)"
    if "encode_event ser x = Ok (buf @ suf)" "suf \<noteq> []"
    using that enc decode_event_short [OF p(3)] by simp
qed

section \<open>Parity lemmas\<close>

text \<open>A chunk read at any index, zero beyond its end.\<close>

definition byte_at :: "bytes \<Rightarrow> nat \<Rightarrow> u8" where
  "byte_at xs i = (if i < length xs then xs ! i else 0)"

definition xor_all :: "u8 list \<Rightarrow> u8" where
  "xor_all xs = foldr (XOR) xs 0"

lemma xor_all_append: "xor_all (xs @ ys) = xor_all xs XOR xor_all ys"
  by (induction xs) (simp_all add: xor_all_def xor.assoc)

lemma xor_all_Cons [simp]: "xor_all (x # xs) = x XOR xor_all xs" "xor_all [] = 0"
  by (simp_all add: xor_all_def)

lemma length_xor_into [simp]: "length (xor_into ps bs) = length ps"
  by (induction ps bs rule: xor_into.induct) auto

lemma byte_at_xor_into:
  "length bs \<le> length ps \<Longrightarrow> byte_at (xor_into ps bs) i = byte_at ps i XOR byte_at bs i"
proof (induction ps bs arbitrary: i rule: xor_into.induct)
  case (1 p ps b bs)
  show ?case
  proof (cases i)
    case (Suc j)
    with 1 have "byte_at (xor_into ps bs) j = byte_at ps j XOR byte_at bs j" by simp
    moreover have "byte_at (x # xs) (Suc j) = byte_at xs j" for x xs by (simp add: byte_at_def)
    ultimately show ?thesis by (simp add: Suc)
  qed (simp add: byte_at_def)
qed (auto simp: byte_at_def)

lemma length_foldl_xor [simp]: "length (foldl xor_into acc cs) = length acc"
  by (induction cs arbitrary: acc) auto

lemma byte_at_foldl_xor:
  "\<forall>c \<in> set cs. length c \<le> length acc \<Longrightarrow>
   byte_at (foldl xor_into acc cs) i = byte_at acc i XOR xor_all (map (\<lambda>c. byte_at c i) cs)"
  by (induction cs arbitrary: acc) (auto simp: byte_at_xor_into xor.assoc)

lemma foldl_resize_xor:
  "\<forall>c \<in> set cs. length c \<le> length acc \<Longrightarrow>
   foldl (\<lambda>out slot. xor_into (resize_to (length slot) out) slot) acc cs = foldl xor_into acc cs"
  by (induction cs arbitrary: acc) (auto simp: resize_to_def)

lemma parity_width_ge: "c \<in> set cs \<Longrightarrow> length c \<le> parity_width cs"
  by (induction cs) (auto simp: parity_width_def)

lemma length_xor_parity [simp]: "length (xor_parity cs) = parity_width cs"
  by (simp add: xor_parity_def)

lemma byte_at_parity: "byte_at (xor_parity cs) i = xor_all (map (\<lambda>c. byte_at c i) cs)"
proof -
  have zero: "byte_at (replicate n 0) i = 0" for n by (simp add: byte_at_def)
  show ?thesis using parity_width_ge [of _ cs]
    by (simp add: xor_parity_def byte_at_foldl_xor zero)
qed

lemma byte_at_ext: "length xs = length ys \<Longrightarrow> (\<And>i. byte_at xs i = byte_at ys i) \<Longrightarrow> xs = ys"
  unfolding byte_at_def by (rule nth_equalityI) (simp, metis)

lemma byte_at_resize: "byte_at (resize_to n xs) i = byte_at xs i"
  by (auto simp: byte_at_def resize_to_def nth_append)

lemma length_resize: "length xs \<le> n \<Longrightarrow> length (resize_to n xs) = n"
  by (simp add: resize_to_def)

lemma find_missing_Some:
  "missing \<noteq> None \<Longrightarrow> find_missing present idx missing
     = (if None \<in> set present then None else Some missing)"
  by (induction present arbitrary: idx) auto

lemma no_holes: "filter (\<lambda>s. s = None) present = [] \<longleftrightarrow> None \<notin> set present"
  by (induction present) auto

lemma find_missing_None:
  "(\<exists>i. find_missing present idx None = Some (Some i)) \<longleftrightarrow> length (filter (\<lambda>s. s = None) present) = 1"
proof (induction present arbitrary: idx)
  case (Cons s present)
  show ?case
  proof (cases s)
    case None
    then show ?thesis by (simp add: find_missing_Some no_holes)
  next
    case (Some c)
    with Cons.IH [of "Suc idx"] show ?thesis by simp
  qed
qed simp

lemma map_filter_id_Some [simp]: "List.map_filter id (map Some xs @ ys) = xs @ List.map_filter id ys"
  by (induction xs) (auto simp: List.map_filter_def)

lemma map_filter_id_None [simp]: "List.map_filter id (None # ys) = List.map_filter id ys"
  by (simp add: List.map_filter_def)

lemma map_filter_id_all [simp]: "List.map_filter id (map Some xs) = xs"
  using map_filter_id_Some [of xs "[]"] by (simp add: List.map_filter_def)

lemma reconstruct_single:
  assumes "xor_parity (xs @ m # ys) = parity"
  shows "reconstruct_missing (map Some xs @ None # map Some ys) parity
       = Some (resize_to (parity_width (xs @ m # ys)) m)"
proof -
  have "\<exists>i. find_missing (map Some xs @ None # map Some ys) 0 None = Some (Some i)"
    by (simp add: find_missing_None)
  then have rec: "reconstruct_missing (map Some xs @ None # map Some ys) parity
      = Some (foldl xor_into parity (xs @ ys))"
    using parity_width_ge [of _ "xs @ m # ys"] assms
    by (auto simp: reconstruct_missing_def foldl_resize_xor simp del: foldl_append)
  have "foldl xor_into parity (xs @ ys) = resize_to (parity_width (xs @ m # ys)) m"
  proof (rule byte_at_ext)
    show "length (foldl xor_into parity (xs @ ys)) = length (resize_to (parity_width (xs @ m # ys)) m)"
      using assms parity_width_ge [of m "xs @ m # ys"] by (auto simp: length_resize)
    fix i
    have "byte_at (foldl xor_into parity (xs @ ys)) i
        = byte_at parity i XOR xor_all (map (\<lambda>c. byte_at c i) (xs @ ys))"
      using assms parity_width_ge [of _ "xs @ m # ys"] by (intro byte_at_foldl_xor) auto
    also have "\<dots> = byte_at m i"
      by (simp add: assms [symmetric] byte_at_parity xor_all_append xor.assoc xor.left_commute)
    finally show "byte_at (foldl xor_into parity (xs @ ys)) i
        = byte_at (resize_to (parity_width (xs @ m # ys)) m) i" by (simp add: byte_at_resize)
  qed
  with rec show ?thesis by simp
qed

section \<open>A sample codec\<close>

text \<open>A stand-in for \<^verbatim>\<open>bincode\<close> on one kind of frame, used to instantiate the codec parameter.\<close>

definition sample_ser :: "MeshFrame \<Rightarrow> string + bytes" where
  "sample_ser f = (case f of MfPortClose m e \<Rightarrow> Ok (le_bytes 8 (unat e)) | _ \<Rightarrow> Err ''unsupported'')"

definition sample_deser :: "bytes \<Rightarrow> string + MeshFrame" where
  "sample_deser b = Ok (MfPortClose ''m'' (of_nat (le_val b)))"

lemma sample_bincode_ok: "bincode_ok sample_ser sample_deser (MfPortClose ''m'' e)"
proof -
  have "unat e < 2 ^ LENGTH(64)" by (rule unsigned_less)
  then have "unat e mod 256 ^ 8 = unat e" by simp
  then show ?thesis
    by (simp only: bincode_ok_def sample_ser_def sample_deser_def sum.case MeshFrame.case
        le_val_le_bytes length_le_bytes) simp
qed

section \<open>Properties\<close>

text \<open>C5: framing is self-delimiting. Reading a buffer that holds the encodings of a sequence of
  frames returns the frames in order and leaves exactly the bytes after them, for every trailing
  content.\<close>

theorem frame_stream_roundtrip:
  assumes "\<forall>f \<in> set fs. bincode_ok ser deser f"
  shows "decode_n (decode_frame deser) (length fs)
      (concat (map (\<lambda>f. projr (encode_frame ser f)) fs) @ rest) = (map Ok fs, rest)"
  using assms by (rule frames.stream_roundtrip)

theorem frame_stream_roundtrip_witness:
  "decode_n (decode_frame sample_deser) (length [MfPortClose ''m'' 3, MfPortClose ''m'' 4])
      (concat (map (\<lambda>f. projr (encode_frame sample_ser f)) [MfPortClose ''m'' 3, MfPortClose ''m'' 4]) @ [9])
    = (map Ok [MfPortClose ''m'' 3, MfPortClose ''m'' 4], [9])"
  by (rule frame_stream_roundtrip) (simp add: sample_bincode_ok)

text \<open>A buffer that ends inside a frame is answered \<open>Incomplete\<close> and left untouched once the
  frames before it are read, wherever the cut falls, so a reader may append and retry.\<close>

lemma frame_stream_partial:
  assumes "\<forall>f \<in> set fs. bincode_ok ser deser f" "bincode_ok ser deser g"
    and "encode_frame ser g = Ok (buf @ suf)" "suf \<noteq> []"
  shows "decode_n (decode_frame deser) (Suc (length fs))
      (concat (map (\<lambda>f. projr (encode_frame ser f)) fs) @ buf) = (map Ok fs @ [Err CeIncomplete], buf)"
  using assms by (rule frames.stream_partial)

text \<open>C6: the parity of a generation recovers any single lost chunk, padded with zeros to the
  longest chunk of the generation.\<close>

theorem parity_recovers_single_loss:
  assumes "i < length chunks"
  shows "reconstruct_missing ((map Some chunks)[i := None]) (xor_parity chunks)
       = Some (resize_to (parity_width chunks) (chunks ! i))"
proof -
  have split: "chunks = take i chunks @ chunks ! i # drop (Suc i) chunks"
    using assms by (simp add: id_take_nth_drop)
  have "(map Some chunks)[i := None] = map Some (take i chunks) @ None # map Some (drop (Suc i) chunks)"
    using assms by (simp add: upd_conv_take_nth_drop take_map drop_map)
  with reconstruct_single [of "take i chunks" "chunks ! i" "drop (Suc i) chunks"] split
  show ?thesis by simp
qed

theorem parity_recovers_single_loss_witness:
  "reconstruct_missing [Some [1, 2, 3], None, Some [8]] (xor_parity [[1, 2, 3], [4, 5], [8]])
   = Some [4, 5, 0]"
  using parity_recovers_single_loss [of 1 "[[1, 2, 3], [4, 5], [8]]"]
  by (simp add: resize_to_def parity_width_def)

text \<open>Reconstruction gives up exactly when the number of lost chunks is not one.\<close>

lemma reconstruct_needs_one_hole:
  "reconstruct_missing present parity = None \<longleftrightarrow> length (filter (\<lambda>s. s = None) present) \<noteq> 1"
  unfolding find_missing_None [of present 0, symmetric]
  by (auto simp: reconstruct_missing_def split: option.splits)

end
