(* ===== verification/Replay.thy ===== *)
theory Replay
  imports Mesh_Prelude
begin

text \<open>
  The anti-replay window of MeshSec (\<^verbatim>\<open>lib/mb-proto-mesh/src/replay.rs\<close>). A cache holds one
  sliding bitmap per \<open>(peer_id, epoch_number, boot_salt)\<close>; \<open>check_and_insert\<close> is called
  after authentication with the envelope counter. The bitmap is modelled bit by bit, as a list of
  64-bit words indexed by the counter modulo its capacity. The reference definition is
  \<open>spec_check\<close>, which remembers every accepted counter; the development shows that the bitmap gives
  the same answers whenever its capacity covers the configured window.
\<close>

section \<open>The window bitmap\<close>

datatype MeshSecError =
    MsTruncated
  | MsUnsupportedVersion u8
  | MsPayloadTooLarge
  | MsAuth
  | MsReplay
  | MsReplayTooOld
  | MsSerialize string

record Window =
  w_highest :: nat
  w_seen :: bool
  w_bits :: "u64 list"

definition window_new :: "nat \<Rightarrow> Window" where
  "window_new words = \<lparr>w_highest = 0, w_seen = False, w_bits = replicate words 0\<rparr>"

definition window_slot :: "Window \<Rightarrow> nat \<Rightarrow> nat" where
  "window_slot w counter = counter mod (length (w_bits w) * 64)"

definition window_test :: "Window \<Rightarrow> nat \<Rightarrow> bool" where
  "window_test w counter =
     (let idx = window_slot w counter
      in (w_bits w ! (idx div 64)) AND push_bit (idx mod 64) 1 \<noteq> 0)"

definition window_set :: "Window \<Rightarrow> nat \<Rightarrow> Window" where
  "window_set w counter =
     (let idx = window_slot w counter
      in w\<lparr>w_bits := (w_bits w)[idx div 64 := (w_bits w ! (idx div 64)) OR push_bit (idx mod 64) 1]\<rparr>)"

definition window_clear :: "Window \<Rightarrow> nat \<Rightarrow> Window" where
  "window_clear w counter =
     (let idx = window_slot w counter
      in w\<lparr>w_bits := (w_bits w)[idx div 64 := (w_bits w ! (idx div 64)) AND NOT (push_bit (idx mod 64) 1)]\<rparr>)"

text \<open>The body of \<open>check_and_insert\<close> once the window of the key is at hand.\<close>

definition window_check :: "nat \<Rightarrow> Window \<Rightarrow> nat \<Rightarrow> (MeshSecError + unit) \<times> Window" where
  "window_check window_bits w counter =
     (if \<not> w_seen w then
        (Ok (), window_set (w\<lparr>w_seen := True, w_highest := counter\<rparr>) counter)
      else if counter > w_highest w then
        (let diff = counter - w_highest w;
             w' = (if diff \<ge> window_bits then w\<lparr>w_bits := map (\<lambda>_. 0) (w_bits w)\<rparr>
                   else foldl window_clear w [w_highest w + 1 ..< counter])
         in (Ok (), window_set (w'\<lparr>w_highest := counter\<rparr>) counter))
      else if w_highest w - counter \<ge> window_bits then (Err MsReplayTooOld, w)
      else if window_test w counter then (Err MsReplay, w)
      else (Ok (), window_set w counter))"

section \<open>The cache\<close>

type_synonym replay_key = "string \<times> nat \<times> bytes"

record MeshSecReplayCache =
  rc_words :: nat
  rc_window_bits :: nat
  rc_windows :: "replay_key \<rightharpoonup> Window"

definition replay_cache_new :: "nat \<Rightarrow> MeshSecReplayCache" where
  "replay_cache_new window_bits =
     \<lparr>rc_words = max (window_bits div 64) 1, rc_window_bits = window_bits, rc_windows = Map.empty\<rparr>"

definition check_and_insert ::
    "MeshSecReplayCache \<Rightarrow> string \<Rightarrow> nat \<Rightarrow> bytes \<Rightarrow> nat
      \<Rightarrow> (MeshSecError + unit) \<times> MeshSecReplayCache" where
  "check_and_insert rc peer_id epoch_number boot_salt counter =
     (let key = (peer_id, epoch_number, boot_salt);
          window = (case rc_windows rc key of None \<Rightarrow> window_new (rc_words rc) | Some w \<Rightarrow> w)
      in case window_check (rc_window_bits rc) window counter of
           (r, w') \<Rightarrow> (r, rc\<lparr>rc_windows := (rc_windows rc)(key \<mapsto> w')\<rparr>))"

definition replay_step ::
    "MeshSecReplayCache \<Rightarrow> replay_key \<times> nat \<Rightarrow> (MeshSecError + unit) \<times> MeshSecReplayCache" where
  "replay_step rc call =
     (case call of ((peer_id, epoch_number, boot_salt), counter) \<Rightarrow>
        check_and_insert rc peer_id epoch_number boot_salt counter)"

section \<open>The reference definition\<close>

text \<open>All accepted counters of one key are remembered; a counter is too old when it lies a full
  window below the highest one.\<close>

definition spec_check :: "nat \<Rightarrow> nat set \<Rightarrow> nat \<Rightarrow> (MeshSecError + unit) \<times> nat set" where
  "spec_check W S c =
     (if S = {} \<or> Max S < c then (Ok (), insert c S)
      else if Max S - c \<ge> W then (Err MsReplayTooOld, S)
      else if c \<in> S then (Err MsReplay, S)
      else (Ok (), insert c S))"

definition spec_step ::
    "nat \<Rightarrow> (replay_key \<Rightarrow> nat set) \<Rightarrow> replay_key \<times> nat
      \<Rightarrow> (MeshSecError + unit) \<times> (replay_key \<Rightarrow> nat set)" where
  "spec_step W A call =
     (case call of (k, c) \<Rightarrow> case spec_check W (A k) c of (r, S) \<Rightarrow> (r, A(k := S)))"

section \<open>Bit-level facts\<close>

lemma window_test_iff:
  "window_test w c \<longleftrightarrow> bit (w_bits w ! (window_slot w c div 64)) (window_slot w c mod 64)"
  by (simp add: window_test_def Let_def bit_iff_and_push_bit_not_eq_0)

lemma window_slot_less: "w_bits w \<noteq> [] \<Longrightarrow> window_slot w c < length (w_bits w) * 64"
  by (simp add: window_slot_def)

lemma window_word_less: "w_bits w \<noteq> [] \<Longrightarrow> window_slot w c div 64 < length (w_bits w)"
  using window_slot_less [of w c] by (simp add: less_mult_imp_div_less)

lemma length_window_set [simp]: "length (w_bits (window_set w c)) = length (w_bits w)"
  by (simp add: window_set_def Let_def)

lemma length_window_clear [simp]: "length (w_bits (window_clear w c)) = length (w_bits w)"
  by (simp add: window_clear_def Let_def)

lemma window_frame [simp]:
  "w_seen (window_set w c) = w_seen w" "w_highest (window_set w c) = w_highest w"
  "w_seen (window_clear w c) = w_seen w" "w_highest (window_clear w c) = w_highest w"
  by (simp_all add: window_set_def window_clear_def Let_def)

lemma window_slot_cong: "length (w_bits w) = length (w_bits w') \<Longrightarrow> window_slot w c = window_slot w' c"
  by (simp add: window_slot_def)

lemma window_slot_frame [simp]:
  "window_slot (window_set w c) d = window_slot w d"
  "window_slot (window_clear w c) d = window_slot w d"
  "window_slot (w\<lparr>w_seen := b\<rparr>) d = window_slot w d"
  "window_slot (w\<lparr>w_highest := h\<rparr>) d = window_slot w d"
  by (simp_all add: window_slot_def)

lemma window_slot_bits [simp]:
  "length bs = length (w_bits w) \<Longrightarrow> window_slot (w\<lparr>w_bits := bs\<rparr>) d = window_slot w d"
  by (simp add: window_slot_def)

lemma window_test_frame [simp]:
  "window_test (w\<lparr>w_seen := b\<rparr>) d = window_test w d"
  "window_test (w\<lparr>w_highest := h\<rparr>) d = window_test w d"
  by (simp_all add: window_test_iff)

lemma bit_single_word: "bit (2 ^ m :: u64) n \<longleftrightarrow> m = n \<and> n < 64"
  by (auto simp: bit_exp_iff)

lemma slot_split: "(x :: nat) = y \<longleftrightarrow> x div 64 = y div 64 \<and> x mod 64 = y mod 64"
  by (metis div_mult_mod_eq)

lemma window_test_set:
  assumes "w_bits w \<noteq> []"
  shows "window_test (window_set w c) d \<longleftrightarrow> window_slot w c = window_slot w d \<or> window_test w d"
proof (cases "window_slot w c div 64 = window_slot w d div 64")
  case True
  then show ?thesis
    using window_word_less [OF assms, of c]
    by (auto simp: window_test_iff window_set_def Let_def bit_or_iff bit_single_word
        slot_split [of "window_slot w c"])
next
  case False
  then show ?thesis
    using window_word_less [OF assms, of c]
    by (auto simp: window_test_iff window_set_def Let_def)
qed

lemma window_test_clear:
  assumes "w_bits w \<noteq> []"
  shows "window_test (window_clear w c) d \<longleftrightarrow> window_slot w c \<noteq> window_slot w d \<and> window_test w d"
proof (cases "window_slot w c div 64 = window_slot w d div 64")
  case True
  then show ?thesis
    using window_word_less [OF assms, of c]
    by (auto simp: window_test_iff window_clear_def Let_def bit_and_iff bit_not_iff bit_single_word
        slot_split [of "window_slot w c"])
next
  case False
  then show ?thesis
    using window_word_less [OF assms, of c]
    by (auto simp: window_test_iff window_clear_def Let_def)
qed

lemma foldl_clear_frame [simp]:
  "w_seen (foldl window_clear w cs) = w_seen w"
  "w_highest (foldl window_clear w cs) = w_highest w"
  "length (w_bits (foldl window_clear w cs)) = length (w_bits w)"
  "window_slot (foldl window_clear w cs) d = window_slot w d"
  by (induction cs arbitrary: w) (simp_all add: window_slot_def)

lemma window_bits_nonempty [simp]:
  "w_bits (window_set w c) = [] \<longleftrightarrow> w_bits w = []"
  "w_bits (window_clear w c) = [] \<longleftrightarrow> w_bits w = []"
  by (simp_all flip: length_0_conv)

lemma foldl_clear_nonempty [simp]: "w_bits (foldl window_clear w cs) = [] \<longleftrightarrow> w_bits w = []"
  by (simp flip: length_0_conv)

lemma window_test_foldl_clear:
  "w_bits w \<noteq> [] \<Longrightarrow> window_test (foldl window_clear w cs) d
     \<longleftrightarrow> (\<forall>c \<in> set cs. window_slot w c \<noteq> window_slot w d) \<and> window_test w d"
  by (induction cs arbitrary: w) (auto simp: window_test_clear)

lemma window_test_zeroed:
  assumes "w_bits w \<noteq> []"
  shows "\<not> window_test (w\<lparr>w_bits := map (\<lambda>_. 0) (w_bits w)\<rparr>) d"
  using window_word_less [OF assms, of d] by (simp add: window_test_iff)

lemma window_test_new: "0 < words \<Longrightarrow> \<not> window_test (window_new words) d"
  using window_word_less [of "window_new words" d] by (simp add: window_test_iff window_new_def)

text \<open>Two counters less than a capacity apart never share a slot.\<close>

lemma mod_eq_close:
  fixes a b n :: nat
  assumes "a mod n = b mod n" "a \<le> b" "b - a < n"
  shows "a = b"
proof -
  from assms(1,2) have "n dvd b - a" using mod_eq_dvd_iff_nat [of a b n] by simp
  with assms(3) have "b - a = 0" by (meson dvd_imp_le linorder_not_less neq0_conv)
  with assms(2) show ?thesis by simp
qed

lemma window_slot_eq:
  assumes "window_slot w a = window_slot w b" "a \<le> b" "b - a < length (w_bits w) * 64"
  shows "a = b"
  by (rule mod_eq_close [OF assms(1) [unfolded window_slot_def] assms(2,3)])

section \<open>The bitmap refines the reference definition\<close>

definition win_rel :: "nat \<Rightarrow> Window \<Rightarrow> nat set \<Rightarrow> bool" where
  "win_rel W w S \<longleftrightarrow>
     w_bits w \<noteq> [] \<and> W \<le> length (w_bits w) * 64 \<and> finite S \<and> (w_seen w \<longleftrightarrow> S \<noteq> {})
     \<and> (if S = {} then \<forall>c. \<not> window_test w c
        else w_highest w = Max S
             \<and> (\<forall>c \<le> Max S. Max S - c < W \<longrightarrow> (window_test w c \<longleftrightarrow> c \<in> S)))"

lemma win_rel_new: "0 < words \<Longrightarrow> W \<le> words * 64 \<Longrightarrow> win_rel W (window_new words) {}"
  by (auto simp: win_rel_def window_test_new) (auto simp: window_new_def)

lemma win_rel_first:
  assumes "win_rel W w {}"
  shows "win_rel W (window_set (w\<lparr>w_seen := True, w_highest := c\<rparr>) c) {c}"
proof -
  have "d = c" if "d \<le> c" "c - d < W" "window_slot w c = window_slot w d" for d
    using that assms window_slot_eq [of w d c] by (simp add: win_rel_def)
  with assms show ?thesis by (auto simp: win_rel_def window_test_set)
qed

lemma win_rel_inside:
  assumes "win_rel W w S" "S \<noteq> {}" "c \<le> Max S" "Max S - c < W"
  shows "win_rel W (window_set w c) (insert c S)"
proof -
  from assms have nn: "w_bits w \<noteq> []" and cap: "W \<le> length (w_bits w) * 64"
    and M: "Max (insert c S) = Max S"
    by (auto simp: win_rel_def max_def)
  have "window_test (window_set w c) d \<longleftrightarrow> d \<in> insert c S"
    if d: "d \<le> Max S" "Max S - d < W" for d
  proof -
    have "window_slot w c = window_slot w d \<longleftrightarrow> c = d"
    proof
      assume eq: "window_slot w c = window_slot w d"
      show "c = d"
      proof (cases "c \<le> d")
        case True
        with d assms cap have "d - c < length (w_bits w) * 64" by linarith
        with eq True show ?thesis by (rule window_slot_eq)
      next
        case False
        with d assms cap have "c - d < length (w_bits w) * 64" by linarith
        with eq False show ?thesis using window_slot_eq [OF eq [symmetric]] by simp
      qed
    qed simp
    with d assms(1,2) nn show ?thesis by (auto simp: win_rel_def window_test_set)
  qed
  with assms(1,2) M show ?thesis by (simp add: win_rel_def)
qed

lemma win_rel_advance:
  assumes rel: "win_rel W w S" and ne: "S \<noteq> {}" and gt: "Max S < c"
    and w': "w' = (if c - Max S \<ge> W then w\<lparr>w_bits := map (\<lambda>_. 0) (w_bits w)\<rparr>
                   else foldl window_clear w [Max S + 1 ..< c])"
  shows "win_rel W (window_set (w'\<lparr>w_highest := c\<rparr>) c) (insert c S)"
proof -
  from rel ne have nn: "w_bits w \<noteq> []" and cap: "W \<le> length (w_bits w) * 64"
    and fin: "finite S" and seen: "w_seen w"
    and T: "\<And>d. d \<le> Max S \<Longrightarrow> Max S - d < W \<Longrightarrow> (window_test w d \<longleftrightarrow> d \<in> S)"
    by (auto simp: win_rel_def)
  have M: "Max (insert c S) = c" using fin ne gt by simp
  have above: "d \<notin> S" if "Max S < d" for d using fin that by (meson Max_ge leD)
  have nn': "w_bits w' \<noteq> []" and len: "length (w_bits w') = length (w_bits w)"
    and slot: "window_slot w' = window_slot w" and seen': "w_seen w'"
    using nn seen by (auto simp: w' fun_eq_iff window_slot_def)
  have close: "window_slot w a = window_slot w b \<longleftrightarrow> a = b" if "a \<le> b" "b - a < W" for a b
    using window_slot_eq [of w a b] that cap by auto
  have "window_test (window_set w' c) d \<longleftrightarrow> d \<in> insert c S" if d: "d \<le> c" "c - d < W" for d
  proof (cases "d \<le> Max S")
    case True
    with d have notall: "\<not> c - Max S \<ge> W" and old: "Max S - d < W" using gt by linarith+
    have "window_slot w k \<noteq> window_slot w d" if "k \<in> set [Max S + 1 ..< c]" for k
    proof -
      from that True d have "d \<le> k" "k - d < W" "d \<noteq> k" by auto
      with close [of d k] show ?thesis by metis
    qed
    with notall old True d T [of d] close [of d c] nn nn' slot show ?thesis
      by (auto simp: w' window_test_set window_test_foldl_clear)
  next
    case False
    have "\<not> window_test w' d" if "d \<noteq> c"
      using that False d nn
      by (auto simp: w' window_test_zeroed window_test_foldl_clear)
    with False above [of d] close [of d c] d nn' slot show ?thesis
      by (auto simp: window_test_set)
  qed
  moreover have "window_set (w'\<lparr>w_highest := c\<rparr>) c = (window_set w' c)\<lparr>w_highest := c\<rparr>"
    by (simp add: window_set_def Let_def)
  ultimately show ?thesis using nn' len seen' cap fin M by (simp add: win_rel_def)
qed

lemma window_check_refines:
  assumes "win_rel W w S"
  shows "fst (window_check W w c) = fst (spec_check W S c)
       \<and> win_rel W (snd (window_check W w c)) (snd (spec_check W S c))"
proof (cases "S = {}")
  case True
  with assms show ?thesis
    using win_rel_first [of W w c] by (simp add: window_check_def spec_check_def win_rel_def)
next
  case ne: False
  with assms have h: "w_highest w = Max S" and seen: "w_seen w" by (auto simp: win_rel_def)
  show ?thesis
  proof (cases "Max S < c")
    case True
    with ne h seen show ?thesis
      using win_rel_advance [OF assms ne True refl]
      by (simp add: window_check_def spec_check_def Let_def split: if_splits)
  next
    case False
    then have le: "c \<le> Max S" by simp
    show ?thesis
    proof (cases "W \<le> Max S - c")
      case True
      with False ne h seen assms show ?thesis by (simp add: window_check_def spec_check_def)
    next
      case inside: False
      with assms ne le have "window_test w c \<longleftrightarrow> c \<in> S" by (simp add: win_rel_def)
      moreover have "win_rel W (window_set w c) (insert c S)"
        using win_rel_inside [OF assms ne le] inside by simp
      ultimately show ?thesis
        using False ne h seen assms inside by (simp add: window_check_def spec_check_def)
    qed
  qed
qed

definition replay_rel :: "nat \<Rightarrow> MeshSecReplayCache \<Rightarrow> (replay_key \<Rightarrow> nat set) \<Rightarrow> bool" where
  "replay_rel W rc A \<longleftrightarrow>
     rc_window_bits rc = W \<and> 0 < rc_words rc \<and> W \<le> rc_words rc * 64
     \<and> (\<forall>k. case rc_windows rc k of None \<Rightarrow> A k = {} | Some w \<Rightarrow> win_rel W w (A k))"

lemma replay_rel_new:
  "64 dvd W \<or> W \<le> 64 \<Longrightarrow> replay_rel W (replay_cache_new W) (\<lambda>_. {})"
  by (auto simp: replay_rel_def replay_cache_new_def)

lemma replay_step_refines:
  assumes "replay_rel W rc A"
  shows "fst (replay_step rc call) = fst (spec_step W A call)
       \<and> replay_rel W (snd (replay_step rc call)) (snd (spec_step W A call))"
proof -
  obtain k c where call: "call = (k, c)" by (cases call)
  define w where "w = (case rc_windows rc k of None \<Rightarrow> window_new (rc_words rc) | Some w \<Rightarrow> w)"
  from assms have rel: "rc_window_bits rc = W" "0 < rc_words rc" "W \<le> rc_words rc * 64"
    and windows: "\<And>j. case rc_windows rc j of None \<Rightarrow> A j = {} | Some w \<Rightarrow> win_rel W w (A j)"
    by (auto simp only: replay_rel_def)
  have "win_rel W w (A k)"
    using windows [of k] rel win_rel_new by (simp add: w_def split: option.splits)
  note step = window_check_refines [OF this, of c]
  have key: "replay_step rc call = (fst (window_check W w c),
      rc\<lparr>rc_windows := (rc_windows rc)(k \<mapsto> snd (window_check W w c))\<rparr>)"
    by (cases k) (simp add: call replay_step_def check_and_insert_def w_def rel Let_def split: prod.splits)
  have spec: "spec_step W A call = (fst (spec_check W (A k) c), A(k := snd (spec_check W (A k) c)))"
    by (simp add: call spec_step_def split: prod.splits)
  have "case ((rc_windows rc)(k \<mapsto> snd (window_check W w c))) j of
      None \<Rightarrow> (A(k := snd (spec_check W (A k) c))) j = {}
      | Some v \<Rightarrow> win_rel W v ((A(k := snd (spec_check W (A k) c))) j)" for j
    using step windows [of j] by (cases "j = k") (simp_all split: option.splits)
  with step rel show ?thesis by (simp only: key spec replay_rel_def fst_conv snd_conv) simp
qed

section \<open>Anti-replay as a contract\<close>

text \<open>The calls of a trace that were answered \<open>Ok\<close>.\<close>

definition accepted_calls :: "('s \<Rightarrow> 'c \<Rightarrow> ('e + 'r) \<times> 's) \<Rightarrow> 's \<Rightarrow> 'c list \<Rightarrow> 'c list" where
  "accepted_calls step s cs = map fst (filter (\<lambda>(c, r). is_Ok r) (zip cs (fst (run_steps step s cs))))"

lemma accepted_calls_Nil [simp]: "accepted_calls step s [] = []"
  by (simp add: accepted_calls_def)

lemma accepted_calls_Cons [simp]:
  "accepted_calls step s (c # cs) =
     (if is_Ok (fst (step s c)) then c # accepted_calls step (snd (step s c)) cs
      else accepted_calls step (snd (step s c)) cs)"
  by (simp add: accepted_calls_def split: prod.splits)

text \<open>What a client of a replay filter relies on: a state stands for the set of calls accepted so
  far, an accepted call is new, a refused one leaves the set alone.\<close>

locale anti_replay =
  fixes step :: "'s \<Rightarrow> 'c \<Rightarrow> ('e + 'r) \<times> 's"
    and stands_for :: "'s \<Rightarrow> 'c set \<Rightarrow> bool"
  assumes accept_fresh: "stands_for s A \<Longrightarrow> is_Ok (fst (step s c)) \<Longrightarrow>
      c \<notin> A \<and> stands_for (snd (step s c)) (insert c A)"
    and refuse_keeps: "stands_for s A \<Longrightarrow> \<not> is_Ok (fst (step s c)) \<Longrightarrow> stands_for (snd (step s c)) A"
begin

lemma accepted_fresh_distinct:
  assumes "stands_for s A"
  shows "distinct (accepted_calls step s cs) \<and> set (accepted_calls step s cs) \<inter> A = {}"
  using assms
proof (induction cs arbitrary: s A)
  case (Cons c cs)
  show ?case
  proof (cases "is_Ok (fst (step s c))")
    case False
    with Cons.IH [OF refuse_keeps [OF Cons.prems False]] show ?thesis by simp
  next
    case True
    with accept_fresh [OF Cons.prems] have new: "c \<notin> A" "stands_for (snd (step s c)) (insert c A)"
      by simp_all
    with True Cons.IH [OF new(2)] show ?thesis by auto
  qed
qed simp

end

definition replay_stands_for :: "nat \<Rightarrow> MeshSecReplayCache \<Rightarrow> (replay_key \<times> nat) set \<Rightarrow> bool" where
  "replay_stands_for W rc A \<longleftrightarrow> replay_rel W rc (\<lambda>k. {c. (k, c) \<in> A})"

lemma spec_step_accept:
  "fst (spec_step W (\<lambda>k. {c. (k, c) \<in> A}) call) = Ok () \<Longrightarrow> \<forall>k. finite {c. (k, c) \<in> A} \<Longrightarrow>
   call \<notin> A \<and> snd (spec_step W (\<lambda>k. {c. (k, c) \<in> A}) call) = (\<lambda>k. {c. (k, c) \<in> insert call A})"
proof -
  assume ok: "fst (spec_step W (\<lambda>k. {c. (k, c) \<in> A}) call) = Ok ()" and fin: "\<forall>k. finite {c. (k, c) \<in> A}"
  obtain k c where call: "call = (k, c)" by (cases call)
  have "c \<le> Max {c. (k, c) \<in> A}" if "(k, c) \<in> A"
    using that by (intro Max_ge fin [rule_format]) simp
  with ok show ?thesis
    by (auto simp: call spec_step_def spec_check_def fun_eq_iff split: if_splits)
qed

lemma spec_step_refuse:
  "fst (spec_step W F call) = Err e \<Longrightarrow> snd (spec_step W F call) = F"
  by (cases call) (auto simp: spec_step_def spec_check_def split: if_splits)

lemma replay_rel_finite: "replay_rel W rc A \<Longrightarrow> finite (A k)"
proof -
  assume "replay_rel W rc A"
  then have "case rc_windows rc k of None \<Rightarrow> A k = {} | Some w \<Rightarrow> win_rel W w (A k)"
    by (simp only: replay_rel_def)
  then show ?thesis by (auto simp: win_rel_def split: option.splits)
qed

interpretation cache: anti_replay replay_step "replay_stands_for W" for W
proof
  fix s A c
  assume A: "replay_stands_for W s A"
  note step = replay_step_refines [OF A [unfolded replay_stands_for_def], of c]
  from A have fin: "\<forall>k. finite {c. (k, c) \<in> A}"
    unfolding replay_stands_for_def using replay_rel_finite by blast
  {
    assume "is_Ok (fst (replay_step s c))"
    then have "fst (replay_step s c) = Ok ()" by (auto simp: is_Ok_iff)
    with step fin spec_step_accept [of W A c]
    show "c \<notin> A \<and> replay_stands_for W (snd (replay_step s c)) (insert c A)"
      by (simp add: replay_stands_for_def)
  next
    assume "\<not> is_Ok (fst (replay_step s c))"
    then obtain e where "fst (replay_step s c) = Err e" by (cases "fst (replay_step s c)") auto
    with step spec_step_refuse [of W "\<lambda>k. {c. (k, c) \<in> A}" c e]
    show "replay_stands_for W (snd (replay_step s c)) A"
      by (simp add: replay_stands_for_def)
  }
qed

section \<open>Properties\<close>

text \<open>C1: over any sequence of \<open>check_and_insert\<close> calls on a fresh cache, no
  \<open>(peer, epoch, boot salt, counter)\<close> is accepted twice, for every window that fills whole words
  (the configured 1024 does) or fits in one.\<close>

theorem replay_accepts_at_most_once:
  assumes "64 dvd W \<or> W \<le> 64"
  shows "distinct (accepted_calls replay_step (replay_cache_new W) calls)"
proof -
  have "replay_stands_for W (replay_cache_new W) {}"
    using replay_rel_new [OF assms] by (simp add: replay_stands_for_def)
  then show ?thesis using cache.accepted_fresh_distinct by blast
qed

theorem replay_accepts_at_most_once_witness:
  "(64::nat) dvd 1024 \<and> distinct (accepted_calls replay_step (replay_cache_new 1024)
     [((''a'', 7, [1, 2, 3, 4]), 5), ((''a'', 7, [1, 2, 3, 4]), 9), ((''a'', 7, [1, 2, 3, 4]), 5)])"
  by (intro conjI replay_accepts_at_most_once) simp_all

text \<open>C2: a bitmap window that fills whole 64-bit words, or has at most 64 bits, refines the reference that remembers
  every accepted counter: the answers to any sequence of calls are those of \<open>spec_step\<close>. For other windows the
  rounding of the capacity makes the two differ.\<close>

theorem replay_cache_refines_spec:
  assumes "64 dvd W \<or> W \<le> 64"
  shows "fst (run_steps replay_step (replay_cache_new W) calls)
       = fst (run_steps (spec_step W) (\<lambda>_. {}) calls)"
  using run_steps_simulation [of "replay_rel W" _ _ replay_step "spec_step W",
      OF replay_rel_new [OF assms] replay_step_refines]
  by simp

theorem replay_cache_refines_spec_witness:
  "fst (run_steps replay_step (replay_cache_new 64) [((''a'', 7, [1]), 5), ((''a'', 7, [1]), 5)])
   = [Ok (), Err MsReplay]"
  using replay_cache_refines_spec [of 64 "[((''a'', 7, [1]), 5), ((''a'', 7, [1]), 5)]"]
  by (simp add: spec_step_def spec_check_def)

text \<open>C3: a window that is not a whole number of words has fewer bits than counters to remember.
  Whenever two or more bits are lost to the rounding (a configured window of 100 keeps 64), a
  counter is accepted a second time while it is still inside the window.\<close>

theorem replay_partial_word_accepts_twice:
  assumes "64 < W" "2 \<le> W mod 64"
  shows "fst (run_steps replay_step (replay_cache_new W)
      [((p, e, b), c), ((p, e, b), c + W div 64 * 64 + 1), ((p, e, b), c)]) = [Ok (), Ok (), Ok ()]"
proof -
  define cap where "cap = W div 64 * 64"
  have W: "W = cap + W mod 64" by (simp add: cap_def)
  have pos: "0 < W div 64" using assms by simp
  then have "64 \<le> cap" by (simp add: cap_def)
  moreover have "Suc cap < W" using W assms(2) by linarith
  ultimately have bounds: "64 \<le> cap" "Suc cap < W" "0 < W div 64" using pos by simp_all
  define w0 where "w0 = window_set (window_new (W div 64)\<lparr>w_seen := True, w_highest := c\<rparr>) c"
  define w1 where "w1 = window_set (foldl window_clear w0 [c + 1 ..< c + cap + 1]\<lparr>w_highest := c + cap + 1\<rparr>) (c + cap + 1)"
  have len: "length (w_bits w0) * 64 = cap" "w_bits w0 \<noteq> []"
    using bounds by (auto simp: w0_def window_new_def cap_def)
  have c0: "window_check W (window_new (W div 64)) c = (Ok (), w0)"
    by (simp add: window_check_def w0_def window_new_def)
  have c1: "window_check W w0 (c + cap + 1) = (Ok (), w1)"
    using bounds by (simp add: window_check_def w0_def w1_def)
  have same: "window_slot w0 (c + cap) = window_slot w0 c"
    by (simp add: window_slot_def len)
  have "(c + cap + 1) mod cap = (c + 1) mod cap" by (metis add.commute add.left_commute mod_add_self2)
  then have other: "window_slot w0 (c + cap + 1) \<noteq> window_slot w0 c"
    using bounds mod_eq_close [of c cap "c + 1"] by (auto simp: window_slot_def len)
  have "c + cap \<in> set [c + 1 ..< c + cap + 1]" using bounds by simp
  with same have "\<not> window_test (foldl window_clear w0 [c + 1 ..< c + cap + 1]) c"
    using window_test_foldl_clear [OF len(2)] by blast
  with other have "\<not> window_test w1 c"
    using len(2) by (simp add: w1_def window_test_set)
  then obtain w2 where c2: "window_check W w1 c = (Ok (), w2)"
    using bounds by (simp add: window_check_def w1_def w0_def)
  have words: "max (W div 64) (Suc 0) = W div 64" using bounds by simp
  show ?thesis
    using c0 c1 c2
    by (simp add: replay_step_def check_and_insert_def replay_cache_new_def cap_def words Let_def
        split: prod.splits)
qed

theorem replay_partial_word_accepts_twice_witness:
  "fst (run_steps replay_step (replay_cache_new 100)
      [((''a'', 7, [1, 2, 3, 4]), 10), ((''a'', 7, [1, 2, 3, 4]), 75), ((''a'', 7, [1, 2, 3, 4]), 10)])
   = [Ok (), Ok (), Ok ()]"
  using replay_partial_word_accepts_twice [of 100 "''a''" 7 "[1, 2, 3, 4]" 10] by simp

end
