(* ===== verification/Meshsec.thy ===== *)
theory Meshsec
  imports Wire Replay "HOL-Library.Char_ord" "HOL-Library.List_Lexorder"
begin

text \<open>
  The MeshSec envelope (\<^verbatim>\<open>lib/mb-proto-mesh/src/meshsec.rs\<close>): the 22-byte header, the padding
  buckets, key derivation, sealing and opening. The primitives of the \<^verbatim>\<open>hkdf\<close>, \<^verbatim>\<open>hmac\<close> and
  \<^verbatim>\<open>chacha20poly1305\<close> crates are the record \<open>crypto\<close>, an argument of every definition that uses
  them; \<open>aead_ok\<close> states what the AEAD is relied on for. The lemmas show that opening inverts
  sealing, that the replay cache moves only for an authenticated packet, and that a packet is
  accepted at most once.
\<close>

section \<open>Constants and data\<close>

definition MESHSEC_VERSION_V1 :: u8 where
  "MESHSEC_VERSION_V1 = 1"

definition MESHSEC_HEADER_LEN :: nat where
  "MESHSEC_HEADER_LEN = 22"

definition MESHSEC_TAG_LEN :: nat where
  "MESHSEC_TAG_LEN = 16"

definition MESHSEC_FIXED_OVERHEAD :: nat where
  "MESHSEC_FIXED_OVERHEAD = 38"

definition MESHSEC_REPLAY_WINDOW_BITS :: nat where
  "MESHSEC_REPLAY_WINDOW_BITS = 1024"

definition MESHSEC_PADDING_BUCKETS :: "nat list" where
  "MESHSEC_PADDING_BUCKETS = [128, 384, 1024]"

definition MESHSEC_MAX_CLEAR_LEN :: nat where
  "MESHSEC_MAX_CLEAR_LEN = 1024 - 2"

definition MESHSEC_EPOCH_SECONDS :: nat where
  "MESHSEC_EPOCH_SECONDS = 600"

record MeshSecEnvelopeHeader =
  eh_version_flags :: u8
  eh_receiver_hint :: bytes
  eh_epoch_low :: u8
  eh_boot_salt :: bytes
  eh_counter :: u64

record MeshSecSealContext =
  sc_local_node_id :: string
  sc_remote_node_id :: string
  sc_static_key :: bytes
  sc_boot_salt :: bytes

record MeshSecOpenKey =
  ok_peer_id :: string
  ok_remote_node_id :: string
  ok_static_key :: bytes

text \<open>The cryptographic primitives: HKDF-SHA256 expanded to 32 bytes, HMAC-SHA256, and the AEAD
  by key, nonce, additional data and message.\<close>

record crypto =
  cr_hkdf :: "bytes option \<Rightarrow> bytes \<Rightarrow> bytes \<Rightarrow> bytes"
  cr_hmac :: "bytes \<Rightarrow> bytes \<Rightarrow> bytes"
  cr_encrypt :: "bytes \<Rightarrow> bytes \<Rightarrow> bytes \<Rightarrow> bytes \<Rightarrow> bytes option"
  cr_decrypt :: "bytes \<Rightarrow> bytes \<Rightarrow> bytes \<Rightarrow> bytes \<Rightarrow> bytes option"

section \<open>Header and padding\<close>

definition encode_meshsec_header :: "MeshSecEnvelopeHeader \<Rightarrow> bytes" where
  "encode_meshsec_header h =
     [eh_version_flags h] @ eh_receiver_hint h @ [eh_epoch_low h] @ eh_boot_salt h
     @ le_bytes 8 (unat (eh_counter h))"

definition decode_meshsec_header :: "bytes \<Rightarrow> MeshSecError + MeshSecEnvelopeHeader" where
  "decode_meshsec_header packet =
     (if length packet < MESHSEC_FIXED_OVERHEAD then Err MsTruncated
      else let version_flags = packet ! 0 in
      if version_flags \<noteq> MESHSEC_VERSION_V1 then Err (MsUnsupportedVersion version_flags)
      else Ok \<lparr>eh_version_flags = version_flags,
               eh_receiver_hint = take 8 (drop 1 packet),
               eh_epoch_low = packet ! 9,
               eh_boot_salt = take 4 (drop 10 packet),
               eh_counter = of_nat (le_val (take 8 (drop 14 packet)))\<rparr>)"

definition meshsec_bucket_len :: "nat \<Rightarrow> MeshSecError + nat" where
  "meshsec_bucket_len clear_len =
     (if clear_len + 2 > u64_max then Err MsPayloadTooLarge
      else ok_or (find (\<lambda>b. b \<ge> clear_len + 2) MESHSEC_PADDING_BUCKETS) MsPayloadTooLarge)"

definition pack_meshsec_plaintext :: "bytes \<Rightarrow> MeshSecError + bytes" where
  "pack_meshsec_plaintext clear =
     (if length clear > MESHSEC_MAX_CLEAR_LEN then Err MsPayloadTooLarge
      else res_bind (meshsec_bucket_len (length clear)) (\<lambda>bucket.
        Ok (be_bytes 2 (length clear mod 2 ^ 16) @ clear @ replicate (bucket - 2 - length clear) 0)))"

definition unpack_meshsec_plaintext :: "bytes \<Rightarrow> MeshSecError + bytes" where
  "unpack_meshsec_plaintext plain =
     (if length plain < 2 then Err MsTruncated
      else let real_len = be_val [plain ! 0, plain ! 1] in
      if 2 + real_len > length plain then Err MsTruncated
      else Ok (take real_len (drop 2 plain)))"

section \<open>Keys\<close>

definition meshsec_direction :: "string \<Rightarrow> string \<Rightarrow> string" where
  "meshsec_direction sender_id receiver_id = (if sender_id \<le> receiver_id then ''ab'' else ''ba'')"

definition meshsec_nonce :: "u64 \<Rightarrow> bytes" where
  "meshsec_nonce counter = le_bytes 8 (unat counter) @ replicate 16 0"

definition meshsec_epoch_number :: "nat \<Rightarrow> nat" where
  "meshsec_epoch_number now_unix_secs = now_unix_secs div MESHSEC_EPOCH_SECONDS"

definition derive_receiver_hint :: "crypto \<Rightarrow> bytes \<Rightarrow> nat \<Rightarrow> bytes" where
  "derive_receiver_hint cr static_key epoch_number =
     (let k_hint = cr_hkdf cr None static_key (str_bytes ''meshsec/v1/hint'')
      in take 8 (cr_hmac cr k_hint (le_bytes 8 epoch_number)))"

definition derive_epoch_key :: "crypto \<Rightarrow> bytes \<Rightarrow> nat \<Rightarrow> bytes" where
  "derive_epoch_key cr static_key epoch_number =
     cr_hkdf cr (Some (le_bytes 8 epoch_number)) static_key (str_bytes ''meshsec/v1/epoch'')"

definition derive_sender_key :: "crypto \<Rightarrow> bytes \<Rightarrow> string \<Rightarrow> string \<Rightarrow> bytes \<Rightarrow> bytes" where
  "derive_sender_key cr epoch_key sender_id direction boot_salt =
     cr_hkdf cr (Some (str_bytes sender_id)) epoch_key
       (str_bytes ''meshsec/v1/dir/'' @ str_bytes direction @ boot_salt)"

section \<open>Sealing and opening\<close>

definition seal_bytes ::
    "crypto \<Rightarrow> bytes \<Rightarrow> MeshSecSealContext \<Rightarrow> nat \<Rightarrow> u64 \<Rightarrow> MeshSecError + bytes" where
  "seal_bytes cr clear ctx epoch_number counter =
     res_bind (pack_meshsec_plaintext clear) (\<lambda>plain.
       let out = encode_meshsec_header
             \<lparr>eh_version_flags = MESHSEC_VERSION_V1,
              eh_receiver_hint = derive_receiver_hint cr (sc_static_key ctx) epoch_number,
              eh_epoch_low = of_nat epoch_number,
              eh_boot_salt = sc_boot_salt ctx,
              eh_counter = counter\<rparr>;
           k_epoch = derive_epoch_key cr (sc_static_key ctx) epoch_number;
           direction = meshsec_direction (sc_local_node_id ctx) (sc_remote_node_id ctx);
           k_tx = derive_sender_key cr k_epoch (sc_local_node_id ctx) direction (sc_boot_salt ctx)
       in case cr_encrypt cr k_tx (meshsec_nonce counter) (take MESHSEC_HEADER_LEN out) plain of
            None \<Rightarrow> Err MsAuth
          | Some sealed \<Rightarrow> Ok (out @ sealed))"

definition seal_mesh_frame ::
    "crypto \<Rightarrow> (MeshFrame \<Rightarrow> string + bytes) \<Rightarrow> MeshFrame \<Rightarrow> MeshSecSealContext \<Rightarrow> nat \<Rightarrow> u64
      \<Rightarrow> MeshSecError + bytes" where
  "seal_mesh_frame cr ser frame ctx epoch_number counter =
     (case ser frame of Inl e \<Rightarrow> Err (MsSerialize e)
      | Inr clear \<Rightarrow> seal_bytes cr clear ctx epoch_number counter)"

definition meshsec_try_decrypt ::
    "crypto \<Rightarrow> MeshSecOpenKey \<Rightarrow> string \<Rightarrow> nat \<Rightarrow> MeshSecEnvelopeHeader \<Rightarrow> bytes \<Rightarrow> bytes
      \<Rightarrow> bytes option" where
  "meshsec_try_decrypt cr key local_node_id epoch_number header aad ciphertext =
     (if derive_receiver_hint cr (ok_static_key key) epoch_number \<noteq> eh_receiver_hint header then None
      else let k_epoch = derive_epoch_key cr (ok_static_key key) epoch_number;
               direction = meshsec_direction (ok_remote_node_id key) local_node_id;
               k_tx = derive_sender_key cr k_epoch (ok_remote_node_id key) direction (eh_boot_salt header)
           in cr_decrypt cr k_tx (meshsec_nonce (eh_counter header)) aad ciphertext)"

text \<open>The two nested loops of \<open>open_bytes\<close>: the epochs of the accepted range whose low byte matches
  the header, and for each the configured keys. The first key that decrypts decides.\<close>

definition open_authenticated ::
    "MeshSecOpenKey \<Rightarrow> nat \<Rightarrow> MeshSecEnvelopeHeader \<Rightarrow> bytes \<Rightarrow> MeshSecReplayCache
      \<Rightarrow> (MeshSecError + string \<times> bytes) \<times> MeshSecReplayCache" where
  "open_authenticated key epoch header plain replay =
     (case check_and_insert replay (ok_peer_id key) epoch (eh_boot_salt header) (unat (eh_counter header)) of
        (Inl e, replay') \<Rightarrow> (Err e, replay')
      | (Inr _, replay') \<Rightarrow>
          (res_bind (unpack_meshsec_plaintext plain) (\<lambda>clear. Ok (ok_peer_id key, clear)), replay'))"

fun find_key ::
    "crypto \<Rightarrow> string \<Rightarrow> nat \<Rightarrow> MeshSecEnvelopeHeader \<Rightarrow> bytes \<Rightarrow> bytes \<Rightarrow> MeshSecOpenKey list
      \<Rightarrow> (MeshSecOpenKey \<times> bytes) option" where
  "find_key cr local_id epoch header aad ct [] = None"
| "find_key cr local_id epoch header aad ct (key # keys) =
     (case meshsec_try_decrypt cr key local_id epoch header aad ct of
        Some plain \<Rightarrow> Some (key, plain)
      | None \<Rightarrow> find_key cr local_id epoch header aad ct keys)"

fun open_epochs ::
    "crypto \<Rightarrow> string \<Rightarrow> MeshSecOpenKey list \<Rightarrow> MeshSecEnvelopeHeader \<Rightarrow> bytes \<Rightarrow> bytes \<Rightarrow> nat list
      \<Rightarrow> MeshSecReplayCache \<Rightarrow> (MeshSecError + string \<times> bytes) \<times> MeshSecReplayCache" where
  "open_epochs cr local_id keys header aad ct [] replay = (Err MsAuth, replay)"
| "open_epochs cr local_id keys header aad ct (epoch # epochs) replay =
     (if of_nat epoch \<noteq> eh_epoch_low header then
        open_epochs cr local_id keys header aad ct epochs replay
      else case find_key cr local_id epoch header aad ct keys of
        Some (key, plain) \<Rightarrow> open_authenticated key epoch header plain replay
      | None \<Rightarrow> open_epochs cr local_id keys header aad ct epochs replay)"

definition open_bytes ::
    "crypto \<Rightarrow> bytes \<Rightarrow> MeshSecOpenKey list \<Rightarrow> string \<Rightarrow> nat \<times> nat \<Rightarrow> MeshSecReplayCache
      \<Rightarrow> (MeshSecError + string \<times> bytes) \<times> MeshSecReplayCache" where
  "open_bytes cr packet keys local_node_id accepted_epoch replay =
     (case decode_meshsec_header packet of
        Inl e \<Rightarrow> (Err e, replay)
      | Inr header \<Rightarrow>
          open_epochs cr local_node_id keys header (take MESHSEC_HEADER_LEN packet)
            (drop MESHSEC_HEADER_LEN packet)
            [fst accepted_epoch ..< Suc (snd accepted_epoch)] replay)"

definition open_mesh_frame ::
    "crypto \<Rightarrow> (bytes \<Rightarrow> string + MeshFrame) \<Rightarrow> bytes \<Rightarrow> MeshSecOpenKey list \<Rightarrow> string \<Rightarrow> nat \<times> nat
      \<Rightarrow> MeshSecReplayCache \<Rightarrow> (MeshSecError + string \<times> MeshFrame) \<times> MeshSecReplayCache" where
  "open_mesh_frame cr deser packet keys local_node_id accepted_epoch replay =
     (case open_bytes cr packet keys local_node_id accepted_epoch replay of
        (Inl e, replay') \<Rightarrow> (Err e, replay')
      | (Inr (peer_id, clear), replay') \<Rightarrow>
          (case deser clear of Inl e \<Rightarrow> Err (MsSerialize e) | Inr frame \<Rightarrow> Ok (peer_id, frame), replay'))"

text \<open>What the AEAD is relied on for: encryption of a padded plaintext succeeds, adds the tag, and is
  undone by decryption under the same key, nonce and additional data.\<close>

definition aead_ok :: "crypto \<Rightarrow> bool" where
  "aead_ok cr \<longleftrightarrow>
     (\<forall>k n a m. length m \<le> 1024 \<longrightarrow>
        (case cr_encrypt cr k n a m of None \<Rightarrow> False
         | Some c \<Rightarrow> length c = length m + MESHSEC_TAG_LEN \<and> cr_decrypt cr k n a c = Some m))
     \<and> (\<forall>k m. length (cr_hmac cr k m) = 32)"

section \<open>Header and padding lemmas\<close>

definition wf_header :: "MeshSecEnvelopeHeader \<Rightarrow> bool" where
  "wf_header h \<longleftrightarrow> eh_version_flags h = MESHSEC_VERSION_V1 \<and> length (eh_receiver_hint h) = 8
     \<and> length (eh_boot_salt h) = 4"

lemma length_header [simp]: "wf_header h \<Longrightarrow> length (encode_meshsec_header h) = MESHSEC_HEADER_LEN"
  by (simp add: wf_header_def encode_meshsec_header_def MESHSEC_HEADER_LEN_def)

lemma of_nat_le_val_u64: "of_nat (le_val (le_bytes 8 (unat (c :: u64)))) = c"
proof -
  have "unat c < 2 ^ LENGTH(64)" by (rule unsigned_less)
  then have "unat c mod 256 ^ 8 = unat c" by simp
  then show ?thesis by (simp only: le_val_le_bytes) simp
qed

lemma decode_encode_header:
  assumes "wf_header h" "MESHSEC_TAG_LEN \<le> length rest"
  shows "decode_meshsec_header (encode_meshsec_header h @ rest) = Ok h"
proof -
  define t where "t = le_bytes 8 (unat (eh_counter h))"
  obtain v where v: "v = eh_version_flags h" by simp
  have len: "length (eh_receiver_hint h) = 8" "length (eh_boot_salt h) = 4" "length t = 8"
    "v = MESHSEC_VERSION_V1"
    using assms(1) by (simp_all add: wf_header_def t_def v)
  have enc: "encode_meshsec_header h @ rest
      = v # eh_receiver_hint h @ eh_epoch_low h # eh_boot_salt h @ t @ rest"
    by (simp add: encode_meshsec_header_def t_def v)
  have "take 8 (drop 14 (v # eh_receiver_hint h @ eh_epoch_low h # eh_boot_salt h @ t @ rest)) = t"
    using len by simp
  moreover have "(v # eh_receiver_hint h @ eh_epoch_low h # eh_boot_salt h @ t @ rest) ! 9 = eh_epoch_low h"
    using len by (simp add: nth_append)
  moreover have "of_nat (le_val t) = eh_counter h" unfolding t_def by (rule of_nat_le_val_u64)
  ultimately show ?thesis
    using len assms(2) unfolding enc
    by (simp add: decode_meshsec_header_def MESHSEC_FIXED_OVERHEAD_def MESHSEC_TAG_LEN_def v)
qed

lemma decode_header_wf: "decode_meshsec_header packet = Ok h \<Longrightarrow> wf_header h"
  by (auto simp: decode_meshsec_header_def wf_header_def MESHSEC_FIXED_OVERHEAD_def Let_def
      split: if_splits)

lemma bucket_len_cases:
  "meshsec_bucket_len n =
     (if n \<le> 126 then Ok 128 else if n \<le> 382 then Ok 384 else if n \<le> 1022 then Ok 1024
      else Err MsPayloadTooLarge)"
  by (simp add: meshsec_bucket_len_def MESHSEC_PADDING_BUCKETS_def u64_max_def)

lemma be_bytes_2:
  obtains a b where "be_bytes 2 n = [a, b]" "be_val [a, b] = n mod 2 ^ 16"
proof -
  define xs where "xs = be_bytes 2 n"
  then have "length xs = 2" by simp
  then obtain a b where "be_bytes 2 n = [a, b]"
    unfolding xs_def [symmetric] by (auto simp: numeral_2_eq_2 length_Suc_conv)
  moreover have "be_val (be_bytes 2 n) = n mod 2 ^ 16" by simp
  ultimately show ?thesis using that by simp
qed

lemma pack_Ok:
  assumes "pack_meshsec_plaintext clear = Ok plain"
  shows "length clear \<le> 1022" "length plain \<in> {128, 384, 1024}" "length clear + 2 \<le> length plain"
    "unpack_meshsec_plaintext plain = Ok clear"
proof -
  from assms obtain bucket where b: "meshsec_bucket_len (length clear) = Ok bucket"
    and le: "length clear \<le> 1022"
    and plain: "plain = be_bytes 2 (length clear mod 2 ^ 16) @ clear @ replicate (bucket - 2 - length clear) 0"
    by (auto simp: pack_meshsec_plaintext_def MESHSEC_MAX_CLEAR_LEN_def result_simps split: if_splits)
  from b have bucket: "bucket \<in> {128, 384, 1024}" "length clear + 2 \<le> bucket"
    by (auto simp: bucket_len_cases split: if_splits)
  obtain x y where xy: "be_bytes 2 (length clear mod 2 ^ 16) = [x, y]"
    "be_val [x, y] = length clear mod 2 ^ 16 mod 2 ^ 16" by (rule be_bytes_2)
  then have val: "be_val [x, y] = length clear" using le by simp
  show "length clear \<le> 1022" by (rule le)
  show "length plain \<in> {128, 384, 1024}" "length clear + 2 \<le> length plain"
    using plain bucket by auto
  have "plain = x # y # clear @ replicate (bucket - 2 - length clear) 0"
    unfolding plain xy(1) by simp
  then show "unpack_meshsec_plaintext plain = Ok clear"
    using val by (simp add: unpack_meshsec_plaintext_def Let_def)
qed

lemma pack_total: "length clear \<le> 1022 \<longleftrightarrow> is_Ok (pack_meshsec_plaintext clear)"
  by (auto simp: pack_meshsec_plaintext_def bucket_len_cases MESHSEC_MAX_CLEAR_LEN_def)

section \<open>Opening\<close>

text \<open>The key, epoch and plaintext the loops of \<open>open_bytes\<close> settle on, which do not depend on the
  replay cache.\<close>

fun find_epoch_key ::
    "crypto \<Rightarrow> string \<Rightarrow> MeshSecOpenKey list \<Rightarrow> MeshSecEnvelopeHeader \<Rightarrow> bytes \<Rightarrow> bytes \<Rightarrow> nat list
      \<Rightarrow> (nat \<times> MeshSecOpenKey \<times> bytes) option" where
  "find_epoch_key cr local_id keys header aad ct [] = None"
| "find_epoch_key cr local_id keys header aad ct (epoch # epochs) =
     (if of_nat epoch = eh_epoch_low header \<and> find_key cr local_id epoch header aad ct keys \<noteq> None
      then Some (epoch, the (find_key cr local_id epoch header aad ct keys))
      else find_epoch_key cr local_id keys header aad ct epochs)"

lemma open_epochs_find:
  "open_epochs cr local_id keys header aad ct epochs replay =
     (case find_epoch_key cr local_id keys header aad ct epochs of
        None \<Rightarrow> (Err MsAuth, replay)
      | Some (epoch, key, plain) \<Rightarrow> open_authenticated key epoch header plain replay)"
  by (induction epochs) (auto split: option.splits)

lemma find_key_Some:
  "find_key cr local_id epoch header aad ct keys = Some (key, plain) \<Longrightarrow>
   key \<in> set keys \<and> meshsec_try_decrypt cr key local_id epoch header aad ct = Some plain"
  by (induction keys) (auto split: option.splits)

lemma find_epoch_key_Some:
  "find_epoch_key cr local_id keys header aad ct epochs = Some (epoch, key, plain) \<Longrightarrow>
   epoch \<in> set epochs \<and> key \<in> set keys
   \<and> meshsec_try_decrypt cr key local_id epoch header aad ct = Some plain"
  by (induction epochs) (auto split: if_splits dest: find_key_Some)

lemma find_key_unique:
  assumes "key \<in> set keys" "meshsec_try_decrypt cr key local_id epoch header aad ct = Some plain"
    and "\<forall>k \<in> set keys. k \<noteq> key \<longrightarrow> meshsec_try_decrypt cr k local_id epoch header aad ct = None"
  shows "find_key cr local_id epoch header aad ct keys = Some (key, plain)"
  using assms
proof (induction keys)
  case (Cons k keys)
  then show ?case by (cases "k = key") auto
qed simp

lemma find_epoch_key_unique:
  assumes "epoch \<in> set epochs" "of_nat epoch = eh_epoch_low header"
    and "find_key cr local_id epoch header aad ct keys = Some (key, plain)"
    and "\<forall>e \<in> set epochs. e \<noteq> epoch \<longrightarrow> (of_nat e :: u8) \<noteq> eh_epoch_low header"
  shows "find_epoch_key cr local_id keys header aad ct epochs = Some (epoch, key, plain)"
  using assms by (induction epochs) auto

text \<open>Within a range of at most 256 epochs the low byte names the epoch.\<close>

lemma epoch_low_unique:
  assumes "e \<in> {lo..hi}" "e' \<in> {lo..hi}" "hi - lo < 256" "(of_nat e :: u8) = of_nat e'"
  shows "e = e'"
proof -
  from assms(4) have "unat (of_nat e :: u8) = unat (of_nat e' :: u8)" by simp
  then have eq: "e mod 256 = e' mod 256" by (simp only: unat_u8_of_nat)
  have close: "e - e' < 256" "e' - e < 256" using assms(1-3) by auto
  show ?thesis
  proof (cases "e \<le> e'")
    case True
    then show ?thesis by (rule mod_eq_close [OF eq _ close(2)])
  next
    case False
    then have "e' = e" using mod_eq_close [OF eq [symmetric] _ close(1)] by linarith
    then show ?thesis by simp
  qed
qed

section \<open>Sealing\<close>

text \<open>The receiver's entry for a sender, and the receiver's own name as the sender knows it.\<close>

definition peer_key :: "MeshSecSealContext \<Rightarrow> MeshSecOpenKey \<Rightarrow> string \<Rightarrow> bool" where
  "peer_key ctx key local_id \<longleftrightarrow> ok_static_key key = sc_static_key ctx
     \<and> ok_remote_node_id key = sc_local_node_id ctx \<and> local_id = sc_remote_node_id ctx"

definition seal_header :: "crypto \<Rightarrow> MeshSecSealContext \<Rightarrow> nat \<Rightarrow> u64 \<Rightarrow> MeshSecEnvelopeHeader" where
  "seal_header cr ctx epoch counter =
     \<lparr>eh_version_flags = MESHSEC_VERSION_V1,
      eh_receiver_hint = derive_receiver_hint cr (sc_static_key ctx) epoch,
      eh_epoch_low = of_nat epoch, eh_boot_salt = sc_boot_salt ctx, eh_counter = counter\<rparr>"

lemma wf_seal_header: "aead_ok cr \<Longrightarrow> length (sc_boot_salt ctx) = 4 \<Longrightarrow> wf_header (seal_header cr ctx e c)"
  by (simp add: wf_header_def seal_header_def derive_receiver_hint_def aead_ok_def Let_def)

lemma aead_okD:
  assumes "aead_ok cr" "length m \<le> 1024"
  obtains c where "cr_encrypt cr k n a m = Some c" "length c = length m + MESHSEC_TAG_LEN"
    "cr_decrypt cr k n a c = Some m"
proof -
  from assms have "case cr_encrypt cr k n a m of None \<Rightarrow> False
      | Some c \<Rightarrow> length c = length m + MESHSEC_TAG_LEN \<and> cr_decrypt cr k n a c = Some m"
    unfolding aead_ok_def by blast
  with that show ?thesis by (auto split: option.splits)
qed

lemma seal_Ok:
  assumes "aead_ok cr" "length (sc_boot_salt ctx) = 4" "pack_meshsec_plaintext clear = Ok plain"
  obtains ct where "seal_bytes cr clear ctx epoch counter
      = Ok (encode_meshsec_header (seal_header cr ctx epoch counter) @ ct)"
    "length ct = length plain + MESHSEC_TAG_LEN"
    "\<And>key local_id. peer_key ctx key local_id \<Longrightarrow>
       meshsec_try_decrypt cr key local_id epoch (seal_header cr ctx epoch counter)
         (encode_meshsec_header (seal_header cr ctx epoch counter)) ct = Some plain"
proof -
  let ?out = "encode_meshsec_header (seal_header cr ctx epoch counter)"
  let ?k = "derive_sender_key cr (derive_epoch_key cr (sc_static_key ctx) epoch) (sc_local_node_id ctx)
      (meshsec_direction (sc_local_node_id ctx) (sc_remote_node_id ctx)) (sc_boot_salt ctx)"
  have len: "length ?out = MESHSEC_HEADER_LEN" using wf_seal_header [OF assms(1,2)] by simp
  have "length plain \<le> 1024" using pack_Ok(2) [OF assms(3)] by auto
  then obtain ct where ct: "cr_encrypt cr ?k (meshsec_nonce counter) ?out plain = Some ct"
    "length ct = length plain + MESHSEC_TAG_LEN"
    "cr_decrypt cr ?k (meshsec_nonce counter) ?out ct = Some plain"
    using aead_okD [OF assms(1)] by blast
  show ?thesis
  proof (rule that [of ct])
    show "seal_bytes cr clear ctx epoch counter = Ok (?out @ ct)"
      using assms(3) ct len by (simp add: seal_bytes_def seal_header_def [symmetric] Let_def)
  qed (use ct in \<open>auto simp: meshsec_try_decrypt_def peer_key_def seal_header_def Let_def\<close>)
qed

lemma seal_bytes_Ok:
  assumes "seal_bytes cr clear ctx epoch counter = Ok packet"
  obtains plain where "pack_meshsec_plaintext clear = Ok plain"
  using assms by (auto simp: seal_bytes_def result_simps)

section \<open>Opening through the replay cache\<close>

definition packet_key ::
    "crypto \<Rightarrow> MeshSecOpenKey list \<Rightarrow> string \<Rightarrow> nat \<times> nat \<Rightarrow> bytes \<Rightarrow> (replay_key \<times> nat) option" where
  "packet_key cr keys local_id epochs_ok packet =
     (case decode_meshsec_header packet of Inl _ \<Rightarrow> None
      | Inr h \<Rightarrow> map_option (\<lambda>(epoch, key, plain).
            ((ok_peer_id key, epoch, eh_boot_salt h), unat (eh_counter h)))
          (find_epoch_key cr local_id keys h (take MESHSEC_HEADER_LEN packet)
            (drop MESHSEC_HEADER_LEN packet) [fst epochs_ok ..< Suc (snd epochs_ok)]))"

lemma open_bytes_replay:
  "case packet_key cr keys local_id epochs_ok packet of
     None \<Rightarrow> \<not> is_Ok (fst (open_bytes cr packet keys local_id epochs_ok rc))
       \<and> snd (open_bytes cr packet keys local_id epochs_ok rc) = rc
   | Some kc \<Rightarrow> snd (open_bytes cr packet keys local_id epochs_ok rc) = snd (replay_step rc kc)
       \<and> (is_Ok (fst (open_bytes cr packet keys local_id epochs_ok rc)) \<longrightarrow> is_Ok (fst (replay_step rc kc)))"
  by (auto simp: packet_key_def open_bytes_def open_epochs_find open_authenticated_def replay_step_def
      simp del: upt_Suc split: sum.splits option.splits prod.splits)

definition open_step ::
    "crypto \<Rightarrow> MeshSecOpenKey list \<Rightarrow> string \<Rightarrow> nat \<times> nat \<Rightarrow> MeshSecReplayCache \<Rightarrow> bytes
      \<Rightarrow> (MeshSecError + string \<times> bytes) \<times> MeshSecReplayCache" where
  "open_step cr keys local_id epochs_ok rc packet = open_bytes cr packet keys local_id epochs_ok rc"

definition open_stands_for ::
    "nat \<Rightarrow> crypto \<Rightarrow> MeshSecOpenKey list \<Rightarrow> string \<Rightarrow> nat \<times> nat \<Rightarrow> MeshSecReplayCache \<Rightarrow> bytes set \<Rightarrow> bool" where
  "open_stands_for W cr keys local_id epochs_ok rc A \<longleftrightarrow>
     (\<exists>B. replay_stands_for W rc B \<and> packet_key cr keys local_id epochs_ok ` A \<subseteq> Some ` B)"

interpretation opener: anti_replay "open_step cr keys local_id epochs_ok"
  "open_stands_for W cr keys local_id epochs_ok" for W cr keys local_id epochs_ok
proof
  fix rc A packet
  assume "open_stands_for W cr keys local_id epochs_ok rc A"
  then obtain B where B: "replay_stands_for W rc B" "packet_key cr keys local_id epochs_ok ` A \<subseteq> Some ` B"
    by (auto simp: open_stands_for_def)
  note steps = open_bytes_replay [where cr = cr and keys = keys and local_id = local_id
      and epochs_ok = epochs_ok and packet = packet and rc = rc]
  {
    assume ok: "is_Ok (fst (open_step cr keys local_id epochs_ok rc packet))"
    with steps obtain kc where kc: "packet_key cr keys local_id epochs_ok packet = Some kc"
      "is_Ok (fst (replay_step rc kc))"
      "snd (open_step cr keys local_id epochs_ok rc packet) = snd (replay_step rc kc)"
      by (auto simp: open_step_def split: option.splits)
    from cache.accept_fresh [OF B(1) kc(2)] have "kc \<notin> B"
      "replay_stands_for W (snd (replay_step rc kc)) (insert kc B)" by auto
    with B(2) kc show "packet \<notin> A \<and> open_stands_for W cr keys local_id epochs_ok
        (snd (open_step cr keys local_id epochs_ok rc packet)) (insert packet A)"
      by (auto simp: open_stands_for_def intro!: exI [of _ "insert kc B"])
  next
    show "open_stands_for W cr keys local_id epochs_ok (snd (open_step cr keys local_id epochs_ok rc packet)) A"
    proof (cases "packet_key cr keys local_id epochs_ok packet")
      case None
      with steps B show ?thesis by (auto simp: open_step_def open_stands_for_def)
    next
      case (Some kc)
      then have eq: "snd (open_step cr keys local_id epochs_ok rc packet) = snd (replay_step rc kc)"
        using steps by (simp add: open_step_def)
      obtain B' where B': "replay_stands_for W (snd (replay_step rc kc)) B'" "B \<subseteq> B'"
        using cache.accept_fresh [OF B(1), of kc] cache.refuse_keeps [OF B(1), of kc] by blast
      from B(2) B'(2) have "packet_key cr keys local_id epochs_ok ` A \<subseteq> Some ` B'"
        by (rule subset_trans [OF _ image_mono])
      with B'(1) show ?thesis unfolding open_stands_for_def eq by (intro exI conjI)
    qed
  }
qed

section \<open>A sample of the primitives\<close>

text \<open>Stand-ins for the cryptographic primitives with the assumed behaviour, for concrete runs.\<close>

definition pad32 :: "bytes \<Rightarrow> bytes" where
  "pad32 b = take 32 (b @ replicate 32 0)"

definition sample_crypto :: crypto where
  "sample_crypto =
     \<lparr>cr_hkdf = \<lambda>salt ikm info. pad32 ikm, cr_hmac = \<lambda>k m. pad32 (m @ k),
      cr_encrypt = \<lambda>k n a m. Some (m @ replicate 16 0),
      cr_decrypt = \<lambda>k n a c. if length c < 16 then None else Some (take (length c - 16) c)\<rparr>"

lemma length_pad32 [simp]: "length (pad32 b) = 32"
  by (simp add: pad32_def)

lemma sample_aead_ok: "aead_ok sample_crypto"
  by (simp add: aead_ok_def sample_crypto_def MESHSEC_TAG_LEN_def)

definition sample_ctx :: MeshSecSealContext where
  "sample_ctx = \<lparr>sc_local_node_id = ''a'', sc_remote_node_id = ''b'', sc_static_key = [7],
     sc_boot_salt = [1, 2, 3, 4]\<rparr>"

definition sample_key :: MeshSecOpenKey where
  "sample_key = \<lparr>ok_peer_id = ''peer-a'', ok_remote_node_id = ''a'', ok_static_key = [7]\<rparr>"

lemma sample_peer_key: "peer_key sample_ctx sample_key ''b''"
  by (simp add: peer_key_def sample_ctx_def sample_key_def)

lemma fresh_cache_accepts:
  "check_and_insert (replay_cache_new W) p e b c
   = (Ok (), snd (check_and_insert (replay_cache_new W) p e b c))"
  by (simp add: check_and_insert_def replay_cache_new_def window_check_def window_new_def Let_def)

section \<open>Properties\<close>

text \<open>C7: opening inverts sealing. A packet sealed for an epoch of the accepted range opens to the
  sender's peer id and the exact clear bytes, when the receiver holds the sender's key, no other
  configured key shares the epoch's hint, and the replay window accepts the counter.\<close>

theorem seal_open_roundtrip:
  assumes aead: "aead_ok cr" and salt: "length (sc_boot_salt ctx) = 4"
    and sealed: "seal_bytes cr clear ctx epoch counter = Ok packet"
    and key: "key \<in> set keys" "peer_key ctx key local_id"
    and others: "\<forall>k \<in> set keys. k \<noteq> key \<longrightarrow>
        derive_receiver_hint cr (ok_static_key k) epoch \<noteq> derive_receiver_hint cr (ok_static_key key) epoch"
    and epoch: "epoch \<in> {lo..hi}" "hi - lo < 256"
    and fresh: "check_and_insert rc (ok_peer_id key) epoch (sc_boot_salt ctx) (unat counter) = (Ok (), rc')"
  shows "open_bytes cr packet keys local_id (lo, hi) rc = (Ok (ok_peer_id key, clear), rc')"
proof -
  let ?h = "seal_header cr ctx epoch counter"
  obtain plain where plain: "pack_meshsec_plaintext clear = Ok plain" by (rule seal_bytes_Ok [OF sealed])
  obtain ct where ct: "seal_bytes cr clear ctx epoch counter = Ok (encode_meshsec_header ?h @ ct)"
    "length ct = length plain + MESHSEC_TAG_LEN"
    "meshsec_try_decrypt cr key local_id epoch ?h (encode_meshsec_header ?h) ct = Some plain"
    using seal_Ok [OF aead salt plain] key(2) by metis
  have packet: "packet = encode_meshsec_header ?h @ ct" using sealed ct(1) by simp
  have wf: "wf_header ?h" by (rule wf_seal_header [OF aead salt])
  have dec: "decode_meshsec_header packet = Ok ?h"
    unfolding packet using wf ct(2) by (intro decode_encode_header) simp_all
  have "meshsec_try_decrypt cr k local_id epoch ?h (encode_meshsec_header ?h) ct = None"
    if "k \<in> set keys" "k \<noteq> key" for k
    using others that key(2) by (simp add: meshsec_try_decrypt_def seal_header_def peer_key_def)
  then have fk: "find_key cr local_id epoch ?h (encode_meshsec_header ?h) ct keys = Some (key, plain)"
    using find_key_unique [OF key(1) ct(3)] by blast
  have "find_epoch_key cr local_id keys ?h (encode_meshsec_header ?h) ct [lo..<Suc hi]
      = Some (epoch, key, plain)"
    using fk epoch epoch_low_unique [of _ lo hi epoch]
    by (intro find_epoch_key_unique) (auto simp: seal_header_def simp del: upt_Suc)
  then show ?thesis
    using wf dec fresh pack_Ok(4) [OF plain]
    by (simp add: open_bytes_def packet open_epochs_find open_authenticated_def seal_header_def
        del: upt_Suc)
qed

theorem seal_open_roundtrip_witness:
  "\<exists>packet. seal_bytes sample_crypto [5, 6] sample_ctx 9 77 = Ok packet
     \<and> fst (open_bytes sample_crypto packet [sample_key] ''b'' (8, 10) (replay_cache_new 1024))
       = Ok (''peer-a'', [5, 6])"
proof -
  have salt: "length (sc_boot_salt sample_ctx) = 4" by (simp add: sample_ctx_def)
  obtain plain where "pack_meshsec_plaintext [5, 6] = Ok plain"
    using pack_total [of "[5, 6]"] by (auto simp: is_Ok_iff)
  then obtain packet where packet: "seal_bytes sample_crypto [5, 6] sample_ctx 9 77 = Ok packet"
    using seal_Ok [OF sample_aead_ok salt] by metis
  then have "open_bytes sample_crypto packet [sample_key] ''b'' (8, 10) (replay_cache_new 1024)
      = (Ok (ok_peer_id sample_key, [5, 6]),
         snd (check_and_insert (replay_cache_new 1024) (ok_peer_id sample_key) 9 (sc_boot_salt sample_ctx) (unat (77 :: u64))))"
    by (rule seal_open_roundtrip [OF sample_aead_ok salt _ _ sample_peer_key])
       (simp, simp, simp, simp, rule fresh_cache_accepts)
  with packet show ?thesis by (simp add: sample_key_def)
qed

text \<open>C8: a packet is opened successfully at most once. Over any sequence of packets given to
  \<open>open_bytes\<close> with the same keys and accepted epochs on a fresh cache of the configured size, the
  accepted packets are pairwise distinct.\<close>

theorem open_accepts_at_most_once:
  "distinct (accepted_calls (open_step cr keys local_id epochs_ok)
     (replay_cache_new MESHSEC_REPLAY_WINDOW_BITS) packets)"
proof -
  have "replay_stands_for MESHSEC_REPLAY_WINDOW_BITS (replay_cache_new MESHSEC_REPLAY_WINDOW_BITS) {}"
    unfolding replay_stands_for_def
    using replay_rel_new [of MESHSEC_REPLAY_WINDOW_BITS] by (simp add: MESHSEC_REPLAY_WINDOW_BITS_def)
  then have "open_stands_for MESHSEC_REPLAY_WINDOW_BITS cr keys local_id epochs_ok
      (replay_cache_new MESHSEC_REPLAY_WINDOW_BITS) {}"
    by (auto simp: open_stands_for_def)
  then show ?thesis using opener.accepted_fresh_distinct by blast
qed

text \<open>Unauthenticated traffic leaves the replay state alone. Either a configured key at an
  accepted epoch decrypts the packet, or \<open>open_bytes\<close> answers an error and returns the cache as it
  was.\<close>

lemma open_touches_replay_only_authenticated:
  "(\<exists>key \<in> set keys. \<exists>epoch \<in> {lo..hi}. \<exists>header plain.
      decode_meshsec_header packet = Ok header
      \<and> meshsec_try_decrypt cr key local_id epoch header (take MESHSEC_HEADER_LEN packet)
          (drop MESHSEC_HEADER_LEN packet) = Some plain)
   \<or> (\<exists>e. open_bytes cr packet keys local_id (lo, hi) rc = (Err e, rc))"
proof (cases "decode_meshsec_header packet")
  case (Inr h)
  let ?found = "find_epoch_key cr local_id keys h (take MESHSEC_HEADER_LEN packet)
      (drop MESHSEC_HEADER_LEN packet) [lo..<Suc hi]"
  show ?thesis
  proof (cases ?found)
    case None
    with Inr show ?thesis by (simp add: open_bytes_def open_epochs_find del: upt_Suc)
  next
    case (Some f)
    then obtain epoch key plain where "?found = Some (epoch, key, plain)" by (cases f) auto
    from find_epoch_key_Some [OF this] Inr show ?thesis by fastforce
  qed
qed (simp add: open_bytes_def)

text \<open>Padding. Packing succeeds exactly for up to 1022 clear bytes, the packed plaintext has one
  of the three bucket sizes, and unpacking returns the clear bytes.\<close>

lemma pack_unpack:
  "(case pack_meshsec_plaintext clear of
      Inl e \<Rightarrow> length clear > MESHSEC_MAX_CLEAR_LEN \<and> e = MsPayloadTooLarge
    | Inr plain \<Rightarrow> length clear \<le> MESHSEC_MAX_CLEAR_LEN
        \<and> length plain \<in> set MESHSEC_PADDING_BUCKETS \<and> unpack_meshsec_plaintext plain = Ok clear)"
proof (cases "pack_meshsec_plaintext clear")
  case (Inl e)
  then show ?thesis
    by (auto simp: pack_meshsec_plaintext_def bucket_len_cases MESHSEC_MAX_CLEAR_LEN_def
        split: if_splits)
next
  case (Inr plain)
  with pack_Ok [OF Inr] show ?thesis
    by (simp add: MESHSEC_MAX_CLEAR_LEN_def MESHSEC_PADDING_BUCKETS_def)
qed

end
