(* ===== verification/Ordered_Map.thy ===== *)
theory Ordered_Map
  imports Mesh_Prelude
begin

text \<open>
  Rust's \<^verbatim>\<open>BTreeMap\<close> as the code uses it: a finite map whose iteration follows the key order. It is
  an association list kept sorted and free of duplicate keys (\<open>om_ok\<close>), so that iteration order is
  the list order and every operation computes. The locale \<open>ordered_dict\<close> is the contract its
  clients use.
\<close>

type_synonym ('k, 'v) omap = "('k \<times> 'v) list"

abbreviation om_get :: "('k, 'v) omap \<Rightarrow> 'k \<Rightarrow> 'v option" where
  "om_get \<equiv> map_of"

abbreviation om_keys :: "('k, 'v) omap \<Rightarrow> 'k list" where
  "om_keys m \<equiv> map fst m"

fun om_put :: "'k::linorder \<Rightarrow> 'v \<Rightarrow> ('k, 'v) omap \<Rightarrow> ('k, 'v) omap" where
  "om_put k v [] = [(k, v)]"
| "om_put k v ((k', v') # m) =
     (if k < k' then (k, v) # (k', v') # m
      else if k = k' then (k, v) # m
      else (k', v') # om_put k v m)"

definition om_del :: "'k \<Rightarrow> ('k, 'v) omap \<Rightarrow> ('k, 'v) omap" where
  "om_del k m = filter (\<lambda>kv. fst kv \<noteq> k) m"

definition om_ok :: "('k::linorder, 'v) omap \<Rightarrow> bool" where
  "om_ok m \<longleftrightarrow> sorted_wrt (<) (om_keys m)"

lemma om_ok_Nil [simp]: "om_ok []"
  by (simp add: om_ok_def)

lemma om_ok_Cons [simp]: "om_ok ((k, v) # m) \<longleftrightarrow> (\<forall>k' \<in> fst ` set m. k < k') \<and> om_ok m"
  by (simp add: om_ok_def)

lemma om_ok_distinct: "om_ok m \<Longrightarrow> distinct (om_keys m)"
  by (simp add: om_ok_def strict_sorted_iff)

lemma om_get_put [simp]: "om_get (om_put k v m) = (om_get m)(k \<mapsto> v)"
  by (induction m) (auto simp: fun_eq_iff)

lemma fst_set_om_put: "fst ` set (om_put k v m) = insert k (fst ` set m)"
  by (induction k v m rule: om_put.induct) auto

lemma set_om_put_fresh: "om_get m k = None \<Longrightarrow> set (om_put k v m) = insert (k, v) (set m)"
  by (induction k v m rule: om_put.induct) (auto split: if_splits)

lemma om_ok_put [simp]: "om_ok m \<Longrightarrow> om_ok (om_put k v m)"
  by (induction k v m rule: om_put.induct) (force simp: fst_set_om_put)+

lemma om_get_del [simp]: "om_get (om_del k m) = (om_get m)(k := None)"
  by (induction m) (auto simp: om_del_def fun_eq_iff)

lemma om_ok_del [simp]: "om_ok m \<Longrightarrow> om_ok (om_del k m)"
  by (simp add: om_ok_def om_del_def distinct_map_filter sorted_wrt_map sorted_wrt_filter)

lemma om_get_None: "om_get m k = None \<longleftrightarrow> k \<notin> set (om_keys m)"
  by (simp add: map_of_eq_None_iff)

lemma om_get_Some: "om_get m k \<noteq> None \<longleftrightarrow> k \<in> set (om_keys m)"
  using om_get_None [of m k] by simp

lemma om_get_in: "om_ok m \<Longrightarrow> (k, v) \<in> set m \<Longrightarrow> om_get m k = Some v"
  by (simp add: om_ok_distinct)

lemma length_om_del: "om_get m k \<noteq> None \<Longrightarrow> length (om_del k m) < length m"
  by (induction m) (auto simp: om_del_def le_imp_less_Suc split: if_splits)

lemma set_om_keys_del: "set (om_keys (om_del k m)) = set (om_keys m) - {k}"
  by (auto simp: om_del_def)

lemma set_om_keys_put: "set (om_keys (om_put k v m)) = insert k (set (om_keys m))"
  by (simp add: fst_set_om_put)

text \<open>The contract: lookups after each update, and the order of iteration.\<close>

locale ordered_dict =
  fixes get :: "'m \<Rightarrow> 'k::linorder \<Rightarrow> 'v option"
    and put :: "'k \<Rightarrow> 'v \<Rightarrow> 'm \<Rightarrow> 'm"
    and del :: "'k \<Rightarrow> 'm \<Rightarrow> 'm"
    and keys :: "'m \<Rightarrow> 'k list"
    and ok :: "'m \<Rightarrow> bool"
  assumes get_put: "ok m \<Longrightarrow> get (put k v m) = (get m)(k \<mapsto> v)"
    and get_del: "ok m \<Longrightarrow> get (del k m) = (get m)(k := None)"
    and ok_put: "ok m \<Longrightarrow> ok (put k v m)"
    and ok_del: "ok m \<Longrightarrow> ok (del k m)"
    and keys_sorted: "ok m \<Longrightarrow> sorted_wrt (<) (keys m)"
    and keys_dom: "ok m \<Longrightarrow> set (keys m) = dom (get m)"
begin

lemma keys_put: "ok m \<Longrightarrow> set (keys (put k v m)) = insert k (set (keys m))"
  by (simp add: keys_dom get_put ok_put)

lemma keys_del: "ok m \<Longrightarrow> set (keys (del k m)) = set (keys m) - {k}"
  by (auto simp: keys_dom get_del ok_del)

lemma keys_canonical: "ok m \<Longrightarrow> ok m' \<Longrightarrow> get m = get m' \<Longrightarrow> keys m = keys m'"
  using keys_sorted [of m] keys_sorted [of m'] keys_dom [of m] keys_dom [of m']
  by (simp add: strict_sorted_equal)

end

interpretation om: ordered_dict om_get om_put om_del om_keys om_ok
proof
  show "sorted_wrt (<) (om_keys m)" if "om_ok m" for m using that by (simp add: om_ok_def)
qed (simp_all add: dom_map_of_conv_image_fst)

end
