(* ===== verification/Reorder.thy ===== *)
theory Reorder
  imports Wire Ordered_Map
begin

text \<open>
  Reordering (\<^verbatim>\<open>lib/mb-reorder/src/lib.rs\<close>): \<open>ReorderBuffer\<close>, which releases payloads in sequence
  order, and \<open>FamilyReorderState\<close>, which adds a bounded window, duplicate suppression and the
  feedback sent to the sender. Both are instances of the locale \<open>sequencer\<close>, in which in-order,
  exactly-once delivery is proved once. Sequence numbers are natural numbers; the increments of the
  frontier go through \<open>wrap64\<close>.
\<close>

section \<open>ReorderBuffer\<close>

record ReorderBuffer =
  rb_next :: nat
  rb_pending :: "(nat, bytes) omap"

definition rb_new :: "nat \<Rightarrow> ReorderBuffer" where
  "rb_new start_seq = \<lparr>rb_next = start_seq, rb_pending = []\<rparr>"

definition rb_store :: "ReorderBuffer \<Rightarrow> nat \<Rightarrow> bytes \<Rightarrow> ReorderBuffer" where
  "rb_store rb seq payload =
     (if seq \<ge> rb_next rb \<and> om_get (rb_pending rb) seq = None
      then rb\<lparr>rb_pending := om_put seq payload (rb_pending rb)\<rparr> else rb)"

text \<open>The iterator that \<^verbatim>\<open>insert\<close> returns: one step of it, and running it to its end.\<close>

definition rb_poll :: "ReorderBuffer \<Rightarrow> bytes option \<times> ReorderBuffer" where
  "rb_poll rb =
     (case om_get (rb_pending rb) (rb_next rb) of
        Some v \<Rightarrow> (Some v, rb\<lparr>rb_pending := om_del (rb_next rb) (rb_pending rb),
                            rb_next := wrap64 (rb_next rb + 1)\<rparr>)
      | None \<Rightarrow> (None, rb))"

function rb_drain :: "ReorderBuffer \<Rightarrow> bytes list \<times> ReorderBuffer" where
  "rb_drain rb =
     (case rb_poll rb of
        (None, rb') \<Rightarrow> ([], rb')
      | (Some v, rb') \<Rightarrow> (case rb_drain rb' of (vs, rb'') \<Rightarrow> (v # vs, rb'')))"
  by pat_completeness auto

termination
  by (relation "measure (length \<circ> rb_pending)")
     (auto simp: rb_poll_def length_om_del split: option.splits)

declare rb_drain.simps [simp del]

definition rb_insert :: "ReorderBuffer \<Rightarrow> nat \<Rightarrow> bytes \<Rightarrow> bytes list \<times> ReorderBuffer" where
  "rb_insert rb seq payload = rb_drain (rb_store rb seq payload)"

definition next_expected :: "ReorderBuffer \<Rightarrow> nat" where
  "next_expected rb = rb_next rb"

definition pending_count :: "ReorderBuffer \<Rightarrow> nat" where
  "pending_count rb = length (rb_pending rb)"

definition rb_step :: "ReorderBuffer \<Rightarrow> nat \<times> bytes \<Rightarrow> bytes list \<times> ReorderBuffer" where
  "rb_step rb call = rb_insert rb (fst call) (snd call)"

section \<open>FamilyReorderState\<close>

definition FAMILY_BITMAP_BITS :: nat where
  "FAMILY_BITMAP_BITS = 128"

datatype FamilyPushOutcome =
    FoDeliver "DataPackage list"
  | FoBuffered
  | FoDuplicate
  | FoGap AckNack
  | FoWindowOverflow AckNack

record FamilyReorderState =
  fr_family_id :: string
  fr_next_expected_seq :: nat
  fr_received_bitmap :: "128 word"
  fr_reorder_window :: u16
  fr_repair_deadline_ms :: nat
  fr_buffer :: "(nat, DataPackage) omap"
  fr_highest_seen :: "nat option"
  fr_closed :: "CloseReasonWire option"

definition family_new :: "string \<Rightarrow> nat \<Rightarrow> u16 \<Rightarrow> nat \<Rightarrow> FamilyReorderState" where
  "family_new family_id start_seq reorder_window repair_deadline_ms =
     \<lparr>fr_family_id = family_id, fr_next_expected_seq = start_seq, fr_received_bitmap = 0,
      fr_reorder_window = reorder_window, fr_repair_deadline_ms = repair_deadline_ms,
      fr_buffer = [], fr_highest_seen = None, fr_closed = None\<rparr>"

definition family_window :: "FamilyReorderState \<Rightarrow> nat" where
  "family_window s = min (unat (fr_reorder_window s)) FAMILY_BITMAP_BITS"

definition rebuild_bitmap :: "FamilyReorderState \<Rightarrow> FamilyReorderState" where
  "rebuild_bitmap s =
     s\<lparr>fr_received_bitmap :=
         foldl (\<lambda>bits k. let d = k - fr_next_expected_seq s in
                  if d < FAMILY_BITMAP_BITS then bits OR push_bit d 1 else bits)
           0 (om_keys (fr_buffer s))\<rparr>"

text \<open>The loop of \<^verbatim>\<open>ack_snapshot\<close> over \<^verbatim>\<open>next_expected_seq..=highest\<close>, with the open run as a state.\<close>

fun ack_scan :: "(nat \<Rightarrow> bool) \<Rightarrow> nat list \<Rightarrow> nat option \<Rightarrow> SeqRange list \<times> nat option" where
  "ack_scan present [] run_start = ([], run_start)"
| "ack_scan present (seq # seqs) run_start =
     (if present seq then
        (case run_start of
           Some start \<Rightarrow>
             (case ack_scan present seqs None of
                (rs, r) \<Rightarrow> (\<lparr>sr_start = of_nat start, sr_end = of_nat (seq - 1)\<rparr> # rs, r))
         | None \<Rightarrow> ack_scan present seqs None)
      else ack_scan present seqs (if run_start = None then Some seq else run_start))"

definition missing_ranges_of :: "(nat \<Rightarrow> bool) \<Rightarrow> nat \<Rightarrow> nat \<Rightarrow> SeqRange list" where
  "missing_ranges_of present lo highest =
     (case ack_scan present [lo ..< Suc highest] None of
        (rs, None) \<Rightarrow> rs
      | (rs, Some start) \<Rightarrow> rs @ [\<lparr>sr_start = of_nat start, sr_end = of_nat highest\<rparr>])"

definition ack_snapshot :: "FamilyReorderState \<Rightarrow> AckNack" where
  "ack_snapshot s =
     \<lparr>an_family_id = fr_family_id s,
      an_cumulative_seq = of_nat (fr_next_expected_seq s),
      an_received_bitmap = hex_fixed 32 (unat (fr_received_bitmap s)),
      an_missing_ranges =
        (case fr_highest_seen s of None \<Rightarrow> []
         | Some highest \<Rightarrow>
             missing_ranges_of (\<lambda>seq. om_get (fr_buffer s) seq \<noteq> None) (fr_next_expected_seq s) highest)\<rparr>"

text \<open>The \<^verbatim>\<open>while let\<close> loop of \<^verbatim>\<open>push_package\<close>: contiguous packages leave the buffer.\<close>

function family_drain :: "FamilyReorderState \<Rightarrow> DataPackage list \<times> FamilyReorderState" where
  "family_drain s =
     (case om_get (fr_buffer s) (fr_next_expected_seq s) of
        None \<Rightarrow> ([], s)
      | Some p \<Rightarrow>
          (case family_drain (s\<lparr>fr_buffer := om_del (fr_next_expected_seq s) (fr_buffer s),
                                fr_next_expected_seq := wrap64 (fr_next_expected_seq s + 1)\<rparr>) of
             (ps, s') \<Rightarrow> (p # ps, s')))"
  by pat_completeness auto

termination
  by (relation "measure (length \<circ> fr_buffer)") (auto simp: length_om_del)

declare family_drain.simps [simp del]

definition push_package :: "FamilyReorderState \<Rightarrow> DataPackage \<Rightarrow> FamilyPushOutcome \<times> FamilyReorderState" where
  "push_package s package =
     (if fr_closed s \<noteq> None then (FoWindowOverflow (ack_snapshot s), s)
      else let seq = unat (dp_seq package) in
      if seq < fr_next_expected_seq s \<or> om_get (fr_buffer s) seq \<noteq> None then (FoDuplicate, s)
      else if seq = fr_next_expected_seq s then
        (case family_drain (s\<lparr>fr_next_expected_seq := wrap64 (fr_next_expected_seq s + 1)\<rparr>) of
           (delivered, s') \<Rightarrow> (FoDeliver (package # delivered), rebuild_bitmap s'))
      else if seq - fr_next_expected_seq s \<ge> family_window s then
        (let s' = s\<lparr>fr_closed := Some CrProtocolError\<rparr> in (FoWindowOverflow (ack_snapshot s'), s'))
      else
        (let extended_frontier = (case fr_highest_seen s of None \<Rightarrow> True | Some h \<Rightarrow> seq > h);
             s' = rebuild_bitmap
                    (s\<lparr>fr_buffer := om_put seq package (fr_buffer s),
                       fr_highest_seen := Some (case fr_highest_seen s of None \<Rightarrow> seq | Some h \<Rightarrow> max h seq)\<rparr>)
         in if extended_frontier then (FoGap (ack_snapshot s'), s') else (FoBuffered, s')))"

definition family_close_reason :: "FamilyReorderState \<Rightarrow> CloseReasonWire option" where
  "family_close_reason s = fr_closed s"

text \<open>What an outcome hands to the reader.\<close>

fun delivered_of :: "FamilyPushOutcome \<Rightarrow> DataPackage list" where
  "delivered_of (FoDeliver ps) = ps"
| "delivered_of _ = []"

definition family_step :: "FamilyReorderState \<Rightarrow> DataPackage \<Rightarrow> DataPackage list \<times> FamilyReorderState" where
  "family_step s p = (case push_package s p of (r, s') \<Rightarrow> (delivered_of r, s'))"

section \<open>In-order delivery, once for both\<close>

text \<open>The calls made before the component died.\<close>

fun live_calls :: "('s \<Rightarrow> 'c \<Rightarrow> 'r \<times> 's) \<Rightarrow> ('s \<Rightarrow> bool) \<Rightarrow> 's \<Rightarrow> 'c list \<Rightarrow> 'c list" where
  "live_calls step dead s [] = []"
| "live_calls step dead s (c # cs) =
     (if dead (snd (step s c)) then [] else c # live_calls step dead (snd (step s c)) cs)"

text \<open>The first value received for each key.\<close>

definition first_of :: "('c \<Rightarrow> nat) \<Rightarrow> ('c \<Rightarrow> 'p) \<Rightarrow> 'c list \<Rightarrow> nat \<rightharpoonup> 'p" where
  "first_of key val cs = map_of (map (\<lambda>c. (key c, val c)) cs)"

locale sequencer =
  fixes step :: "'s \<Rightarrow> 'c \<Rightarrow> 'p list \<times> 's"
    and key :: "'c \<Rightarrow> nat"
    and val :: "'c \<Rightarrow> 'p"
    and frontier :: "'s \<Rightarrow> nat"
    and held :: "'s \<Rightarrow> nat \<rightharpoonup> 'p"
    and dead :: "'s \<Rightarrow> bool"
    and inv :: "'s \<Rightarrow> bool"
  assumes hole: "inv s \<Longrightarrow> k \<le> frontier s \<Longrightarrow> held s k = None"
    and dead_stays: "dead s \<Longrightarrow> dead (snd (step s c)) \<and> fst (step s c) = [] \<and> frontier (snd (step s c)) = frontier s"
    and dies_quietly: "inv s \<Longrightarrow> dead (snd (step s c)) \<Longrightarrow>
        fst (step s c) = [] \<and> frontier (snd (step s c)) = frontier s"
    and stale_step: "inv s \<Longrightarrow> \<not> dead s \<Longrightarrow> key c < frontier s \<or> held s (key c) \<noteq> None \<Longrightarrow> step s c = ([], s)"
    and ahead_step: "inv s \<Longrightarrow> \<not> dead (snd (step s c)) \<Longrightarrow> frontier s < key c \<Longrightarrow> held s (key c) = None \<Longrightarrow>
        fst (step s c) = [] \<and> frontier (snd (step s c)) = frontier s
        \<and> held (snd (step s c)) = (held s)(key c \<mapsto> val c)"
    and fill_step: "inv s \<Longrightarrow> \<not> dead s \<Longrightarrow> key c = frontier s \<Longrightarrow> key c < u64_max \<Longrightarrow>
        frontier s < frontier (snd (step s c))
        \<and> fst (step s c) = val c # map (\<lambda>i. the (held s i)) [Suc (frontier s) ..< frontier (snd (step s c))]
        \<and> (\<forall>i \<in> {Suc (frontier s) ..< frontier (snd (step s c))}. held s i \<noteq> None)
        \<and> held (snd (step s c)) = held s |` {frontier (snd (step s c)) ..}"
    and inv_step: "inv s \<Longrightarrow> \<not> dead (snd (step s c)) \<Longrightarrow> key c < u64_max \<Longrightarrow> inv (snd (step s c))"
begin

text \<open>After the calls \<open>cs\<close> from a start at \<open>start\<close>, the frontier is the first sequence number not yet
  received, and what is ahead of it is held.\<close>

definition tracks :: "nat \<Rightarrow> 'c list \<Rightarrow> 's \<Rightarrow> bool" where
  "tracks start cs s \<longleftrightarrow> inv s \<and> start \<le> frontier s
     \<and> (\<forall>i \<in> {start ..< frontier s}. i \<in> key ` set cs) \<and> frontier s \<notin> key ` set cs
     \<and> held s = first_of key val cs |` {frontier s ..}"

lemma dom_first_of: "first_of key val cs i = None \<longleftrightarrow> i \<notin> key ` set cs"
  by (simp add: first_of_def map_of_eq_None_iff image_image)

lemma first_of_snoc: "first_of key val (cs @ [c]) i = (case first_of key val cs i of Some v \<Rightarrow> Some v
    | None \<Rightarrow> if i = key c then Some (val c) else None)"
  by (auto simp: first_of_def map_add_def split: option.splits)

lemma first_of_append: "i \<in> key ` set cs \<Longrightarrow> first_of key val (cs @ ds) i = first_of key val cs i"
  using dom_first_of [of cs i] by (auto simp: first_of_def map_add_def split: option.splits)

lemma tracks_stale:
  assumes "tracks start cs s" "start \<le> key c \<longrightarrow> key c \<in> key ` set cs"
  shows "tracks start (cs @ [c]) s"
proof -
  have "first_of key val (cs @ [c]) i = first_of key val cs i" if "frontier s \<le> i" for i
    using assms that dom_first_of [of cs i]
    by (auto simp: first_of_snoc tracks_def split: option.splits)
  then have "first_of key val (cs @ [c]) |` {frontier s ..} = first_of key val cs |` {frontier s ..}"
    by (auto simp: fun_eq_iff restrict_map_def)
  with assms show ?thesis by (auto simp: tracks_def)
qed

lemma tracks_step:
  assumes t: "tracks start cs s" and alive: "\<not> dead s" "\<not> dead (snd (step s c))"
    and bound: "key c < u64_max"
  shows "tracks start (cs @ [c]) (snd (step s c)) \<and> frontier s \<le> frontier (snd (step s c))
    \<and> fst (step s c) = map (\<lambda>i. the (first_of key val (cs @ [c]) i)) [frontier s ..< frontier (snd (step s c))]"
proof -
  let ?s' = "snd (step s c)"
  from t have I: "inv s" and lo: "start \<le> frontier s"
    and got: "\<And>i. i \<in> {start ..< frontier s} \<Longrightarrow> i \<in> key ` set cs"
    and hole_s: "frontier s \<notin> key ` set cs" and held_s: "held s = first_of key val cs |` {frontier s ..}"
    by (auto simp: tracks_def)
  have held_iff: "held s i \<noteq> None \<longleftrightarrow> frontier s < i \<and> i \<in> key ` set cs" for i
    using hole_s dom_first_of [of cs i] by (cases "i = frontier s") (auto simp: held_s restrict_map_def)
  consider (stale) "key c < frontier s \<or> held s (key c) \<noteq> None"
    | (ahead) "frontier s < key c" "held s (key c) = None" | (fill) "key c = frontier s" by linarith
  then show ?thesis
  proof cases
    case stale
    then have "start \<le> key c \<longrightarrow> key c \<in> key ` set cs" using got [of "key c"] held_iff by auto
    with t stale \<open>inv s\<close> alive show ?thesis
      using stale_step [of s c] tracks_stale [of start cs s c] by simp
  next
    case ahead
    then have new: "key c \<notin> key ` set cs" using held_iff by blast
    note h = ahead_step [OF I alive(2) ahead]
    have "held ?s' = first_of key val (cs @ [c]) |` {frontier ?s' ..}"
      using h new ahead(1) dom_first_of [of cs "key c"]
      by (auto simp: fun_eq_iff restrict_map_def held_s first_of_snoc split: option.splits)
    with h ahead(1) lo got hole_s inv_step [OF I alive(2) bound] show ?thesis
      by (auto simp: tracks_def)
  next
    case fill
    note h = fill_step [OF I alive(1) fill bound]
    note Inv' = inv_step [OF I alive(2) bound]
    have new: "first_of key val cs (frontier s) = None" using hole_s dom_first_of by blast
    have first: "first_of key val (cs @ [c]) i = (if i = frontier s then Some (val c) else first_of key val cs i)" for i
      using new by (auto simp: first_of_snoc fill split: option.splits)
    have held': "held ?s' = first_of key val (cs @ [c]) |` {frontier ?s' ..}"
      using h by (auto simp: fun_eq_iff restrict_map_def held_s first)
    have "frontier ?s' \<notin> key ` set (cs @ [c])"
    proof -
      have "held ?s' (frontier ?s') = None" by (rule hole [OF Inv' order_refl])
      then have "first_of key val (cs @ [c]) (frontier ?s') = None" by (simp add: held' restrict_map_def)
      then show ?thesis by (simp only: dom_first_of not_False_eq_True)
    qed
    moreover have "i \<in> key ` set (cs @ [c])" if "i \<in> {start ..< frontier ?s'}" for i
      using that h got [of i] held_iff [of i] fill by (cases i "frontier s" rule: linorder_cases) auto
    moreover have "fst (step s c) = map (\<lambda>i. the (first_of key val (cs @ [c]) i)) [frontier s ..< frontier ?s']"
      using h by (simp add: upt_conv_Cons first held_s restrict_map_def)
    ultimately show ?thesis using Inv' h held' lo by (simp add: tracks_def)
  qed
qed

lemma dead_run: "dead s \<Longrightarrow> concat (fst (run_steps step s cs)) = [] \<and> frontier (snd (run_steps step s cs)) = frontier s"
  using dead_stays by (induction cs arbitrary: s) (auto simp: run_steps_Cons_eq simp del: run_steps.simps(2))

lemma run_tracks:
  assumes "tracks start cs s" "\<not> dead s" "\<forall>c \<in> set rs. key c < u64_max"
  defines "s' \<equiv> snd (run_steps step s rs)" and "live \<equiv> cs @ live_calls step dead s rs"
  shows "concat (fst (run_steps step s rs)) = map (\<lambda>i. the (first_of key val live i)) [frontier s ..< frontier s']
    \<and> frontier s \<le> frontier s' \<and> (\<forall>i \<in> {start ..< frontier s'}. i \<in> key ` set live)
    \<and> frontier s' \<notin> key ` set live"
  using assms(1-3) unfolding s'_def live_def
proof (induction rs arbitrary: cs s)
  case Nil
  then show ?case by (auto simp: tracks_def)
next
  case (Cons c rs)
  show ?case
  proof (cases "dead (snd (step s c))")
    case True
    with Cons.prems dies_quietly [of s c] dead_run [OF True, of rs] show ?thesis
      by (auto simp: run_steps_Cons_eq tracks_def simp del: run_steps.simps(2))
  next
    case False
    let ?s1 = "snd (step s c)"
    from Cons.prems have "key c < u64_max" by simp
    note st = tracks_step [OF Cons.prems(1,2) False this]
    note ih = Cons.IH [of "cs @ [c]" ?s1]
    let ?fin = "frontier (snd (run_steps step ?s1 rs))"
    let ?live = "cs @ c # live_calls step dead ?s1 rs"
    have ih': "concat (fst (run_steps step ?s1 rs)) = map (\<lambda>i. the (first_of key val ?live i)) [frontier ?s1 ..< ?fin]"
      "frontier ?s1 \<le> ?fin" "\<forall>i \<in> {start ..< ?fin}. i \<in> key ` set ?live" "?fin \<notin> key ` set ?live"
      using ih st False Cons.prems by simp_all
    have "map (\<lambda>i. the (first_of key val (cs @ [c]) i)) [frontier s ..< frontier ?s1]
        = map (\<lambda>i. the (first_of key val ?live i)) [frontier s ..< frontier ?s1]"
    proof (rule map_cong [OF refl])
      fix i assume "i \<in> set [frontier s ..< frontier ?s1]"
      then have "i \<in> key ` set (cs @ [c])"
        using st Cons.prems(1) unfolding tracks_def by (metis atLeastLessThan_iff set_upt order_trans)
      from first_of_append [OF this, of "live_calls step dead ?s1 rs"]
      show "the (first_of key val (cs @ [c]) i) = the (first_of key val ?live i)" by simp
    qed
    with st ih' have out: "concat (fst (run_steps step s (c # rs)))
        = map (\<lambda>i. the (first_of key val ?live i)) ([frontier s ..< frontier ?s1] @ [frontier ?s1 ..< ?fin])"
      by (simp add: run_steps_Cons_eq del: run_steps.simps(2))
    have "[frontier s ..< frontier ?s1] @ [frontier ?s1 ..< ?fin] = [frontier s ..< ?fin]"
      using st ih'(2) upt_add_eq_append [of "frontier s" "frontier ?s1" "?fin - frontier ?s1"] by simp
    with out st ih' False show ?thesis
      by (simp add: run_steps_Cons_eq del: run_steps.simps(2) map_append)
  qed
qed

end

section \<open>Draining a contiguous run\<close>

text \<open>The loop both components run, on the map and the frontier alone.\<close>

function om_drain :: "nat \<Rightarrow> (nat, 'v) omap \<Rightarrow> 'v list \<times> nat \<times> (nat, 'v) omap" where
  "om_drain n m =
     (case om_get m n of
        None \<Rightarrow> ([], n, m)
      | Some v \<Rightarrow> (case om_drain (wrap64 (n + 1)) (om_del n m) of (vs, n', m') \<Rightarrow> (v # vs, n', m')))"
  by pat_completeness auto

termination
  by (relation "measure (\<lambda>(n, m). length m)") (auto simp: length_om_del)

declare om_drain.simps [simp del]

lemma om_drain_None: "om_get m n = None \<Longrightarrow> om_drain n m = ([], n, m)"
  by (subst om_drain.simps) simp

lemma om_drain_Some:
  "om_get m n = Some v \<Longrightarrow> om_drain n m = (case om_drain (wrap64 (n + 1)) (om_del n m) of (vs, n', m') \<Rightarrow> (v # vs, n', m'))"
  by (subst om_drain.simps) simp

lemma rb_drain_eq:
  "rb_drain rb = (case om_drain (rb_next rb) (rb_pending rb) of
     (vs, n, m) \<Rightarrow> (vs, rb\<lparr>rb_next := n, rb_pending := m\<rparr>))"
proof (induction rb rule: rb_drain.induct)
  case (1 rb)
  show ?case
  proof (cases "om_get (rb_pending rb) (rb_next rb)")
    case None
    then show ?thesis by (subst rb_drain.simps) (simp add: rb_poll_def om_drain_None)
  next
    case (Some v)
    then have "rb_poll rb = (Some v, rb\<lparr>rb_pending := om_del (rb_next rb) (rb_pending rb),
        rb_next := wrap64 (rb_next rb + 1)\<rparr>)" by (simp add: rb_poll_def)
    with 1 [OF this [symmetric] refl] Some show ?thesis
      by (subst rb_drain.simps) (simp add: om_drain_Some split: prod.splits)
  qed
qed

lemma family_drain_eq:
  "family_drain s = (case om_drain (fr_next_expected_seq s) (fr_buffer s) of
     (vs, n, m) \<Rightarrow> (vs, s\<lparr>fr_next_expected_seq := n, fr_buffer := m\<rparr>))"
proof (induction s rule: family_drain.induct)
  case (1 s)
  show ?case
  proof (cases "om_get (fr_buffer s) (fr_next_expected_seq s)")
    case None
    then show ?thesis by (subst family_drain.simps) (simp add: om_drain_None)
  next
    case (Some v)
    with 1 show ?thesis by (subst family_drain.simps) (simp add: om_drain_Some split: prod.splits)
  qed
qed

lemma om_drain_spec:
  assumes "om_drain n m = (vs, n', m')" "om_ok m" "\<forall>k \<in> set (om_keys m). n \<le> k \<and> k < u64_max"
  shows "n \<le> n' \<and> vs = map (\<lambda>i. the (om_get m i)) [n ..< n'] \<and> (\<forall>i \<in> {n ..< n'}. om_get m i \<noteq> None)
    \<and> om_get m n' = None \<and> om_get m' = om_get m |` {n' ..} \<and> om_ok m'"
  using assms
proof (induction n m arbitrary: vs n' m' rule: om_drain.induct)
  case (1 n m)
  show ?case
  proof (cases "om_get m n")
    case None
    have "(om_get m |` {n ..}) i = om_get m i" for i
      using "1.prems"(3) om_get_None [of m i] by (cases "n \<le> i") (auto simp: restrict_map_def)
    then have "om_get m |` {n ..} = om_get m" by (rule ext)
    moreover from None "1.prems"(1) have "vs = []" "n' = n" "m' = m" by (simp_all add: om_drain_None)
    ultimately show ?thesis using None "1.prems"(2) by simp
  next
    case (Some v)
    then have n: "n < u64_max" using "1.prems"(3) om_get_Some [of m n] by auto
    then have w: "wrap64 (n + 1) = Suc n" by (simp add: u64_max_def)
    from "1.prems"(1) Some w obtain vs1 where rec: "om_drain (Suc n) (om_del n m) = (vs1, n', m')" "vs = v # vs1"
      by (auto simp: om_drain_Some split: prod.splits)
    have keys: "\<forall>k \<in> set (om_keys (om_del n m)). Suc n \<le> k \<and> k < u64_max"
      using "1.prems"(3) unfolding set_om_keys_del by (auto simp: Suc_le_eq le_less)
    from "1.prems"(2) have "om_ok (om_del n m)" by simp
    note ih = "1.IH" [OF Some, unfolded w, OF rec(1) this keys]
    then have le: "Suc n \<le> n'" by simp
    then have up: "[n ..< n'] = n # [Suc n ..< n']" by (simp add: upt_conv_Cons)
    have "vs = map (\<lambda>i. the (om_get m i)) [n ..< n']"
      using ih rec(2) Some by (simp add: up)
    moreover have "om_get m i \<noteq> None" if "i \<in> {n ..< n'}" for i
      using that ih Some by (cases "i = n") (auto split: if_splits)
    moreover have "om_get m' = om_get m |` {n' ..}"
      using ih le by (auto simp: fun_eq_iff restrict_map_def)
    ultimately show ?thesis using ih le by simp
  qed
qed

definition rb_inv :: "ReorderBuffer \<Rightarrow> bool" where
  "rb_inv rb \<longleftrightarrow> om_ok (rb_pending rb) \<and> (\<forall>k \<in> set (om_keys (rb_pending rb)). rb_next rb < k \<and> k < u64_max)"

text \<open>One insert on a buffer that satisfies the invariant, by the position of its sequence number.\<close>

lemma rb_drain_idle: "rb_inv rb \<Longrightarrow> rb_drain rb = ([], rb)"
  using om_get_None [of "rb_pending rb" "rb_next rb"]
  by (auto simp: rb_drain_eq rb_inv_def om_drain_None)

lemma rb_step_stale:
  "rb_inv rb \<Longrightarrow> fst c < rb_next rb \<or> om_get (rb_pending rb) (fst c) \<noteq> None \<Longrightarrow> rb_step rb c = ([], rb)"
  by (auto simp: rb_step_def rb_insert_def rb_store_def rb_drain_idle)

lemma rb_step_ahead:
  assumes "rb_inv rb" "rb_next rb < fst c" "om_get (rb_pending rb) (fst c) = None" 
  shows "rb_step rb c = ([], rb\<lparr>rb_pending := om_put (fst c) (snd c) (rb_pending rb)\<rparr>)"
proof -
  have "om_get (rb_pending rb) (rb_next rb) = None"
    using assms(1) om_get_None [of "rb_pending rb"] by (auto simp: rb_inv_def)
  with assms show ?thesis
    by (simp add: rb_step_def rb_insert_def rb_store_def rb_drain_eq om_drain_None)
qed

text \<open>Draining after the frontier's own value was put into the map; shared by both components.\<close>

lemma om_drain_fill:
  assumes ok: "om_ok m" and above: "\<forall>k \<in> set (om_keys m). n < k \<and> k < u64_max" and n: "n < u64_max"
    and d: "om_drain (Suc n) m = (vs, n', m')"
  shows "n < n' \<and> vs = map (\<lambda>i. the (om_get m i)) [Suc n ..< n']
    \<and> (\<forall>i \<in> {Suc n ..< n'}. om_get m i \<noteq> None) \<and> om_get m' = om_get m |` {n' ..}
    \<and> om_ok m' \<and> (\<forall>k \<in> set (om_keys m'). n' < k \<and> k < u64_max)"
proof -
  have "\<forall>k \<in> set (om_keys m). Suc n \<le> k \<and> k < u64_max" using above by (simp add: Suc_le_eq)
  note sp = om_drain_spec [OF d ok this]
  have "n' < k \<and> k < u64_max" if "k \<in> set (om_keys m')" for k
  proof -
    from that have "om_get m' k \<noteq> None" by (simp only: om_get_Some)
    with sp have "n' \<le> k" "om_get m k \<noteq> None" by (auto simp: restrict_map_def split: if_splits)
    moreover from this sp have "k \<noteq> n'" by auto
    ultimately show ?thesis using above om_get_Some [of m k] by auto
  qed
  with sp show ?thesis by auto
qed

lemma om_del_put_new: "om_ok m \<Longrightarrow> om_get m k = None \<Longrightarrow> om_del k (om_put k v m) = m"
proof (induction m)
  case (Cons kv m)
  obtain k' v' where kv: "kv = (k', v')" by (cases kv)
  have "om_del k m = m" using Cons.prems by (auto simp: om_del_def kv filter_id_conv map_of_eq_None_iff split: if_splits)
  with Cons kv show ?case by (auto simp: om_del_def split: if_splits)
qed (simp add: om_del_def)

lemma rb_step_fill:
  assumes inv: "rb_inv rb" and c: "fst c = rb_next rb" "fst c < u64_max"
  obtains vs n' m' where "om_drain (Suc (rb_next rb)) (rb_pending rb) = (vs, n', m')"
    "rb_step rb c = (snd c # vs, rb\<lparr>rb_next := n', rb_pending := m'\<rparr>)"
proof -
  obtain vs n' m' where d: "om_drain (Suc (rb_next rb)) (rb_pending rb) = (vs, n', m')"
    by (metis prod_cases3)
  have ok: "om_ok (rb_pending rb)" and none: "om_get (rb_pending rb) (rb_next rb) = None"
    using inv om_get_None [of "rb_pending rb" "rb_next rb"] by (auto simp: rb_inv_def)
  have "om_drain (rb_next rb) (om_put (rb_next rb) (snd c) (rb_pending rb)) = (snd c # vs, n', m')"
    using d c om_del_put_new [OF ok none] by (simp add: om_drain_Some u64_max_def)
  with c none have "rb_step rb c = (snd c # vs, rb\<lparr>rb_next := n', rb_pending := m'\<rparr>)"
    by (simp add: rb_step_def rb_insert_def rb_store_def rb_drain_eq)
  with d that show ?thesis by blast
qed

interpretation rb: sequencer rb_step fst snd rb_next "\<lambda>rb. om_get (rb_pending rb)" "\<lambda>_. False" rb_inv
proof
  fix s :: ReorderBuffer and k :: nat
  assume "rb_inv s" "k \<le> rb_next s"
  then show "om_get (rb_pending s) k = None" by (auto simp: rb_inv_def om_get_None)
next
  fix s :: ReorderBuffer and c :: "nat \<times> bytes"
  assume "rb_inv s" "fst c < rb_next s \<or> om_get (rb_pending s) (fst c) \<noteq> None"
  then show "rb_step s c = ([], s)" by (rule rb_step_stale)
next
  fix s :: ReorderBuffer and c :: "nat \<times> bytes"
  assume "rb_inv s" "rb_next s < fst c" "om_get (rb_pending s) (fst c) = None"
  then show "fst (rb_step s c) = [] \<and> rb_next (snd (rb_step s c)) = rb_next s
      \<and> om_get (rb_pending (snd (rb_step s c))) = (om_get (rb_pending s))(fst c \<mapsto> snd c)"
    by (simp add: rb_step_ahead)
next
  fix s :: ReorderBuffer and c :: "nat \<times> bytes"
  assume inv: "rb_inv s" and c: "fst c = rb_next s" "fst c < u64_max"
  obtain vs n' m' where d: "om_drain (Suc (rb_next s)) (rb_pending s) = (vs, n', m')"
    "rb_step s c = (snd c # vs, s\<lparr>rb_next := n', rb_pending := m'\<rparr>)" by (rule rb_step_fill [OF inv c])
  with om_drain_fill [OF _ _ _ d(1)] inv c
  show "rb_next s < rb_next (snd (rb_step s c))
      \<and> fst (rb_step s c) = snd c # map (\<lambda>i. the (om_get (rb_pending s) i)) [Suc (rb_next s) ..< rb_next (snd (rb_step s c))]
      \<and> (\<forall>i \<in> {Suc (rb_next s) ..< rb_next (snd (rb_step s c))}. om_get (rb_pending s) i \<noteq> None)
      \<and> om_get (rb_pending (snd (rb_step s c))) = om_get (rb_pending s) |` {rb_next (snd (rb_step s c)) ..}"
    by (simp add: rb_inv_def)
next
  fix s :: ReorderBuffer and c :: "nat \<times> bytes"
  assume inv: "rb_inv s" and b: "fst c < u64_max"
  consider "fst c < rb_next s \<or> om_get (rb_pending s) (fst c) \<noteq> None"
    | "rb_next s < fst c" "om_get (rb_pending s) (fst c) = None" | "fst c = rb_next s" by linarith
  then show "rb_inv (snd (rb_step s c))"
  proof cases
    case 2
    with inv b show ?thesis by (auto simp: rb_step_ahead rb_inv_def fst_set_om_put)
  next
    case 3
    obtain vs n' m' where d: "om_drain (Suc (rb_next s)) (rb_pending s) = (vs, n', m')"
      "rb_step s c = (snd c # vs, s\<lparr>rb_next := n', rb_pending := m'\<rparr>)" by (rule rb_step_fill [OF inv 3 b])
    with om_drain_fill [OF _ _ _ d(1)] inv 3 b show ?thesis by (simp add: rb_inv_def)
  qed (use inv in \<open>simp add: rb_step_stale\<close>)
qed auto

section \<open>The family state\<close>

abbreviation pkg_seq :: "DataPackage \<Rightarrow> nat" where
  "pkg_seq p \<equiv> unat (dp_seq p)"

abbreviation family_dead :: "FamilyReorderState \<Rightarrow> bool" where
  "family_dead s \<equiv> fr_closed s \<noteq> None"

definition fam_inv :: "FamilyReorderState \<Rightarrow> bool" where
  "fam_inv s \<longleftrightarrow> om_ok (fr_buffer s)
     \<and> (\<forall>k \<in> set (om_keys (fr_buffer s)). fr_next_expected_seq s < k \<and> k < u64_max)"

lemma rebuild_bitmap_frame [simp]:
  "fr_next_expected_seq (rebuild_bitmap s) = fr_next_expected_seq s"
  "fr_buffer (rebuild_bitmap s) = fr_buffer s"
  "fr_closed (rebuild_bitmap s) = fr_closed s"
  "fr_highest_seen (rebuild_bitmap s) = fr_highest_seen s"
  "fr_reorder_window (rebuild_bitmap s) = fr_reorder_window s"
  "fr_family_id (rebuild_bitmap s) = fr_family_id s"
  by (simp_all add: rebuild_bitmap_def)

lemma push_dead: "family_dead s \<Longrightarrow> push_package s p = (FoWindowOverflow (ack_snapshot s), s)"
  by (simp add: push_package_def)

lemma push_stale:
  "\<not> family_dead s \<Longrightarrow> pkg_seq p < fr_next_expected_seq s \<or> om_get (fr_buffer s) (pkg_seq p) \<noteq> None \<Longrightarrow>
   push_package s p = (FoDuplicate, s)"
  by (simp add: push_package_def Let_def)

lemma push_overflow:
  "\<not> family_dead s \<Longrightarrow> fr_next_expected_seq s < pkg_seq p \<Longrightarrow> om_get (fr_buffer s) (pkg_seq p) = None \<Longrightarrow>
   family_window s \<le> pkg_seq p - fr_next_expected_seq s \<Longrightarrow>
   push_package s p = (FoWindowOverflow (ack_snapshot (s\<lparr>fr_closed := Some CrProtocolError\<rparr>)),
                       s\<lparr>fr_closed := Some CrProtocolError\<rparr>)"
  by (simp add: push_package_def Let_def)

definition family_buffered :: "FamilyReorderState \<Rightarrow> DataPackage \<Rightarrow> FamilyReorderState" where
  "family_buffered s p = rebuild_bitmap
     (s\<lparr>fr_buffer := om_put (pkg_seq p) p (fr_buffer s),
        fr_highest_seen := Some (case fr_highest_seen s of None \<Rightarrow> pkg_seq p | Some h \<Rightarrow> max h (pkg_seq p))\<rparr>)"

lemma push_ahead:
  "\<not> family_dead s \<Longrightarrow> fr_next_expected_seq s < pkg_seq p \<Longrightarrow> om_get (fr_buffer s) (pkg_seq p) = None \<Longrightarrow>
   pkg_seq p - fr_next_expected_seq s < family_window s \<Longrightarrow>
   push_package s p = (if (case fr_highest_seen s of None \<Rightarrow> True | Some h \<Rightarrow> h < pkg_seq p)
       then FoGap (ack_snapshot (family_buffered s p)) else FoBuffered, family_buffered s p)"
  by (simp add: push_package_def Let_def family_buffered_def)

lemma push_fill:
  assumes inv: "fam_inv s" and alive: "\<not> family_dead s"
    and p: "pkg_seq p = fr_next_expected_seq s" "pkg_seq p < u64_max"
  obtains vs n' m' where "om_drain (Suc (fr_next_expected_seq s)) (fr_buffer s) = (vs, n', m')"
    "push_package s p = (FoDeliver (p # vs), rebuild_bitmap (s\<lparr>fr_next_expected_seq := n', fr_buffer := m'\<rparr>))"
proof -
  obtain vs n' m' where d: "om_drain (Suc (fr_next_expected_seq s)) (fr_buffer s) = (vs, n', m')"
    by (metis prod_cases3)
  have "om_get (fr_buffer s) (fr_next_expected_seq s) = None"
    using inv om_get_None [of "fr_buffer s"] by (auto simp: fam_inv_def)
  then have "push_package s p
      = (FoDeliver (p # vs), rebuild_bitmap (s\<lparr>fr_next_expected_seq := n', fr_buffer := m'\<rparr>))"
    using alive p d by (simp add: push_package_def Let_def family_drain_eq u64_max_def)
  with d that show ?thesis by blast
qed

lemma push_fill_closed:
  assumes "fam_inv s" "\<not> family_dead s" "pkg_seq p = fr_next_expected_seq s"
  shows "push_package s p = (r, s') \<Longrightarrow> \<not> family_dead s'"
proof -
  have "om_get (fr_buffer s) (fr_next_expected_seq s) = None"
    using assms(1) om_get_None [of "fr_buffer s"] by (auto simp: fam_inv_def)
  with assms(2,3) show "push_package s p = (r, s') \<Longrightarrow> \<not> family_dead s'"
    by (auto simp: push_package_def Let_def family_drain_eq split: prod.splits)
qed

text \<open>The five situations of a push, as one case rule.\<close>

lemma push_cases:
  obtains (dead) "family_dead s"
  | (stale) "\<not> family_dead s" "pkg_seq p < fr_next_expected_seq s \<or> om_get (fr_buffer s) (pkg_seq p) \<noteq> None"
  | (overflow) "\<not> family_dead s" "fr_next_expected_seq s < pkg_seq p" "om_get (fr_buffer s) (pkg_seq p) = None"
      "family_window s \<le> pkg_seq p - fr_next_expected_seq s"
  | (ahead) "\<not> family_dead s" "fr_next_expected_seq s < pkg_seq p" "om_get (fr_buffer s) (pkg_seq p) = None"
      "pkg_seq p - fr_next_expected_seq s < family_window s"
  | (fill) "\<not> family_dead s" "pkg_seq p = fr_next_expected_seq s"
  by (metis linorder_cases not_le)

lemma family_step_dead: "family_dead s \<Longrightarrow> family_step s p = ([], s)"
  by (simp add: family_step_def push_dead)

lemma family_step_stale:
  "\<not> family_dead s \<Longrightarrow> pkg_seq p < fr_next_expected_seq s \<or> om_get (fr_buffer s) (pkg_seq p) \<noteq> None \<Longrightarrow>
   family_step s p = ([], s)"
  by (simp add: family_step_def push_stale)

lemma snd_family_step: "snd (family_step s p) = snd (push_package s p)"
  by (simp add: family_step_def split: prod.splits)

lemma fam_inv_push:
  assumes inv: "fam_inv s" and b: "pkg_seq p < u64_max"
  shows "fam_inv (snd (push_package s p))"
proof (cases rule: push_cases [where s = s and p = p])
  case ahead
  with inv b show ?thesis
    by (auto simp: push_ahead [OF ahead] family_buffered_def fam_inv_def fst_set_om_put)
next
  case fill
  obtain vs n' m' where "om_drain (Suc (fr_next_expected_seq s)) (fr_buffer s) = (vs, n', m')"
    "push_package s p = (FoDeliver (p # vs), rebuild_bitmap (s\<lparr>fr_next_expected_seq := n', fr_buffer := m'\<rparr>))"
    by (rule push_fill [OF inv fill b])
  with om_drain_fill [OF _ _ _ this(1)] inv fill b show ?thesis by (simp add: fam_inv_def)
qed (use inv in \<open>simp_all add: push_dead push_stale push_overflow fam_inv_def\<close>)

interpretation family: sequencer family_step pkg_seq id fr_next_expected_seq
  "\<lambda>s. om_get (fr_buffer s)" family_dead fam_inv
proof
  fix s k
  assume "fam_inv s" "k \<le> fr_next_expected_seq s"
  then show "om_get (fr_buffer s) k = None" by (auto simp: fam_inv_def om_get_None)
next
  fix s c
  assume "family_dead s"
  then show "family_dead (snd (family_step s c)) \<and> fst (family_step s c) = []
      \<and> fr_next_expected_seq (snd (family_step s c)) = fr_next_expected_seq s" by (simp add: family_step_dead)
next
  fix s c
  assume inv: "fam_inv s" and "family_dead (snd (family_step s c))"
  then show "fst (family_step s c) = [] \<and> fr_next_expected_seq (snd (family_step s c)) = fr_next_expected_seq s"
    by (cases rule: push_cases [where s = s and p = c])
       (auto simp: family_step_def push_dead push_stale push_overflow push_ahead family_buffered_def
         dest: push_fill_closed split: prod.splits)
next
  fix s c
  assume "fam_inv s" "\<not> family_dead s"
    "pkg_seq c < fr_next_expected_seq s \<or> om_get (fr_buffer s) (pkg_seq c) \<noteq> None"
  then show "family_step s c = ([], s)" by (simp add: family_step_stale)
next
  fix s c
  assume "fam_inv s" "\<not> family_dead (snd (family_step s c))" "fr_next_expected_seq s < pkg_seq c"
    "om_get (fr_buffer s) (pkg_seq c) = None"
  then show "fst (family_step s c) = [] \<and> fr_next_expected_seq (snd (family_step s c)) = fr_next_expected_seq s
      \<and> om_get (fr_buffer (snd (family_step s c))) = (om_get (fr_buffer s))(pkg_seq c \<mapsto> id c)"
    by (cases rule: push_cases [where s = s and p = c])
       (auto simp: family_step_def push_dead push_stale push_overflow push_ahead family_buffered_def)
next
  fix s c
  assume inv: "fam_inv s" and alive: "\<not> family_dead s" and c: "pkg_seq c = fr_next_expected_seq s" "pkg_seq c < u64_max"
  obtain vs n' m' where d: "om_drain (Suc (fr_next_expected_seq s)) (fr_buffer s) = (vs, n', m')"
    "push_package s c = (FoDeliver (c # vs), rebuild_bitmap (s\<lparr>fr_next_expected_seq := n', fr_buffer := m'\<rparr>))"
    by (rule push_fill [OF inv alive c])
  then have eq: "family_step s c = (c # vs, rebuild_bitmap (s\<lparr>fr_next_expected_seq := n', fr_buffer := m'\<rparr>))"
    by (simp add: family_step_def)
  from om_drain_fill [OF _ _ _ d(1)] inv c
  show "fr_next_expected_seq s < fr_next_expected_seq (snd (family_step s c))
      \<and> fst (family_step s c) = id c # map (\<lambda>i. the (om_get (fr_buffer s) i))
          [Suc (fr_next_expected_seq s) ..< fr_next_expected_seq (snd (family_step s c))]
      \<and> (\<forall>i \<in> {Suc (fr_next_expected_seq s) ..< fr_next_expected_seq (snd (family_step s c))}. om_get (fr_buffer s) i \<noteq> None)
      \<and> om_get (fr_buffer (snd (family_step s c)))
        = om_get (fr_buffer s) |` {fr_next_expected_seq (snd (family_step s c)) ..}"
    by (simp add: fam_inv_def eq)
next
  fix s c
  assume "fam_inv s" "pkg_seq c < u64_max"
  then show "fam_inv (snd (family_step s c))" by (simp add: snd_family_step fam_inv_push)
qed

section \<open>Feedback\<close>

text \<open>The sequence numbers a list of ranges covers.\<close>

definition covered :: "SeqRange list \<Rightarrow> nat set" where
  "covered rs = {i. \<exists>r \<in> set rs. unat (sr_start r) \<le> i \<and> i \<le> unat (sr_end r)}"

lemma covered_Nil [simp]: "covered [] = {}"
  by (simp add: covered_def)

lemma covered_Cons: "covered (r # rs) = {unat (sr_start r) .. unat (sr_end r)} \<union> covered rs"
  by (auto simp: covered_def)

lemma covered_append: "covered (rs @ rs') = covered rs \<union> covered rs'"
  by (auto simp: covered_def)

lemma unat_of_nat_u64: "n < 2 ^ 64 \<Longrightarrow> unat (of_nat n :: u64) = n"
  by (simp add: unat_of_nat)

definition open_run :: "(nat \<Rightarrow> bool) \<Rightarrow> nat \<Rightarrow> nat option \<Rightarrow> bool" where
  "open_run present a run = (case run of None \<Rightarrow> True | Some st \<Rightarrow> st < a \<and> (\<forall>i \<in> {st ..< a}. \<not> present i))"

definition run_lo :: "nat \<Rightarrow> nat option \<Rightarrow> nat" where
  "run_lo a run = (case run of None \<Rightarrow> a | Some st \<Rightarrow> st)"

lemma ack_scan_covers:
  assumes "ack_scan present [a ..< a + n] run = (rs, r)" "open_run present a run" "a + n \<le> 2 ^ 64"
  shows "open_run present (a + n) r \<and> run_lo a run \<le> run_lo (a + n) r
    \<and> covered rs = {i \<in> {run_lo a run ..< run_lo (a + n) r}. \<not> present i}"
  using assms
proof (induction n arbitrary: a run rs r)
  case (Suc n)
  have up: "[a ..< a + Suc n] = a # [Suc a ..< Suc a + n]" by (simp add: upt_conv_Cons del: upt_Suc)
  have le: "Suc a + n \<le> 2 ^ 64" using Suc.prems(3) by simp
  show ?case
  proof (cases "present a")
    case absent: False
    let ?run = "if run = None then Some a else run"
    have scan: "ack_scan present [Suc a ..< Suc a + n] ?run = (rs, r)"
      using Suc.prems(1) absent unfolding up by simp
    have "open_run present (Suc a) ?run"
      using Suc.prems(2) absent by (auto simp: open_run_def less_Suc_eq split: option.splits)
    note ih = Suc.IH [OF scan this le]
    have "run_lo (Suc a) ?run = run_lo a run" by (simp add: run_lo_def split: option.splits)
    with ih show ?thesis by (simp only: add_Suc add_Suc_right)
  next
    case here: True
    have none: "open_run present (Suc a) None" "run_lo (Suc a) None = Suc a"
      by (simp_all add: open_run_def run_lo_def)
    show ?thesis
    proof (cases run)
      case None
      with Suc.prems(1) here have "ack_scan present [Suc a ..< Suc a + n] None = (rs, r)"
        unfolding up by simp
      note ih = Suc.IH [OF this none(1) le]
      have "{i \<in> {a ..< k}. \<not> present i} = {i \<in> {Suc a ..< k}. \<not> present i}" for k
        using here by (auto simp: Suc_le_eq le_less)
      with ih None none show ?thesis by (auto simp: run_lo_def)
    next
      case (Some st)
      with Suc.prems(1) here obtain rs' where
        rs': "ack_scan present [Suc a ..< Suc a + n] None = (rs', r)"
        "rs = \<lparr>sr_start = of_nat st, sr_end = of_nat (a - 1)\<rparr> # rs'"
        unfolding up by (auto split: prod.splits)
      note ih = Suc.IH [OF rs'(1) none(1) le]
      from Suc.prems(2) Some have st: "st < a" "\<And>i. st \<le> i \<Longrightarrow> i < a \<Longrightarrow> \<not> present i"
        by (auto simp: open_run_def)
      have "st < 2 ^ 64" "a - 1 < 2 ^ 64" using Suc.prems(3) st(1) by linarith+
      then have "covered rs = {st .. a - 1} \<union> covered rs'"
        by (simp only: rs'(2) covered_Cons unat_of_nat_u64 SeqRange.select_convs)
      moreover have "{st .. a - 1} = {st ..< a}" using st(1) by auto
      moreover have "covered rs' = {i \<in> {Suc a ..< run_lo (Suc a + n) r}. \<not> present i}"
        using ih unfolding none(2) by blast
      ultimately have "covered rs = {st ..< a} \<union> {i \<in> {Suc a ..< run_lo (Suc a + n) r}. \<not> present i}"
        by simp
      also have "\<dots> = {i \<in> {st ..< run_lo (Suc a + n) r}. \<not> present i}"
      proof -
        have "Suc a \<le> run_lo (Suc a + n) r" using ih none(2) by simp
        then have "{st ..< run_lo (Suc a + n) r} = {st ..< a} \<union> {a} \<union> {Suc a ..< run_lo (Suc a + n) r}"
          using st(1) by auto
        with here st(2) show ?thesis by auto
      qed
      finally show ?thesis using ih st none Some by (simp add: run_lo_def)
    qed
  qed
qed (auto simp: run_lo_def split: option.splits)

lemma missing_ranges_covered:
  assumes "highest < 2 ^ 64"
  shows "covered (missing_ranges_of present lo highest) = {i \<in> {lo .. highest}. \<not> present i}"
proof (cases "lo \<le> highest")
  case True
  then have fin: "lo + (Suc highest - lo) = Suc highest" by simp
  obtain rs r where scan: "ack_scan present [lo ..< Suc highest] None = (rs, r)"
    by (cases "ack_scan present [lo ..< Suc highest] None")
  have "open_run present (Suc highest) r \<and> lo \<le> run_lo (Suc highest) r
      \<and> covered rs = {i \<in> {lo ..< run_lo (Suc highest) r}. \<not> present i}"
    using ack_scan_covers [of present lo "Suc highest - lo" None rs r] scan assms
    unfolding fin by (simp add: open_run_def run_lo_def del: upt_Suc)
  then have c: "open_run present (Suc highest) r" "lo \<le> run_lo (Suc highest) r"
    "covered rs = {i \<in> {lo ..< run_lo (Suc highest) r}. \<not> present i}" by simp_all
  show ?thesis
  proof (cases r)
    case None
    with scan have "missing_ranges_of present lo highest = rs"
      by (simp add: missing_ranges_of_def del: upt_Suc)
    with c(3) None show ?thesis by (simp add: run_lo_def atLeastLessThanSuc_atLeastAtMost)
  next
    case (Some st)
    with c have st: "lo \<le> st" "st \<le> highest" "\<forall>i \<in> {st .. highest}. \<not> present i"
      by (auto simp: open_run_def run_lo_def)
    from scan Some have "missing_ranges_of present lo highest
        = rs @ [\<lparr>sr_start = of_nat st, sr_end = of_nat highest\<rparr>]"
      by (simp add: missing_ranges_of_def del: upt_Suc)
    moreover have "unat (of_nat st :: u64) = st" "unat (of_nat highest :: u64) = highest"
      using assms st(2) by (simp_all add: unat_of_nat_u64)
    ultimately have "covered (missing_ranges_of present lo highest) = covered rs \<union> {st .. highest}"
      by (simp add: covered_append covered_Cons)
    moreover have "covered rs = {i \<in> {lo ..< st}. \<not> present i}" using c(3) Some by (simp add: run_lo_def)
    moreover have "{i \<in> {lo .. highest}. \<not> present i} = {i \<in> {lo ..< st}. \<not> present i} \<union> {st .. highest}"
    proof (rule set_eqI)
      fix i
      show "i \<in> {i \<in> {lo .. highest}. \<not> present i} \<longleftrightarrow> i \<in> {i \<in> {lo ..< st}. \<not> present i} \<union> {st .. highest}"
        using st by (cases "i < st") auto
    qed
    ultimately show ?thesis by simp
  qed
next
  case False
  then show ?thesis by (simp add: missing_ranges_of_def)
qed

text \<open>The full invariant: everything held lies inside the window, the highest number seen bounds the
  buffer, and the bitmap shows exactly what is held.\<close>

definition fam_wf :: "FamilyReorderState \<Rightarrow> bool" where
  "fam_wf s \<longleftrightarrow> fam_inv s
     \<and> (\<forall>k \<in> set (om_keys (fr_buffer s)). k - fr_next_expected_seq s < family_window s)
     \<and> (\<forall>k \<in> set (om_keys (fr_buffer s)). \<exists>h. fr_highest_seen s = Some h \<and> k \<le> h)
     \<and> (\<forall>h. fr_highest_seen s = Some h \<longrightarrow> h < u64_max)
     \<and> (\<forall>d < 128. bit (fr_received_bitmap s) d \<longleftrightarrow> fr_next_expected_seq s + d \<in> set (om_keys (fr_buffer s)))"

lemma fam_wf_new: "fam_wf (family_new fid start w dl)"
  by (simp add: fam_wf_def fam_inv_def family_new_def)

lemma bitmap_fold:
  "\<forall>k \<in> set ks. n \<le> k \<Longrightarrow> d < 128 \<Longrightarrow>
   bit (foldl (\<lambda>bits k. let d = k - n in if d < FAMILY_BITMAP_BITS then bits OR push_bit d 1 else bits)
         (b :: 128 word) ks) d \<longleftrightarrow> bit b d \<or> n + d \<in> set ks"
proof (induction ks arbitrary: b)
  case (Cons k ks)
  have "bit (push_bit (k - n) 1 :: 128 word) d \<longleftrightarrow> d = k - n"
    using Cons.prems(2) by (auto simp: bit_exp_iff)
  moreover have "d = k - n \<longleftrightarrow> n + d = k" using Cons.prems(1) by auto
  ultimately show ?case
    using Cons by (auto simp: Let_def bit_or_iff FAMILY_BITMAP_BITS_def)
qed simp

lemma bitmap_rebuilt:
  assumes "\<forall>k \<in> set (om_keys (fr_buffer s)). fr_next_expected_seq s \<le> k" "d < 128"
  shows "bit (fr_received_bitmap (rebuild_bitmap s)) d
       \<longleftrightarrow> fr_next_expected_seq s + d \<in> set (om_keys (fr_buffer s))"
  using bitmap_fold [OF assms] by (simp add: rebuild_bitmap_def)

lemma fam_wf_closed: "fam_wf (s\<lparr>fr_closed := c\<rparr>) \<longleftrightarrow> fam_wf s"
  by (simp add: fam_wf_def fam_inv_def family_window_def)

lemma fam_wfD:
  assumes "fam_wf s"
  shows "fam_inv s" "\<And>k. k \<in> set (om_keys (fr_buffer s)) \<Longrightarrow> fr_next_expected_seq s < k"
    "\<And>k. k \<in> set (om_keys (fr_buffer s)) \<Longrightarrow> k - fr_next_expected_seq s < family_window s"
    "\<And>k. k \<in> set (om_keys (fr_buffer s)) \<Longrightarrow> \<exists>h. fr_highest_seen s = Some h \<and> k \<le> h"
    "\<And>h. fr_highest_seen s = Some h \<Longrightarrow> h < u64_max"
  using assms unfolding fam_wf_def fam_inv_def by blast+

lemma fam_wf_buffered:
  assumes wf: "fam_wf s" and p: "fr_next_expected_seq s < pkg_seq p"
    "pkg_seq p - fr_next_expected_seq s < family_window s" "pkg_seq p < u64_max"
    and inv: "fam_inv (family_buffered s p)"
  shows "fam_wf (family_buffered s p)"
proof -
  let ?s = "family_buffered s p"
  have keys: "set (om_keys (fr_buffer ?s)) = insert (pkg_seq p) (set (om_keys (fr_buffer s)))"
    by (simp add: family_buffered_def fst_set_om_put)
  have same: "fr_next_expected_seq ?s = fr_next_expected_seq s" "family_window ?s = family_window s"
    by (simp_all add: family_buffered_def family_window_def)
  have high: "fr_highest_seen ?s = Some (case fr_highest_seen s of None \<Rightarrow> pkg_seq p | Some h \<Rightarrow> max h (pkg_seq p))"
    by (simp add: family_buffered_def)
  have "k \<le> the (fr_highest_seen ?s)" if "k \<in> set (om_keys (fr_buffer ?s))" for k
  proof (cases "k = pkg_seq p")
    case False
    with that have "k \<in> set (om_keys (fr_buffer s))" unfolding keys by blast
    from fam_wfD(4) [OF wf this] show ?thesis by (auto simp: high)
  qed (simp add: high split: option.splits)
  moreover have "the (fr_highest_seen ?s) < u64_max"
    using fam_wfD(5) [OF wf] p(3) unfolding high by (auto split: option.splits)
  moreover have "bit (fr_received_bitmap ?s) d \<longleftrightarrow> fr_next_expected_seq ?s + d \<in> set (om_keys (fr_buffer ?s))"
    if "d < 128" for d
  proof -
    let ?t = "s\<lparr>fr_buffer := om_put (pkg_seq p) p (fr_buffer s),
        fr_highest_seen := Some (case fr_highest_seen s of None \<Rightarrow> pkg_seq p | Some h \<Rightarrow> max h (pkg_seq p))\<rparr>"
    have "\<forall>k \<in> set (om_keys (fr_buffer ?t)). fr_next_expected_seq ?t \<le> k"
      using fam_wfD(2) [OF wf] p(1) by (auto simp: fst_set_om_put less_imp_le)
    from bitmap_rebuilt [OF this that] show ?thesis by (simp add: family_buffered_def)
  qed
  moreover have "k - fr_next_expected_seq s < family_window s" if "k \<in> set (om_keys (fr_buffer ?s))" for k
    using that fam_wfD(3) [OF wf, of k] p(2) unfolding keys by blast
  ultimately show ?thesis
    using inv unfolding fam_wf_def same by (simp only: high option.sel) blast
qed

lemma fam_wf_drained:
  assumes wf: "fam_wf s" and n: "fr_next_expected_seq s \<le> n'"
    and sub: "set (om_keys m') \<subseteq> set (om_keys (fr_buffer s))"
    and inv: "fam_inv (s\<lparr>fr_next_expected_seq := n', fr_buffer := m'\<rparr>)"
  shows "fam_wf (rebuild_bitmap (s\<lparr>fr_next_expected_seq := n', fr_buffer := m'\<rparr>))"
proof -
  let ?t = "s\<lparr>fr_next_expected_seq := n', fr_buffer := m'\<rparr>"
  have "\<forall>k \<in> set (om_keys (fr_buffer ?t)). fr_next_expected_seq ?t \<le> k"
    using inv by (auto simp: fam_inv_def less_imp_le)
  note bits = bitmap_rebuilt [OF this]
  have "k - n' < family_window s" if "k \<in> set (om_keys m')" for k
    using fam_wfD(3) [OF wf subsetD [OF sub that]] n by linarith
  moreover have "\<exists>h. fr_highest_seen s = Some h \<and> k \<le> h" if "k \<in> set (om_keys m')" for k
    by (rule fam_wfD(4) [OF wf subsetD [OF sub that]])
  ultimately show ?thesis
    using bits inv fam_wfD(5) [OF wf] by (simp add: fam_wf_def fam_inv_def family_window_def)
qed

lemma fam_wf_push:
  assumes wf: "fam_wf s" and b: "pkg_seq p < u64_max"
  shows "fam_wf (snd (push_package s p))"
proof (cases rule: push_cases [where s = s and p = p])
  case ahead
  from fam_inv_push [OF fam_wfD(1) [OF wf] b] have "fam_inv (family_buffered s p)"
    by (simp add: push_ahead [OF ahead])
  from fam_wf_buffered [OF wf ahead(2,4) b this] show ?thesis by (simp add: push_ahead [OF ahead])
next
  case fill
  obtain vs n' m' where d: "om_drain (Suc (fr_next_expected_seq s)) (fr_buffer s) = (vs, n', m')"
    "push_package s p = (FoDeliver (p # vs), rebuild_bitmap (s\<lparr>fr_next_expected_seq := n', fr_buffer := m'\<rparr>))"
    by (rule push_fill [OF fam_wfD(1) [OF wf] fill b])
  have m': "fr_next_expected_seq s < n'" "om_get m' = om_get (fr_buffer s) |` {n' ..}"
    using om_drain_fill [OF _ _ _ d(1)] fam_wfD(1) [OF wf] fill b by (simp_all add: fam_inv_def)
  have "set (om_keys m') \<subseteq> set (om_keys (fr_buffer s))"
  proof
    fix k assume "k \<in> set (om_keys m')"
    then have "om_get m' k \<noteq> None" by (simp only: om_get_Some)
    then have "om_get (fr_buffer s) k \<noteq> None" by (auto simp: m'(2) restrict_map_def split: if_splits)
    then show "k \<in> set (om_keys (fr_buffer s))" by (simp only: om_get_Some)
  qed
  moreover have "fam_inv (s\<lparr>fr_next_expected_seq := n', fr_buffer := m'\<rparr>)"
    using fam_inv_push [OF fam_wfD(1) [OF wf] b] by (simp add: d(2) fam_inv_def)
  ultimately show ?thesis using fam_wf_drained [OF wf] m'(1) by (simp add: d(2))
qed (use wf in \<open>simp_all add: push_dead push_stale push_overflow fam_wf_closed\<close>)

lemma fam_wf_run:
  "fam_wf s \<Longrightarrow> \<forall>p \<in> set ps. pkg_seq p < u64_max \<Longrightarrow> fam_wf (snd (run_steps push_package s ps))"
  by (induction ps arbitrary: s) (auto simp: run_steps_Cons_eq fam_wf_push simp del: run_steps.simps(2))

lemma buffer_bound:
  assumes "fam_wf s"
  shows "length (fr_buffer s) \<le> family_window s"
proof -
  have "set (om_keys (fr_buffer s)) \<subseteq> {fr_next_expected_seq s ..< fr_next_expected_seq s + family_window s}"
    using fam_wfD(2,3) [OF assms] by fastforce
  then have "card (set (om_keys (fr_buffer s))) \<le> family_window s"
    using card_mono [of "{fr_next_expected_seq s ..< fr_next_expected_seq s + family_window s}"] by simp
  moreover have "distinct (om_keys (fr_buffer s))"
    using fam_wfD(1) [OF assms] by (simp add: fam_inv_def om_ok_distinct)
  ultimately show ?thesis by (metis distinct_card length_map)
qed

lemma run_push_family:
  "snd (run_steps push_package s ps) = snd (run_steps family_step s ps)"
  by (induction ps arbitrary: s) (simp_all add: run_steps_Cons_eq snd_family_step del: run_steps.simps(2))

lemma live_calls_alive: "(\<And>s. \<not> dead s) \<Longrightarrow> live_calls step dead s cs = cs"
  by (induction cs arbitrary: s) auto

section \<open>Properties\<close>

text \<open>C9: the reorder buffer delivers in order, exactly once and without gaps. After any sequence
  of inserts the payloads handed out are, in order, the first payload received for each sequence
  number from the start up to the frontier, and the frontier is the first number not yet received.\<close>

theorem reorder_buffer_in_order:
  assumes "\<forall>c \<in> set calls. fst c < u64_max"
  shows "let s' = snd (run_steps rb_step (rb_new start) calls) in
    concat (fst (run_steps rb_step (rb_new start) calls))
      = map (\<lambda>i. the (first_of fst snd calls i)) [start ..< rb_next s']
    \<and> (\<forall>i \<in> {start ..< rb_next s'}. i \<in> fst ` set calls) \<and> rb_next s' \<notin> fst ` set calls"
proof -
  have "rb.tracks start [] (rb_new start)"
    by (simp add: rb.tracks_def rb_inv_def rb_new_def first_of_def)
  from rb.run_tracks [OF this _ assms] show ?thesis
    by (simp add: Let_def live_calls_alive rb_new_def)
qed

theorem reorder_buffer_in_order_witness:
  "concat (fst (run_steps rb_step (rb_new 5) [(6, [60]), (5, [50]), (5, [51])]))
     = map (\<lambda>i. the (first_of fst snd [(6, [60]), (5, [50]), (5, [51])] i))
         [5 ..< rb_next (snd (run_steps rb_step (rb_new 5) [(6, [60]), (5, [50]), (5, [51])]))]"
  using reorder_buffer_in_order [of "[(6, [60]), (5, [50]), (5, [51])]" 5]
  by (simp add: u64_max_def Let_def)

text \<open>C10: a family delivers in order, exactly once and without gaps, as long as it lives: up to the
  push that overflows the window, the delivered packages are the first ones received for the
  numbers from the start to the frontier; afterwards nothing is delivered.\<close>

theorem family_in_order:
  assumes "\<forall>p \<in> set ps. pkg_seq p < u64_max"
  shows "let s0 = family_new fid start w dl;
             s' = snd (run_steps family_step s0 ps);
             live = live_calls family_step family_dead s0 ps in
    concat (fst (run_steps family_step s0 ps))
      = map (\<lambda>i. the (first_of pkg_seq id live i)) [start ..< fr_next_expected_seq s']
    \<and> (\<forall>i \<in> {start ..< fr_next_expected_seq s'}. i \<in> pkg_seq ` set live)
    \<and> fr_next_expected_seq s' \<notin> pkg_seq ` set live"
proof -
  let ?s0 = "family_new fid start w dl"
  have s0: "family.tracks start [] ?s0" "\<not> family_dead ?s0" "fr_next_expected_seq ?s0 = start"
    by (simp_all add: family.tracks_def fam_inv_def family_new_def first_of_def)
  from family.run_tracks [OF s0(1,2) assms] s0(3) show ?thesis by (simp add: Let_def)
qed

definition sample_pkg :: "nat \<Rightarrow> bytes \<Rightarrow> DataPackage" where
  "sample_pkg seq payload = \<lparr>dp_package_id = ''p'', dp_seq = of_nat seq, dp_offset = 0,
     dp_len = of_nat (length payload), dp_fragment_id = 0, dp_fragment_count = 1, dp_payload = payload\<rparr>"

text \<open>Two packages out of order, then one beyond the window of four.\<close>

definition sample_run :: "DataPackage list" where
  "sample_run = [sample_pkg 1 [1], sample_pkg 0 [0], sample_pkg 9 [9]]"

lemma sample_run_bound: "\<forall>p \<in> set sample_run. pkg_seq p < u64_max"
  by (simp add: sample_run_def sample_pkg_def u64_max_def)

lemmas sample_eval = family_step_def push_package_def family_new_def sample_pkg_def sample_run_def
  family_window_def FAMILY_BITMAP_BITS_def family_drain_eq om_drain_None om_drain_Some
  rebuild_bitmap_def om_del_def first_of_def Let_def

theorem family_in_order_witness:
  "concat (fst (run_steps family_step (family_new ''f'' 0 4 100) sample_run))
   = [sample_pkg 0 [0], sample_pkg 1 [1]]"
proof -
  have "live_calls family_step family_dead (family_new ''f'' 0 4 100) sample_run
      = [sample_pkg 1 [1], sample_pkg 0 [0]]"
    "fr_next_expected_seq (snd (run_steps family_step (family_new ''f'' 0 4 100) sample_run)) = 2"
    by (simp_all add: sample_eval)
  with family_in_order [OF sample_run_bound, of "''f''" 0 4 100] show ?thesis
    by (simp add: Let_def first_of_def sample_pkg_def upt_rec)
qed

text \<open>The number a text of hexadecimal digits denotes, and that the rendering of the bitmap is read back.\<close>

definition hex_digit :: "char \<Rightarrow> nat" where
  "hex_digit c = (if of_char c < (58 :: nat) then of_char c - 48 else of_char c - 87)"

definition hex_value :: "string \<Rightarrow> nat" where
  "hex_value s = foldl (\<lambda>n c. 16 * n + hex_digit c) 0 s"

lemma hex_digit_char: "d < 16 \<Longrightarrow> hex_digit (hex_char d) = d"
  by (simp add: hex_digit_def hex_char_def)

lemma hex_fold: "foldl (\<lambda>n c. 16 * n + hex_digit c) a (hex_fixed w n) = a * 16 ^ w + n mod 16 ^ w"
proof (induction w arbitrary: a)
  case (Suc w)
  have "n mod 16 ^ Suc w = 16 ^ w * (n div 16 ^ w mod 16) + n mod 16 ^ w"
    using mod_mult2_eq [of n "16 ^ w" 16] by (simp add: mult.commute)
  moreover have "hex_fixed (Suc w) n = hex_char (n div 16 ^ w mod 16) # hex_fixed w n"
    by (simp add: hex_fixed_def)
  ultimately show ?case
    using Suc.IH [of "16 * a + n div 16 ^ w mod 16"] by (simp add: hex_digit_char algebra_simps)
qed (simp add: hex_fixed_def)

lemma hex_value_fixed: "n < 16 ^ w \<Longrightarrow> hex_value (hex_fixed w n) = n"
  by (simp add: hex_value_def hex_fold)

lemma snapshot_bitmap: "bit (hex_value (an_received_bitmap (ack_snapshot s))) d \<longleftrightarrow> bit (fr_received_bitmap s) d"
proof -
  have "unat (fr_received_bitmap s) < 2 ^ LENGTH(128)"
    by (rule unsigned_less)
  then have "unat (fr_received_bitmap s) < 16 ^ 32"
    by simp
  then show ?thesis
    by (simp add: ack_snapshot_def hex_value_fixed bit_unsigned_iff)
qed

text \<open>C11: feedback is exact. In every state reached by pushes, the missing ranges of a snapshot cover
  exactly the numbers from the frontier to the highest one seen that are not held; and its bitmap, read as a
  hexadecimal number of 32 digits, has bit \<open>d\<close> set exactly when the number \<open>d\<close> above the frontier is held.\<close>

theorem family_feedback_exact:
  assumes "\<forall>p \<in> set ps. pkg_seq p < u64_max"
  shows "let s = snd (run_steps push_package (family_new fid start w dl) ps); a = ack_snapshot s in
    covered (an_missing_ranges a)
      = {i. \<exists>h. fr_highest_seen s = Some h \<and> fr_next_expected_seq s \<le> i \<and> i \<le> h \<and> om_get (fr_buffer s) i = None}
    \<and> length (an_received_bitmap a) = 32
    \<and> (\<forall>d < 128. bit (hex_value (an_received_bitmap a)) d \<longleftrightarrow> om_get (fr_buffer s) (fr_next_expected_seq s + d) \<noteq> None)"
proof -
  define s where "s = snd (run_steps push_package (family_new fid start w dl) ps)"
  have wf: "fam_wf s" unfolding s_def using fam_wf_new assms by (rule fam_wf_run)
  have "h < 2 ^ 64" if "fr_highest_seen s = Some h" for h
    using fam_wfD(5) [OF wf that] by (simp add: u64_max_def)
  then have "covered (an_missing_ranges (ack_snapshot s))
      = {i. \<exists>h. fr_highest_seen s = Some h \<and> fr_next_expected_seq s \<le> i \<and> i \<le> h \<and> om_get (fr_buffer s) i = None}"
    by (cases "fr_highest_seen s") (auto simp: ack_snapshot_def missing_ranges_covered)
  moreover have "\<forall>d < 128. bit (fr_received_bitmap s) d \<longleftrightarrow> om_get (fr_buffer s) (fr_next_expected_seq s + d) \<noteq> None"
    using wf unfolding fam_wf_def om_get_Some by blast
  moreover have "length (an_received_bitmap (ack_snapshot s)) = 32" by (simp add: ack_snapshot_def)
  ultimately show ?thesis by (simp add: s_def [symmetric] Let_def snapshot_bitmap)
qed

theorem family_feedback_exact_witness:
  "let a = ack_snapshot (snd (run_steps push_package (family_new ''f'' 0 4 100) [sample_pkg 2 [2]])) in
     covered (an_missing_ranges a) = {0, 1} \<and> bit (hex_value (an_received_bitmap a)) 2 \<and> \<not> bit (hex_value (an_received_bitmap a)) 1"
proof -
  let ?s = "snd (run_steps push_package (family_new ''f'' 0 4 100) [sample_pkg 2 [2]])"
  have f: "fr_highest_seen ?s = Some 2" "fr_next_expected_seq ?s = 0" "fr_buffer ?s = [(2, sample_pkg 2 [2])]"
    by (simp_all add: sample_eval)
  have "\<forall>p \<in> set [sample_pkg 2 [2]]. pkg_seq p < u64_max"
    by (simp add: sample_pkg_def u64_max_def)
  note e = family_feedback_exact [OF this, of "''f''" 0 4 100, unfolded Let_def f]
  have "bit (hex_value (an_received_bitmap (ack_snapshot ?s))) 2" "\<not> bit (hex_value (an_received_bitmap (ack_snapshot ?s))) 1"
    using e by simp_all
  moreover have "covered (an_missing_ranges (ack_snapshot ?s)) = {0, 1}"
    using e by (auto split: if_splits)
  ultimately show ?thesis by (simp add: Let_def)
qed

text \<open>A family never holds more packages than its window, which is at most 128, and all of them
  lie less than a window above the frontier.\<close>

lemma family_buffer_bounded:
  assumes "\<forall>p \<in> set ps. pkg_seq p < u64_max"
  shows "let s = snd (run_steps push_package (family_new fid start w dl) ps) in
    length (fr_buffer s) \<le> family_window s \<and> family_window s \<le> 128
    \<and> (\<forall>k. om_get (fr_buffer s) k \<noteq> None \<longrightarrow>
         fr_next_expected_seq s < k \<and> k < fr_next_expected_seq s + family_window s)"
proof -
  define s where "s = snd (run_steps push_package (family_new fid start w dl) ps)"
  have wf: "fam_wf s" unfolding s_def using fam_wf_new assms by (rule fam_wf_run)
  have "fr_next_expected_seq s < k \<and> k < fr_next_expected_seq s + family_window s"
    if "om_get (fr_buffer s) k \<noteq> None" for k
    using fam_wfD(2,3) [OF wf, of k] that unfolding om_get_Some by auto
  with buffer_bound [OF wf] show ?thesis
    by (simp add: s_def [symmetric] Let_def family_window_def FAMILY_BITMAP_BITS_def)
qed

end
