(* ===== verification/Path_Control.thy ===== *)
theory Path_Control
  imports Wire Ordered_Map
begin

text \<open>
  Send budget, round-trip estimation and loss feedback of a mesh path
  (\<^verbatim>\<open>lib/mb-mesh-control/src/lib.rs\<close>). Times are microseconds as natural numbers; the additions and
  multiplications the source leaves unchecked go through \<open>wrap64\<close>, and a shift by \<open>n\<close> bits is the
  one of a release build, which uses the low six bits of \<open>n\<close>. The lemmas show how an
  acknowledgement splits what is in flight, the byte accounting, and the bounds of the window.
\<close>

section \<open>Definitions\<close>

definition GRANULARITY_US :: nat where
  "GRANULARITY_US = 1000"

definition INITIAL_RTT_US :: nat where
  "INITIAL_RTT_US = 333000"

definition MAX_ACK_DELAY_US :: nat where
  "MAX_ACK_DELAY_US = 25000"

definition MAX_DATAGRAM_BYTES :: nat where
  "MAX_DATAGRAM_BYTES = 1200"

definition INITIAL_WINDOW_BYTES :: nat where
  "INITIAL_WINDOW_BYTES = 10 * MAX_DATAGRAM_BYTES"

definition MIN_WINDOW_BYTES :: nat where
  "MIN_WINDOW_BYTES = 2 * MAX_DATAGRAM_BYTES"

record InflightPackage =
  ip_seq :: nat
  ip_sent_at_us :: nat
  ip_size :: nat
  ip_ack_eliciting :: bool

record AckUpdate =
  au_acked_seqs :: "nat list"
  au_lost_seqs :: "nat list"

record MeshRttEstimator =
  rt_latest :: nat
  rt_min :: nat
  rt_smoothed :: nat
  rt_rttvar :: nat
  rt_sampled :: bool

definition rtt_default :: MeshRttEstimator where
  "rtt_default = \<lparr>rt_latest = INITIAL_RTT_US, rt_min = INITIAL_RTT_US, rt_smoothed = INITIAL_RTT_US,
     rt_rttvar = INITIAL_RTT_US div 2, rt_sampled = False\<rparr>"

definition abs_diff :: "nat \<Rightarrow> nat \<Rightarrow> nat" where
  "abs_diff a b = (if a \<le> b then b - a else a - b)"

definition rtt_on_sample :: "MeshRttEstimator \<Rightarrow> nat \<Rightarrow> nat \<Rightarrow> MeshRttEstimator" where
  "rtt_on_sample e rtt ack_delay =
     (if \<not> rt_sampled e then
        e\<lparr>rt_latest := rtt, rt_min := rtt, rt_smoothed := rtt, rt_rttvar := rtt div 2, rt_sampled := True\<rparr>
      else
        (let m = min (rt_min e) rtt;
             delay = min ack_delay MAX_ACK_DELAY_US;
             adjusted = (if rtt \<ge> wrap64 (m + delay) then rtt - delay else rtt);
             var_sample = abs_diff (rt_smoothed e) adjusted
         in e\<lparr>rt_latest := rtt, rt_min := m,
              rt_rttvar := wrap64 (wrap64 (rt_rttvar e * 3) + var_sample) div 4,
              rt_smoothed := wrap64 (wrap64 (rt_smoothed e * 7) + adjusted) div 8\<rparr>))"

definition pto_base :: "MeshRttEstimator \<Rightarrow> nat" where
  "pto_base e = wrap64 (wrap64 (rt_smoothed e + max (wrap64 (4 * rt_rttvar e)) GRANULARITY_US) + MAX_ACK_DELAY_US)"

record MeshPathController =
  pc_rtt :: MeshRttEstimator
  pc_cwnd :: nat
  pc_bytes_in_flight :: nat
  pc_pto_count :: nat
  pc_inflight :: "(nat, InflightPackage) omap"
  pc_last_ack_eliciting_sent_at :: "nat option"

definition path_default :: MeshPathController where
  "path_default = \<lparr>pc_rtt = rtt_default, pc_cwnd = INITIAL_WINDOW_BYTES, pc_bytes_in_flight = 0,
     pc_pto_count = 0, pc_inflight = [], pc_last_ack_eliciting_sent_at = None\<rparr>"

definition send_budget :: "MeshPathController \<Rightarrow> nat" where
  "send_budget c = sat_sub (pc_cwnd c) (pc_bytes_in_flight c)"

definition on_sent :: "MeshPathController \<Rightarrow> InflightPackage \<Rightarrow> MeshPathController" where
  "on_sent c package =
     (let c' = (if ip_ack_eliciting package
                then c\<lparr>pc_last_ack_eliciting_sent_at := Some (ip_sent_at_us package),
                       pc_bytes_in_flight := sat_add64 (pc_bytes_in_flight c) (ip_size package)\<rparr>
                else c)
      in c'\<lparr>pc_inflight := om_put (ip_seq package) package (pc_inflight c')\<rparr>)"

definition ack_missing :: "AckNack \<Rightarrow> nat \<Rightarrow> bool" where
  "ack_missing ack seq \<longleftrightarrow>
     list_ex (\<lambda>range. seq \<ge> unat (sr_start range) \<and> seq \<le> unat (sr_end range)) (an_missing_ranges ack)"

text \<open>The body of the loop of \<^verbatim>\<open>on_ack\<close> for one sequence number in flight.\<close>

definition ack_one ::
    "AckNack \<Rightarrow> nat \<Rightarrow> nat \<Rightarrow> MeshPathController \<times> AckUpdate \<Rightarrow> nat \<Rightarrow> MeshPathController \<times> AckUpdate" where
  "ack_one ack ack_delay_us now_us cu seq =
     (case cu of (c, u) \<Rightarrow>
        (case om_get (pc_inflight c) seq of
           None \<Rightarrow> (c, u)
         | Some package \<Rightarrow>
             let c1 = c\<lparr>pc_inflight := om_del seq (pc_inflight c)\<rparr> in
             if ack_missing ack seq then
               (c1\<lparr>pc_bytes_in_flight := sat_sub (pc_bytes_in_flight c1) (ip_size package)\<rparr>,
                u\<lparr>au_lost_seqs := au_lost_seqs u @ [seq]\<rparr>)
             else
               (if ip_ack_eliciting package then
                  c1\<lparr>pc_bytes_in_flight := sat_sub (pc_bytes_in_flight c1) (ip_size package),
                     pc_cwnd := sat_add64 (pc_cwnd c1) (ip_size package),
                     pc_rtt := rtt_on_sample (pc_rtt c1) (sat_sub now_us (ip_sent_at_us package)) ack_delay_us\<rparr>
                else c1,
                u\<lparr>au_acked_seqs := au_acked_seqs u @ [seq]\<rparr>)))"

definition on_ack :: "MeshPathController \<Rightarrow> AckNack \<Rightarrow> nat \<Rightarrow> nat \<Rightarrow> AckUpdate \<times> MeshPathController" where
  "on_ack c ack ack_delay_us now_us =
     (case foldl (ack_one ack ack_delay_us now_us) (c, \<lparr>au_acked_seqs = [], au_lost_seqs = []\<rparr>)
             (om_keys (pc_inflight c)) of
        (c', u) \<Rightarrow> (u, if au_acked_seqs u \<noteq> [] then c'\<lparr>pc_pto_count := 0\<rparr> else c'))"

definition loss_timer :: "MeshPathController \<Rightarrow> nat option" where
  "loss_timer c = map_option
     (\<lambda>last. wrap64 (last + wrap64 (pto_base (pc_rtt c) * 2 ^ (pc_pto_count c mod 64))))
     (pc_last_ack_eliciting_sent_at c)"

definition on_pto_expired :: "MeshPathController \<Rightarrow> MeshPathController" where
  "on_pto_expired c =
     c\<lparr>pc_pto_count := sat_add32 (pc_pto_count c) 1, pc_cwnd := max (pc_cwnd c) MIN_WINDOW_BYTES\<rparr>"

section \<open>Acknowledgements\<close>

lemma ack_one_keys:
  "om_keys (pc_inflight (fst (ack_one ack d now (c, u) seq))) = filter (\<lambda>k. k \<noteq> seq) (om_keys (pc_inflight c))"
proof (cases "om_get (pc_inflight c) seq")
  case None
  then have "seq \<notin> set (om_keys (pc_inflight c))" by (rule om_get_None [THEN iffD1])
  then have "filter (\<lambda>k. k \<noteq> seq) (om_keys (pc_inflight c)) = om_keys (pc_inflight c)"
    by (intro filter_True) blast
  with None show ?thesis by (simp add: ack_one_def)
next
  case (Some p)
  then show ?thesis by (simp add: ack_one_def Let_def om_del_def filter_map comp_def)
qed

lemma ack_fold:
  assumes "\<forall>k \<in> set ks. om_get (pc_inflight c) k \<noteq> None" "distinct ks"
  shows "snd (foldl (ack_one ack d now) (c, u) ks)
       = u\<lparr>au_acked_seqs := au_acked_seqs u @ filter (\<lambda>k. \<not> ack_missing ack k) ks,
           au_lost_seqs := au_lost_seqs u @ filter (ack_missing ack) ks\<rparr>"
  using assms
proof (induction ks arbitrary: c u)
  case (Cons k ks)
  obtain c' u' where one: "ack_one ack d now (c, u) k = (c', u')" by (cases "ack_one ack d now (c, u) k")
  from Cons.prems(1) obtain p where p: "om_get (pc_inflight c) k = Some p" by auto
  have "pc_inflight c' = om_del k (pc_inflight c)"
    using one p by (auto simp: ack_one_def Let_def split: if_splits)
  then have "\<forall>k' \<in> set ks. om_get (pc_inflight c') k' \<noteq> None" using Cons.prems by auto
  moreover have "u' = (if ack_missing ack k then u\<lparr>au_lost_seqs := au_lost_seqs u @ [k]\<rparr>
      else u\<lparr>au_acked_seqs := au_acked_seqs u @ [k]\<rparr>)"
    using one p by (auto simp: ack_one_def Let_def split: if_splits)
  ultimately show ?case using Cons one by simp
qed simp

lemma ack_fold_inflight:
  "om_keys (pc_inflight (fst (foldl (ack_one ack d now) (c, u) ks)))
   = filter (\<lambda>k. k \<notin> set ks) (om_keys (pc_inflight c))"
proof (induction ks arbitrary: c u)
  case (Cons k ks)
  obtain c' u' where "ack_one ack d now (c, u) k = (c', u')" by (cases "ack_one ack d now (c, u) k")
  with Cons [of c' u'] ack_one_keys [of ack d now c u k] show ?case by (simp add: conj_commute)
qed simp

text \<open>Bytes of the ack-eliciting packages in flight.\<close>

definition flight_bytes :: "(nat, InflightPackage) omap \<Rightarrow> nat" where
  "flight_bytes m = (\<Sum>kp \<leftarrow> m. if ip_ack_eliciting (snd kp) then ip_size (snd kp) else 0)"

lemma ack_fold_bytes:
  assumes "\<forall>k \<in> set ks. \<exists>p. om_get (pc_inflight c) k = Some p \<and> ip_ack_eliciting p" "distinct ks"
  shows "pc_bytes_in_flight (fst (foldl (ack_one ack d now) (c, u) ks))
       = pc_bytes_in_flight c - (\<Sum>k \<leftarrow> ks. ip_size (the (om_get (pc_inflight c) k)))"
  using assms
proof (induction ks arbitrary: c u)
  case (Cons k ks)
  obtain c' u' where one: "ack_one ack d now (c, u) k = (c', u')" by (cases "ack_one ack d now (c, u) k")
  from Cons.prems(1) obtain p where p: "om_get (pc_inflight c) k = Some p" "ip_ack_eliciting p" by auto
  have c': "pc_inflight c' = om_del k (pc_inflight c)"
    "pc_bytes_in_flight c' = pc_bytes_in_flight c - ip_size p"
    using one p by (auto simp: ack_one_def Let_def split: if_splits)
  have "\<forall>k' \<in> set ks. \<exists>p. om_get (pc_inflight c') k' = Some p \<and> ip_ack_eliciting p"
    using Cons.prems by (auto simp: c')
  note ih = Cons.IH [OF this, of u']
  have "(\<Sum>k' \<leftarrow> ks. ip_size (the (om_get (pc_inflight c') k')))
      = (\<Sum>k' \<leftarrow> ks. ip_size (the (om_get (pc_inflight c) k')))"
    using Cons.prems(2) by (intro arg_cong [where f = sum_list] map_cong refl) (auto simp: c')
  with ih Cons.prems(2) one p c' show ?case by simp
qed simp

lemma ack_one_cwnd: "pc_cwnd c \<le> u64_max \<Longrightarrow>
   pc_cwnd c \<le> pc_cwnd (fst (ack_one ack d now (c, u) k)) \<and> pc_cwnd (fst (ack_one ack d now (c, u) k)) \<le> u64_max"
  by (auto simp: ack_one_def Let_def sat_add64_def split: option.splits)

lemma ack_fold_cwnd: "pc_cwnd c \<le> u64_max \<Longrightarrow>
   pc_cwnd c \<le> pc_cwnd (fst (foldl (ack_one ack d now) (c, u) ks))
   \<and> pc_cwnd (fst (foldl (ack_one ack d now) (c, u) ks)) \<le> u64_max"
proof (induction ks arbitrary: c u)
  case (Cons k ks)
  obtain c' u' where "ack_one ack d now (c, u) k = (c', u')" by (cases "ack_one ack d now (c, u) k")
  with Cons.IH [of c' u'] ack_one_cwnd [OF Cons.prems, of ack d now u k] show ?case by auto
qed simp

text \<open>The result of the loop of \<open>on_ack\<close> over everything in flight.\<close>

definition ack_all :: "MeshPathController \<Rightarrow> AckNack \<Rightarrow> nat \<Rightarrow> nat \<Rightarrow> MeshPathController \<times> AckUpdate" where
  "ack_all c ack d now =
     foldl (ack_one ack d now) (c, \<lparr>au_acked_seqs = [], au_lost_seqs = []\<rparr>) (om_keys (pc_inflight c))"

lemma on_ack_eq:
  "fst (on_ack c ack d now) = snd (ack_all c ack d now)"
  "pc_inflight (snd (on_ack c ack d now)) = pc_inflight (fst (ack_all c ack d now))"
  "pc_bytes_in_flight (snd (on_ack c ack d now)) = pc_bytes_in_flight (fst (ack_all c ack d now))"
  "pc_cwnd (snd (on_ack c ack d now)) = pc_cwnd (fst (ack_all c ack d now))"
  by (simp_all add: on_ack_def ack_all_def split: prod.splits)

lemma on_ack_split:
  assumes "om_ok (pc_inflight c)"
  shows "au_acked_seqs (fst (on_ack c ack d now)) = filter (\<lambda>k. \<not> ack_missing ack k) (om_keys (pc_inflight c))"
    "au_lost_seqs (fst (on_ack c ack d now)) = filter (ack_missing ack) (om_keys (pc_inflight c))"
    "pc_inflight (snd (on_ack c ack d now)) = []"
proof -
  have "\<forall>k \<in> set (om_keys (pc_inflight c)). om_get (pc_inflight c) k \<noteq> None" unfolding om_get_Some by blast
  note f = ack_fold [OF this om_ok_distinct [OF assms], of ack d now "\<lparr>au_acked_seqs = [], au_lost_seqs = []\<rparr>"]
  show "au_acked_seqs (fst (on_ack c ack d now)) = filter (\<lambda>k. \<not> ack_missing ack k) (om_keys (pc_inflight c))"
    "au_lost_seqs (fst (on_ack c ack d now)) = filter (ack_missing ack) (om_keys (pc_inflight c))"
    unfolding on_ack_eq ack_all_def f by simp_all
  have "filter (\<lambda>k. k \<notin> set xs) xs = []" for xs :: "nat list" by (simp add: filter_empty_conv)
  then have "om_keys (pc_inflight (snd (on_ack c ack d now))) = []"
    unfolding on_ack_eq ack_all_def ack_fold_inflight .
  then show "pc_inflight (snd (on_ack c ack d now)) = []" by simp
qed

section \<open>Traces\<close>

datatype path_event = PvSent InflightPackage | PvAck AckNack nat nat | PvPto

fun path_step :: "MeshPathController \<Rightarrow> path_event \<Rightarrow> MeshPathController" where
  "path_step c (PvSent p) = on_sent c p"
| "path_step c (PvAck ack d now) = snd (on_ack c ack d now)"
| "path_step c PvPto = on_pto_expired c"

text \<open>A sender that numbers its ack-eliciting packages afresh, with fewer than \<open>2 ^ 64\<close> bytes in flight.\<close>

fun fresh_sends :: "MeshPathController \<Rightarrow> path_event list \<Rightarrow> bool" where
  "fresh_sends c [] = True"
| "fresh_sends c (e # es) =
     ((case e of PvSent p \<Rightarrow> ip_ack_eliciting p \<and> om_get (pc_inflight c) (ip_seq p) = None
          \<and> pc_bytes_in_flight c + ip_size p \<le> u64_max | _ \<Rightarrow> True)
      \<and> fresh_sends (path_step c e) es)"

definition path_inv :: "MeshPathController \<Rightarrow> bool" where
  "path_inv c \<longleftrightarrow> om_ok (pc_inflight c) \<and> (\<forall>kp \<in> set (pc_inflight c). ip_ack_eliciting (snd kp))
     \<and> pc_bytes_in_flight c = flight_bytes (pc_inflight c)"

lemma flight_bytes_put:
  "om_get m k = None \<Longrightarrow> ip_ack_eliciting p \<Longrightarrow> flight_bytes (om_put k p m) = flight_bytes m + ip_size p"
  by (induction k p m rule: om_put.induct) (auto simp: flight_bytes_def split: if_splits)

lemma set_om_put: "set (om_put k p m) \<subseteq> insert (k, p) (set m)"
  by (induction k p m rule: om_put.induct) auto

lemma flight_bytes_keys:
  assumes "om_ok m" "\<forall>kp \<in> set m. ip_ack_eliciting (snd kp)"
  shows "flight_bytes m = (\<Sum>k \<leftarrow> om_keys m. ip_size (the (om_get m k)))"
proof -
  have "the (om_get m (fst kp)) = snd kp" if "kp \<in> set m" for kp
    using om_get_in [OF assms(1), of "fst kp" "snd kp"] that by simp
  with assms(2) show ?thesis
    unfolding flight_bytes_def map_map comp_def by (intro arg_cong [where f = sum_list] map_cong refl) auto
qed

lemma path_inv_step:
  assumes "path_inv c" "fresh_sends c [e]"
  shows "path_inv (path_step c e)"
proof (cases e)
  case (PvSent p)
  with assms set_om_put [of "ip_seq p" p "pc_inflight c"] show ?thesis
    by (auto simp: path_inv_def on_sent_def Let_def flight_bytes_put sat_add64_exact)
next
  case (PvAck ack d now)
  from assms(1) have ok: "om_ok (pc_inflight c)" and el: "\<forall>kp \<in> set (pc_inflight c). ip_ack_eliciting (snd kp)"
    and bytes: "pc_bytes_in_flight c = flight_bytes (pc_inflight c)" by (auto simp: path_inv_def)
  have "\<exists>p. om_get (pc_inflight c) k = Some p \<and> ip_ack_eliciting p" if "k \<in> set (om_keys (pc_inflight c))" for k
    using that om_get_in [OF ok] el by fastforce
  then have "pc_bytes_in_flight (snd (on_ack c ack d now)) = 0"
    using bytes ack_fold_bytes [OF _ om_ok_distinct [OF ok], of c ack d now] flight_bytes_keys [OF ok el]
    unfolding on_ack_eq ack_all_def by simp
  with on_ack_split(3) [OF ok, of ack d now] PvAck show ?thesis
    by (simp add: path_inv_def flight_bytes_def)
next
  case PvPto
  with assms show ?thesis by (simp add: path_inv_def on_pto_expired_def)
qed

lemma path_inv_run: "path_inv c \<Longrightarrow> fresh_sends c es \<Longrightarrow> path_inv (foldl path_step c es)"
proof (induction es arbitrary: c)
  case (Cons e es)
  with path_inv_step [of c e] Cons.IH [of "path_step c e"] show ?case by simp
qed simp

lemma path_step_cwnd:
  assumes "pc_cwnd c \<le> u64_max"
  shows "pc_cwnd c \<le> pc_cwnd (path_step c e) \<and> pc_cwnd (path_step c e) \<le> u64_max"
proof (cases e)
  case (PvAck ack d now)
  then show ?thesis using ack_fold_cwnd [OF assms] by (simp add: on_ack_eq ack_all_def)
qed (use assms in \<open>auto simp: on_sent_def on_pto_expired_def Let_def u64_max_def MIN_WINDOW_BYTES_def
      MAX_DATAGRAM_BYTES_def\<close>)

lemma path_run_cwnd:
  "pc_cwnd c \<le> u64_max \<Longrightarrow> pc_cwnd c \<le> pc_cwnd (foldl path_step c es)"
proof (induction es arbitrary: c)
  case (Cons e es)
  have "pc_cwnd c \<le> pc_cwnd (path_step c e)" using path_step_cwnd [OF Cons.prems] by blast
  also have "\<dots> \<le> pc_cwnd (foldl path_step (path_step c e) es)"
    using path_step_cwnd [OF Cons.prems] by (intro Cons.IH) blast
  finally show ?case by simp
qed simp

lemma path_inv_default: "path_inv path_default"
  by (simp add: path_inv_def path_default_def flight_bytes_def)

section \<open>Properties\<close>

text \<open>C12: byte accounting. Along every trace of fresh ack-eliciting sends, acknowledgements and
  timeouts from the initial state, the bytes in flight are the bytes of the packages in flight,
  and the send budget is what the window leaves over them.\<close>

theorem bytes_in_flight_exact:
  assumes "fresh_sends path_default es"
  shows "let c = foldl path_step path_default es in
    pc_bytes_in_flight c = flight_bytes (pc_inflight c)
    \<and> send_budget c = pc_cwnd c - flight_bytes (pc_inflight c)"
  using path_inv_run [OF path_inv_default assms]
  by (simp add: Let_def path_inv_def send_budget_def)

definition sample_sent :: "nat \<Rightarrow> InflightPackage" where
  "sample_sent seq = \<lparr>ip_seq = seq, ip_sent_at_us = 0, ip_size = 100, ip_ack_eliciting = True\<rparr>"

theorem bytes_in_flight_exact_witness:
  "pc_bytes_in_flight (foldl path_step path_default [PvSent (sample_sent 0), PvSent (sample_sent 1)]) = 200"
  using bytes_in_flight_exact [of "[PvSent (sample_sent 0), PvSent (sample_sent 1)]"]
  by (simp add: path_default_def sample_sent_def on_sent_def Let_def u64_max_def sat_add64_def flight_bytes_def)

text \<open>An acknowledgement empties the flight. Every package in flight is reported exactly once, as
  lost if a missing range covers it and as acknowledged otherwise, whatever the cumulative number of
  the feedback; and nothing stays in flight.\<close>

lemma on_ack_partition:
  assumes "om_ok (pc_inflight c)"
  shows "au_acked_seqs (fst (on_ack c ack d now)) = filter (\<lambda>k. \<not> ack_missing ack k) (om_keys (pc_inflight c))
    \<and> au_lost_seqs (fst (on_ack c ack d now)) = filter (ack_missing ack) (om_keys (pc_inflight c))
    \<and> pc_inflight (snd (on_ack c ack d now)) = []"
  using on_ack_split [OF assms] by simp

definition sample_ack :: AckNack where
  "sample_ack = \<lparr>an_family_id = ''f'', an_cumulative_seq = 0, an_received_bitmap = '''',
     an_missing_ranges = [\<lparr>sr_start = 0, sr_end = 0\<rparr>]\<rparr>"

text \<open>The congestion window never falls below its initial value: neither losses nor timeouts
  shrink it.\<close>

lemma cwnd_never_shrinks:
  "INITIAL_WINDOW_BYTES \<le> pc_cwnd (foldl path_step path_default es)"
  using path_run_cwnd [of path_default es]
  by (simp add: path_default_def INITIAL_WINDOW_BYTES_def MAX_DATAGRAM_BYTES_def u64_max_def)

text \<open>The backoff of the loss timer is not monotone. It doubles with every timeout until the
  shift distance reaches the width of the word; after 64 timeouts without an acknowledgement the
  timer is the one of no timeout at all.\<close>

lemma pto_backoff_wraps:
  assumes "pc_pto_count c + 64 \<le> u32_max"
  shows "loss_timer ((on_pto_expired ^^ 64) c) = loss_timer c"
proof -
  have "pc_pto_count ((on_pto_expired ^^ n) c) = pc_pto_count c + n
      \<and> pc_rtt ((on_pto_expired ^^ n) c) = pc_rtt c
      \<and> pc_last_ack_eliciting_sent_at ((on_pto_expired ^^ n) c) = pc_last_ack_eliciting_sent_at c"
    if "n \<le> 64" for n
    using that assms by (induction n) (auto simp: on_pto_expired_def sat_add32_def)
  from this [of 64] show ?thesis by (simp add: loss_timer_def)
qed

end
