(* ===== verification/Forwarding.thy ===== *)
theory Forwarding
  imports Endpoint
begin

text \<open>
  The data of the forwarding plane: frames and their constructors
  (\<^verbatim>\<open>crates/mesh-bus-core/src/lib.rs\<close>), the context a scheduler ranks by, schedules and capabilities
  (\<^verbatim>\<open>crates/mesh-bus-core/src/transport/forwarding\<close>). Identifiers are the strings they wrap. The hash
  of the standard library's \<^verbatim>\<open>DefaultHasher\<close> is not specified by its documentation and is the
  parameter \<open>sip\<close>, a function of the bytes written to the hasher.
\<close>

section \<open>Types\<close>

type_synonym ExitId = string
type_synonym SessionId = string
type_synonym FlowId = string
type_synonym PacketId = nat

datatype FlowSemantics = FlByteStream | FlDatagram | FlMessage

datatype ReturnSemantics = ReDirect | RePacketDedup | ReSequenceReorder

datatype TrafficClass = TcInteractive | TcBulk | TcControl | TcProbe

datatype ScheduleHint = ShAuto | ShSinglePath | ShFanOut nat | ShStripe nat

datatype ScheduleMode = SmOrdered | SmReplicate | SmStripe

datatype ScheduleDecision = SdOrdered "nat list" | SdReplicate "nat list"

fun schedule_indices :: "ScheduleDecision \<Rightarrow> nat list" where
  "schedule_indices (SdOrdered order) = order"
| "schedule_indices (SdReplicate order) = order"

record Capabilities =
  ca_protocol :: string
  ca_supports_stream :: bool
  ca_supports_datagram :: bool
  ca_max_payload_bytes :: "nat option"
  ca_groups :: "string list"

record Measurement =
  ms_exit_id :: ExitId
  ms_at_ms :: nat
  ms_rtt_ms :: nat
  ms_payload_bytes :: nat
  ms_jitter_ms :: "nat option"
  ms_throughput_bps :: "nat option"
  ms_success :: bool

datatype CloseReason =
    ClTtlExpired
  | ClSessionClosed
  | ClNoUsableExit
  | ClConnectionRefused
  | ClNetworkUnreachable
  | ClHostUnreachable
  | ClTimedOut
  | ClNotConnected
  | ClConnectionReset
  | ClUpstreamEof
  | ClReaderClosed
  | ClAddressNotSupported
  | ClOther string

datatype ReturnEvent =
    RvConnected ExitId "Endpoint option" nat
  | RvData nat bytes
  | RvIdle
  | RvClosed CloseReason

record ExitResult =
  er_exit_id :: ExitId
  er_success :: bool
  er_rtt_ms :: nat
  er_local_endpoint :: "Endpoint option"
  er_return_event :: ReturnEvent

record SourceActivity =
  sa_active_flows :: nat
  sa_idle_since_ms :: "nat option"

datatype FrameKind = FkOpen | FkData | FkDatagram | FkShutdownWrite | FkClose | FkCancel | FkProbe

record Frame =
  f_packet_id :: PacketId
  f_flow_id :: FlowId
  f_session_id :: SessionId
  f_seq :: nat
  f_kind :: FrameKind
  f_payload :: bytes
  f_target :: Endpoint
  f_ttl :: u8
  f_traffic_class :: TrafficClass
  f_policy_ref :: "string option"
  f_deadline_ms :: "nat option"
  f_schedule_hint :: ScheduleHint
  f_path_trace :: "string list"
  f_flow_semantics :: FlowSemantics
  f_return_semantics :: ReturnSemantics
  f_source_key :: "string option"
  f_target_key :: "string option"
  f_route_group :: "string option"
  f_target_sink :: "string option"

record RankContext =
  rx_packet_id :: PacketId
  rx_flow_id :: FlowId
  rx_session_id :: SessionId
  rx_target :: Endpoint
  rx_traffic_class :: TrafficClass
  rx_policy_ref :: "string option"
  rx_deadline_ms :: "nat option"
  rx_schedule_hint :: ScheduleHint
  rx_flow_semantics :: FlowSemantics
  rx_return_semantics :: ReturnSemantics
  rx_source_key :: "string option"
  rx_target_key :: "string option"
  rx_source_activity :: "SourceActivity option"

section \<open>Operations\<close>

text \<open>The standard library writes a string to a hasher as its bytes followed by \<open>0xff\<close>, an integer as
  its little-endian image.\<close>

definition hash_str :: "string \<Rightarrow> bytes" where
  "hash_str s = str_bytes s @ [0xff]"

definition mint_for :: "(bytes \<Rightarrow> nat) \<Rightarrow> SessionId \<Rightarrow> Endpoint \<Rightarrow> FlowId" where
  "mint_for sip session_id target =
     ''f'' @ hex_fixed 16 (sip (hash_str session_id @ hash_str (ep_host target)
       @ le_bytes 2 (unat (ep_port target))))"

definition frame_open :: "(bytes \<Rightarrow> nat) \<Rightarrow> SessionId \<Rightarrow> Endpoint \<Rightarrow> Frame" where
  "frame_open sip session_id target =
     \<lparr>f_packet_id = 0, f_flow_id = mint_for sip session_id target, f_session_id = session_id,
      f_seq = 0, f_kind = FkOpen, f_payload = [], f_target = target, f_ttl = 8,
      f_traffic_class = TcControl, f_policy_ref = None, f_deadline_ms = None, f_schedule_hint = ShAuto,
      f_path_trace = [], f_flow_semantics = FlByteStream, f_return_semantics = ReDirect,
      f_source_key = None, f_target_key = None, f_route_group = None, f_target_sink = None\<rparr>"

definition frame_data :: "(bytes \<Rightarrow> nat) \<Rightarrow> SessionId \<Rightarrow> nat \<Rightarrow> Endpoint \<Rightarrow> bytes \<Rightarrow> Frame" where
  "frame_data sip session_id seq target payload =
     \<lparr>f_packet_id = seq, f_flow_id = mint_for sip session_id target, f_session_id = session_id,
      f_seq = seq, f_kind = FkData, f_payload = payload, f_target = target, f_ttl = 8,
      f_traffic_class = TcBulk, f_policy_ref = None, f_deadline_ms = None, f_schedule_hint = ShAuto,
      f_path_trace = [], f_flow_semantics = FlByteStream, f_return_semantics = ReDirect,
      f_source_key = None, f_target_key = None, f_route_group = None, f_target_sink = None\<rparr>"

definition frame_datagram :: "(bytes \<Rightarrow> nat) \<Rightarrow> SessionId \<Rightarrow> nat \<Rightarrow> Endpoint \<Rightarrow> bytes \<Rightarrow> Frame" where
  "frame_datagram sip session_id seq target payload =
     \<lparr>f_packet_id = seq, f_flow_id = mint_for sip session_id target, f_session_id = session_id,
      f_seq = seq, f_kind = FkDatagram, f_payload = payload, f_target = target, f_ttl = 8,
      f_traffic_class = TcInteractive, f_policy_ref = None, f_deadline_ms = None,
      f_schedule_hint = ShAuto, f_path_trace = [], f_flow_semantics = FlDatagram,
      f_return_semantics = RePacketDedup, f_source_key = None, f_target_key = None,
      f_route_group = None, f_target_sink = None\<rparr>"

definition frame_close :: "(bytes \<Rightarrow> nat) \<Rightarrow> SessionId \<Rightarrow> nat \<Rightarrow> Endpoint \<Rightarrow> Frame" where
  "frame_close sip session_id seq target =
     \<lparr>f_packet_id = seq, f_flow_id = mint_for sip session_id target, f_session_id = session_id,
      f_seq = seq, f_kind = FkClose, f_payload = [], f_target = target, f_ttl = 8,
      f_traffic_class = TcControl, f_policy_ref = None, f_deadline_ms = None, f_schedule_hint = ShAuto,
      f_path_trace = [], f_flow_semantics = FlByteStream, f_return_semantics = ReDirect,
      f_source_key = None, f_target_key = None, f_route_group = None, f_target_sink = None\<rparr>"

definition frame_shutdown_write :: "(bytes \<Rightarrow> nat) \<Rightarrow> SessionId \<Rightarrow> nat \<Rightarrow> Endpoint \<Rightarrow> Frame" where
  "frame_shutdown_write sip session_id seq target =
     (frame_close sip session_id seq target)\<lparr>f_kind := FkShutdownWrite\<rparr>"

definition rank_context_of :: "Frame \<Rightarrow> RankContext" where
  "rank_context_of frame =
     \<lparr>rx_packet_id = f_packet_id frame, rx_flow_id = f_flow_id frame,
      rx_session_id = f_session_id frame, rx_target = f_target frame,
      rx_traffic_class = f_traffic_class frame, rx_policy_ref = f_policy_ref frame,
      rx_deadline_ms = f_deadline_ms frame, rx_schedule_hint = f_schedule_hint frame,
      rx_flow_semantics = f_flow_semantics frame, rx_return_semantics = f_return_semantics frame,
      rx_source_key = f_source_key frame, rx_target_key = f_target_key frame,
      rx_source_activity = None\<rparr>"

fun capability_matches_flow :: "Capabilities \<Rightarrow> FlowSemantics \<Rightarrow> bool" where
  "capability_matches_flow cap FlByteStream = ca_supports_stream cap"
| "capability_matches_flow cap FlDatagram = ca_supports_datagram cap"
| "capability_matches_flow cap FlMessage = (ca_supports_stream cap \<or> ca_supports_datagram cap)"

section \<open>Lemmas\<close>

text \<open>Every frame of one flow carries the same flow id.\<close>

lemma frame_flow_ids:
  "f_flow_id (frame_open sip sid t) = mint_for sip sid t"
  "f_flow_id (frame_data sip sid seq t p) = mint_for sip sid t"
  "f_flow_id (frame_datagram sip sid seq t p) = mint_for sip sid t"
  "f_flow_id (frame_close sip sid seq t) = mint_for sip sid t"
  "f_flow_id (frame_shutdown_write sip sid seq t) = mint_for sip sid t"
  by (simp_all add: frame_open_def frame_data_def frame_datagram_def frame_close_def
      frame_shutdown_write_def)

end
