(* ===== verification/Balance.thy ===== *)
theory Balance
  imports Mesh_Prelude
begin

text \<open>
  Load balancing (\<^verbatim>\<open>lib/mb-loadbalance/src/lib.rs\<close>): weighted round robin, smooth weighted round
  robin, consistent hashing, sticky sessions and rotating source leases. The loop of \<open>wrr_loop\<close> need
  not end when every weight is zero and is a partial function; the 64-bit current weights of the
  smooth variant are integers, which never leave the range of the sum of the weights. The hash of
  the \<^verbatim>\<open>fxhash\<close> crate is the parameter \<open>fx\<close>, the floating-point rendezvous score the parameter
  \<open>score\<close> with its comparison \<open>gt\<close>. The lemmas show the exact shares of the pickers and that a
  lease moves only for the reasons it reports.
\<close>

section \<open>Weighted round robin\<close>

record Candidate =
  cd_id :: string
  cd_weight :: nat

record Wrr =
  wr_cands :: "Candidate list"
  wr_cursor :: nat
  wr_counter :: nat

definition wrr_new :: "Candidate list \<Rightarrow> Wrr" where
  "wrr_new cands = \<lparr>wr_cands = cands, wr_cursor = 0, wr_counter = 0\<rparr>"

text \<open>The \<^verbatim>\<open>loop\<close> of \<^verbatim>\<open>pick\<close>: \<open>None\<close> stands for a loop that does not end.\<close>

partial_function (option) wrr_loop :: "Wrr \<Rightarrow> (string \<times> Wrr) option" where
  "wrr_loop w =
     (let c = wr_cands w ! wr_cursor w in
      if wr_counter w < cd_weight c
      then Some (cd_id c, w\<lparr>wr_counter := wr_counter w + 1\<rparr>)
      else wrr_loop (w\<lparr>wr_cursor := (wr_cursor w + 1) mod length (wr_cands w), wr_counter := 0\<rparr>))"

definition wrr_pick :: "Wrr \<Rightarrow> (string option \<times> Wrr) option" where
  "wrr_pick w =
     (if wr_cands w = [] then Some (None, w)
      else map_option (\<lambda>(i, w'). (Some i, w')) (wrr_loop w))"

section \<open>Smooth weighted round robin\<close>

record Swrr =
  sw_cands :: "Candidate list"
  sw_current :: "int list"

definition swrr_new :: "Candidate list \<Rightarrow> Swrr" where
  "swrr_new cands = \<lparr>sw_cands = cands, sw_current = replicate (length cands) 0\<rparr>"

definition swrr_total :: "Candidate list \<Rightarrow> int" where
  "swrr_total cands = sum_list (map (\<lambda>c. int (cd_weight c)) cands)"

text \<open>The \<^verbatim>\<open>for\<close> loop: every current weight is raised, the first largest one remembered.\<close>

definition swrr_raise :: "Candidate list \<Rightarrow> int list \<times> nat \<Rightarrow> nat \<Rightarrow> int list \<times> nat" where
  "swrr_raise cands st i =
     (case st of (cur, best) \<Rightarrow>
        (let cur' = cur[i := cur ! i + int (cd_weight (cands ! i))]
         in (cur', if cur' ! i > cur' ! best then i else best)))"

definition swrr_pick :: "Swrr \<Rightarrow> string option \<times> Swrr" where
  "swrr_pick s =
     (if sw_cands s = [] then (None, s)
      else
        (let total = swrr_total (sw_cands s);
             (cur, best) = foldl (swrr_raise (sw_cands s)) (sw_current s, 0) [0..<length (sw_cands s)]
         in (Some (cd_id (sw_cands s ! best)), s\<lparr>sw_current := cur[best := cur ! best - total]\<rparr>)))"

section \<open>Consistent hashing\<close>

fun ch_walk :: "Candidate list \<Rightarrow> nat \<Rightarrow> string option" where
  "ch_walk [] bucket = None"
| "ch_walk (c # cs) bucket =
     (if bucket < cd_weight c then Some (cd_id c) else ch_walk cs (bucket - cd_weight c))"

definition consistent_pick :: "(bytes \<Rightarrow> nat) \<Rightarrow> Candidate list \<Rightarrow> string \<Rightarrow> string option" where
  "consistent_pick fx cands key =
     (if cands = [] then None
      else let h = fx (str_bytes key);
               total_weight = sum_list (map cd_weight cands)
           in if total_weight = 0 then None else ch_walk cands (h mod total_weight))"

section \<open>Sticky sessions\<close>

record StickyEntry =
  se_candidate_id :: string
  se_expires_at_ms :: nat

record StickyTable =
  st_ttl_ms :: nat
  st_entries :: "string \<rightharpoonup> StickyEntry"
  st_picker :: Wrr
  st_picker_ids :: "string list"

definition sticky_new :: "nat \<Rightarrow> StickyTable" where
  "sticky_new ttl_ms = \<lparr>st_ttl_ms = max ttl_ms 1, st_entries = Map.empty, st_picker = wrr_new [],
     st_picker_ids = []\<rparr>"

definition refresh_picker :: "StickyTable \<Rightarrow> Candidate list \<Rightarrow> StickyTable" where
  "refresh_picker t candidates =
     (let ids = map cd_id candidates in
      if ids = st_picker_ids t then t
      else t\<lparr>st_picker_ids := ids, st_picker := wrr_new candidates\<rparr>)"

definition sticky_repick :: "StickyTable \<Rightarrow> string \<Rightarrow> Candidate list \<Rightarrow> nat \<Rightarrow> (string option \<times> StickyTable) option" where
  "sticky_repick t key candidates now_ms =
     (let t' = refresh_picker t candidates in
      case wrr_pick (st_picker t') of
        None \<Rightarrow> None
      | Some (None, w) \<Rightarrow> Some (None, t'\<lparr>st_picker := w\<rparr>)
      | Some (Some picked, w) \<Rightarrow>
          Some (Some picked,
            t'\<lparr>st_picker := w,
               st_entries := (st_entries t')(key \<mapsto>
                 \<lparr>se_candidate_id = picked, se_expires_at_ms = sat_add64 now_ms (st_ttl_ms t')\<rparr>)\<rparr>))"

definition sticky_pick :: "StickyTable \<Rightarrow> string \<Rightarrow> Candidate list \<Rightarrow> nat \<Rightarrow> (string option \<times> StickyTable) option" where
  "sticky_pick t key candidates now_ms =
     (if candidates = [] then Some (None, refresh_picker (t\<lparr>st_entries := Map.empty\<rparr>) candidates)
      else case st_entries t key of
        Some entry \<Rightarrow>
          if now_ms < se_expires_at_ms entry \<and> se_candidate_id entry \<in> set (map cd_id candidates)
          then Some (Some (se_candidate_id entry), t)
          else sticky_repick t key candidates now_ms
      | None \<Rightarrow> sticky_repick t key candidates now_ms)"

section \<open>Source leases\<close>

datatype MaxAgePolicy = MaOff | MaSoft | MaHard

record SourceLeaseRotateConfig =
  lc_idle_timeout_ms :: nat
  lc_max_age_ms :: nat
  lc_max_age_policy :: MaxAgePolicy
  lc_switch_cooldown_ms :: nat

record SourceLeaseActivity =
  la_active_flows :: nat
  la_idle_since_ms :: "nat option"

datatype SourceLeaseReason = LrNew | LrHit | LrIdleExpired | LrMaxAgeSoft | LrMaxAgeHard | LrUnhealthy

record SourceLeaseDecision =
  ld_candidate_id :: string
  ld_reason :: SourceLeaseReason
  ld_generation :: nat

record SourceLeaseEntry =
  le_candidate_id :: string
  le_created_at_ms :: nat
  le_last_seen_at_ms :: nat
  le_generation :: nat
  le_cooldown_until_ms :: nat

record SourceLeaseRotate =
  lr_config :: SourceLeaseRotateConfig
  lr_entries :: "string \<rightharpoonup> SourceLeaseEntry"

definition lease_new :: "SourceLeaseRotateConfig \<Rightarrow> SourceLeaseRotate" where
  "lease_new config = \<lparr>lr_config = \<lparr>lc_idle_timeout_ms = max (lc_idle_timeout_ms config) 1,
     lc_max_age_ms = max (lc_max_age_ms config) 1, lc_max_age_policy = lc_max_age_policy config,
     lc_switch_cooldown_ms = lc_switch_cooldown_ms config\<rparr>, lr_entries = Map.empty\<rparr>"

definition idle_expired :: "SourceLeaseRotateConfig \<Rightarrow> SourceLeaseEntry \<Rightarrow> nat \<Rightarrow> SourceLeaseActivity option \<Rightarrow> bool" where
  "idle_expired cfg entry now_ms activity =
     (case activity of
        Some a \<Rightarrow>
          if la_active_flows a > 0 then False
          else (case la_idle_since_ms a of
                  Some idle_since \<Rightarrow> sat_sub now_ms idle_since \<ge> lc_idle_timeout_ms cfg
                | None \<Rightarrow> sat_sub now_ms (le_last_seen_at_ms entry) \<ge> lc_idle_timeout_ms cfg)
      | None \<Rightarrow> sat_sub now_ms (le_last_seen_at_ms entry) \<ge> lc_idle_timeout_ms cfg)"

text \<open>The bytes written to the hasher for one candidate, and the loop that keeps the first best score.\<close>

definition rendezvous_input :: "string \<Rightarrow> nat \<Rightarrow> string \<Rightarrow> bytes" where
  "rendezvous_input source_key generation cid =
     str_bytes source_key @ [0xff] @ le_bytes 8 generation @ [0xfe] @ str_bytes cid"

fun rendezvous_loop ::
    "(bytes \<Rightarrow> nat) \<Rightarrow> (nat \<Rightarrow> nat \<Rightarrow> 'f) \<Rightarrow> ('f \<Rightarrow> 'f \<Rightarrow> bool) \<Rightarrow> string \<Rightarrow> nat \<Rightarrow> string option
      \<Rightarrow> Candidate list \<Rightarrow> (string \<times> 'f) option \<Rightarrow> (string \<times> 'f) option" where
  "rendezvous_loop fx score gt source_key generation exclude_id [] best = best"
| "rendezvous_loop fx score gt source_key generation exclude_id (c # cs) best =
     (if Some (cd_id c) = exclude_id
      then rendezvous_loop fx score gt source_key generation exclude_id cs best
      else let s = score (fx (rendezvous_input source_key generation (cd_id c))) (max (cd_weight c) 1)
           in rendezvous_loop fx score gt source_key generation exclude_id cs
                (case best of None \<Rightarrow> Some (cd_id c, s)
                 | Some (b, bs) \<Rightarrow> if gt s bs then Some (cd_id c, s) else best))"

definition pick_weighted_rendezvous ::
    "(bytes \<Rightarrow> nat) \<Rightarrow> (nat \<Rightarrow> nat \<Rightarrow> 'f) \<Rightarrow> ('f \<Rightarrow> 'f \<Rightarrow> bool) \<Rightarrow> string \<Rightarrow> nat \<Rightarrow> Candidate list
      \<Rightarrow> string option \<Rightarrow> string option" where
  "pick_weighted_rendezvous fx score gt source_key generation candidates exclude_id =
     map_option fst (rendezvous_loop fx score gt source_key generation exclude_id candidates None)"

text \<open>The decision of \<^verbatim>\<open>pick_inner\<close> before it picks: \<open>None\<close> keeps the lease, otherwise the reason, the
  next generation and the candidate to leave out.\<close>

definition lease_reason ::
    "SourceLeaseRotate \<Rightarrow> string \<Rightarrow> Candidate list \<Rightarrow> nat \<Rightarrow> SourceLeaseActivity option
      \<Rightarrow> (SourceLeaseReason \<times> nat \<times> string option) option" where
  "lease_reason l source_key candidates now_ms activity =
     (let cfg = lr_config l in
      case lr_entries l source_key of
        None \<Rightarrow> Some (LrNew, 0, None)
      | Some entry \<Rightarrow>
          if le_candidate_id entry \<notin> set (map cd_id candidates)
          then Some (LrUnhealthy, wrap64 (le_generation entry + 1), None)
          else if idle_expired cfg entry now_ms activity
          then Some (LrIdleExpired, wrap64 (le_generation entry + 1), None)
          else if lc_max_age_policy cfg \<noteq> MaOff
               \<and> sat_sub now_ms (le_created_at_ms entry) \<ge> lc_max_age_ms cfg
               \<and> now_ms \<ge> le_cooldown_until_ms entry
          then Some (case lc_max_age_policy cfg of MaOff \<Rightarrow> LrHit | MaSoft \<Rightarrow> LrMaxAgeSoft | MaHard \<Rightarrow> LrMaxAgeHard,
                     wrap64 (le_generation entry + 1),
                     if lc_max_age_policy cfg = MaHard \<and> length candidates > 1
                     then Some (le_candidate_id entry) else None)
          else None)"

definition lease_pick ::
    "(bytes \<Rightarrow> nat) \<Rightarrow> (nat \<Rightarrow> nat \<Rightarrow> 'f) \<Rightarrow> ('f \<Rightarrow> 'f \<Rightarrow> bool) \<Rightarrow> SourceLeaseRotate \<Rightarrow> string
      \<Rightarrow> Candidate list \<Rightarrow> nat \<Rightarrow> SourceLeaseActivity option \<Rightarrow> SourceLeaseDecision option \<times> SourceLeaseRotate" where
  "lease_pick fx score gt l source_key candidates now_ms activity =
     (if candidates = [] then (None, l\<lparr>lr_entries := Map.empty\<rparr>)
      else case lease_reason l source_key candidates now_ms activity of
        None \<Rightarrow>
          (let entry = the (lr_entries l source_key) in
           (Some \<lparr>ld_candidate_id = le_candidate_id entry, ld_reason = LrHit, ld_generation = le_generation entry\<rparr>,
            l\<lparr>lr_entries := (lr_entries l)(source_key \<mapsto> entry\<lparr>le_last_seen_at_ms := now_ms\<rparr>)\<rparr>))
      | Some (reason, generation, exclude_id) \<Rightarrow>
          (case pick_weighted_rendezvous fx score gt source_key generation candidates exclude_id of
             None \<Rightarrow> (None, l)
           | Some picked \<Rightarrow>
               (Some \<lparr>ld_candidate_id = picked, ld_reason = reason, ld_generation = generation\<rparr>,
                l\<lparr>lr_entries := (lr_entries l)(source_key \<mapsto>
                   \<lparr>le_candidate_id = picked, le_created_at_ms = now_ms, le_last_seen_at_ms = now_ms,
                    le_generation = generation,
                    le_cooldown_until_ms = sat_add64 now_ms (lc_switch_cooldown_ms (lr_config l))\<rparr>)\<rparr>)))"

section \<open>Shares of smooth weighted round robin\<close>

abbreviation weight_at :: "Candidate list \<Rightarrow> nat \<Rightarrow> int" where
  "weight_at cands i \<equiv> int (cd_weight (cands ! i))"

lemma swrr_total_sum: "swrr_total cands = (\<Sum>i < length cands. weight_at cands i)"
  by (simp add: swrr_total_def sum_list_sum_nth atLeast0LessThan)

lemma swrr_raise_fold:
  assumes "length cur = length cands" "n \<le> length cands" "cands \<noteq> []"
  shows "\<exists>cur' best. foldl (swrr_raise cands) (cur, 0) [0..<n] = (cur', best) \<and> length cur' = length cands
    \<and> best < max n 1 \<and> (\<forall>i < length cands. cur' ! i = cur ! i + (if i < n then weight_at cands i else 0))
    \<and> (\<forall>j < n. cur' ! j \<le> cur' ! best)"
  using assms(2)
proof (induction n)
  case 0
  with assms show ?case by simp
next
  case (Suc n)
  then obtain cur' best where ih: "foldl (swrr_raise cands) (cur, 0) [0..<n] = (cur', best)"
    "length cur' = length cands" "best < max n 1"
    "\<And>i. i < length cands \<Longrightarrow> cur' ! i = cur ! i + (if i < n then weight_at cands i else 0)"
    "\<And>j. j < n \<Longrightarrow> cur' ! j \<le> cur' ! best" by auto
  define up where "up = cur'[n := cur' ! n + weight_at cands n]"
  define b where "b = (if up ! n > up ! best then n else best)"
  have step: "foldl (swrr_raise cands) (cur, 0) [0..<Suc n] = (up, b)"
    by (simp add: ih(1) swrr_raise_def up_def b_def Let_def)
  have vals: "up ! i = cur ! i + (if i < Suc n then weight_at cands i else 0)" if "i < length cands" for i
    using that ih(2) ih(4) [OF that] Suc.prems by (auto simp: up_def nth_list_update)
  have "up ! j \<le> up ! b" if "j < Suc n" for j
  proof (cases "j = n")
    case False
    with that have "j < n" by simp
    then have "up ! j = cur' ! j" "up ! best = cur' ! best" using ih(3) by (auto simp: up_def)
    with ih(5) [OF \<open>j < n\<close>] show ?thesis by (simp add: b_def)
  qed (simp add: b_def)
  moreover have "b < max (Suc n) 1" using ih(3) by (auto simp: b_def max_def split: if_splits)
  moreover have "length up = length cands" by (simp add: up_def ih(2))
  ultimately show ?case using step vals by blast
qed

text \<open>After \<open>t\<close> picks, of which \<open>cnt i\<close> went to candidate \<open>i\<close>.\<close>

definition swrr_inv :: "Swrr \<Rightarrow> nat \<Rightarrow> (nat \<Rightarrow> nat) \<Rightarrow> bool" where
  "swrr_inv s t cnt \<longleftrightarrow> length (sw_current s) = length (sw_cands s)
     \<and> (\<forall>i < length (sw_cands s). sw_current s ! i
          = int t * weight_at (sw_cands s) i - swrr_total (sw_cands s) * int (cnt i)
        \<and> - swrr_total (sw_cands s) < sw_current s ! i)
     \<and> (\<Sum>i < length (sw_cands s). cnt i) = t"

lemma swrr_invI:
  assumes "length cur = length cs"
    and "\<And>i. i < length cs \<Longrightarrow> cur ! i = int t * weight_at cs i - swrr_total cs * int (cnt i) \<and> - swrr_total cs < cur ! i"
    and "(\<Sum>i < length cs. cnt i) = t"
  shows "swrr_inv \<lparr>sw_cands = cs, sw_current = cur\<rparr> t cnt"
  using assms unfolding swrr_inv_def Swrr.select_convs by blast

lemma swrr_inv_new: "0 < swrr_total cands \<Longrightarrow> swrr_inv (swrr_new cands) 0 (\<lambda>_. 0)"
  by (simp add: swrr_inv_def swrr_new_def)

lemma sum_weights_current:
  assumes "swrr_inv s t cnt"
  shows "(\<Sum>i < length (sw_cands s). sw_current s ! i) = 0"
proof -
  have "(\<Sum>i < length (sw_cands s). sw_current s ! i)
      = (\<Sum>i < length (sw_cands s). int t * weight_at (sw_cands s) i - swrr_total (sw_cands s) * int (cnt i))"
    using assms by (intro sum.cong) (auto simp: swrr_inv_def)
  also have "\<dots> = int t * swrr_total (sw_cands s) - swrr_total (sw_cands s) * (\<Sum>i < length (sw_cands s). int (cnt i))"
    by (simp only: sum_subtractf sum_distrib_left [symmetric] swrr_total_sum)
  also have "(\<Sum>i < length (sw_cands s). int (cnt i)) = int t"
    using assms by (simp add: swrr_inv_def flip: int_sum)
  finally show ?thesis by simp
qed

lemma swrr_pick_inv:
  assumes inv: "swrr_inv s t cnt" and tot: "0 < swrr_total (sw_cands s)"
  obtains best where "best < length (sw_cands s)"
    "fst (swrr_pick s) = Some (cd_id (sw_cands s ! best))" "sw_cands (snd (swrr_pick s)) = sw_cands s"
    "swrr_inv (snd (swrr_pick s)) (Suc t) (cnt(best := Suc (cnt best)))"
proof -
  let ?cs = "sw_cands s" and ?n = "length (sw_cands s)"
  have ne: "?cs \<noteq> []" using tot by (auto simp: swrr_total_def)
  have len: "length (sw_current s) = ?n" using inv by (simp add: swrr_inv_def)
  obtain cur best where f: "foldl (swrr_raise ?cs) (sw_current s, 0) [0..<?n] = (cur, best)"
    "length cur = ?n" "best < ?n" "\<And>i. i < ?n \<Longrightarrow> cur ! i = sw_current s ! i + weight_at ?cs i"
    "\<And>j. j < ?n \<Longrightarrow> cur ! j \<le> cur ! best"
  proof -
    have "max ?n 1 = ?n" using ne by (cases "?cs") auto
    with swrr_raise_fold [OF len order_refl ne] that show ?thesis by auto
  qed
  have "(\<Sum>i < ?n. cur ! i) = swrr_total ?cs"
    using sum_weights_current [OF inv] by (simp add: f(4) sum.distrib swrr_total_sum)
  moreover have "(\<Sum>i < ?n. cur ! i) \<le> (\<Sum>i < ?n. cur ! best)" using f(5) by (intro sum_mono) simp
  ultimately have "swrr_total ?cs \<le> int ?n * cur ! best" by simp
  then have pos: "0 < cur ! best" using tot by (metis less_le_trans of_nat_0_le_iff zero_less_mult_pos2
        mult.commute mult_nonneg_nonpos2 not_le)
  have pick: "swrr_pick s = (Some (cd_id (?cs ! best)), s\<lparr>sw_current := cur[best := cur ! best - swrr_total ?cs]\<rparr>)"
    using ne f(1) by (simp add: swrr_pick_def Let_def)
  have "swrr_inv (snd (swrr_pick s)) (Suc t) (cnt(best := Suc (cnt best)))"
  proof -
    have "cur[best := cur ! best - swrr_total ?cs] ! i
        = int (Suc t) * weight_at ?cs i - swrr_total ?cs * int ((cnt(best := Suc (cnt best))) i)
      \<and> - swrr_total ?cs < cur[best := cur ! best - swrr_total ?cs] ! i" if "i < ?n" for i
    proof -
      have old: "sw_current s ! i = int t * weight_at ?cs i - swrr_total ?cs * int (cnt i)"
        "- swrr_total ?cs < sw_current s ! i"
        using inv that unfolding swrr_inv_def by blast+
      show ?thesis
      proof (cases "i = best")
        case True
        with old f(2,3,4) pos show ?thesis by (simp add: algebra_simps)
      next
        case False
        with old f(2) f(4) [OF that] show ?thesis by (simp add: algebra_simps)
      qed
    qed
    moreover have "(\<Sum>i < ?n. (cnt(best := Suc (cnt best))) i) = Suc t"
    proof -
      have "(\<Sum>i < ?n. (cnt(best := Suc (cnt best))) i) = (\<Sum>i < ?n. cnt i + (if i = best then 1 else 0))"
        by (intro sum.cong) auto
      also have "\<dots> = t + 1" using inv f(3) by (simp add: sum.distrib swrr_inv_def)
      finally show ?thesis by simp
    qed
    moreover have "snd (swrr_pick s)
        = \<lparr>sw_cands = ?cs, sw_current = cur[best := cur ! best - swrr_total ?cs]\<rparr>" by (simp add: pick)
    ultimately show ?thesis using f(2) by (metis length_list_update swrr_invI)
  qed
  with that f(3) pick show ?thesis by simp
qed

text \<open>\<open>k\<close> picks in a row.\<close>

definition swrr_run :: "Swrr \<Rightarrow> nat \<Rightarrow> string option list \<times> Swrr" where
  "swrr_run s k = run_steps (\<lambda>s (_ :: unit). swrr_pick s) s (replicate k ())"

lemma swrr_run_Suc:
  "fst (swrr_run s (Suc k)) = fst (swrr_pick s) # fst (swrr_run (snd (swrr_pick s)) k)"
  "snd (swrr_run s (Suc k)) = snd (swrr_run (snd (swrr_pick s)) k)"
  by (simp_all add: swrr_run_def split: prod.splits)

lemma swrr_run_inv:
  assumes "swrr_inv s t cnt" "0 < swrr_total (sw_cands s)" "distinct (map cd_id (sw_cands s))"
  shows "\<exists>cnt'. swrr_inv (snd (swrr_run s k)) (t + k) cnt' \<and> sw_cands (snd (swrr_run s k)) = sw_cands s
    \<and> (\<forall>i < length (sw_cands s). cnt' i = cnt i + count_list (fst (swrr_run s k)) (Some (cd_id (sw_cands s ! i))))"
  using assms
proof (induction k arbitrary: s t cnt)
  case 0
  then show ?case by (auto simp: swrr_run_def)
next
  case (Suc k)
  obtain best where b: "best < length (sw_cands s)" "fst (swrr_pick s) = Some (cd_id (sw_cands s ! best))"
    "sw_cands (snd (swrr_pick s)) = sw_cands s"
    "swrr_inv (snd (swrr_pick s)) (Suc t) (cnt(best := Suc (cnt best)))"
    by (rule swrr_pick_inv [OF Suc.prems(1,2)])
  from Suc.IH [OF b(4)] Suc.prems(2,3) b(3) obtain cnt' where
    ih: "swrr_inv (snd (swrr_run (snd (swrr_pick s)) k)) (Suc t + k) cnt'"
    "sw_cands (snd (swrr_run (snd (swrr_pick s)) k)) = sw_cands s"
    "\<And>i. i < length (sw_cands s) \<Longrightarrow> cnt' i = (cnt(best := Suc (cnt best))) i
       + count_list (fst (swrr_run (snd (swrr_pick s)) k)) (Some (cd_id (sw_cands s ! i)))"
    by auto
  have "cd_id (sw_cands s ! i) = cd_id (sw_cands s ! best) \<longleftrightarrow> i = best" if "i < length (sw_cands s)" for i
    using Suc.prems(3) that b(1) nth_eq_iff_index_eq [of "map cd_id (sw_cands s)" i best] by simp
  then have "cnt' i = cnt i + count_list (fst (swrr_run s (Suc k))) (Some (cd_id (sw_cands s ! i)))"
    if "i < length (sw_cands s)" for i
    using that ih(3) [OF that] b(2) by (cases "i = best") (simp_all add: swrr_run_Suc, metis)
  with ih(1,2) show ?case by (auto simp: swrr_run_Suc)
qed

lemma counts_meet_weights:
  fixes cnt :: "nat \<Rightarrow> nat" and w :: "nat \<Rightarrow> nat"
  assumes "\<And>i. i < n \<Longrightarrow> cnt i \<le> k * w i" "(\<Sum>i < n. cnt i) = k * (\<Sum>i < n. w i)" "i < n"
  shows "cnt i = k * w i"
proof (rule ccontr)
  assume "cnt i \<noteq> k * w i"
  then have "(\<Sum>i < n. cnt i) < (\<Sum>i < n. k * w i)"
    using assms(1,3) by (intro sum_strict_mono_ex1) (auto intro!: bexI [of _ i] simp: le_neq_implies_less)
  with assms(2) show False by (simp add: sum_distrib_left)
qed

section \<open>Weighted round robin\<close>

text \<open>What the rest of the current round will hand out.\<close>

definition wrr_rest :: "Wrr \<Rightarrow> string list" where
  "wrr_rest w =
     drop (wr_counter w) (replicate (cd_weight (wr_cands w ! wr_cursor w)) (cd_id (wr_cands w ! wr_cursor w)))
     @ concat (map (\<lambda>c. replicate (cd_weight c) (cd_id c)) (drop (Suc (wr_cursor w)) (wr_cands w)))"

lemma wrr_rest_new: "cands \<noteq> [] \<Longrightarrow> wrr_rest (wrr_new cands) = concat (map (\<lambda>c. replicate (cd_weight c) (cd_id c)) cands)"
  by (cases cands) (simp_all add: wrr_rest_def wrr_new_def)

lemma wrr_loop_hit:
  "wr_counter w < cd_weight (wr_cands w ! wr_cursor w) \<Longrightarrow>
   wrr_loop w = Some (cd_id (wr_cands w ! wr_cursor w), w\<lparr>wr_counter := wr_counter w + 1\<rparr>)"
  by (subst wrr_loop.simps) (simp add: Let_def)

lemma wrr_loop_next:
  "\<not> wr_counter w < cd_weight (wr_cands w ! wr_cursor w) \<Longrightarrow>
   wrr_loop w = wrr_loop (w\<lparr>wr_cursor := (wr_cursor w + 1) mod length (wr_cands w), wr_counter := 0\<rparr>)"
  by (subst wrr_loop.simps) (simp add: Let_def)

lemma wrr_loop_rest:
  assumes "wr_cursor w < length (wr_cands w)" "wrr_rest w = x # xs"
  shows "\<exists>w'. wrr_loop w = Some (x, w') \<and> wrr_rest w' = xs \<and> wr_cands w' = wr_cands w
    \<and> wr_cursor w' < length (wr_cands w)"
  using assms
proof (induction "length (wr_cands w) - wr_cursor w" arbitrary: w)
  case (Suc n)
  let ?c = "wr_cands w ! wr_cursor w"
  show ?case
  proof (cases "wr_counter w < cd_weight ?c")
    case True
    then obtain m where m: "cd_weight ?c - wr_counter w = Suc m" "cd_weight ?c - Suc (wr_counter w) = m"
      using Suc_diff_Suc by metis
    with Suc.prems(2) have "x = cd_id ?c"
      "xs = drop (Suc (wr_counter w)) (replicate (cd_weight ?c) (cd_id ?c))
        @ concat (map (\<lambda>c. replicate (cd_weight c) (cd_id c)) (drop (Suc (wr_cursor w)) (wr_cands w)))"
      by (auto simp: wrr_rest_def)
    with True Suc.prems(1) show ?thesis by (simp add: wrr_loop_hit wrr_rest_def)
  next
    case False
    let ?w = "w\<lparr>wr_cursor := Suc (wr_cursor w), wr_counter := 0\<rparr>"
    from False Suc.prems(2) have tail: "concat (map (\<lambda>c. replicate (cd_weight c) (cd_id c))
        (drop (Suc (wr_cursor w)) (wr_cands w))) = x # xs" by (simp add: wrr_rest_def)
    then have lt: "Suc (wr_cursor w) < length (wr_cands w)" by (auto simp: not_le [symmetric])
    with tail have "wrr_rest ?w = x # xs" by (simp add: wrr_rest_def Cons_nth_drop_Suc [symmetric])
    with lt Suc(1) [of ?w] Suc(2) False show ?thesis by (simp add: wrr_loop_next)
  qed
qed simp

definition wrr_step :: "Wrr option \<Rightarrow> unit \<Rightarrow> string option option \<times> Wrr option" where
  "wrr_step w u = (case w of None \<Rightarrow> (None, None)
     | Some w \<Rightarrow> (case wrr_pick w of None \<Rightarrow> (None, None) | Some (r, w') \<Rightarrow> (Some r, Some w')))"

lemma wrr_run_rest:
  assumes "wr_cursor w < length (wr_cands w)" "k \<le> length (wrr_rest w)"
  shows "fst (run_steps wrr_step (Some w) (replicate k ())) = map (\<lambda>i. Some (Some i)) (take k (wrr_rest w))"
  using assms
proof (induction k arbitrary: w)
  case (Suc k)
  then obtain x xs where rest: "wrr_rest w = x # xs" by (cases "wrr_rest w") auto
  obtain w' where w': "wrr_loop w = Some (x, w')" "wrr_rest w' = xs" "wr_cands w' = wr_cands w"
    "wr_cursor w' < length (wr_cands w)" using wrr_loop_rest [OF Suc.prems(1) rest] by blast
  have "wr_cands w \<noteq> []" using Suc.prems(1) by auto
  with w'(1) have "wrr_step (Some w) () = (Some (Some x), Some w')" by (simp add: wrr_step_def wrr_pick_def)
  with Suc.IH [of w'] w' rest Suc.prems show ?case
    by (simp add: run_steps_Cons_eq del: run_steps.simps(2))
qed simp

text \<open>Somewhere ahead of the cursor, going round, there is a positive weight.\<close>

lemma wrr_loop_total:
  assumes "wr_cursor w < length (wr_cands w)" "j < length (wr_cands w)" "0 < cd_weight (wr_cands w ! j)"
  shows "\<exists>y. wrr_loop w = Some y"
proof -
  have fresh: "\<exists>y. wrr_loop v = Some y" if "wr_counter v = 0" "wr_cands v = wr_cands w"
    "(wr_cursor v + d) mod length (wr_cands w) = j" "wr_cursor v < length (wr_cands w)" for d v
    using that
  proof (induction d arbitrary: v)
    case 0
    with assms show ?case by (simp add: wrr_loop_hit)
  next
    case (Suc d)
    let ?v = "v\<lparr>wr_cursor := (wr_cursor v + 1) mod length (wr_cands w), wr_counter := 0\<rparr>"
    have "(wr_cursor v + 1) mod length (wr_cands w) < length (wr_cands w)"
      using assms(1) by (intro mod_less_divisor) linarith
    then have "\<exists>y. wrr_loop ?v = Some y"
      using Suc.prems by (intro Suc.IH) (simp_all add: mod_add_left_eq)
    then show ?case
      using Suc.prems by (cases "wr_counter v < cd_weight (wr_cands v ! wr_cursor v)")
        (simp_all add: wrr_loop_hit wrr_loop_next)
  qed
  show ?thesis
  proof (cases "wr_counter w < cd_weight (wr_cands w ! wr_cursor w)")
    case False
    let ?n = "length (wr_cands w)" and ?k = "(wr_cursor w + 1) mod length (wr_cands w)"
    have "?k < ?n" using assms(1) by (intro mod_less_divisor) linarith
    then have "(?k + (?n - ?k + j)) mod ?n = j" using assms(2) by simp
    with False \<open>?k < ?n\<close> fresh [of "w\<lparr>wr_cursor := ?k, wr_counter := 0\<rparr>" "?n - ?k + j"]
    show ?thesis by (simp add: wrr_loop_next)
  qed (simp add: wrr_loop_hit)
qed

lemma wrr_loop_positive:
  assumes "wrr_loop w = Some y"
  shows "wr_cursor w < length (wr_cands w) \<longrightarrow> (\<exists>c \<in> set (wr_cands w). 0 < cd_weight c)"
proof (rule wrr_loop.raw_induct [where P = "\<lambda>w y. wr_cursor w < length (wr_cands w) \<longrightarrow>
      (\<exists>c \<in> set (wr_cands w). 0 < cd_weight c)", OF _ assms])
  fix rec w y
  assume ih: "\<And>x y. rec x = Some y \<Longrightarrow> wr_cursor x < length (wr_cands x) \<longrightarrow>
      (\<exists>c \<in> set (wr_cands x). 0 < cd_weight c)"
    and step: "(let c = wr_cands w ! wr_cursor w in
      if wr_counter w < cd_weight c then Some (cd_id c, w\<lparr>wr_counter := wr_counter w + 1\<rparr>)
      else rec (w\<lparr>wr_cursor := (wr_cursor w + 1) mod length (wr_cands w), wr_counter := 0\<rparr>)) = Some y"
  show "wr_cursor w < length (wr_cands w) \<longrightarrow> (\<exists>c \<in> set (wr_cands w). 0 < cd_weight c)"
  proof
    assume c: "wr_cursor w < length (wr_cands w)"
    let ?w = "w\<lparr>wr_cursor := (wr_cursor w + 1) mod length (wr_cands w), wr_counter := 0\<rparr>"
    show "\<exists>c \<in> set (wr_cands w). 0 < cd_weight c"
    proof (cases "wr_counter w < cd_weight (wr_cands w ! wr_cursor w)")
      case True
      with c show ?thesis by (auto intro!: bexI [of _ "wr_cands w ! wr_cursor w"])
    next
      case False
      with step have "rec ?w = Some y" by (simp add: Let_def)
      moreover have "(wr_cursor w + 1) mod length (wr_cands w) < length (wr_cands w)"
        using c by (intro mod_less_divisor) linarith
      ultimately show ?thesis using ih [of ?w y] by simp
    qed
  qed
qed

section \<open>Consistent hashing, sessions and leases\<close>

lemma ch_walk_total: "b < sum_list (map cd_weight cands) \<Longrightarrow> \<exists>c \<in> set cands. ch_walk cands b = Some (cd_id c) \<and> 0 < cd_weight c"
proof (induction cands arbitrary: b)
  case (Cons c cs)
  show ?case
  proof (cases "b < cd_weight c")
    case False
    with Cons.prems have "b - cd_weight c < sum_list (map cd_weight cs)" by simp
    from Cons.IH [OF this] False show ?thesis by auto
  qed auto
qed simp

lemma ch_walk_range: "ch_walk cands b = Some i \<Longrightarrow> i \<in> set (map cd_id cands)"
  by (induction cands arbitrary: b) (auto split: if_splits)

lemma card_shift: "card {b :: nat. w \<le> b \<and> b < w + t \<and> P (b - w)} = card {b. b < t \<and> P b}"
proof -
  have "{b. w \<le> b \<and> b < w + t \<and> P (b - w)} = (\<lambda>b. b + w) ` {b. b < t \<and> P b}"
  proof (intro set_eqI iffI)
    fix b
    assume "b \<in> {b. w \<le> b \<and> b < w + t \<and> P (b - w)}"
    then show "b \<in> (\<lambda>b. b + w) ` {b. b < t \<and> P b}" by (intro image_eqI [of _ _ "b - w"]) auto
  qed auto
  then show ?thesis by (simp add: card_image)
qed

lemma ch_walk_shares:
  assumes "distinct (map cd_id cands)" "c \<in> set cands"
  shows "card {b. b < sum_list (map cd_weight cands) \<and> ch_walk cands b = Some (cd_id c)} = cd_weight c"
  using assms
proof (induction cands)
  case (Cons d cs)
  let ?t = "sum_list (map cd_weight cs)" and ?w = "cd_weight d"
  show ?case
  proof (cases "c = d")
    case True
    have "{b. b < ?w + ?t \<and> ch_walk (d # cs) b = Some (cd_id d)} = {b. b < ?w}"
      using Cons.prems(1) ch_walk_range [of cs] by (auto split: if_splits)
    with True show ?thesis by simp
  next
    case False
    with Cons.prems have c: "c \<in> set cs" "cd_id c \<noteq> cd_id d" by (auto simp: image_iff)
    have "{b. b < ?w + ?t \<and> ch_walk (d # cs) b = Some (cd_id c)}
        = {b. ?w \<le> b \<and> b < ?w + ?t \<and> ch_walk cs (b - ?w) = Some (cd_id c)}"
      using c(2) by (auto split: if_splits)
    with Cons.IH Cons.prems(1) c(1) card_shift [of ?w ?t "\<lambda>b. ch_walk cs b = Some (cd_id c)"]
    show ?thesis by simp
  qed
qed simp

lemma sticky_sticks:
  assumes "sticky_pick t key cands now = Some (Some c, t')" "cands' \<noteq> []" "c \<in> set (map cd_id cands')"
    and "now' < se_expires_at_ms (the (st_entries t' key))"
  shows "sticky_pick t' key cands' now' = Some (Some c, t')"
proof -
  have "\<exists>e. st_entries t' key = Some e \<and> se_candidate_id e = c"
    using assms(1) by (auto simp: sticky_pick_def sticky_repick_def Let_def
        split: if_splits option.splits prod.splits)
  with assms(2-4) show ?thesis by (auto simp: sticky_pick_def)
qed

lemma rendezvous_loop_range:
  "rendezvous_loop fx score gt k g ex cs best = Some (i, s) \<Longrightarrow>
   (\<exists>c \<in> set cs. cd_id c = i \<and> Some i \<noteq> ex) \<or> best = Some (i, s)"
proof (induction cs arbitrary: best)
  case (Cons c cs)
  define x where "x = score (fx (rendezvous_input k g (cd_id c))) (max (cd_weight c) 1)"
  define best' where "best' = (case best of None \<Rightarrow> Some (cd_id c, x)
    | Some (b, bs) \<Rightarrow> if gt x bs then Some (cd_id c, x) else best)"
  show ?case
  proof (cases "Some (cd_id c) = ex")
    case True
    with Cons.prems have "rendezvous_loop fx score gt k g ex cs best = Some (i, s)" by simp
    from Cons.IH [OF this] show ?thesis by auto
  next
    case False
    with Cons.prems have "rendezvous_loop fx score gt k g ex cs best' = Some (i, s)"
      unfolding best'_def x_def by (simp add: Let_def del: One_nat_def)
    from Cons.IH [OF this] False show ?thesis
      by (cases best) (auto simp: best'_def split: if_splits)
  qed
qed simp

lemma rendezvous_loop_Some:
  "best \<noteq> None \<or> (\<exists>c \<in> set cs. Some (cd_id c) \<noteq> ex) \<Longrightarrow> rendezvous_loop fx score gt k g ex cs best \<noteq> None"
proof (induction cs arbitrary: best)
  case (Cons c cs)
  show ?case
  proof (cases "Some (cd_id c) = ex")
    case False
    then have "rendezvous_loop fx score gt k g ex (c # cs) best
        = rendezvous_loop fx score gt k g ex cs (let s = score (fx (rendezvous_input k g (cd_id c))) (max (cd_weight c) 1) in
            case best of None \<Rightarrow> Some (cd_id c, s) | Some (b, bs) \<Rightarrow> if gt s bs then Some (cd_id c, s) else best)"
      by (simp add: Let_def)
    then show ?thesis using Cons.IH by (simp only:) (rule Cons.IH, auto simp: Let_def split: option.splits prod.splits)
  qed (use Cons in auto)
qed auto

lemma rendezvous_pick:
  assumes "\<exists>c \<in> set cs. Some (cd_id c) \<noteq> ex"
  obtains i where "pick_weighted_rendezvous fx score gt k g cs ex = Some i" "i \<in> set (map cd_id cs)" "Some i \<noteq> ex"
proof -
  obtain i s where l: "rendezvous_loop fx score gt k g ex cs None = Some (i, s)"
    using rendezvous_loop_Some [of None cs ex fx score gt k g] assms by auto
  from rendezvous_loop_range [OF l] have "i \<in> set (map cd_id cs)" "Some i \<noteq> ex" by auto
  with l that show ?thesis by (simp add: pick_weighted_rendezvous_def)
qed

lemma lease_exclude:
  assumes "lease_reason l key cands now act = Some (r, g, Some i)"
  shows "length cands > 1 \<and> r = LrMaxAgeHard \<and> (\<exists>e. lr_entries l key = Some e \<and> le_candidate_id e = i)"
  using assms by (auto simp: lease_reason_def Let_def split: option.splits if_splits MaxAgePolicy.splits)

lemma lease_other_candidate:
  assumes "distinct (map cd_id cands)" "length cands > 1"
  shows "\<exists>c \<in> set cands. cd_id c \<noteq> i"
proof -
  obtain a b cs where c: "cands = a # b # cs" using assms(2) by (cases cands; cases "tl cands") auto
  with assms(1) have "cd_id a \<noteq> cd_id b" by auto
  with c show ?thesis by (cases "cd_id a = i") auto
qed

section \<open>Properties\<close>

text \<open>C13: smooth weighted round robin gives exact shares. With distinct ids and a positive sum of
  weights, after any whole number \<open>k\<close> of rounds from a fresh picker every candidate was picked
  exactly \<open>k\<close> times its weight, and after any number of picks no candidate is ahead of its
  proportional share by a full pick or more.\<close>

theorem swrr_exact_shares:
  assumes "distinct (map cd_id cands)" "0 < swrr_total cands" "c \<in> set cands"
  shows "count_list (fst (swrr_run (swrr_new cands) (k * nat (swrr_total cands)))) (Some (cd_id c)) = k * cd_weight c
    \<and> swrr_total cands * int (count_list (fst (swrr_run (swrr_new cands) t)) (Some (cd_id c)))
        < int t * int (cd_weight c) + swrr_total cands"
proof -
  let ?n = "length cands" and ?T = "swrr_total cands"
  have new: "sw_cands (swrr_new cands) = cands" by (simp add: swrr_new_def)
  define cnt where "cnt t i = count_list (fst (swrr_run (swrr_new cands) t)) (Some (cd_id (cands ! i)))" for t i
  have inv: "int t * weight_at cands i - ?T * int (cnt t i) > - ?T" "(\<Sum>i < ?n. cnt t i) = t" if "i < ?n" for t i
  proof -
    obtain cnt' where c: "swrr_inv (snd (swrr_run (swrr_new cands) t)) t cnt'"
      "sw_cands (snd (swrr_run (swrr_new cands) t)) = cands" "\<And>i. i < ?n \<Longrightarrow> cnt' i = cnt t i"
      using swrr_run_inv [OF swrr_inv_new [OF assms(2)], of t] assms new by (auto simp: cnt_def)
    then show "int t * weight_at cands i - ?T * int (cnt t i) > - ?T" "(\<Sum>i < ?n. cnt t i) = t"
      using that by (auto simp: swrr_inv_def)
  qed
  obtain j where j: "j < ?n" "c = cands ! j" using assms(3) by (auto simp: in_set_conv_nth)
  let ?t = "k * nat ?T"
  have le: "cnt ?t i \<le> k * cd_weight (cands ! i)" if "i < ?n" for i
  proof -
    have "?T * (int k * weight_at cands i - int (cnt ?t i)) > ?T * (- 1)"
      using inv(1) [OF that, of ?t] assms(2) by (simp add: algebra_simps)
    then have "int k * weight_at cands i - int (cnt ?t i) > - 1" using assms(2) by (simp only: mult_less_cancel_left_pos)
    then show ?thesis by (simp flip: of_nat_mult)
  qed
  have "nat ?T = (\<Sum>i < ?n. cd_weight (cands ! i))"
    unfolding swrr_total_sum by (simp flip: of_nat_sum)
  then have "cnt ?t j = k * cd_weight (cands ! j)"
    using counts_meet_weights [of ?n "cnt ?t" k "\<lambda>i. cd_weight (cands ! i)" j] le inv(2) [OF j(1), of ?t] j(1) by simp
  with inv(1) [OF j(1), of t] j(2) show ?thesis by (simp add: cnt_def)
qed

theorem swrr_exact_shares_witness:
  "count_list (fst (swrr_run (swrr_new [\<lparr>cd_id = ''a'', cd_weight = 5\<rparr>, \<lparr>cd_id = ''b'', cd_weight = 2\<rparr>]) 14)) (Some ''a'') = 10"
  using swrr_exact_shares [of "[\<lparr>cd_id = ''a'', cd_weight = 5\<rparr>, \<lparr>cd_id = ''b'', cd_weight = 2\<rparr>]"
      "\<lparr>cd_id = ''a'', cd_weight = 5\<rparr>" 2 0]
  by (simp add: swrr_total_def)

text \<open>C14: the loop of weighted round robin ends exactly when some weight is positive: with all
  weights zero \<open>pick\<close> does not return.\<close>

theorem wrr_terminates_iff:
  assumes "wr_cursor w < length (wr_cands w)"
  shows "(\<exists>y. wrr_pick w = Some y) \<longleftrightarrow> (\<exists>c \<in> set (wr_cands w). 0 < cd_weight c)"
proof -
  have "(\<exists>y. wrr_loop w = Some y) \<longleftrightarrow> (\<exists>c \<in> set (wr_cands w). 0 < cd_weight c)"
    using wrr_loop_positive [of w] wrr_loop_total [OF assms] assms by (auto simp: in_set_conv_nth)
  moreover have "wr_cands w \<noteq> []" using assms by auto
  ultimately show ?thesis by (auto simp: wrr_pick_def)
qed

theorem wrr_terminates_iff_witness:
  "\<not> (\<exists>y. wrr_pick (wrr_new [\<lparr>cd_id = ''a'', cd_weight = 0\<rparr>]) = Some y)"
  using wrr_terminates_iff [of "wrr_new [\<lparr>cd_id = ''a'', cd_weight = 0\<rparr>]"] by (simp add: wrr_new_def)

text \<open>A round of weighted round robin hands out every candidate as often as its weight, in the
  order of the candidates.\<close>

lemma wrr_round:
  assumes "cands \<noteq> []"
  shows "fst (run_steps wrr_step (Some (wrr_new cands)) (replicate (sum_list (map cd_weight cands)) ()))
    = map (\<lambda>i. Some (Some i)) (concat (map (\<lambda>c. replicate (cd_weight c) (cd_id c)) cands))"
proof -
  have "length (wrr_rest (wrr_new cands)) = sum_list (map cd_weight cands)"
    by (simp add: wrr_rest_new [OF assms] length_concat comp_def)
  moreover have "wr_cursor (wrr_new cands) < length (wr_cands (wrr_new cands))" using assms by (simp add: wrr_new_def)
  ultimately show ?thesis
    using wrr_run_rest [of "wrr_new cands" "sum_list (map cd_weight cands)"] by (simp add: wrr_rest_new [OF assms])
qed

text \<open>Consistent hashing. With a positive sum of weights a candidate of positive weight is always
  picked, and of the residues the hash is reduced to, each candidate owns as many as its weight.\<close>

lemma consistent_shares:
  assumes "distinct (map cd_id cands)" "c \<in> set cands" "0 < sum_list (map cd_weight cands)"
  shows "(\<exists>d \<in> set cands. consistent_pick fx cands key = Some (cd_id d) \<and> 0 < cd_weight d)
    \<and> consistent_pick fx cands key = ch_walk cands (fx (str_bytes key) mod sum_list (map cd_weight cands))
    \<and> card {b. b < sum_list (map cd_weight cands) \<and> ch_walk cands b = Some (cd_id c)} = cd_weight c"
proof -
  have "cands \<noteq> []" using assms(2) by auto
  with assms(3) have eq: "consistent_pick fx cands key = ch_walk cands (fx (str_bytes key) mod sum_list (map cd_weight cands))"
    by (auto simp: consistent_pick_def Let_def simp del: sum_list_eq_0_iff)
  with ch_walk_total [OF mod_less_divisor [OF assms(3)]] ch_walk_shares [OF assms(1,2)]
  show ?thesis by auto
qed

text \<open>A source lease. While there are candidates with distinct ids a decision is always made and
  names one of them; a hit keeps the holder and its generation; a hard rotation with an
  alternative never keeps the holder; and the lease table records the decision.\<close>

lemma lease_pick_sound:
  assumes "cands \<noteq> []" "distinct (map cd_id cands)"
  shows "\<exists>d l'. lease_pick fx score gt l key cands now act = (Some d, l')
    \<and> ld_candidate_id d \<in> set (map cd_id cands)
    \<and> (ld_reason d = LrHit \<longrightarrow> (\<exists>e. lr_entries l key = Some e \<and> le_candidate_id e = ld_candidate_id d
          \<and> le_generation e = ld_generation d))
    \<and> (ld_reason d = LrMaxAgeHard \<and> length cands > 1 \<longrightarrow>
          (\<exists>e. lr_entries l key = Some e \<and> le_candidate_id e \<noteq> ld_candidate_id d))
    \<and> map_option le_candidate_id (lr_entries l' key) = Some (ld_candidate_id d)"
proof (cases "lease_reason l key cands now act")
  case None
  then obtain e where e: "lr_entries l key = Some e" "le_candidate_id e \<in> set (map cd_id cands)"
    by (auto simp: lease_reason_def Let_def split: option.splits if_splits)
  with None assms(1) show ?thesis by (simp add: lease_pick_def)
next
  case (Some rge)
  then obtain r g ex where r: "lease_reason l key cands now act = Some (r, g, ex)" by (cases rge) auto
  have "\<exists>c \<in> set cands. Some (cd_id c) \<noteq> ex"
  proof (cases ex)
    case None
    with assms(1) show ?thesis by (cases cands) auto
  next
    case (Some i)
    with lease_exclude [of l key cands now act r g i] r lease_other_candidate [OF assms(2), of i]
    show ?thesis by auto
  qed
  then obtain i where i: "pick_weighted_rendezvous fx score gt key g cands ex = Some i"
    "i \<in> set (map cd_id cands)" "Some i \<noteq> ex" by (rule rendezvous_pick)
  have "r \<noteq> LrHit" "r = LrMaxAgeHard \<and> length cands > 1 \<longrightarrow> (\<exists>e. lr_entries l key = Some e \<and> ex = Some (le_candidate_id e))"
    using r by (auto simp: lease_reason_def Let_def split: option.splits if_splits MaxAgePolicy.splits)
  with i r assms(1) show ?thesis by (auto simp: lease_pick_def)
qed

end
