(* ===== verification/Cycle_Search.thy ===== *)
theory Cycle_Search
  imports Mesh_Prelude
begin

text \<open>
  The three-colour depth-first search for a cycle that the pipeline registry
  (\<^verbatim>\<open>kernel/registry/data_handle.rs\<close>, \<^verbatim>\<open>_dfs_cycle\<close>) and the observation registry
  (\<^verbatim>\<open>kernel/observation/registry.rs\<close>, \<^verbatim>\<open>dfs_cycle\<close>) both run: colour 0 is not visited,
  1 on the stack, 2 finished. The two differ only in what they report of the edge that closes a cycle,
  so the search returns that edge. The depth of the recursion is bounded by fuel, \<open>None\<close> meaning
  that the bound was met; a bound of the number of vertices is never met (\<open>search_total\<close>).
  The search is exact: it succeeds if and only if the graph has no cycle (\<open>search_exact\<close>).
\<close>

section \<open>The search\<close>

fun dfs_cycle :: "nat \<Rightarrow> ('a \<Rightarrow> 'a list) \<Rightarrow> 'a \<Rightarrow> ('a \<Rightarrow> nat) \<Rightarrow> (('a \<times> 'a) + ('a \<Rightarrow> nat)) option"
  and dfs_next :: "nat \<Rightarrow> ('a \<Rightarrow> 'a list) \<Rightarrow> 'a \<Rightarrow> 'a list \<Rightarrow> ('a \<Rightarrow> nat) \<Rightarrow> (('a \<times> 'a) + ('a \<Rightarrow> nat)) option" where
  "dfs_cycle 0 adj node color = None"
| "dfs_cycle (Suc fuel) adj node color =
     (case dfs_next fuel adj node (adj node) (color(node := 1)) of
        None \<Rightarrow> None
      | Some (Inl e) \<Rightarrow> Some (Inl e)
      | Some (Inr color') \<Rightarrow> Some (Inr (color'(node := 2))))"
| "dfs_next fuel adj node [] color = Some (Inr color)"
| "dfs_next fuel adj node (n # ns) color =
     (if color n = 0
      then case dfs_cycle fuel adj n color of
             None \<Rightarrow> None
           | Some (Inl e) \<Rightarrow> Some (Inl e)
           | Some (Inr color') \<Rightarrow> dfs_next fuel adj node ns color'
      else if color n = 1 then Some (Inl (node, n))
      else dfs_next fuel adj node ns color)"

text \<open>The loop over the start vertices.\<close>

fun search_all :: "nat \<Rightarrow> ('a \<Rightarrow> 'a list) \<Rightarrow> 'a list \<Rightarrow> ('a \<Rightarrow> nat) \<Rightarrow> (('a \<times> 'a) + ('a \<Rightarrow> nat)) option" where
  "search_all fuel adj [] color = Some (Inr color)"
| "search_all fuel adj (s # ss) color =
     (if color s = 0
      then case dfs_cycle fuel adj s color of
             None \<Rightarrow> None
           | Some (Inl e) \<Rightarrow> Some (Inl e)
           | Some (Inr color') \<Rightarrow> search_all fuel adj ss color'
      else search_all fuel adj ss color)"

section \<open>Edges and colours\<close>

definition edge_rel :: "('a \<Rightarrow> 'a list) \<Rightarrow> ('a \<times> 'a) set" where
  "edge_rel adj = {(u, w). w \<in> set (adj u)}"

abbreviation with_color :: "nat \<Rightarrow> ('a \<Rightarrow> nat) \<Rightarrow> 'a set" where
  "with_color k c \<equiv> {u. c u = k}"

text \<open>Finished vertices only lead to finished vertices, without a cycle, and no other colours occur.\<close>

definition color_ok :: "('a \<Rightarrow> 'a list) \<Rightarrow> ('a \<Rightarrow> nat) \<Rightarrow> bool" where
  "color_ok adj c \<longleftrightarrow> (\<forall>u. c u \<le> 2) \<and> (\<forall>u \<in> with_color 2 c. set (adj u) \<subseteq> with_color 2 c)
     \<and> acyclic (edge_rel adj \<inter> with_color 2 c \<times> UNIV)"

lemma acyclic_extend:
  assumes "acyclic R" "R \<subseteq> B \<times> B" "v \<notin> B" "W \<subseteq> B"
  shows "acyclic (R \<union> {v} \<times> W)"
proof (rule acyclicI, intro allI notI)
  fix x
  let ?T = "R \<union> {v} \<times> W"
  assume cyc: "(x, x) \<in> ?T\<^sup>+"
  have stay: "(a, b) \<in> R\<^sup>+ \<and> b \<in> B" if "(a, b) \<in> ?T\<^sup>+" "a \<in> B" for a b
    using that
  proof (induction rule: trancl_induct)
    case (base y)
    with assms show ?case by auto
  next
    case (step y z)
    with assms have "(y, z) \<in> R" by auto
    with step assms(2) show ?case by (auto intro: trancl_into_trancl)
  qed
  from cyc have "x \<in> B" using assms(2,4) by (auto elim: tranclE)
  with stay [OF cyc] assms(1) show False by (simp add: acyclic_def)
qed

lemma color_ok_finish:
  assumes ok: "color_ok adj c" and v: "c v = 1" and succ: "set (adj v) \<subseteq> with_color 2 c"
  shows "color_ok adj (c(v := 2))"
proof -
  let ?B = "with_color 2 c" and ?R = "edge_rel adj \<inter> with_color 2 c \<times> UNIV"
  have eq: "edge_rel adj \<inter> with_color 2 (c(v := 2)) \<times> UNIV = ?R \<union> {v} \<times> set (adj v)"
    by (auto simp: edge_rel_def)
  have "acyclic (?R \<union> {v} \<times> set (adj v))"
  proof (rule acyclic_extend)
    show "?R \<subseteq> ?B \<times> ?B" using ok by (auto simp: color_ok_def edge_rel_def)
  qed (use ok v succ in \<open>auto simp: color_ok_def\<close>)
  with eq ok succ show ?thesis by (auto simp: color_ok_def)
qed

lemma color_ok_push: "color_ok adj c \<Longrightarrow> c v = 0 \<Longrightarrow> color_ok adj (c(v := 1))"
proof -
  assume a: "color_ok adj c" "c v = 0"
  then have "with_color 2 (c(v := 1)) = with_color 2 c" by auto
  with a show "color_ok adj (c(v := 1))" unfolding color_ok_def by auto
qed

section \<open>Success: the visited part has no cycle\<close>

lemma dfs_sound:
  "dfs_cycle fuel adj node c = Some (Inr c') \<Longrightarrow> color_ok adj c \<Longrightarrow> c node = 0 \<Longrightarrow>
     color_ok adj c' \<and> with_color 1 c' = with_color 1 c \<and> with_color 2 c \<subseteq> with_color 2 c' \<and> c' node = 2"
  "dfs_next fuel adj node ns c = Some (Inr c') \<Longrightarrow> color_ok adj c \<Longrightarrow>
     color_ok adj c' \<and> with_color 1 c' = with_color 1 c \<and> with_color 2 c \<subseteq> with_color 2 c'
     \<and> set ns \<subseteq> with_color 2 c'"
proof (induction fuel adj node c and fuel adj node ns c arbitrary: c' and c' rule: dfs_cycle_dfs_next.induct)
  case (2 fuel adj node color)
  from "2.prems" obtain c1 where c1: "dfs_next fuel adj node (adj node) (color(node := 1)) = Some (Inr c1)"
    "c' = c1(node := 2)" by (auto split: option.splits sum.splits)
  from "2.IH" [OF c1(1) color_ok_push] "2.prems" have ih: "color_ok adj c1"
    "with_color 1 c1 = with_color 1 (color(node := 1))"
    "with_color 2 (color(node := 1)) \<subseteq> with_color 2 c1" "set (adj node) \<subseteq> with_color 2 c1" by auto
  have "node \<in> with_color 1 (color(node := 1))" by simp
  then have gray: "c1 node = 1" unfolding ih(2) [symmetric] by simp
  with ih(1,4) have "color_ok adj c'" unfolding c1(2) by (intro color_ok_finish)
  moreover have "with_color 1 c' = with_color 1 color"
  proof -
    have "with_color 1 c' = with_color 1 c1 - {node}" by (auto simp: c1(2))
    also have "\<dots> = with_color 1 color" unfolding ih(2) using "2.prems"(3) by auto
    finally show ?thesis .
  qed
  moreover have "with_color 2 color \<subseteq> with_color 2 c'"
    using ih(3) "2.prems"(3) by (auto simp: c1(2))
  ultimately show ?case unfolding c1(2) by (simp only: fun_upd_same simp_thms)
next
  case (4 fuel adj node n ns color)
  show ?case
  proof (cases "color n = 0")
    case True
    with "4.prems" obtain c1 where c1: "dfs_cycle fuel adj n color = Some (Inr c1)"
      "dfs_next fuel adj node ns c1 = Some (Inr c')" by (auto split: option.splits sum.splits)
    from "4.IH"(1) [OF True c1(1) "4.prems"(2) True] "4.IH"(2) [OF True c1(1) refl c1(2)]
    show ?thesis by auto
  next
    case False
    with "4.prems" have n: "color n \<noteq> 1" "dfs_next fuel adj node ns color = Some (Inr c')"
      by (auto split: if_splits)
    have "color n = 2" using "4.prems"(2) False n(1) unfolding color_ok_def
      by (metis One_nat_def le_Suc_eq le_zero_eq numeral_2_eq_2)
    with "4.IH"(3) [OF False n(1,2) "4.prems"(2)] show ?thesis by auto
  qed
qed auto

lemma search_all_sound:
  "search_all fuel adj ss c = Some (Inr c') \<Longrightarrow> color_ok adj c \<Longrightarrow> with_color 1 c = {} \<Longrightarrow>
     color_ok adj c' \<and> with_color 1 c' = {} \<and> with_color 2 c \<subseteq> with_color 2 c' \<and> set ss \<subseteq> with_color 2 c'"
proof (induction ss arbitrary: c)
  case (Cons s ss)
  show ?case
  proof (cases "c s = 0")
    case True
    with Cons.prems obtain c1 where c1: "dfs_cycle fuel adj s c = Some (Inr c1)"
      "search_all fuel adj ss c1 = Some (Inr c')" by (auto split: option.splits sum.splits)
    from dfs_sound(1) [OF c1(1) Cons.prems(2) True] Cons.IH [OF c1(2)] Cons.prems(3) show ?thesis by auto
  next
    case False
    with Cons.prems(2,3) have "c s = 2" unfolding color_ok_def
      by (metis (mono_tags, lifting) One_nat_def empty_iff le_Suc_eq le_zero_eq mem_Collect_eq numeral_2_eq_2)
    with Cons.IH [of c] Cons.prems False show ?thesis by auto
  qed
qed auto

section \<open>Failure: the reported edge closes a cycle\<close>

lemma dfs_complete:
  "dfs_cycle fuel adj node c = Some (Inl (a, b)) \<Longrightarrow> color_ok adj c \<Longrightarrow> c node = 0 \<Longrightarrow>
     \<forall>g \<in> with_color 1 c. (g, node) \<in> (edge_rel adj)\<^sup>* \<Longrightarrow> (a, a) \<in> (edge_rel adj)\<^sup>+ \<and> (a, b) \<in> edge_rel adj"
  "dfs_next fuel adj node ns c = Some (Inl (a, b)) \<Longrightarrow> color_ok adj c \<Longrightarrow> set ns \<subseteq> set (adj node) \<Longrightarrow>
     \<forall>g \<in> with_color 1 c. (g, node) \<in> (edge_rel adj)\<^sup>* \<Longrightarrow> (a, a) \<in> (edge_rel adj)\<^sup>+ \<and> (a, b) \<in> edge_rel adj"
proof (induction fuel adj node c and fuel adj node ns c rule: dfs_cycle_dfs_next.induct)
  case (2 fuel adj node color)
  then have "dfs_next fuel adj node (adj node) (color(node := 1)) = Some (Inl (a, b))"
    by (auto split: option.splits sum.splits)
  from "2.IH" [OF this color_ok_push] "2.prems" show ?case by auto
next
  case (4 fuel adj node n ns color)
  have edge: "(node, n) \<in> edge_rel adj" using "4.prems"(3) by (auto simp: edge_rel_def)
  consider (white) "color n = 0" | (gray) "color n = 1" | (black) "color n \<noteq> 0" "color n \<noteq> 1" by blast
  then show ?case
  proof cases
    case white
    have gray_n: "\<forall>g \<in> with_color 1 color. (g, n) \<in> (edge_rel adj)\<^sup>*"
      using "4.prems"(4) edge by (auto intro: rtrancl_into_rtrancl)
    show ?thesis
    proof (cases "dfs_cycle fuel adj n color = Some (Inl (a, b))")
      case True
      from "4.IH"(1) [OF white True "4.prems"(2) white gray_n] show ?thesis .
    next
      case False
      with white "4.prems"(1) obtain c1 where c1: "dfs_cycle fuel adj n color = Some (Inr c1)"
        "dfs_next fuel adj node ns c1 = Some (Inl (a, b))" by (auto split: option.splits sum.splits)
      from dfs_sound(1) [OF c1(1) "4.prems"(2) white] "4.IH"(2) [OF white c1(1) refl c1(2)] "4.prems"
      show ?thesis by auto
    qed
  next
    case gray
    with "4.prems"(1) have ab: "a = node" "b = n" by auto
    from gray "4.prems"(4) have "(n, node) \<in> (edge_rel adj)\<^sup>*" by auto
    with edge ab show ?thesis by (auto intro: rtrancl_into_trancl2)
  next
    case black
    with "4.prems" "4.IH"(3) show ?thesis by auto
  qed
qed auto

lemma search_all_complete:
  "search_all fuel adj ss c = Some (Inl (a, b)) \<Longrightarrow> color_ok adj c \<Longrightarrow> with_color 1 c = {} \<Longrightarrow>
     (a, a) \<in> (edge_rel adj)\<^sup>+ \<and> (a, b) \<in> edge_rel adj"
proof (induction ss arbitrary: c)
  case (Cons s ss)
  show ?case
  proof (cases "c s = 0 \<and> dfs_cycle fuel adj s c \<noteq> Some (Inl (a, b))")
    case True
    with Cons.prems obtain c1 where c1: "dfs_cycle fuel adj s c = Some (Inr c1)"
      "search_all fuel adj ss c1 = Some (Inl (a, b))" by (auto split: option.splits sum.splits)
    from dfs_sound(1) [OF c1(1) Cons.prems(2)] True Cons.IH [OF c1(2)] Cons.prems(3) show ?thesis by auto
  next
    case False
    show ?thesis
    proof (cases "c s = 0")
      case True
      with False dfs_complete(1) [of fuel adj s c a b] Cons.prems show ?thesis by auto
    next
      case nz: False
      with Cons show ?thesis by auto
    qed
  qed
qed auto

section \<open>The bound on the recursion is enough\<close>

lemma dfs_white:
  "dfs_cycle fuel adj node c = Some (Inr c') \<Longrightarrow> with_color 0 c' \<subseteq> with_color 0 c - {node}"
  "dfs_next fuel adj node ns c = Some (Inr c') \<Longrightarrow> with_color 0 c' \<subseteq> with_color 0 c"
proof (induction fuel adj node c and fuel adj node ns c arbitrary: c' and c' rule: dfs_cycle_dfs_next.induct)
  case (2 fuel adj node color)
  then show ?case by (fastforce split: option.splits sum.splits if_splits)
next
  case (4 fuel adj node n ns color)
  then show ?case by (fastforce split: option.splits sum.splits if_splits)
qed auto

lemma dfs_total:
  "finite V \<Longrightarrow> (\<forall>u \<in> V. set (adj u) \<subseteq> V) \<Longrightarrow> node \<in> V \<Longrightarrow> c node = 0 \<Longrightarrow>
     card (V \<inter> with_color 0 c) \<le> fuel \<Longrightarrow> dfs_cycle fuel adj node c \<noteq> None"
  "finite V \<Longrightarrow> (\<forall>u \<in> V. set (adj u) \<subseteq> V) \<Longrightarrow> set ns \<subseteq> V \<Longrightarrow>
     card (V \<inter> with_color 0 c) \<le> fuel \<Longrightarrow> dfs_next fuel adj node ns c \<noteq> None"
proof (induction fuel adj node c and fuel adj node ns c rule: dfs_cycle_dfs_next.induct)
  case (1 adj node color)
  then have "V \<inter> with_color 0 color = {}" by simp
  with 1 show ?case by auto
next
  case (2 fuel adj node color)
  have "V \<inter> with_color 0 (color(node := 1)) = V \<inter> with_color 0 color - {node}" by auto
  moreover have "node \<in> V \<inter> with_color 0 color" using 2 by auto
  ultimately have "card (V \<inter> with_color 0 (color(node := 1))) \<le> fuel"
    using 2 by (simp add: card_Diff_singleton)
  with "2.IH" [OF "2.prems"(1,2)] "2.prems"(2,3)
  have "dfs_next fuel adj node (adj node) (color(node := 1)) \<noteq> None" by blast
  then show ?case by (auto split: sum.splits)
next
  case (4 fuel adj node n ns color)
  show ?case
  proof (cases "color n = 0")
    case True
    with 4 have "dfs_cycle fuel adj n color \<noteq> None" by auto
    moreover have "dfs_next fuel adj node ns c1 \<noteq> None" if c1: "dfs_cycle fuel adj n color = Some (Inr c1)" for c1
    proof -
      have "card (V \<inter> with_color 0 c1) \<le> card (V \<inter> with_color 0 color)"
        using dfs_white(1) [OF c1] "4.prems"(1) by (intro card_mono) auto
      with 4 True c1 show ?thesis by auto
    qed
    ultimately show ?thesis using True by (auto split: sum.splits)
  next
    case False
    with 4 show ?thesis by auto
  qed
qed auto

lemma search_total:
  assumes "finite V" "\<forall>u \<in> V. set (adj u) \<subseteq> V"
  shows "set ss \<subseteq> V \<Longrightarrow> card V \<le> fuel \<Longrightarrow> search_all fuel adj ss c \<noteq> None"
proof (induction ss arbitrary: c)
  case (Cons s ss)
  have "card (V \<inter> with_color 0 c) \<le> card V" using assms(1) by (intro card_mono) auto
  then have "dfs_cycle fuel adj s c \<noteq> None" if "c s = 0"
    using dfs_total(1) [OF assms, of s c fuel] that Cons.prems by auto
  with Cons show ?case by (auto split: sum.splits)
qed auto

lemma search_exact:
  assumes "finite V" "\<forall>u \<in> V. set (adj u) \<subseteq> V" "\<forall>u. u \<notin> set ss \<longrightarrow> adj u = []" "set ss \<subseteq> V" "card V \<le> fuel"
  shows "(\<exists>c. search_all fuel adj ss (\<lambda>_. 0) = Some (Inr c)) \<longleftrightarrow> acyclic (edge_rel adj)"
    and "\<not> acyclic (edge_rel adj) \<Longrightarrow> \<exists>a b. search_all fuel adj ss (\<lambda>_. 0) = Some (Inl (a, b))
           \<and> (a, a) \<in> (edge_rel adj)\<^sup>+ \<and> (a, b) \<in> edge_rel adj"
proof -
  have start: "color_ok adj (\<lambda>_. 0)" "with_color 1 (\<lambda>_ :: 'a. 0 :: nat) = {}" by (auto simp: color_ok_def acyclic_def)
  have good: "acyclic (edge_rel adj)" if c: "search_all fuel adj ss (\<lambda>_. 0) = Some (Inr c)" for c
  proof -
    have ok: "color_ok adj c" "set ss \<subseteq> with_color 2 c"
      using search_all_sound [OF c start] assms(4) by auto
    have "edge_rel adj \<inter> with_color 2 c \<times> UNIV = edge_rel adj"
    proof (intro equalityI subsetI)
      fix e
      assume e: "e \<in> edge_rel adj"
      obtain u w where [simp]: "e = (u, w)" by (cases e)
      from e have "adj u \<noteq> []" by (auto simp: edge_rel_def)
      with assms(3) have "u \<in> set ss" by blast
      with e ok(2) show "e \<in> edge_rel adj \<inter> with_color 2 c \<times> UNIV" by auto
    qed auto
    with ok(1) show ?thesis by (simp add: color_ok_def)
  qed
  obtain r where r: "search_all fuel adj ss (\<lambda>_. 0) = Some r"
    using search_total [OF assms(1,2), of ss fuel "\<lambda>_. 0"] assms(4,5) by auto
  have bad: "\<not> acyclic (edge_rel adj) \<and> (a, a) \<in> (edge_rel adj)\<^sup>+ \<and> (a, b) \<in> edge_rel adj"
    if "r = Inl (a, b)" for a b
    using search_all_complete [OF _ start, of fuel ss a b] r that by (auto simp: acyclic_def)
  show "(\<exists>c. search_all fuel adj ss (\<lambda>_. 0) = Some (Inr c)) \<longleftrightarrow> acyclic (edge_rel adj)"
    using good bad r by (cases r) auto
  show "\<exists>a b. search_all fuel adj ss (\<lambda>_. 0) = Some (Inl (a, b))
      \<and> (a, a) \<in> (edge_rel adj)\<^sup>+ \<and> (a, b) \<in> edge_rel adj" if "\<not> acyclic (edge_rel adj)"
    using good bad r that by (cases r) auto
qed

end
