(* ===== verification/Kernel_Registry.thy ===== *)
theory Kernel_Registry
  imports Cycle_Search Ordered_Map Text_Ops
begin

text \<open>
  The pipeline kernel's registry and its verifier (\<^verbatim>\<open>crates/mesh-bus-core/src/kernel/registry\<close>),
  with the types it is made of (\<^verbatim>\<open>kernel/verdict\<close>, \<^verbatim>\<open>kernel/event\<close>,
  \<^verbatim>\<open>kernel/metadata\<close>, \<^verbatim>\<open>kernel/pipeline/types.rs\<close>). A hook is a function of the
  event and the context that returns a verdict with both updated; hooks are entries of the registry,
  so nothing is assumed about what they do. The fifteen checks of \<^verbatim>\<open>verify\<close> are one
  definition each, run in the order of the source and stopping at the first error.
\<close>

section \<open>Verdicts, metadata, events\<close>

type_synonym PipelineId = string
type_synonym SinkId = string
type_synonym SourceId = string
type_synonym HookId = string

record Reason =
  re_code :: string
  re_detail :: "string option"

datatype Verdict = Continue | Jump PipelineId | Accept SinkId | Reject Reason | VDrop

datatype MetaValue = MvString string | MvU64 nat | MvBool bool | MvBytes bytes

type_synonym SmallMap = "(string \<times> MetaValue) list"

datatype ScheduleHintLabel = HlOrdered | HlFanOut | HlStripe

record NetMeta =
  nm_src_ip :: "string option"
  nm_dst_host :: "string option"
  nm_dst_port :: "u16 option"
  nm_protocol :: "string option"

record TransportMeta =
  tm_deadline_ms :: "nat option"
  tm_schedule_hint :: "ScheduleHintLabel option"
  tm_schedule_fanout_k :: "nat option"

record TypedMap =
  md_net :: NetMeta
  md_transport :: TransportMeta
  md_route_group :: "string option"
  md_user :: "string option"
  md_flow_id :: "string option"
  md_ext :: SmallMap

record Event =
  ev_payload :: bytes
  ev_meta :: TypedMap

record HookTrace =
  ht_hook_id :: HookId
  ht_verdict :: string

record KernelCtx =
  kc_hook_trace :: "HookTrace list"

fun verdict_label :: "Verdict \<Rightarrow> string" where
  "verdict_label Continue = ''Continue''"
| "verdict_label (Jump _) = ''Jump''"
| "verdict_label (Accept _) = ''Accept''"
| "verdict_label (Reject _) = ''Reject''"
| "verdict_label VDrop = ''Drop''"

definition hook_trace_record :: "HookId \<Rightarrow> Verdict \<Rightarrow> HookTrace" where
  "hook_trace_record hook_id verdict = \<lparr>ht_hook_id = hook_id, ht_verdict = verdict_label verdict\<rparr>"

definition typed_map_default :: TypedMap where
  "typed_map_default =
     \<lparr>md_net = \<lparr>nm_src_ip = None, nm_dst_host = None, nm_dst_port = None, nm_protocol = None\<rparr>,
      md_transport = \<lparr>tm_deadline_ms = None, tm_schedule_hint = None, tm_schedule_fanout_k = None\<rparr>,
      md_route_group = None, md_user = None, md_flow_id = None, md_ext = []\<rparr>"

definition event_new :: "bytes \<Rightarrow> Event" where
  "event_new payload = \<lparr>ev_payload = payload, ev_meta = typed_map_default\<rparr>"

definition event_empty :: Event where
  "event_empty = \<lparr>ev_payload = [], ev_meta = typed_map_default\<rparr>"

text \<open>The extension map: the first entry of a key is updated in place, a new key goes last.\<close>

fun ext_set :: "SmallMap \<Rightarrow> string \<Rightarrow> MetaValue \<Rightarrow> SmallMap" where
  "ext_set [] key v = [(key, v)]"
| "ext_set ((k, v') # ext) key v = (if k = key then (k, v) # ext else (k, v') # ext_set ext key v)"

definition ext_get :: "SmallMap \<Rightarrow> string \<Rightarrow> MetaValue option" where
  "ext_get ext key = map_option snd (find (\<lambda>kv. fst kv = key) ext)"

definition is_valid_key_part :: "string \<Rightarrow> bool" where
  "is_valid_key_part part \<longleftrightarrow> part \<noteq> [] \<and> (\<forall>b \<in> set part. is_ascii_alphanumeric b \<or> b = CHR ''_'')"

definition is_valid_ext_key_tail :: "string \<Rightarrow> bool" where
  "is_valid_ext_key_tail key =
     (if map_option fst (split_once CHR ''.'' key)
         \<in> Some ` {''net'', ''transport'', ''policy'', ''auth'', ''trace'', ''ext''}
      then False
      else key \<noteq> [] \<and> list_all is_valid_key_part (split_on CHR ''.'' key))"

section \<open>The registry\<close>

type_synonym HookFn = "Event \<Rightarrow> KernelCtx \<Rightarrow> Verdict \<times> Event \<times> KernelCtx"

datatype HookKind = HkNet | HkTransport | HkPolicy | HkAuth | HkSideEffect

record HookSpec =
  hs_id :: HookId
  hs_kind :: HookKind
  hs_allowed_namespaces :: "string list"
  hs_reads :: "string list"
  hs_writes :: "string list"
  hs_may_terminate :: bool
  hs_may_jump :: bool
  hs_may_jump_to :: "PipelineId list"
  hs_may_accept_to :: "SinkId list"
  hs_side_effect_only :: bool

record SourceSpec =
  ss_id :: SourceId
  ss_kind :: string
  ss_initial_writes :: "string list"

record SinkSpec =
  sk_id :: SinkId
  sk_kind :: string

record Pipeline =
  pl_id :: PipelineId
  pl_hooks :: "HookId list"

record Wiring =
  wi_source :: SourceId
  wi_pipeline :: PipelineId

record KernelRegistry =
  kr_sources :: "(SourceId, SourceSpec) omap"
  kr_sinks :: "(SinkId, SinkSpec) omap"
  kr_hooks :: "(HookId, HookSpec) omap"
  kr_pipelines :: "(PipelineId, Pipeline) omap"
  kr_wirings :: "Wiring list"
  kr_fns :: "(HookId, HookFn) omap"

datatype VerifyError =
    UnknownHook string string
  | MissingHookFn string string
  | UnknownHookFn string
  | RegistryIdentityMismatch string string string
  | InvalidSourceId string
  | InvalidSinkId string
  | InvalidPipelineId string
  | InvalidHookId string
  | InvalidSourceKind string string
  | InvalidSinkKind string string
  | UnknownSource string
  | UnknownWiringPipeline string string
  | DuplicateWiringSource string
  | MissingSourceWiring string
  | UnknownSink string string
  | InvalidAcceptDeclaration string
  | UnknownPipelineJumpTarget string string string
  | InvalidJumpDeclaration string
  | JumpCycle string
  | UnsatisfiedRead string string string
  | NamespaceViolation string string string string
  | InvalidMetadataKey string string
  | InvalidNamespacePattern string string
  | PolicyReadsPayload string string
  | SideEffectMutatesVerdict string string string
  | PipelineDoesNotTerminate string

definition has_key :: "('k, 'v) omap \<Rightarrow> 'k \<Rightarrow> bool" where
  "has_key m k \<longleftrightarrow> om_get m k \<noteq> None"

section \<open>The checks\<close>

text \<open>The loop all four identity checks share: the key of an entry is the id embedded in its value.\<close>

definition check_identities :: "string \<Rightarrow> ('v \<Rightarrow> string) \<Rightarrow> (string, 'v) omap \<Rightarrow> VerifyError + unit" where
  "check_identities kind id_of m =
     check_all (\<lambda>(key, v). ensure (id_of v = key) (RegistryIdentityMismatch kind key (id_of v))) m"

definition check_registry_identities :: "KernelRegistry \<Rightarrow> VerifyError + unit" where
  "check_registry_identities reg =
     res_bind (check_identities ''source'' ss_id (kr_sources reg)) (\<lambda>_.
     res_bind (check_identities ''sink'' sk_id (kr_sinks reg)) (\<lambda>_.
     res_bind (check_identities ''hook'' hs_id (kr_hooks reg)) (\<lambda>_.
     check_identities ''pipeline'' pl_id (kr_pipelines reg))))"

definition is_valid_id_shape :: "string \<Rightarrow> bool" where
  "is_valid_id_shape s \<longleftrightarrow> s \<noteq> []
     \<and> list_all (\<lambda>b. is_ascii_alphanumeric b \<or> b \<in> {CHR ''_'', CHR ''.'', CHR '':'', CHR ''-''}) s"

definition check_source_id :: "string \<Rightarrow> VerifyError + unit" where
  "check_source_id s = ensure (is_valid_id_shape s) (InvalidSourceId s)"

definition check_sink_id :: "string \<Rightarrow> VerifyError + unit" where
  "check_sink_id s = ensure (is_valid_id_shape s) (InvalidSinkId s)"

definition check_pipeline_id :: "string \<Rightarrow> VerifyError + unit" where
  "check_pipeline_id s = ensure (is_valid_id_shape s) (InvalidPipelineId s)"

definition check_hook_id :: "string \<Rightarrow> VerifyError + unit" where
  "check_hook_id s = ensure (is_valid_id_shape s) (InvalidHookId s)"

definition check_id_shapes :: "KernelRegistry \<Rightarrow> VerifyError + unit" where
  "check_id_shapes reg =
     res_bind (check_all check_source_id (om_keys (kr_sources reg))) (\<lambda>_.
     res_bind (check_all (check_source_id \<circ> wi_source) (kr_wirings reg)) (\<lambda>_.
     res_bind (check_all check_sink_id (om_keys (kr_sinks reg))) (\<lambda>_.
     res_bind (check_all check_pipeline_id (om_keys (kr_pipelines reg))) (\<lambda>_.
     res_bind (check_all (check_pipeline_id \<circ> wi_pipeline) (kr_wirings reg)) (\<lambda>_.
     res_bind (check_all check_hook_id (om_keys (kr_hooks reg) @ om_keys (kr_fns reg))) (\<lambda>_.
     res_bind (check_all (\<lambda>(_, p). res_bind (check_pipeline_id (pl_id p)) (\<lambda>_.
                 check_all check_hook_id (pl_hooks p))) (kr_pipelines reg)) (\<lambda>_.
     res_bind (check_all (\<lambda>(_, s). res_bind (check_hook_id (hs_id s)) (\<lambda>_.
                 check_all check_pipeline_id (hs_may_jump_to s))) (kr_hooks reg)) (\<lambda>_.
     check_all (\<lambda>(_, s). check_all check_sink_id (hs_may_accept_to s)) (kr_hooks reg)))))))))"

definition check_spec_kinds :: "KernelRegistry \<Rightarrow> VerifyError + unit" where
  "check_spec_kinds reg =
     res_bind (check_all (\<lambda>(key, source). ensure (ss_kind source = ''application/source'')
                 (InvalidSourceKind key (ss_kind source))) (kr_sources reg)) (\<lambda>_.
     check_all (\<lambda>(key, sink). ensure (sk_kind sink \<in> {''stream_egress'', ''datagram_egress''})
                 (InvalidSinkKind key (sk_kind sink))) (kr_sinks reg))"

fun wire_sources :: "KernelRegistry \<Rightarrow> string set \<Rightarrow> Wiring list \<Rightarrow> VerifyError + string set" where
  "wire_sources reg wired [] = Ok wired"
| "wire_sources reg wired (w # ws) =
     (if wi_source w \<in> wired then Err (DuplicateWiringSource (wi_source w))
      else if \<not> has_key (kr_sources reg) (wi_source w) then Err (UnknownSource (wi_source w))
      else if \<not> has_key (kr_pipelines reg) (wi_pipeline w)
      then Err (UnknownWiringPipeline (wi_source w) (wi_pipeline w))
      else wire_sources reg (insert (wi_source w) wired) ws)"

definition check_wirings_exist :: "KernelRegistry \<Rightarrow> VerifyError + unit" where
  "check_wirings_exist reg =
     res_bind (wire_sources reg {} (kr_wirings reg)) (\<lambda>wired.
     check_all (\<lambda>s. ensure (s \<in> wired) (MissingSourceWiring s)) (om_keys (kr_sources reg)))"

definition check_hooks_exist :: "KernelRegistry \<Rightarrow> VerifyError + unit" where
  "check_hooks_exist reg =
     check_all (\<lambda>(pid, p). check_all (\<lambda>h. ensure (has_key (kr_hooks reg) h) (UnknownHook pid h)) (pl_hooks p))
       (kr_pipelines reg)"

definition check_hook_fns :: "KernelRegistry \<Rightarrow> VerifyError + unit" where
  "check_hook_fns reg =
     res_bind (check_all (\<lambda>h. ensure (has_key (kr_hooks reg) h) (UnknownHookFn h)) (om_keys (kr_fns reg))) (\<lambda>_.
     check_all (\<lambda>(pid, p). check_all (\<lambda>h. ensure (has_key (kr_fns reg) h) (MissingHookFn pid h)) (pl_hooks p))
       (kr_pipelines reg))"

definition check_accept_declarations :: "KernelRegistry \<Rightarrow> VerifyError + unit" where
  "check_accept_declarations reg =
     check_all (\<lambda>(h, spec). ensure (\<not> (\<not> hs_may_terminate spec \<and> hs_may_accept_to spec \<noteq> []))
       (InvalidAcceptDeclaration h)) (kr_hooks reg)"

definition check_sink_targets :: "KernelRegistry \<Rightarrow> VerifyError + unit" where
  "check_sink_targets reg =
     check_all (\<lambda>(h, spec). check_all (\<lambda>s. ensure (has_key (kr_sinks reg) s) (UnknownSink h s))
       (hs_may_accept_to spec)) (kr_hooks reg)"

definition check_jump_declarations :: "KernelRegistry \<Rightarrow> VerifyError + unit" where
  "check_jump_declarations reg =
     check_all (\<lambda>(h, spec). ensure (\<not> (\<not> hs_may_jump spec \<and> hs_may_jump_to spec \<noteq> []))
       (InvalidJumpDeclaration h)) (kr_hooks reg)"

definition check_jump_targets :: "KernelRegistry \<Rightarrow> VerifyError + unit" where
  "check_jump_targets reg =
     check_all (\<lambda>(pid, p). check_all (\<lambda>h.
       case om_get (kr_hooks reg) h of
         Some spec \<Rightarrow> check_all (\<lambda>t. ensure (has_key (kr_pipelines reg) t) (UnknownPipelineJumpTarget pid h t))
           (hs_may_jump_to spec)
       | None \<Rightarrow> Ok ()) (pl_hooks p)) (kr_pipelines reg)"

definition jump_targets :: "KernelRegistry \<Rightarrow> Pipeline \<Rightarrow> PipelineId list" where
  "jump_targets reg p =
     concat (map hs_may_jump_to (List.map_filter (om_get (kr_hooks reg)) (pl_hooks p)))"

definition jump_adj :: "KernelRegistry \<Rightarrow> PipelineId \<Rightarrow> PipelineId list" where
  "jump_adj reg pid = (case om_get (kr_pipelines reg) pid of None \<Rightarrow> [] | Some p \<Rightarrow> jump_targets reg p)"

text \<open>The fuel of the search counts the pipelines and every declared target, so that it is never met.\<close>

definition jump_fuel :: "KernelRegistry \<Rightarrow> nat" where
  "jump_fuel reg = length (kr_pipelines reg)
     + sum_list (map (length \<circ> jump_adj reg) (om_keys (kr_pipelines reg)))"

definition check_jump_dag :: "KernelRegistry \<Rightarrow> VerifyError + unit" where
  "check_jump_dag reg =
     (case search_all (jump_fuel reg) (jump_adj reg) (om_keys (kr_pipelines reg)) (\<lambda>_. 0) of
        Some (Inl (node, _)) \<Rightarrow> Err (JumpCycle node)
      | Some (Inr _) \<Rightarrow> Ok ()
      | None \<Rightarrow> Ok ())"

definition check_pipeline_terminates :: "KernelRegistry \<Rightarrow> VerifyError + unit" where
  "check_pipeline_terminates reg =
     check_all (\<lambda>(pid, p). ensure (list_ex (\<lambda>h.
         case om_get (kr_hooks reg) h of
           Some s \<Rightarrow> hs_may_terminate s \<or> hs_may_jump s \<and> hs_may_jump_to s \<noteq> []
         | None \<Rightarrow> False) (pl_hooks p))
       (PipelineDoesNotTerminate pid)) (kr_pipelines reg)"

definition metadata_namespaces :: "string list" where
  "metadata_namespaces = [''net'', ''transport'', ''policy'', ''auth'', ''trace'', ''ext'']"

definition verdict_namespaces :: "string list" where
  "verdict_namespaces = [''policy'', ''auth'']"

definition head_of :: "string \<Rightarrow> string" where
  "head_of key = hd (split_on CHR ''.'' key)"

definition ns_covers :: "string list \<Rightarrow> string \<Rightarrow> bool" where
  "ns_covers patterns key =
     list_ex (\<lambda>p. case strip_suffix ''.*'' p of
         None \<Rightarrow> False
       | Some p_head \<Rightarrow> (case strip_prefix p_head key of
             None \<Rightarrow> False
           | Some rest \<Rightarrow> starts_with ''.'' rest)) patterns"

definition is_valid_namespace_pattern :: "string \<Rightarrow> bool" where
  "is_valid_namespace_pattern pattern =
     (case strip_suffix ''.*'' pattern of None \<Rightarrow> False | Some h \<Rightarrow> h \<in> set metadata_namespaces)"

definition is_valid_metadata_key :: "string \<Rightarrow> bool" where
  "is_valid_metadata_key key =
     (case split_once CHR ''.'' key of
        None \<Rightarrow> False
      | Some (h, rest) \<Rightarrow> h \<in> set metadata_namespaces \<and> list_all is_valid_key_part (split_on CHR ''.'' rest))"

definition check_metadata_keys :: "KernelRegistry \<Rightarrow> VerifyError + unit" where
  "check_metadata_keys reg =
     res_bind (check_all (\<lambda>(sid, source). check_all (\<lambda>key. ensure (is_valid_metadata_key key)
                 (InvalidMetadataKey (''source:'' @ sid) key)) (ss_initial_writes source)) (kr_sources reg)) (\<lambda>_.
     check_all (\<lambda>(hid, spec). check_all (\<lambda>key. ensure (is_valid_metadata_key key)
                 (InvalidMetadataKey (''hook:'' @ hid) key)) (hs_reads spec @ hs_writes spec)) (kr_hooks reg))"

definition check_namespace_patterns :: "KernelRegistry \<Rightarrow> VerifyError + unit" where
  "check_namespace_patterns reg =
     check_all (\<lambda>(hid, spec). check_all (\<lambda>p. ensure (is_valid_namespace_pattern p)
       (InvalidNamespacePattern hid p)) (hs_allowed_namespaces spec)) (kr_hooks reg)"

text \<open>One hook of a pipeline against the keys available so far.\<close>

definition check_hook_namespaces ::
    "PipelineId \<Rightarrow> HookId \<Rightarrow> HookSpec \<Rightarrow> string set \<Rightarrow> VerifyError + unit" where
  "check_hook_namespaces pid hid spec available =
     res_bind (ensure (\<not> (hs_kind spec = HkPolicy \<and> ''net.payload'' \<in> set (hs_reads spec)))
                 (PolicyReadsPayload pid hid)) (\<lambda>_.
     res_bind (check_all (\<lambda>k. ensure (ns_covers (hs_allowed_namespaces spec) k)
                 (NamespaceViolation pid hid k ''write'')) (hs_writes spec)) (\<lambda>_.
     res_bind (check_all (\<lambda>k. ensure (ns_covers (hs_allowed_namespaces spec) k)
                 (NamespaceViolation pid hid k ''read'')) (hs_reads spec)) (\<lambda>_.
     res_bind (if hs_side_effect_only spec
               then check_all (\<lambda>k. ensure (head_of k \<notin> set verdict_namespaces)
                      (SideEffectMutatesVerdict pid hid k)) (hs_writes spec)
               else Ok ()) (\<lambda>_.
     check_all (\<lambda>k. ensure (k \<in> available) (UnsatisfiedRead pid hid k)) (hs_reads spec)))))"

fun check_hook_chain ::
    "KernelRegistry \<Rightarrow> PipelineId \<Rightarrow> string set \<Rightarrow> HookId list \<Rightarrow> VerifyError + unit" where
  "check_hook_chain reg pid available [] = Ok ()"
| "check_hook_chain reg pid available (hid # hids) =
     (case om_get (kr_hooks reg) hid of
        None \<Rightarrow> check_hook_chain reg pid available hids
      | Some spec \<Rightarrow> res_bind (check_hook_namespaces pid hid spec available) (\<lambda>_.
          check_hook_chain reg pid (available \<union> set (hs_writes spec)) hids))"

definition initial_keys :: "KernelRegistry \<Rightarrow> PipelineId \<Rightarrow> string set" where
  "initial_keys reg pid =
     set (concat (map ss_initial_writes (List.map_filter (\<lambda>w. om_get (kr_sources reg) (wi_source w))
       (filter (\<lambda>w. wi_pipeline w = pid) (kr_wirings reg)))))"

definition check_namespace_rules :: "KernelRegistry \<Rightarrow> VerifyError + unit" where
  "check_namespace_rules reg =
     check_all (\<lambda>(pid, p). check_hook_chain reg pid (initial_keys reg pid) (pl_hooks p)) (kr_pipelines reg)"

definition verify :: "KernelRegistry \<Rightarrow> VerifyError + unit" where
  "verify reg =
     res_bind (check_registry_identities reg) (\<lambda>_.
     res_bind (check_id_shapes reg) (\<lambda>_.
     res_bind (check_spec_kinds reg) (\<lambda>_.
     res_bind (check_wirings_exist reg) (\<lambda>_.
     res_bind (check_hooks_exist reg) (\<lambda>_.
     res_bind (check_accept_declarations reg) (\<lambda>_.
     res_bind (check_sink_targets reg) (\<lambda>_.
     res_bind (check_jump_declarations reg) (\<lambda>_.
     res_bind (check_jump_targets reg) (\<lambda>_.
     res_bind (check_jump_dag reg) (\<lambda>_.
     res_bind (check_pipeline_terminates reg) (\<lambda>_.
     res_bind (check_metadata_keys reg) (\<lambda>_.
     res_bind (check_namespace_patterns reg) (\<lambda>_.
     res_bind (check_namespace_rules reg) (\<lambda>_.
     check_hook_fns reg))))))))))))))"

section \<open>What a verified registry guarantees\<close>

text \<open>The representation invariant of the registry's ordered maps.\<close>

definition wf_registry :: "KernelRegistry \<Rightarrow> bool" where
  "wf_registry reg \<longleftrightarrow> om_ok (kr_sources reg) \<and> om_ok (kr_sinks reg) \<and> om_ok (kr_hooks reg)
     \<and> om_ok (kr_pipelines reg) \<and> om_ok (kr_fns reg)"

lemma verify_Ok_iff:
  "verify reg = Ok u \<longleftrightarrow>
     check_registry_identities reg = Ok () \<and> check_id_shapes reg = Ok () \<and> check_spec_kinds reg = Ok ()
     \<and> check_wirings_exist reg = Ok () \<and> check_hooks_exist reg = Ok () \<and> check_accept_declarations reg = Ok ()
     \<and> check_sink_targets reg = Ok () \<and> check_jump_declarations reg = Ok () \<and> check_jump_targets reg = Ok ()
     \<and> check_jump_dag reg = Ok () \<and> check_pipeline_terminates reg = Ok () \<and> check_metadata_keys reg = Ok ()
     \<and> check_namespace_patterns reg = Ok () \<and> check_namespace_rules reg = Ok () \<and> check_hook_fns reg = Ok ()"
  unfolding verify_def by (simp add: res_bind_eq_Inr)

lemma wire_sources_Ok:
  "wire_sources reg wired ws = Ok out \<Longrightarrow> out = wired \<union> wi_source ` set ws \<and> distinct (map wi_source ws)
     \<and> wired \<inter> wi_source ` set ws = {}
     \<and> (\<forall>w \<in> set ws. has_key (kr_sources reg) (wi_source w) \<and> has_key (kr_pipelines reg) (wi_pipeline w))"
  by (induction reg wired ws rule: wire_sources.induct) (auto split: if_splits)

lemma has_key_iff: "has_key m k \<longleftrightarrow> k \<in> set (om_keys m)"
  unfolding has_key_def by (rule om_get_Some)

lemma om_get_mem: "om_get m k = Some v \<Longrightarrow> (k, v) \<in> set m"
  by (rule map_of_SomeD)

lemma verified_pipeline_hooks:
  assumes "verify reg = Ok ()" "om_get (kr_pipelines reg) pid = Some p" "h \<in> set (pl_hooks p)"
  shows "has_key (kr_hooks reg) h \<and> has_key (kr_fns reg) h"
  using assms om_get_mem [OF assms(2)]
  by (fastforce simp: verify_Ok_iff check_hooks_exist_def check_hook_fns_def result_simps)

lemma verified_pipeline_id:
  assumes "verify reg = Ok ()" "om_get (kr_pipelines reg) pid = Some p"
  shows "pl_id p = pid"
  using assms om_get_mem [OF assms(2)]
  by (fastforce simp: verify_Ok_iff check_registry_identities_def check_identities_def result_simps)

lemma verified_jump_targets:
  assumes "verify reg = Ok ()" "om_get (kr_pipelines reg) pid = Some p" "h \<in> set (pl_hooks p)"
    "om_get (kr_hooks reg) h = Some spec" "t \<in> set (hs_may_jump_to spec)"
  shows "has_key (kr_pipelines reg) t"
  using assms om_get_mem [OF assms(2)]
  by (fastforce simp: verify_Ok_iff check_jump_targets_def result_simps)

lemma verified_sink_targets:
  assumes "verify reg = Ok ()" "om_get (kr_hooks reg) h = Some spec" "s \<in> set (hs_may_accept_to spec)"
  shows "has_key (kr_sinks reg) s"
  using assms om_get_mem [OF assms(2)]
  by (fastforce simp: verify_Ok_iff check_sink_targets_def result_simps)

lemma jump_adj_mem:
  "t \<in> set (jump_adj reg pid) \<longleftrightarrow> (\<exists>p h spec. om_get (kr_pipelines reg) pid = Some p \<and> h \<in> set (pl_hooks p)
     \<and> om_get (kr_hooks reg) h = Some spec \<and> t \<in> set (hs_may_jump_to spec))"
  by (auto simp: jump_adj_def jump_targets_def map_filter_def split: option.splits) force+

lemma jump_dag_exact: "check_jump_dag reg = Ok () \<longleftrightarrow> acyclic (edge_rel (jump_adj reg))"
proof -
  let ?keys = "om_keys (kr_pipelines reg)" and ?adj = "jump_adj reg"
  let ?V = "set ?keys \<union> set (concat (map ?adj ?keys))"
  have none: "?adj u = []" if "u \<notin> set ?keys" for u
    using that om_get_None [of "kr_pipelines reg" u] by (simp add: jump_adj_def)
  have closed: "\<forall>u \<in> ?V. set (?adj u) \<subseteq> ?V"
  proof
    fix u
    show "set (?adj u) \<subseteq> ?V" by (cases "u \<in> set ?keys") (auto simp: none)
  qed
  have "card ?V \<le> card (set ?keys) + card (set (concat (map ?adj ?keys)))" by (rule card_Un_le)
  also have "\<dots> \<le> jump_fuel reg"
    using card_length [of ?keys] card_length [of "concat (map ?adj ?keys)"]
    by (simp add: jump_fuel_def length_concat comp_def)
  finally have fuel: "card ?V \<le> jump_fuel reg" .
  note ex = search_exact [of ?V ?adj ?keys "jump_fuel reg", OF _ closed _ _ fuel]
  show ?thesis
  proof (cases "acyclic (edge_rel ?adj)")
    case True
    with ex(1) none obtain c where "search_all (jump_fuel reg) ?adj ?keys (\<lambda>_. 0) = Some (Inr c)" by auto
    with True show ?thesis by (simp add: check_jump_dag_def)
  next
    case False
    with ex(2) none obtain a b where "search_all (jump_fuel reg) ?adj ?keys (\<lambda>_. 0) = Some (Inl (a, b))" by auto
    with False show ?thesis by (simp add: check_jump_dag_def)
  qed
qed

text \<open>The keys a hook may read: those of the wired sources and those written by the hooks before it.\<close>

lemma hook_chain_reads:
  assumes "check_hook_chain reg pid available (hs @ h # hs') = Ok ()" "om_get (kr_hooks reg) h = Some spec"
  shows "set (hs_reads spec)
      \<subseteq> available \<union> (\<Union>g \<in> set hs. case om_get (kr_hooks reg) g of None \<Rightarrow> {} | Some s \<Rightarrow> set (hs_writes s))"
  using assms
proof (induction hs arbitrary: available)
  case Nil
  then show ?case by (auto simp: check_hook_namespaces_def result_simps)
next
  case (Cons g hs)
  show ?case
  proof (cases "om_get (kr_hooks reg) g")
    case None
    with Cons show ?thesis by auto
  next
    case (Some s)
    with Cons.prems have "check_hook_chain reg pid (available \<union> set (hs_writes s)) (hs @ h # hs') = Ok ()"
      by (simp add: result_simps)
    from Cons.IH [OF this Cons.prems(2)] Some show ?thesis by auto
  qed
qed

lemma hook_chain_local:
  assumes "check_hook_chain reg pid available hs = Ok ()" "h \<in> set hs" "om_get (kr_hooks reg) h = Some spec"
  shows "\<exists>av. check_hook_namespaces pid h spec av = Ok ()"
  using assms
proof (induction hs arbitrary: available)
  case (Cons g hs)
  then show ?case by (cases "om_get (kr_hooks reg) g") (auto simp: result_simps)
qed simp

section \<open>Properties\<close>

text \<open>What a verified registry guarantees of every hook \<open>h\<close> at every position of every
  pipeline: its specification and its function are registered; every sink it may accept to and every
  pipeline it may jump to is registered; every key it reads was written by a source wired to the
  pipeline or by an earlier hook; its keys lie in its declared namespaces; and a side-effect-only
  hook writes no policy or auth key.\<close>

lemma verified_pipelines:
  assumes "verify reg = Ok ()" "om_get (kr_pipelines reg) pid = Some p" "pl_hooks p = pre @ h # post"
  shows "\<exists>spec f. om_get (kr_hooks reg) h = Some spec \<and> om_get (kr_fns reg) h = Some f
    \<and> (\<forall>s \<in> set (hs_may_accept_to spec). has_key (kr_sinks reg) s)
    \<and> (\<forall>t \<in> set (hs_may_jump_to spec). has_key (kr_pipelines reg) t)
    \<and> set (hs_reads spec) \<subseteq> initial_keys reg pid
        \<union> (\<Union>g \<in> set pre. case om_get (kr_hooks reg) g of None \<Rightarrow> {} | Some s \<Rightarrow> set (hs_writes s))
    \<and> (\<forall>k \<in> set (hs_reads spec @ hs_writes spec). ns_covers (hs_allowed_namespaces spec) k)
    \<and> (hs_side_effect_only spec \<longrightarrow> (\<forall>k \<in> set (hs_writes spec). head_of k \<notin> {''policy'', ''auth''}))"
proof -
  have h: "h \<in> set (pl_hooks p)" using assms(3) by simp
  from verified_pipeline_hooks [OF assms(1,2) h] obtain spec f where
    sf: "om_get (kr_hooks reg) h = Some spec" "om_get (kr_fns reg) h = Some f" by (auto simp: has_key_def)
  have chain: "check_hook_chain reg pid (initial_keys reg pid) (pl_hooks p) = Ok ()"
    using assms(1) om_get_mem [OF assms(2)] by (fastforce simp: verify_Ok_iff check_namespace_rules_def result_simps)
  from hook_chain_local [OF chain h sf(1)]
  have ns: "\<forall>k \<in> set (hs_reads spec @ hs_writes spec). ns_covers (hs_allowed_namespaces spec) k"
    "hs_side_effect_only spec \<longrightarrow> (\<forall>k \<in> set (hs_writes spec). head_of k \<notin> {''policy'', ''auth''})"
    by (auto simp: check_hook_namespaces_def verdict_namespaces_def result_simps)
  from hook_chain_reads [OF chain [unfolded assms(3)] sf(1)]
    verified_sink_targets [OF assms(1) sf(1)] verified_jump_targets [OF assms(1,2) h sf(1)] sf ns
  show ?thesis by blast
qed

text \<open>A registry with one source, one sink and one pipeline of one hook, and its variant in which the
  hook jumps back to its own pipeline.\<close>

definition sample_hook :: HookSpec where
  "sample_hook = \<lparr>hs_id = ''pick'', hs_kind = HkTransport, hs_allowed_namespaces = [''net.*''],
     hs_reads = [''net.dst_host''], hs_writes = [], hs_may_terminate = True, hs_may_jump = False,
     hs_may_jump_to = [], hs_may_accept_to = [''direct''], hs_side_effect_only = False\<rparr>"

definition sample_registry :: KernelRegistry where
  "sample_registry =
     \<lparr>kr_sources = [(''in'', \<lparr>ss_id = ''in'', ss_kind = ''application/source'', ss_initial_writes = [''net.dst_host'']\<rparr>)],
      kr_sinks = [(''direct'', \<lparr>sk_id = ''direct'', sk_kind = ''stream_egress''\<rparr>)],
      kr_hooks = [(''pick'', sample_hook)],
      kr_pipelines = [(''main'', \<lparr>pl_id = ''main'', pl_hooks = [''pick'']\<rparr>)],
      kr_wirings = [\<lparr>wi_source = ''in'', wi_pipeline = ''main''\<rparr>],
      kr_fns = [(''pick'', \<lambda>e c. (Accept ''direct'', e, c))]\<rparr>"

definition looping_registry :: KernelRegistry where
  "looping_registry = sample_registry\<lparr>kr_hooks :=
     [(''pick'', sample_hook\<lparr>hs_may_jump := True, hs_may_jump_to := [''main'']\<rparr>)]\<rparr>"

lemma sample_verified: "verify sample_registry = Ok ()"
  by code_simp

text \<open>C17: the cycle check of the jump graph is exact: it passes if and only if no pipeline can reach
  itself through declared jumps, and the pipeline it reports otherwise lies on a cycle.\<close>

theorem jump_cycle_check_exact:
  "(check_jump_dag reg = Ok () \<longleftrightarrow> acyclic (edge_rel (jump_adj reg)))
   \<and> (\<forall>e. check_jump_dag reg = Err e \<longrightarrow> (\<exists>n. e = JumpCycle n \<and> (n, n) \<in> (edge_rel (jump_adj reg))\<^sup>+))"
proof -
  have "(n, n) \<in> (edge_rel (jump_adj reg))\<^sup>+"
    if "search_all (jump_fuel reg) (jump_adj reg) (om_keys (kr_pipelines reg)) (\<lambda>_. 0) = Some (Inl (n, m))" for n m
  proof -
    have "color_ok (jump_adj reg) (\<lambda>_. 0)" "with_color 1 (\<lambda>_ :: string. 0 :: nat) = {}"
      by (auto simp: color_ok_def acyclic_def)
    from search_all_complete [OF that this] show ?thesis by simp
  qed
  then have "\<forall>e. check_jump_dag reg = Err e \<longrightarrow> (\<exists>n. e = JumpCycle n \<and> (n, n) \<in> (edge_rel (jump_adj reg))\<^sup>+)"
    unfolding check_jump_dag_def by (auto split: option.splits sum.splits)
  with jump_dag_exact show ?thesis by blast
qed

theorem jump_cycle_check_exact_witness:
  "check_jump_dag looping_registry = Err (JumpCycle ''main'')
   \<and> (''main'', ''main'') \<in> (edge_rel (jump_adj looping_registry))\<^sup>+"
proof -
  have e: "check_jump_dag looping_registry = Err (JumpCycle ''main'')" by code_simp
  with jump_cycle_check_exact [of looping_registry] show ?thesis by auto
qed

end
