(* ===== verification/Pipeline_Run.thy ===== *)
theory Pipeline_Run
  imports Kernel_Registry
begin

text \<open>
  Running a pipeline: the generic loop and its registry front end
  (\<^verbatim>\<open>kernel/pipeline/data_handle.rs\<close>), and the compiled form of a registry
  (\<^verbatim>\<open>kernel/compiled.rs\<close>), in which hooks and pipelines are interned to 32-bit slots. A run
  returns its result together with the event and the context as the hooks left them. A panic of the
  source (an index out of range, a failed \<^verbatim>\<open>expect\<close>) is a value of its own. The main result is
  the equivalence of the two runs on a registry that compiles.
\<close>

section \<open>The loop over a list of pipelines\<close>

definition max_jump_depth :: nat where
  "max_jump_depth = 32"

datatype PipelineRunError =
    ReUnknownHook string
  | ReUnknownPipeline string
  | ReFellOffEnd string
  | ReJumpDepthExceeded
  | ReUndeclaredAcceptTarget string string
  | ReUndeclaredJumpTarget string string
  | RePanic

text \<open>The inner loop: the verdict that ended it, \<open>Continue\<close> when every hook continued.\<close>

fun run_hooks ::
    "('h \<Rightarrow> 'e \<Rightarrow> 'c \<Rightarrow> (PipelineRunError + Verdict) \<times> 'e \<times> 'c) \<Rightarrow> 'h list \<Rightarrow> 'e \<Rightarrow> 'c
      \<Rightarrow> (PipelineRunError + Verdict) \<times> 'e \<times> 'c" where
  "run_hooks resolve [] e c = (Ok Continue, e, c)"
| "run_hooks resolve (h # hs) e c =
     (case resolve h e c of
        (Ok Continue, e', c') \<Rightarrow> run_hooks resolve hs e' c'
      | r \<Rightarrow> r)"

text \<open>The outer loop over any table \<open>find\<close> from pipeline ids to hooks.\<close>

function run_loop ::
    "(PipelineId \<Rightarrow> PipelineRunError + 'h list) \<Rightarrow> ('h \<Rightarrow> 'e \<Rightarrow> 'c \<Rightarrow> (PipelineRunError + Verdict) \<times> 'e \<times> 'c)
      \<Rightarrow> PipelineId \<Rightarrow> nat \<Rightarrow> 'e \<Rightarrow> 'c \<Rightarrow> (PipelineRunError + Verdict) \<times> 'e \<times> 'c" where
  "run_loop hooks_of resolve current jumps e c =
     (if jumps > max_jump_depth then (Err ReJumpDepthExceeded, e, c)
      else case hooks_of current of
             Inl err \<Rightarrow> (Err err, e, c)
           | Inr hooks \<Rightarrow>
               (case run_hooks resolve hooks e c of
                  (Inl err, e', c') \<Rightarrow> (Err err, e', c')
                | (Inr Continue, e', c') \<Rightarrow> (Err (ReFellOffEnd current), e', c')
                | (Inr (Jump target), e', c') \<Rightarrow> run_loop hooks_of resolve target (jumps + 1) e' c'
                | (Inr v, e', c') \<Rightarrow> (Ok v, e', c')))"
  by pat_completeness auto

termination
  by (relation "measure (\<lambda>(_, _, _, jumps, _, _). Suc max_jump_depth - jumps)") auto

declare run_loop.simps [simp del]

definition run_pipeline ::
    "PipelineId \<Rightarrow> Pipeline list \<Rightarrow> (HookId \<Rightarrow> 'e \<Rightarrow> 'c \<Rightarrow> (PipelineRunError + Verdict) \<times> 'e \<times> 'c) \<Rightarrow> 'e \<Rightarrow> 'c
      \<Rightarrow> (PipelineRunError + Verdict) \<times> 'e \<times> 'c" where
  "run_pipeline entry pipelines resolve e c =
     run_loop (\<lambda>current. case find (\<lambda>p. pl_id p = current) pipelines of
         None \<Rightarrow> Err (ReUnknownPipeline current)
       | Some p \<Rightarrow> Ok (pl_hooks p)) resolve entry 0 e c"

text \<open>The declared-target checks and the trace, shared by both front ends: \<open>hid\<close> is the hook's id,
  \<open>accept_to\<close> and \<open>jump_to\<close> its declared targets, \<open>f\<close> its function.\<close>

definition checked_call ::
    "HookId \<Rightarrow> SinkId list \<Rightarrow> PipelineId list \<Rightarrow> HookFn \<Rightarrow> Event \<Rightarrow> KernelCtx
      \<Rightarrow> (PipelineRunError + Verdict) \<times> Event \<times> KernelCtx" where
  "checked_call hid accept_to jump_to f ev ctx =
     (case f ev ctx of (verdict, ev', ctx') \<Rightarrow>
        let ok = (Ok verdict, ev', ctx'\<lparr>kc_hook_trace := kc_hook_trace ctx' @ [hook_trace_record hid verdict]\<rparr>)
        in case verdict of
             Accept sink \<Rightarrow> if sink \<notin> set accept_to then (Err (ReUndeclaredAcceptTarget hid sink), ev', ctx') else ok
           | Jump target \<Rightarrow> if target \<notin> set jump_to then (Err (ReUndeclaredJumpTarget hid target), ev', ctx') else ok
           | _ \<Rightarrow> ok)"

definition registry_resolve ::
    "KernelRegistry \<Rightarrow> HookId \<Rightarrow> Event \<Rightarrow> KernelCtx \<Rightarrow> (PipelineRunError + Verdict) \<times> Event \<times> KernelCtx" where
  "registry_resolve reg hid ev ctx =
     (case om_get (kr_hooks reg) hid of
        None \<Rightarrow> (Err (ReUnknownHook hid), ev, ctx)
      | Some spec \<Rightarrow> (case om_get (kr_fns reg) hid of
            None \<Rightarrow> (Err (ReUnknownHook hid), ev, ctx)
          | Some f \<Rightarrow> checked_call hid (hs_may_accept_to spec) (hs_may_jump_to spec) f ev ctx))"

definition run_pipeline_with_registry ::
    "KernelRegistry \<Rightarrow> PipelineId \<Rightarrow> Event \<Rightarrow> KernelCtx \<Rightarrow> (PipelineRunError + Verdict) \<times> Event \<times> KernelCtx" where
  "run_pipeline_with_registry reg pid ev ctx =
     run_pipeline pid (map snd (kr_pipelines reg)) (registry_resolve reg) ev ctx"

section \<open>The compiled registry\<close>

text \<open>Interning: the id at position \<open>i\<close> gets the slot \<open>i as u32\<close>; of equal ids the last one wins.\<close>

definition intern :: "'t list \<Rightarrow> ('t \<rightharpoonup> u32) \<times> 't list" where
  "intern ids = (map_of (rev (zip ids (map of_nat [0..<length ids]))), ids)"

record CompiledHook =
  ch_id :: HookId
  ch_f :: HookFn
  ch_may_accept_to :: "SinkId list"
  ch_may_jump_to :: "PipelineId list"

record CompiledPipeline =
  cp_id :: PipelineId
  cp_hooks :: "u32 list"

record CompiledKernel =
  ck_source_slots :: "SourceId \<rightharpoonup> u32"
  ck_sink_slots :: "SinkId \<rightharpoonup> u32"
  ck_hook_slots :: "HookId \<rightharpoonup> u32"
  ck_pipeline_slots :: "PipelineId \<rightharpoonup> u32"
  ck_source_ids :: "SourceId list"
  ck_sink_ids :: "SinkId list"
  ck_hook_ids :: "HookId list"
  ck_pipeline_ids :: "PipelineId list"
  ck_compiled_hooks :: "CompiledHook list"
  ck_compiled_pipelines :: "CompiledPipeline list"

datatype CompileFailure = CfVerify VerifyError | CfPanic string

definition compile_hook :: "KernelRegistry \<Rightarrow> HookId \<Rightarrow> CompileFailure + CompiledHook" where
  "compile_hook reg hid =
     res_bind (ok_or (om_get (kr_hooks reg) hid) (CfPanic ''verify() guarantees hook spec'')) (\<lambda>spec.
     res_bind (ok_or (om_get (kr_fns reg) hid) (CfPanic ''verify() guarantees hook fn'')) (\<lambda>f.
     Ok \<lparr>ch_id = hid, ch_f = f, ch_may_accept_to = hs_may_accept_to spec, ch_may_jump_to = hs_may_jump_to spec\<rparr>))"

text \<open>A fallible \<^verbatim>\<open>map\<close> over a list.\<close>

fun map_res :: "('a \<Rightarrow> 'e + 'b) \<Rightarrow> 'a list \<Rightarrow> 'e + 'b list" where
  "map_res f [] = Ok []"
| "map_res f (x # xs) = res_bind (f x) (\<lambda>y. res_bind (map_res f xs) (\<lambda>ys. Ok (y # ys)))"

definition compile_pipeline ::
    "KernelRegistry \<Rightarrow> (HookId \<rightharpoonup> u32) \<Rightarrow> PipelineId \<Rightarrow> CompileFailure + CompiledPipeline" where
  "compile_pipeline reg hook_slots pid =
     res_bind (ok_or (om_get (kr_pipelines reg) pid) (CfPanic ''verify() guarantees pipeline'')) (\<lambda>p.
     res_bind (map_res (\<lambda>hid. ok_or (hook_slots hid) (CfPanic ''verify() guarantees pipeline hook registered''))
                 (pl_hooks p)) (\<lambda>hooks.
     Ok \<lparr>cp_id = pid, cp_hooks = hooks\<rparr>))"

definition from_registry :: "KernelRegistry \<Rightarrow> CompileFailure + CompiledKernel" where
  "from_registry reg =
     (case verify reg of
        Inl e \<Rightarrow> Err (CfVerify e)
      | Inr _ \<Rightarrow>
          let (source_slots, source_ids) = intern (om_keys (kr_sources reg));
              (sink_slots, sink_ids) = intern (om_keys (kr_sinks reg));
              (hook_slots, hook_ids) = intern (om_keys (kr_hooks reg));
              (pipeline_slots, pipeline_ids) = intern (om_keys (kr_pipelines reg))
          in res_bind (map_res (compile_hook reg) hook_ids) (\<lambda>compiled_hooks.
             res_bind (map_res (compile_pipeline reg hook_slots) pipeline_ids) (\<lambda>compiled_pipelines.
             Ok \<lparr>ck_source_slots = source_slots, ck_sink_slots = sink_slots, ck_hook_slots = hook_slots,
                 ck_pipeline_slots = pipeline_slots, ck_source_ids = source_ids, ck_sink_ids = sink_ids,
                 ck_hook_ids = hook_ids, ck_pipeline_ids = pipeline_ids, ck_compiled_hooks = compiled_hooks,
                 ck_compiled_pipelines = compiled_pipelines\<rparr>)))"

definition compiled_hooks_of :: "CompiledKernel \<Rightarrow> PipelineId \<Rightarrow> PipelineRunError + u32 list" where
  "compiled_hooks_of ck current =
     (case ck_pipeline_slots ck current of
        None \<Rightarrow> Err (ReUnknownPipeline current)
      | Some pslot \<Rightarrow> (case nth_opt (ck_compiled_pipelines ck) (unat pslot) of
            None \<Rightarrow> Err RePanic
          | Some p \<Rightarrow> Ok (cp_hooks p)))"

definition compiled_resolve ::
    "CompiledKernel \<Rightarrow> u32 \<Rightarrow> Event \<Rightarrow> KernelCtx \<Rightarrow> (PipelineRunError + Verdict) \<times> Event \<times> KernelCtx" where
  "compiled_resolve ck hslot ev ctx =
     (case nth_opt (ck_compiled_hooks ck) (unat hslot) of
        None \<Rightarrow> (Err RePanic, ev, ctx)
      | Some ch \<Rightarrow> checked_call (ch_id ch) (ch_may_accept_to ch) (ch_may_jump_to ch) (ch_f ch) ev ctx)"

definition compiled_run_pipeline ::
    "CompiledKernel \<Rightarrow> PipelineId \<Rightarrow> Event \<Rightarrow> KernelCtx \<Rightarrow> (PipelineRunError + Verdict) \<times> Event \<times> KernelCtx" where
  "compiled_run_pipeline ck entry ev ctx =
     run_loop (compiled_hooks_of ck) (compiled_resolve ck) entry 0 ev ctx"

text \<open>The accessors between ids and slots.\<close>

definition hook_slot :: "CompiledKernel \<Rightarrow> HookId \<Rightarrow> u32 option" where
  "hook_slot ck hid = ck_hook_slots ck hid"

definition hook_id :: "CompiledKernel \<Rightarrow> u32 \<Rightarrow> HookId option" where
  "hook_id ck slot = nth_opt (ck_hook_ids ck) (unat slot)"

definition pipeline_slot :: "CompiledKernel \<Rightarrow> PipelineId \<Rightarrow> u32 option" where
  "pipeline_slot ck pid = ck_pipeline_slots ck pid"

definition pipeline_id :: "CompiledKernel \<Rightarrow> u32 \<Rightarrow> PipelineId option" where
  "pipeline_id ck slot = nth_opt (ck_pipeline_ids ck) (unat slot)"

section \<open>Two tables that agree run alike\<close>

definition same_hooks ::
    "('h \<Rightarrow> 'e \<Rightarrow> 'c \<Rightarrow> (PipelineRunError + Verdict) \<times> 'e \<times> 'c)
      \<Rightarrow> ('g \<Rightarrow> 'e \<Rightarrow> 'c \<Rightarrow> (PipelineRunError + Verdict) \<times> 'e \<times> 'c)
      \<Rightarrow> PipelineRunError + 'h list \<Rightarrow> PipelineRunError + 'g list \<Rightarrow> bool" where
  "same_hooks r r' x y = rel_sum (=) (list_all2 (\<lambda>h g. r h = r' g)) x y"

lemma run_hooks_same:
  "list_all2 (\<lambda>h g. r h = r' g) hs gs \<Longrightarrow> run_hooks r hs e c = run_hooks r' gs e c"
proof (induction hs gs arbitrary: e c rule: list_all2_induct)
  case (Cons h hs g gs)
  then show ?case by (simp split: prod.splits sum.splits Verdict.splits)
qed simp

lemma run_loop_same:
  assumes "\<And>cur. same_hooks r r' (hooks_of cur) (hooks_of' cur)"
  shows "run_loop hooks_of r cur j e c = run_loop hooks_of' r' cur j e c"
  using assms
proof (induction hooks_of r cur j e c rule: run_loop.induct)
  case (1 hooks_of r current jumps e c)
  note IH = "1.IH" and same = "1.prems"
  show ?case
  proof (cases "hooks_of current")
    case (Inl err)
    with same [of current] have "hooks_of' current = Inl err" by (cases "hooks_of' current") (auto simp: same_hooks_def)
    with Inl show ?thesis by (simp add: run_loop.simps [of _ _ current])
  next
    case (Inr hs)
    with same [of current] obtain gs where gs: "hooks_of' current = Inr gs" "list_all2 (\<lambda>h g. r h = r' g) hs gs"
      by (cases "hooks_of' current") (auto simp: same_hooks_def)
    have eq: "run_hooks r hs e c = run_hooks r' gs e c" by (rule run_hooks_same [OF gs(2)])
    obtain v e' c' where v: "run_hooks r' gs e c = (v, e', c')" by (cases "run_hooks r' gs e c") auto
    have "run_loop hooks_of r target (jumps + 1) e' c' = run_loop hooks_of' r' target (jumps + 1) e' c'"
      if "v = Inr (Jump target)" "\<not> jumps > max_jump_depth" for target
      using IH [OF that(2) Inr] eq v that(1) same by auto
    then show ?thesis
      unfolding run_loop.simps [of hooks_of r current jumps] run_loop.simps [of hooks_of' r' current jumps]
      by (simp add: Inr gs(1) eq v split: sum.splits Verdict.splits)
  qed
qed

section \<open>Interning\<close>

lemma map_res_Ok: "map_res f xs = Ok ys \<longleftrightarrow> list_all2 (\<lambda>x y. f x = Ok y) xs ys"
  by (induction xs arbitrary: ys) (auto simp: result_simps list_all2_Cons1)

lemma intern_nth:
  assumes "distinct ids" "i < length ids"
  shows "fst (intern ids) (ids ! i) = Some (of_nat i)"
proof -
  let ?xs = "rev (zip ids (map (of_nat :: nat \<Rightarrow> u32) [0..<length ids]))"
  have "distinct (map fst ?xs)" using assms(1) by (simp flip: rev_map)
  moreover have "(ids ! i, of_nat i) \<in> set ?xs" using assms(2) by (auto simp: set_zip)
  ultimately show ?thesis by (simp add: intern_def)
qed

lemma intern_None: "k \<notin> set ids \<Longrightarrow> fst (intern ids) k = None"
  by (auto simp: intern_def map_of_eq_None_iff dest: set_zip_leftD)

lemma intern_total:
  assumes "k \<in> set ids"
  shows "fst (intern ids) k \<noteq> None"
proof -
  from assms obtain i where "i < length ids" "k = ids ! i" by (metis in_set_conv_nth)
  then have "k \<in> fst ` set (rev (zip ids (map (of_nat :: nat \<Rightarrow> u32) [0..<length ids])))"
    by (force simp: set_zip)
  then show ?thesis by (simp add: intern_def map_of_eq_None_iff)
qed

lemma intern_Some: "fst (intern ids) k = Some s \<Longrightarrow> \<exists>i < length ids. k = ids ! i \<and> s = of_nat i"
  by (force simp: intern_def set_zip dest: map_of_SomeD)

lemma slot_index:
  assumes "i < n" "n \<le> 2 ^ 32"
  shows "unat (of_nat i :: u32) = i"
proof -
  have "i < 2 ^ LENGTH(32)" using assms by simp
  then show ?thesis by (simp add: unat_of_nat)
qed

text \<open>The registry's sizes that make 32-bit slots faithful.\<close>

definition slots_fit :: "KernelRegistry \<Rightarrow> bool" where
  "slots_fit reg \<longleftrightarrow> length (kr_hooks reg) \<le> 2 ^ 32 \<and> length (kr_pipelines reg) \<le> 2 ^ 32"

lemma from_registry_Ok:
  assumes "from_registry reg = Ok ck"
  shows "verify reg = Ok ()" "list_all2 (\<lambda>h ch. compile_hook reg h = Ok ch) (om_keys (kr_hooks reg)) (ck_compiled_hooks ck)"
    "list_all2 (\<lambda>pid cp. compile_pipeline reg (fst (intern (om_keys (kr_hooks reg)))) pid = Ok cp)
       (om_keys (kr_pipelines reg)) (ck_compiled_pipelines ck)"
    "ck_pipeline_slots ck = fst (intern (om_keys (kr_pipelines reg)))"
    "ck_hook_slots ck = fst (intern (om_keys (kr_hooks reg)))"
    "ck_hook_ids ck = om_keys (kr_hooks reg)" "ck_pipeline_ids ck = om_keys (kr_pipelines reg)"
  using assms
  by (auto simp: from_registry_def Let_def map_res_Ok result_simps intern_def split: sum.splits)

lemma compiled_resolve_eq:
  assumes fr: "from_registry reg = Ok ck" and wf: "wf_registry reg" and fit: "slots_fit reg"
    and slot: "fst (intern (om_keys (kr_hooks reg))) hid = Some s"
  shows "registry_resolve reg hid = compiled_resolve ck s"
proof -
  from intern_Some [OF slot] obtain j where j: "j < length (om_keys (kr_hooks reg))" "hid = om_keys (kr_hooks reg) ! j"
    "s = of_nat j" by blast
  from j(1) fit have u: "unat s = j" unfolding j(3) by (intro slot_index) (auto simp: slots_fit_def)
  note l2 = from_registry_Ok(2) [OF fr]
  from list_all2_nthD [OF l2 j(1)] list_all2_lengthD [OF l2] j
  have ch: "compile_hook reg hid = Ok (ck_compiled_hooks ck ! j)" "j < length (ck_compiled_hooks ck)" by auto
  from ch(1) obtain spec f where sf: "om_get (kr_hooks reg) hid = Some spec" "om_get (kr_fns reg) hid = Some f"
    "ck_compiled_hooks ck ! j = \<lparr>ch_id = hid, ch_f = f, ch_may_accept_to = hs_may_accept_to spec,
       ch_may_jump_to = hs_may_jump_to spec\<rparr>" by (auto simp: compile_hook_def result_simps)
  show ?thesis
    using ch(2) by (intro ext) (simp add: registry_resolve_def compiled_resolve_def nth_opt_def u sf)
qed

lemma find_values:
  assumes "om_ok m" "\<And>k v. om_get m k = Some v \<Longrightarrow> f v = k"
  shows "find (\<lambda>v. f v = k) (map snd m) = om_get m k"
  using assms
proof (induction m)
  case (Cons kv m)
  obtain k' v' where [simp]: "kv = (k', v')" by (cases kv)
  have fv: "f v' = k'" using Cons.prems(2) [of k' v'] by simp
  have "f v = x" if "om_get m x = Some v" for x v
  proof -
    have "x \<noteq> k'" using that Cons.prems(1) by (auto dest!: map_of_SomeD)
    with Cons.prems(2) [of x v] that show ?thesis by simp
  qed
  with Cons fv show ?case by auto
qed simp

lemma registry_hooks_of:
  assumes "verify reg = Ok ()" "wf_registry reg"
  shows "find (\<lambda>p. pl_id p = cur) (map snd (kr_pipelines reg)) = om_get (kr_pipelines reg) cur"
  using assms by (intro find_values) (auto simp: wf_registry_def verified_pipeline_id)

lemma compiled_same_hooks:
  assumes fr: "from_registry reg = Ok ck" and wf: "wf_registry reg" and fit: "slots_fit reg"
  shows "same_hooks (registry_resolve reg) (compiled_resolve ck)
     (case find (\<lambda>p. pl_id p = cur) (map snd (kr_pipelines reg)) of
         None \<Rightarrow> Err (ReUnknownPipeline cur) | Some p \<Rightarrow> Ok (pl_hooks p)) (compiled_hooks_of ck cur)"
proof (cases "om_get (kr_pipelines reg) cur")
  case None
  then have "ck_pipeline_slots ck cur = None"
    unfolding from_registry_Ok(4) [OF fr] by (intro intern_None) (simp only: om_get_None not_False_eq_True)
  with None show ?thesis
    unfolding registry_hooks_of [OF from_registry_Ok(1) [OF fr] wf]
    by (simp add: compiled_hooks_of_def same_hooks_def)
next
  case (Some p)
  let ?keys = "om_keys (kr_pipelines reg)"
  from Some have "cur \<in> set ?keys" by (metis om_get_Some option.distinct(1))
  then obtain i where i: "i < length ?keys" "cur = ?keys ! i" by (metis in_set_conv_nth)
  have dist: "distinct ?keys" using wf by (simp add: wf_registry_def om_ok_distinct)
  have slot: "ck_pipeline_slots ck cur = Some (of_nat i)"
    unfolding from_registry_Ok(4) [OF fr] using intern_nth [OF dist i(1)] i(2) by simp
  from i(1) fit have u: "unat (of_nat i :: u32) = i" by (intro slot_index) (auto simp: slots_fit_def)
  note l2 = from_registry_Ok(3) [OF fr]
  from list_all2_nthD [OF l2 i(1)] list_all2_lengthD [OF l2] i
  have cp: "compile_pipeline reg (fst (intern (om_keys (kr_hooks reg)))) cur = Ok (ck_compiled_pipelines ck ! i)"
    "i < length (ck_compiled_pipelines ck)" by auto
  from cp(1) Some have "list_all2 (\<lambda>hid s. fst (intern (om_keys (kr_hooks reg))) hid = Some s)
      (pl_hooks p) (cp_hooks (ck_compiled_pipelines ck ! i))"
    by (cases "ck_compiled_pipelines ck ! i") (auto simp: compile_pipeline_def map_res_Ok result_simps)
  then have "list_all2 (\<lambda>h g. registry_resolve reg h = compiled_resolve ck g)
      (pl_hooks p) (cp_hooks (ck_compiled_pipelines ck ! i))"
    by (rule list_all2_mono) (rule compiled_resolve_eq [OF fr wf fit])
  with Some slot u cp(2) show ?thesis
    unfolding registry_hooks_of [OF from_registry_Ok(1) [OF fr] wf]
    by (simp add: compiled_hooks_of_def same_hooks_def nth_opt_def)
qed

section \<open>Jumps of a verified registry\<close>

text \<open>Runs of a verified registry stay inside it: the invariant of the outer loop, with \<open>seen\<close> the
  pipelines left by a jump.\<close>

lemma run_hooks_cases:
  assumes "run_hooks r hs e c = (res, e', c')"
  shows "res = Ok Continue \<or> (\<exists>h \<in> set hs. \<exists>e1 c1. r h e1 c1 = (res, e', c') \<and> res \<noteq> Ok Continue)"
  using assms
proof (induction hs arbitrary: e c)
  case (Cons h hs)
  obtain v e1 c1 where v: "r h e c = (v, e1, c1)" by (cases "r h e c") auto
  show ?case
  proof (cases "v = Ok Continue")
    case True
    with v Cons.prems have "run_hooks r hs e1 c1 = (res, e', c')" by simp
    from Cons.IH [OF this] show ?thesis by auto
  next
    case False
    with v Cons.prems have "(res, e', c') = (v, e1, c1)" by (auto split: sum.splits Verdict.splits)
    with v False show ?thesis by auto
  qed
qed simp

definition step_admissible :: "KernelRegistry \<Rightarrow> PipelineId \<Rightarrow> HookId \<Rightarrow> PipelineRunError + Verdict \<Rightarrow> bool" where
  "step_admissible reg pid h res \<longleftrightarrow>
    (\<forall>t. res = Ok (Jump t) \<longrightarrow> t \<in> set (jump_adj reg pid) \<and> has_key (kr_pipelines reg) t)
    \<and> (\<forall>s. res = Ok (Accept s) \<longrightarrow> has_key (kr_sinks reg) s)
    \<and> (\<forall>err. res = Err err \<longrightarrow> (\<exists>x. err = ReUndeclaredAcceptTarget h x \<or> err = ReUndeclaredJumpTarget h x))"

lemma registry_resolve_cases:
  assumes "verify reg = Ok ()" "om_get (kr_pipelines reg) pid = Some p" "h \<in> set (pl_hooks p)"
    "registry_resolve reg h e c = (res, e', c')"
  shows "step_admissible reg pid h res"
proof -
  obtain spec f where sf: "om_get (kr_hooks reg) h = Some spec" "om_get (kr_fns reg) h = Some f"
    using verified_pipeline_hooks [OF assms(1-3)] by (auto simp: has_key_def)
  have "t \<in> set (jump_adj reg pid)" "has_key (kr_pipelines reg) t" if "t \<in> set (hs_may_jump_to spec)" for t
    using that assms(2,3) sf(1) verified_jump_targets [OF assms(1-3) sf(1)] by (auto simp: jump_adj_mem)
  moreover have "has_key (kr_sinks reg) s" if "s \<in> set (hs_may_accept_to spec)" for s
    by (rule verified_sink_targets [OF assms(1) sf(1) that])
  ultimately show ?thesis
    using assms(4) sf by (auto simp: step_admissible_def registry_resolve_def checked_call_def Let_def
        split: prod.splits Verdict.splits if_splits)
qed

text \<open>The outcomes a verified registry admits: a terminal verdict, with a registered sink, or one of the
  errors a hook's behaviour can cause.\<close>

definition admissible :: "KernelRegistry \<Rightarrow> PipelineRunError + Verdict \<Rightarrow> bool" where
  "admissible reg res = (case res of
       Inr (Accept s) \<Rightarrow> has_key (kr_sinks reg) s
     | Inr (Reject _) \<Rightarrow> True
     | Inr VDrop \<Rightarrow> True
     | Inr _ \<Rightarrow> False
     | Inl (ReFellOffEnd p) \<Rightarrow> has_key (kr_pipelines reg) p
     | Inl (ReUndeclaredAcceptTarget h s) \<Rightarrow> has_key (kr_hooks reg) h
     | Inl (ReUndeclaredJumpTarget h p) \<Rightarrow> has_key (kr_hooks reg) h
     | Inl ReJumpDepthExceeded \<Rightarrow> length (kr_pipelines reg) > Suc max_jump_depth
     | Inl _ \<Rightarrow> False)"

definition registry_table :: "KernelRegistry \<Rightarrow> PipelineId \<Rightarrow> PipelineRunError + HookId list" where
  "registry_table reg cur = (case om_get (kr_pipelines reg) cur of
     None \<Rightarrow> Err (ReUnknownPipeline cur) | Some p \<Rightarrow> Ok (pl_hooks p))"

lemma run_with_registry_table:
  assumes "verify reg = Ok ()" "wf_registry reg"
  shows "run_pipeline_with_registry reg pid ev ctx = run_loop (registry_table reg) (registry_resolve reg) pid 0 ev ctx"
  unfolding run_pipeline_with_registry_def run_pipeline_def registry_hooks_of [OF assms] registry_table_def ..

lemma depth_bound:
  assumes "acyclic E" "seen \<subseteq> K" "finite K" "current \<in> K" "\<forall>s \<in> seen. (s, current) \<in> E\<^sup>+" "card seen = jumps"
  shows "jumps < card K"
proof -
  have "current \<notin> seen" using assms(1,5) by (auto simp: acyclic_def)
  then have "seen \<subset> K" using assms(2,4) by auto
  with psubset_card_mono [OF assms(3)] assms(6) show ?thesis by auto
qed

lemma verified_run_loop:
  assumes ver: "verify reg = Ok ()"
  shows "has_key (kr_pipelines reg) cur \<Longrightarrow> seen \<subseteq> set (om_keys (kr_pipelines reg)) \<Longrightarrow> card seen = j
    \<Longrightarrow> \<forall>s \<in> seen. (s, cur) \<in> (edge_rel (jump_adj reg))\<^sup>+
    \<Longrightarrow> admissible reg (fst (run_loop (registry_table reg) (registry_resolve reg) cur j e c))"
proof (induction "registry_table reg" "registry_resolve reg" cur j e c arbitrary: seen rule: run_loop.induct)
  case (1 cur j e c)
  let ?E = "edge_rel (jump_adj reg)" and ?K = "set (om_keys (kr_pipelines reg))"
  have acyc: "acyclic ?E" using ver by (simp add: verify_Ok_iff jump_dag_exact)
  have curK: "cur \<in> ?K" using "1.prems"(1) unfolding has_key_iff .
  have "j < card ?K" using depth_bound [OF acyc "1.prems"(2) _ curK "1.prems"(4,3)] by simp
  then have deep: "length (kr_pipelines reg) > Suc max_jump_depth" if "j > max_jump_depth"
    using that card_length [of "om_keys (kr_pipelines reg)"] by simp
  obtain p where p: "om_get (kr_pipelines reg) cur = Some p" using "1.prems"(1) by (auto simp: has_key_def)
  have tab: "registry_table reg cur = Ok (pl_hooks p)" by (simp add: registry_table_def p)
  obtain res e' c' where res: "run_hooks (registry_resolve reg) (pl_hooks p) e c = (res, e', c')"
    by (cases "run_hooks (registry_resolve reg) (pl_hooks p) e c") auto
  have cases: "res = Ok Continue \<or> (\<exists>h \<in> set (pl_hooks p). has_key (kr_hooks reg) h \<and> step_admissible reg cur h res)"
    using run_hooks_cases [OF res] registry_resolve_cases [OF ver p] verified_pipeline_hooks [OF ver p] by blast
  have rec: "admissible reg (fst (run_loop (registry_table reg) (registry_resolve reg) t (j + 1) e' c'))"
    if "res = Ok (Jump t)" "\<not> j > max_jump_depth" for t
  proof -
    from cases that(1) have t: "(cur, t) \<in> ?E" "has_key (kr_pipelines reg) t"
      by (auto simp: edge_rel_def step_admissible_def)
    have "cur \<notin> seen" using acyc "1.prems"(4) by (auto simp: acyclic_def)
    then have card: "card (insert cur seen) = j + 1"
      using "1.prems"(2,3) finite_subset [OF "1.prems"(2)] by simp
    have reach: "\<forall>s \<in> insert cur seen. (s, t) \<in> ?E\<^sup>+"
      using "1.prems"(4) t(1) by (auto intro: trancl_into_trancl)
    show ?thesis
      using "1.hyps" [OF that(2) tab res [symmetric] that(1) refl refl t(2) _ card reach] "1.prems"(2) curK by auto
  qed
  show ?case
  proof (cases "j > max_jump_depth \<or> (\<exists>t. res = Ok (Jump t))")
    case True
    with deep rec show ?thesis
      by (cases "j > max_jump_depth") (auto simp: run_loop.simps [of _ _ cur j] tab res admissible_def)
  next
    case False
    with cases "1.prems"(1) show ?thesis
      unfolding run_loop.simps [of _ _ cur j]
      by (auto simp: tab res admissible_def step_admissible_def split: sum.splits Verdict.splits)
  qed
qed

section \<open>Properties\<close>

text \<open>C15: running the compiled registry is running the registry. On every registry that compiles (its
  maps well-formed and at most \<open>2 ^ 32\<close> hooks and pipelines, the range of the slots), for every entry
  pipeline, event and context, both return the same result, event and trace, panics and errors
  included.\<close>

theorem compiled_equivalent:
  assumes "from_registry reg = Ok ck" "wf_registry reg" "slots_fit reg"
  shows "compiled_run_pipeline ck entry ev ctx = run_pipeline_with_registry reg entry ev ctx"
  unfolding compiled_run_pipeline_def run_pipeline_with_registry_def run_pipeline_def
  by (rule sym, rule run_loop_same) (rule compiled_same_hooks [OF assms])

theorem compiled_equivalent_witness:
  "\<exists>ck. from_registry sample_registry = Ok ck
    \<and> compiled_run_pipeline ck ''main'' event_empty \<lparr>kc_hook_trace = []\<rparr>
      = run_pipeline_with_registry sample_registry ''main'' event_empty \<lparr>kc_hook_trace = []\<rparr>"
proof -
  have "\<exists>ck. from_registry sample_registry = Ok ck"
    using sample_verified by (simp add: from_registry_def intern_def compile_hook_def compile_pipeline_def
        sample_registry_def map_res.simps)
  then obtain ck where ck: "from_registry sample_registry = Ok ck" ..
  have "wf_registry sample_registry" "slots_fit sample_registry"
    by (simp_all add: wf_registry_def slots_fit_def sample_registry_def)
  with compiled_equivalent [OF ck] ck show ?thesis by blast
qed

text \<open>C16: a run of a verified registry from a registered pipeline ends in one of these ways only: an
  accept to a registered sink, a reject, a drop, an undeclared target returned by a registered hook,
  the end of a registered pipeline, or, only with more than 33 pipelines, the jump limit. It never
  meets an unknown hook or pipeline.\<close>

theorem verified_run_admissible:
  assumes "verify reg = Ok ()" "wf_registry reg" "has_key (kr_pipelines reg) pid"
  shows "admissible reg (fst (run_pipeline_with_registry reg pid ev ctx))"
  unfolding run_with_registry_table [OF assms(1,2)]
  by (rule verified_run_loop [OF assms(1,3), of "{}"]) simp_all

theorem verified_run_admissible_witness:
  "admissible sample_registry (fst (run_pipeline_with_registry sample_registry ''main'' event_empty \<lparr>kc_hook_trace = []\<rparr>))"
  by (rule verified_run_admissible [OF sample_verified])
    (simp_all add: wf_registry_def has_key_def sample_registry_def)

text \<open>Compiling a verified registry succeeds exactly when every registered hook has a function.
  The verifier asks for functions of the hooks that pipelines use only, so a verified registry with an
  unused hook panics in \<^verbatim>\<open>from_registry\<close>.\<close>

lemma compile_panics_iff:
  assumes "verify reg = Ok ()"
  shows "(\<exists>ck. from_registry reg = Ok ck) \<longleftrightarrow> (\<forall>h. has_key (kr_hooks reg) h \<longrightarrow> has_key (kr_fns reg) h)"
proof
  assume "\<exists>ck. from_registry reg = Ok ck"
  then obtain ck where ck: "from_registry reg = Ok ck" ..
  note l2 = from_registry_Ok(2) [OF ck]
  show "\<forall>h. has_key (kr_hooks reg) h \<longrightarrow> has_key (kr_fns reg) h"
  proof (intro allI impI)
    fix h
    assume "has_key (kr_hooks reg) h"
    then obtain i where "i < length (om_keys (kr_hooks reg))" "h = om_keys (kr_hooks reg) ! i"
      unfolding has_key_iff by (metis in_set_conv_nth)
    with list_all2_nthD [OF l2] have "\<exists>ch. compile_hook reg h = Ok ch" by blast
    then show "has_key (kr_fns reg) h" by (auto simp: compile_hook_def has_key_def result_simps)
  qed
next
  assume fns: "\<forall>h. has_key (kr_hooks reg) h \<longrightarrow> has_key (kr_fns reg) h"
  have "\<exists>ys. map_res f xs = Ok ys" if "\<forall>x \<in> set xs. \<exists>y. f x = Ok y" for f :: "string \<Rightarrow> CompileFailure + 'b" and xs
    using that by (induction xs) (auto simp: result_simps)
  note total = this
  have "\<exists>chs. map_res (compile_hook reg) (om_keys (kr_hooks reg)) = Ok chs"
  proof (rule total, intro ballI)
    fix h
    assume "h \<in> set (om_keys (kr_hooks reg))"
    with fns show "\<exists>y. compile_hook reg h = Ok y"
      unfolding has_key_iff [symmetric] by (auto simp: compile_hook_def has_key_def)
  qed
  moreover have "\<exists>cps. map_res (compile_pipeline reg (fst (intern (om_keys (kr_hooks reg))))) (om_keys (kr_pipelines reg)) = Ok cps"
  proof (rule total, intro ballI)
    fix pid
    assume "pid \<in> set (om_keys (kr_pipelines reg))"
    then obtain p where p: "om_get (kr_pipelines reg) pid = Some p" by (metis om_get_Some option.exhaust)
    have "\<exists>ys. map_res (\<lambda>hid. ok_or (fst (intern (om_keys (kr_hooks reg))) hid)
        (CfPanic ''verify() guarantees pipeline hook registered'')) (pl_hooks p) = Ok ys"
    proof (rule total, intro ballI)
      fix h
      assume "h \<in> set (pl_hooks p)"
      from verified_pipeline_hooks [OF assms p this] have "h \<in> set (om_keys (kr_hooks reg))" unfolding has_key_iff by simp
      then have "fst (intern (om_keys (kr_hooks reg))) h \<noteq> None" by (rule intern_total)
      then show "\<exists>y. ok_or (fst (intern (om_keys (kr_hooks reg))) h)
          (CfPanic ''verify() guarantees pipeline hook registered'') = Ok y" by auto
    qed
    then show "\<exists>y. compile_pipeline reg (fst (intern (om_keys (kr_hooks reg)))) pid = Ok y"
      by (auto simp: compile_pipeline_def p)
  qed
  ultimately show "\<exists>ck. from_registry reg = Ok ck"
    using assms by (auto simp: from_registry_def intern_def result_simps)
qed

text \<open>The sample registry with a second hook that no pipeline uses and that has no function.\<close>

definition spare_registry :: KernelRegistry where
  "spare_registry = sample_registry\<lparr>kr_hooks :=
     [(''pick'', sample_hook), (''spare'', sample_hook\<lparr>hs_id := ''spare''\<rparr>)]\<rparr>"

end
