(* ===== verification/Float64.thy ===== *)
theory Float64
  imports Complex_Main Mesh_Prelude "HOL-Library.Log_Nat"
begin

text \<open>
  The \<^verbatim>\<open>f64\<close> arithmetic of the health and cost computations, as exact rationals rounded after every
  operation to the nearest number of 53 significant bits, ties to even, as IEEE 754 double precision
  rounds. The values these components compute (rates between 0 and 1, weights, byte and millisecond
  counts) stay far inside the exponent range, so overflow, subnormals and the special values are not
  represented. A literal of the source is the rounded decimal. The cast to \<^verbatim>\<open>u64\<close> truncates and
  saturates.
\<close>

type_synonym f64 = rat

definition pow2 :: "int \<Rightarrow> rat" where
  "pow2 k = (if k \<ge> 0 then 2 ^ nat k else 1 / 2 ^ nat (- k))"

text \<open>The exponent of the leading bit: for positive \<open>x\<close>, \<open>pow2 (lead x) \<le> x < pow2 (lead x + 1)\<close>.\<close>

definition lead :: "rat \<Rightarrow> int" where
  "lead x = (let (n, d) = quotient_of x;
                 k = int (floorlog 2 (nat n)) - int (floorlog 2 (nat d))
             in if pow2 k \<le> x then k else k - 1)"

definition half_even :: "rat \<Rightarrow> int" where
  "half_even x = (let f = floor x; r = x - of_int f
                  in if r < 1 / 2 then f else if r > 1 / 2 then f + 1 else if even f then f else f + 1)"

definition round64 :: "rat \<Rightarrow> f64" where
  "round64 x = (if x = 0 then 0
                else let s = pow2 (lead \<bar>x\<bar> - 52) in of_int (half_even (x / s)) * s)"

definition fl_add :: "f64 \<Rightarrow> f64 \<Rightarrow> f64" where
  "fl_add a b = round64 (a + b)"

definition fl_sub :: "f64 \<Rightarrow> f64 \<Rightarrow> f64" where
  "fl_sub a b = round64 (a - b)"

definition fl_mul :: "f64 \<Rightarrow> f64 \<Rightarrow> f64" where
  "fl_mul a b = round64 (a * b)"

definition fl_div :: "f64 \<Rightarrow> f64 \<Rightarrow> f64" where
  "fl_div a b = round64 (a / b)"

definition fl_of_nat :: "nat \<Rightarrow> f64" where
  "fl_of_nat n = round64 (of_nat n)"

definition fl_to_u64 :: "f64 \<Rightarrow> nat" where
  "fl_to_u64 x = (if x < 0 then 0 else min (nat (floor x)) u64_max)"

end
