(* ===== verification/Health.thy ===== *)
theory Health
  imports Float64 "HOL-Library.Signed_Division"
begin

text \<open>
  Exit health (\<^verbatim>\<open>lib/mb-health\<close>): the table that stops dispatching to an exit after consecutive
  failures, and the sliding window of round-trip times, outcomes and payload sizes the CAKE scheduler
  ranks by. The 64-bit signed arithmetic of the moving averages is written out with its wrap-around.
\<close>

section \<open>The health table\<close>

record HealthPolicy =
  hp_failure_threshold :: nat
  hp_recovery_window_ms :: nat
  hp_probe_after_ms :: nat

definition health_policy_default :: HealthPolicy where
  "health_policy_default =
     \<lparr>hp_failure_threshold = 2, hp_recovery_window_ms = 60000, hp_probe_after_ms = 1000\<rparr>"

record ExitHealth =
  eh_failures :: nat
  eh_last_failure_ms :: nat
  eh_last_success_ms :: nat

record ExitHealthTable =
  et_policy :: HealthPolicy
  et_exits :: "string \<rightharpoonup> ExitHealth"

definition health_table_new :: "HealthPolicy \<Rightarrow> ExitHealthTable" where
  "health_table_new policy = \<lparr>et_policy = policy, et_exits = Map.empty\<rparr>"

definition can_dispatch :: "ExitHealthTable \<Rightarrow> string \<Rightarrow> nat \<Rightarrow> bool" where
  "can_dispatch t exit_id now_ms =
     (case et_exits t exit_id of
        None \<Rightarrow> True
      | Some health \<Rightarrow>
          if eh_failures health < hp_failure_threshold (et_policy t) then True
          else now_ms - eh_last_failure_ms health \<ge> hp_probe_after_ms (et_policy t))"

definition health_record :: "ExitHealthTable \<Rightarrow> string \<Rightarrow> bool \<Rightarrow> nat \<Rightarrow> ExitHealthTable" where
  "health_record t exit_id success now_ms =
     (let health = (case et_exits t exit_id of
                      None \<Rightarrow> \<lparr>eh_failures = 0, eh_last_failure_ms = 0, eh_last_success_ms = 0\<rparr>
                    | Some h \<Rightarrow> h);
          health' =
            (if success then health\<lparr>eh_failures := 0, eh_last_success_ms := now_ms\<rparr>
             else let base = (if now_ms - eh_last_failure_ms health > hp_recovery_window_ms (et_policy t)
                              then 0 else eh_failures health)
                  in health\<lparr>eh_failures := min (base + 1) 255, eh_last_failure_ms := now_ms\<rparr>)
      in t\<lparr>et_exits := (et_exits t)(exit_id \<mapsto> health')\<rparr>)"

section \<open>The sliding window\<close>

record HealthWindow =
  hw_capacity :: nat
  hw_rtts :: "nat list"
  hw_outcomes :: "bool list"
  hw_rtt_ewma :: "nat option"
  hw_jitter_ewma :: "nat option"
  hw_bytes :: "(nat \<times> nat) list"

definition health_window_new :: "nat \<Rightarrow> HealthWindow" where
  "health_window_new capacity =
     \<lparr>hw_capacity = capacity, hw_rtts = [], hw_outcomes = [], hw_rtt_ewma = None, hw_jitter_ewma = None,
      hw_bytes = []\<rparr>"

text \<open>Dropping the oldest sample of a full window before adding one.\<close>

definition push_window :: "nat \<Rightarrow> 'a list \<Rightarrow> 'a \<Rightarrow> 'a list" where
  "push_window capacity xs x = (if length xs = capacity then tl xs else xs) @ [x]"

definition as_i64 :: "nat \<Rightarrow> int" where
  "as_i64 x = (if x < 2 ^ 63 then int x else int x - 2 ^ 64)"

definition wrap_i64 :: "int \<Rightarrow> int" where
  "wrap_i64 z = (z + 2 ^ 63) mod 2 ^ 64 - 2 ^ 63"

definition ewma :: "nat option \<Rightarrow> nat \<Rightarrow> nat" where
  "ewma prev x =
     (case prev of
        None \<Rightarrow> x
      | Some p \<Rightarrow> let prev_i = as_i64 p; new_i = as_i64 x;
                      updated = wrap_i64 (prev_i + wrap_i64 (new_i - prev_i) sdiv 8)
                  in nat (max updated 0))"

definition record_rtt :: "HealthWindow \<Rightarrow> nat \<Rightarrow> HealthWindow" where
  "record_rtt w rtt_ms =
     (let rtt = ewma (hw_rtt_ewma w) rtt_ms;
          new_dev = nat \<bar>wrap_i64 (as_i64 rtt_ms - as_i64 rtt)\<bar>
      in w\<lparr>hw_rtts := push_window (hw_capacity w) (hw_rtts w) rtt_ms,
           hw_rtt_ewma := Some rtt,
           hw_jitter_ewma := Some (ewma (hw_jitter_ewma w) new_dev)\<rparr>)"

definition record_outcome :: "HealthWindow \<Rightarrow> bool \<Rightarrow> HealthWindow" where
  "record_outcome w success = w\<lparr>hw_outcomes := push_window (hw_capacity w) (hw_outcomes w) success\<rparr>"

definition record_payload :: "HealthWindow \<Rightarrow> nat \<Rightarrow> nat \<Rightarrow> HealthWindow" where
  "record_payload w payload_bytes at_ms =
     w\<lparr>hw_bytes := push_window (hw_capacity w) (hw_bytes w) (at_ms, payload_bytes)\<rparr>"

definition mean_rtt_ms :: "HealthWindow \<Rightarrow> nat" where
  "mean_rtt_ms w = (case hw_rtt_ewma w of None \<Rightarrow> 0 | Some x \<Rightarrow> x)"

definition jitter_ms :: "HealthWindow \<Rightarrow> nat" where
  "jitter_ms w = (case hw_jitter_ewma w of None \<Rightarrow> 0 | Some x \<Rightarrow> x)"

definition sample_count :: "HealthWindow \<Rightarrow> nat" where
  "sample_count w = length (hw_rtts w)"

definition goodput_bps :: "HealthWindow \<Rightarrow> nat" where
  "goodput_bps w =
     (if length (hw_bytes w) < 2 then 0
      else let first_t = fst (hd (hw_bytes w)); last_t = fst (last (hw_bytes w))
           in if last_t \<le> first_t then 0
              else let span_ms = last_t - first_t;
                       sum_bytes = wrap64 (sum_list (map snd (hw_bytes w)))
                   in sat_mul64 sum_bytes 1000 div span_ms)"

definition success_rate :: "HealthWindow \<Rightarrow> f64" where
  "success_rate w =
     (if hw_outcomes w = [] then 1
      else fl_div (fl_of_nat (length (filter id (hw_outcomes w)))) (fl_of_nat (length (hw_outcomes w))))"

section \<open>Lemmas on the table\<close>

text \<open>The specification reads the history of an exit, newest event first: the time of the last
  failure, and the length of the current streak of failures, each within the recovery window of the
  failure before it.\<close>

fun last_failure :: "(bool \<times> nat) list \<Rightarrow> nat" where
  "last_failure [] = 0"
| "last_failure ((success, t) # evs) = (if success then last_failure evs else t)"

fun streak :: "nat \<Rightarrow> (bool \<times> nat) list \<Rightarrow> nat" where
  "streak win [] = 0"
| "streak win ((success, t) # evs) =
     (if success then 0 else if t - last_failure evs > win then 1 else Suc (streak win evs))"

definition health_history :: "HealthPolicy \<Rightarrow> (string \<times> bool \<times> nat) list \<Rightarrow> ExitHealthTable" where
  "health_history policy evs =
     foldl (\<lambda>t (exit_id, success, now). health_record t exit_id success now) (health_table_new policy) evs"

definition history_of :: "string \<Rightarrow> (string \<times> bool \<times> nat) list \<Rightarrow> (bool \<times> nat) list" where
  "history_of exit_id evs = rev (map snd (filter (\<lambda>ev. fst ev = exit_id) evs))"

definition exit_abs :: "HealthPolicy \<Rightarrow> (bool \<times> nat) list \<Rightarrow> ExitHealth option \<Rightarrow> bool" where
  "exit_abs policy hist h =
     (case h of
        None \<Rightarrow> hist = []
      | Some health \<Rightarrow> hist \<noteq> [] \<and> eh_failures health = min (streak (hp_recovery_window_ms policy) hist) 255
          \<and> eh_last_failure_ms health = last_failure hist)"

lemma health_record_abs:
  assumes "exit_abs (et_policy t) hist (et_exits t exit_id)"
  shows "exit_abs (et_policy t) ((success, now) # hist) (et_exits (health_record t exit_id success now) exit_id)"
  using assms by (auto simp: exit_abs_def health_record_def Let_def split: option.splits)

lemma health_history_abs:
  "et_policy (health_history policy evs) = policy
   \<and> exit_abs policy (history_of exit_id evs) (et_exits (health_history policy evs) exit_id)"
proof (induction evs rule: rev_induct)
  case Nil
  show ?case by (simp add: health_history_def history_of_def health_table_new_def exit_abs_def)
next
  case (snoc ev evs)
  obtain e s now where ev: "ev = (e, s, now)" by (cases ev)
  let ?t = "health_history policy evs"
  have step: "health_history policy (evs @ [ev]) = health_record ?t e s now"
    by (simp add: health_history_def ev)
  have pol: "et_policy (health_record ?t e s now) = policy"
    using snoc by (simp add: health_record_def Let_def)
  show ?case
  proof (cases "e = exit_id")
    case True
    then have "history_of exit_id (evs @ [ev]) = (s, now) # history_of exit_id evs"
      by (simp add: history_of_def ev)
    with True snoc health_record_abs [of ?t "history_of exit_id evs" exit_id s now] pol step
    show ?thesis by simp
  next
    case False
    then have "et_exits (health_record ?t e s now) exit_id = et_exits ?t exit_id"
      "history_of exit_id (evs @ [ev]) = history_of exit_id evs"
      by (simp_all add: health_record_def Let_def history_of_def ev)
    with snoc pol step show ?thesis by simp
  qed
qed

section \<open>Lemmas on the window\<close>

lemma wrap_i64_id: "- (2 ^ 63) \<le> z \<Longrightarrow> z < 2 ^ 63 \<Longrightarrow> wrap_i64 z = z"
  by (simp add: wrap_i64_def)

lemma sdiv8_between:
  fixes z :: int
  shows "0 \<le> z \<Longrightarrow> 0 \<le> z sdiv 8 \<and> z sdiv 8 \<le> z" "z \<le> 0 \<Longrightarrow> z \<le> z sdiv 8 \<and> z sdiv 8 \<le> 0"
proof -
  assume z: "0 \<le> z"
  then have "z sdiv 8 = z div 8" by (auto simp: signed_divide_int_def sgn_if)
  with z show "0 \<le> z sdiv 8 \<and> z sdiv 8 \<le> z" by presburger
next
  assume z: "z \<le> 0"
  then have "z sdiv 8 = - ((- z) div 8)" by (auto simp: signed_divide_int_def sgn_if)
  with z show "z \<le> z sdiv 8 \<and> z sdiv 8 \<le> 0" by presburger
qed

lemma ewma_between:
  assumes "p < 2 ^ 63" "x < 2 ^ 63"
  shows "min p x \<le> ewma (Some p) x \<and> ewma (Some p) x \<le> max p x"
proof -
  let ?d = "int x - int p"
  have "wrap_i64 ?d = ?d" using assms by (intro wrap_i64_id) auto
  moreover have b: "0 \<le> ?d sdiv 8 \<and> ?d sdiv 8 \<le> ?d \<or> ?d \<le> ?d sdiv 8 \<and> ?d sdiv 8 \<le> 0"
    using sdiv8_between [of ?d] by linarith
  moreover have "wrap_i64 (int p + ?d sdiv 8) = int p + ?d sdiv 8"
    using assms b by (intro wrap_i64_id) auto
  ultimately have "ewma (Some p) x = nat (max (int p + ?d sdiv 8) 0)"
    using assms by (simp add: ewma_def as_i64_def Let_def)
  with b show ?thesis by (auto simp: min_def max_def)
qed

definition rtt_history :: "nat \<Rightarrow> nat list \<Rightarrow> HealthWindow" where
  "rtt_history capacity xs = foldl record_rtt (health_window_new capacity) xs"

lemma rtt_history_bounds:
  assumes "xs \<noteq> []" "\<forall>x \<in> set xs. lo \<le> x \<and> x \<le> hi" "hi < 2 ^ 63"
  shows "\<exists>m j. hw_rtt_ewma (rtt_history capacity xs) = Some m \<and> lo \<le> m \<and> m \<le> hi
    \<and> hw_jitter_ewma (rtt_history capacity xs) = Some j \<and> j \<le> hi - lo"
  using assms(1,2)
proof (induction xs rule: rev_induct)
  case (snoc x xs)
  have x: "lo \<le> x" "x \<le> hi" using snoc.prems(2) by auto
  let ?w = "rtt_history capacity xs"
  have step: "rtt_history capacity (xs @ [x]) = record_rtt ?w x" by (simp add: rtt_history_def)
  have dev: "nat \<bar>wrap_i64 (as_i64 x - as_i64 m)\<bar> \<le> hi - lo" if "lo \<le> m" "m \<le> hi" for m
  proof -
    have "wrap_i64 (int x - int m) = int x - int m" using that x assms(3) by (intro wrap_i64_id) auto
    with that x assms(3) show ?thesis by (auto simp: as_i64_def)
  qed
  show ?case
  proof (cases "xs = []")
    case True
    then have "hw_rtt_ewma (record_rtt ?w x) = Some x"
      "hw_jitter_ewma (record_rtt ?w x) = Some (nat \<bar>wrap_i64 (as_i64 x - as_i64 x)\<bar>)"
      by (simp_all add: rtt_history_def record_rtt_def health_window_new_def ewma_def Let_def)
    with dev [OF x] x step show ?thesis by simp
  next
    case False
    with snoc obtain m j where mj: "hw_rtt_ewma ?w = Some m" "lo \<le> m" "m \<le> hi"
      "hw_jitter_ewma ?w = Some j" "j \<le> hi - lo" by auto
    define m' where "m' = ewma (Some m) x"
    have m': "lo \<le> m'" "m' \<le> hi"
      using ewma_between [of m x] mj(2,3) x assms(3) by (auto simp: m'_def min_def max_def split: if_splits)
    define d where "d = nat \<bar>wrap_i64 (as_i64 x - as_i64 m')\<bar>"
    have d: "d \<le> hi - lo" unfolding d_def by (rule dev [OF m'])
    have "ewma (Some j) d \<le> hi - lo"
    proof -
      have "j < 2 ^ 63" "d < 2 ^ 63" using mj(5) d assms(3) by linarith+
      from ewma_between [OF this] mj(5) d show ?thesis by linarith
    qed
    with m' step show ?thesis by (simp add: record_rtt_def mj(1,4) m'_def [symmetric] d_def [symmetric] Let_def)
  qed
qed simp

lemma push_window_length:
  "0 < capacity \<Longrightarrow> length xs \<le> capacity \<Longrightarrow> length (push_window capacity xs x) \<le> capacity"
  by (auto simp: push_window_def)

text \<open>With capacity 0 the window is not bounded: the length is compared for equality only.\<close>

lemma push_window_unbounded: "length (foldl (push_window 0) [] xs) = length xs"
proof (induction xs rule: rev_induct)
  case (snoc x xs)
  then show ?case by (cases xs) (auto simp: push_window_def)
qed simp

section \<open>Properties\<close>

text \<open>C18: the health table is a function of each exit's own history. After any sequence of outcomes of
  all exits, an exit may be used if and only if nothing was recorded of it, or its current streak of
  failures (each within the recovery window of the previous one, counted up to 255) is below the
  threshold, or the probe interval has passed since its last failure.\<close>

theorem health_refines_history:
  "can_dispatch (health_history policy evs) exit_id now \<longleftrightarrow>
     history_of exit_id evs = []
     \<or> min (streak (hp_recovery_window_ms policy) (history_of exit_id evs)) 255 < hp_failure_threshold policy
     \<or> now - last_failure (history_of exit_id evs) \<ge> hp_probe_after_ms policy"
  using health_history_abs [of policy evs exit_id]
  by (auto simp: can_dispatch_def exit_abs_def split: option.splits)

text \<open>The smoothed round-trip time never leaves the range of the recorded samples, and the
  smoothed jitter never exceeds the width of that range, for samples below \<open>2 ^ 63\<close>.\<close>

lemma rtt_within_samples:
  assumes "xs \<noteq> []" "\<forall>x \<in> set xs. lo \<le> x \<and> x \<le> hi" "hi < 2 ^ 63"
  shows "lo \<le> mean_rtt_ms (rtt_history capacity xs) \<and> mean_rtt_ms (rtt_history capacity xs) \<le> hi
    \<and> jitter_ms (rtt_history capacity xs) \<le> hi - lo"
  using rtt_history_bounds [OF assms, of capacity] by (auto simp: mean_rtt_ms_def jitter_ms_def)

end
