(* ===== verification/Observation.thy ===== *)
theory Observation
  imports Cycle_Search Ordered_Map
begin

text \<open>
  The observation bus (\<^verbatim>\<open>crates/mesh-bus-core/src/kernel/observation\<close>): event types, the registry of
  observers and its verifier, the status table of subscribers, and the bus itself, whose routing table
  is a list of slots of senders. Channels belong to the runtime: a lossy publication is the list of
  sends it attempts, and a reliable one is given the order in which its sends completed before the
  deadline. The metrics observer (\<^verbatim>\<open>kernel/metrics_observer.rs\<close>) folds the events it receives.
\<close>

section \<open>Event types\<close>

datatype CoreEventId = FlowOpened | FlowPathChanged | FlowClosed | PathIoError

datatype EventTypeId = EtCore CoreEventId | EtObs nat

definition core_range_end :: nat where
  "core_range_end = 16"

fun as_u32 :: "EventTypeId \<Rightarrow> nat" where
  "as_u32 (EtCore FlowOpened) = 0"
| "as_u32 (EtCore FlowPathChanged) = 1"
| "as_u32 (EtCore FlowClosed) = 2"
| "as_u32 (EtCore PathIoError) = 3"
| "as_u32 (EtObs n) = (core_range_end + n) mod 2 ^ 32"

definition decode_type :: "nat \<Rightarrow> EventTypeId" where
  "decode_type packed =
     (if packed = 0 then EtCore FlowOpened
      else if packed = 1 then EtCore FlowPathChanged
      else if packed = 2 then EtCore FlowClosed
      else if packed = 3 then EtCore PathIoError
      else EtObs ((packed + 2 ^ 32 - core_range_end) mod 2 ^ 32))"

definition obs_meshsec_drop :: EventTypeId where
  "obs_meshsec_drop = EtObs 0"

definition obs_native_drop :: EventTypeId where
  "obs_native_drop = EtObs 1"

datatype DeliveryPolicy = DpLossy | DpReliable

record EventTypeSpec =
  ts_id :: EventTypeId
  ts_schema_hash :: nat
  ts_multi_writer :: bool
  ts_delivery :: DeliveryPolicy

definition default_event_type_specs :: "EventTypeSpec list" where
  "default_event_type_specs =
     [\<lparr>ts_id = EtCore FlowOpened, ts_schema_hash = 0xC0010001, ts_multi_writer = False, ts_delivery = DpReliable\<rparr>,
      \<lparr>ts_id = EtCore FlowPathChanged, ts_schema_hash = 0xC0010002, ts_multi_writer = False, ts_delivery = DpReliable\<rparr>,
      \<lparr>ts_id = EtCore FlowClosed, ts_schema_hash = 0xC0010003, ts_multi_writer = False, ts_delivery = DpReliable\<rparr>,
      \<lparr>ts_id = EtCore PathIoError, ts_schema_hash = 0xC0010004, ts_multi_writer = False, ts_delivery = DpLossy\<rparr>,
      \<lparr>ts_id = obs_meshsec_drop, ts_schema_hash = 0x0B5EC001, ts_multi_writer = True, ts_delivery = DpLossy\<rparr>,
      \<lparr>ts_id = obs_native_drop, ts_schema_hash = 0x0B5EC002, ts_multi_writer = True, ts_delivery = DpLossy\<rparr>]"

record EventPayload =
  ep_flow_id :: "nat option"
  ep_flow_id_text :: "string option"
  ep_session_id_text :: "string option"
  ep_sink_id :: "nat option"
  ep_exit_id :: "string option"
  ep_selected_exit :: "string option"
  ep_route_group :: "string option"
  ep_target_sink :: "string option"
  ep_packet_id :: "nat option"
  ep_bytes_in :: nat
  ep_bytes_out :: nat
  ep_payload_bytes :: nat
  ep_rtt_ms :: nat
  ep_success :: "bool option"
  ep_close_reason :: "string option"
  ep_io_err_kind :: "string option"
  ep_direction :: "nat option"
  ep_terminal :: bool
  ep_shape :: "nat option"
  ep_at_ms :: nat
  ep_peer_id :: "string option"
  ep_source_addr :: "string option"
  ep_reason :: "string option"
  ep_reason_code :: "nat option"
  ep_transport_mode :: "string option"
  ep_secure :: "bool option"

definition payload_default :: EventPayload where
  "payload_default =
     \<lparr>ep_flow_id = None, ep_flow_id_text = None, ep_session_id_text = None, ep_sink_id = None, ep_exit_id = None,
      ep_selected_exit = None, ep_route_group = None, ep_target_sink = None, ep_packet_id = None, ep_bytes_in = 0,
      ep_bytes_out = 0, ep_payload_bytes = 0, ep_rtt_ms = 0, ep_success = None, ep_close_reason = None,
      ep_io_err_kind = None, ep_direction = None, ep_terminal = False, ep_shape = None, ep_at_ms = 0,
      ep_peer_id = None, ep_source_addr = None, ep_reason = None, ep_reason_code = None,
      ep_transport_mode = None, ep_secure = None\<rparr>"

record EventEnvelope =
  ee_type_id :: EventTypeId
  ee_payload :: EventPayload
  ee_at_ns :: nat

section \<open>The registry of observers\<close>

record ObserverSpec =
  os_id :: nat
  os_owner :: nat
  os_scope :: nat
  os_reads :: "EventTypeId list"
  os_writes :: "EventTypeId list"
  os_pulls :: "nat list"

datatype RegError =
    RgUnknownEventType EventTypeId nat
  | RgCoreWriteViolation nat EventTypeId
  | RgDuplicateExclusiveWriter EventTypeId
  | RgCycleInObservationGraph nat
  | RgUndeclaredPublish EventTypeId nat
  | RgUndeclaredSubscribe EventTypeId nat
  | RgScopeMissing nat
  | RgUnknownPullSource nat
  | RgSchemaHashMismatch EventTypeId

record ObservationRegistry =
  or_event_types :: "(nat, EventTypeSpec) omap"
  or_observers :: "(nat, ObserverSpec) omap"
  or_pull_sources :: "nat set"

definition obs_registry_new :: ObservationRegistry where
  "obs_registry_new = \<lparr>or_event_types = [], or_observers = [], or_pull_sources = {}\<rparr>"

definition register_event_type :: "ObservationRegistry \<Rightarrow> EventTypeSpec \<Rightarrow> RegError + ObservationRegistry" where
  "register_event_type reg spec =
     Ok (reg\<lparr>or_event_types := om_put (as_u32 (ts_id spec)) spec (or_event_types reg)\<rparr>)"

definition register_observer :: "ObservationRegistry \<Rightarrow> ObserverSpec \<Rightarrow> RegError + ObservationRegistry" where
  "register_observer reg spec =
     (if os_scope spec = 0 then Err (RgScopeMissing (os_id spec))
      else Ok (reg\<lparr>or_observers := om_put (os_id spec) spec (or_observers reg)\<rparr>))"

definition register_pull_source :: "ObservationRegistry \<Rightarrow> nat \<Rightarrow> ObservationRegistry" where
  "register_pull_source reg source = reg\<lparr>or_pull_sources := insert source (or_pull_sources reg)\<rparr>"

definition observers_in_scope :: "ObservationRegistry \<Rightarrow> nat \<Rightarrow> nat list" where
  "observers_in_scope reg scope = map os_id (filter (\<lambda>s. os_scope s = scope) (map snd (or_observers reg)))"

definition registry_unwire_scope :: "ObservationRegistry \<Rightarrow> nat \<Rightarrow> ObservationRegistry" where
  "registry_unwire_scope reg scope =
     (let to_drop = map fst (filter (\<lambda>kv. os_scope (snd kv) = scope) (or_observers reg))
      in reg\<lparr>or_observers := foldl (\<lambda>m k. om_del k m) (or_observers reg) to_drop\<rparr>)"

definition event_type :: "ObservationRegistry \<Rightarrow> EventTypeId \<Rightarrow> EventTypeSpec option" where
  "event_type reg t = om_get (or_event_types reg) (as_u32 t)"

definition is_core :: "EventTypeId \<Rightarrow> bool" where
  "is_core t = (case t of EtCore _ \<Rightarrow> True | EtObs _ \<Rightarrow> False)"

definition spec_errors :: "ObservationRegistry \<Rightarrow> ObserverSpec \<Rightarrow> RegError list" where
  "spec_errors reg spec =
     concat (map (\<lambda>r. if event_type reg r = None then [RgUnknownEventType r (os_id spec)] else []) (os_reads spec))
     @ concat (map (\<lambda>w. (if is_core w then [RgCoreWriteViolation (os_id spec) w] else [])
                        @ (if event_type reg w = None then [RgUnknownEventType w (os_id spec)] else []))
                 (os_writes spec))"

definition writer_count :: "ObservationRegistry \<Rightarrow> (nat, nat) omap" where
  "writer_count reg =
     foldl (\<lambda>m w. om_put (as_u32 w) (Suc (case om_get m (as_u32 w) of None \<Rightarrow> 0 | Some n \<Rightarrow> n)) m) []
       (filter (\<lambda>w. \<not> is_core w) (concat (map os_writes (map snd (or_observers reg)))))"

definition writer_errors :: "ObservationRegistry \<Rightarrow> RegError list" where
  "writer_errors reg =
     concat (map (\<lambda>(k, n). if n > 1 then
         (case om_get (or_event_types reg) k of
            None \<Rightarrow> []
          | Some t \<Rightarrow> if \<not> ts_multi_writer t then [RgDuplicateExclusiveWriter (ts_id t)] else [])
       else []) (writer_count reg))"

definition pull_errors :: "ObservationRegistry \<Rightarrow> ObserverSpec \<Rightarrow> RegError list" where
  "pull_errors reg spec = map RgUnknownPullSource (filter (\<lambda>p. p \<notin> or_pull_sources reg) (os_pulls spec))"

definition readers_of :: "ObservationRegistry \<Rightarrow> nat \<Rightarrow> nat list" where
  "readers_of reg x =
     concat (map (\<lambda>spec. map (\<lambda>_. os_id spec) (filter (\<lambda>r. as_u32 r = x) (os_reads spec)))
       (map snd (or_observers reg)))"

definition obs_edges :: "ObservationRegistry \<Rightarrow> nat \<Rightarrow> nat list" where
  "obs_edges reg node =
     concat (map (\<lambda>spec. if os_id spec = node then concat (map (\<lambda>w. readers_of reg (as_u32 w)) (os_writes spec)) else [])
       (map snd (or_observers reg)))"

text \<open>The fuel of the search: the observers and the edges out of them.\<close>

definition obs_fuel :: "ObservationRegistry \<Rightarrow> nat" where
  "obs_fuel reg = length (or_observers reg) + sum_list (map (length \<circ> obs_edges reg) (om_keys (or_observers reg)))"

definition cycle_errors :: "ObservationRegistry \<Rightarrow> RegError list" where
  "cycle_errors reg =
     (case search_all (obs_fuel reg) (obs_edges reg) (om_keys (or_observers reg)) (\<lambda>_. 0) of
        Some (Inl (_, c)) \<Rightarrow> [RgCycleInObservationGraph c]
      | Some (Inr _) \<Rightarrow> []
      | None \<Rightarrow> [])"

definition obs_verify :: "ObservationRegistry \<Rightarrow> RegError list + unit" where
  "obs_verify reg =
     (let specs = map snd (or_observers reg);
          errs = concat (map (spec_errors reg) specs) @ writer_errors reg
                 @ concat (map (pull_errors reg) specs) @ cycle_errors reg
      in if errs = [] then Ok () else Err errs)"

section \<open>The status of subscribers\<close>

definition max_lifecycle_timeouts :: nat where
  "max_lifecycle_timeouts = 8"

datatype UnwireReason = UwTimeoutThresholdExceeded | UwChannelClosed | UwScopeRevoked

datatype SubscriberStatus =
    SuHealthy
  | SuDegraded nat
  | SuUnwired UnwireReason nat nat nat

type_synonym SubKey = "EventTypeId \<times> nat"

record SubscriberStatusTable =
  su_map :: "SubKey \<rightharpoonup> SubscriberStatus"
  su_cumulative :: "SubKey \<rightharpoonup> nat"

definition status_table_new :: SubscriberStatusTable where
  "status_table_new = \<lparr>su_map = Map.empty, su_cumulative = Map.empty\<rparr>"

definition record_timeout :: "SubscriberStatusTable \<Rightarrow> SubKey \<Rightarrow> nat \<Rightarrow> bool \<times> SubscriberStatusTable" where
  "record_timeout s key at_ns =
     (let total = (case su_cumulative s key of None \<Rightarrow> 1 | Some v \<Rightarrow> (v + 1) mod 2 ^ 32);
          s1 = s\<lparr>su_cumulative := (su_cumulative s)(key \<mapsto> total)\<rparr>;
          prev = (case su_map s key of None \<Rightarrow> SuHealthy | Some p \<Rightarrow> p)
      in case prev of
           SuUnwired _ _ _ _ \<Rightarrow> (False, s1)
         | SuHealthy \<Rightarrow> (False, s1\<lparr>su_map := (su_map s)(key \<mapsto> SuDegraded 1)\<rparr>)
         | SuDegraded n \<Rightarrow>
             let c = n + 1
             in if c \<ge> max_lifecycle_timeouts
                then (True, s1\<lparr>su_map := (su_map s)(key \<mapsto> SuUnwired UwTimeoutThresholdExceeded at_ns total at_ns)\<rparr>)
                else (False, s1\<lparr>su_map := (su_map s)(key \<mapsto> SuDegraded c)\<rparr>))"

definition record_success :: "SubscriberStatusTable \<Rightarrow> SubKey \<Rightarrow> SubscriberStatusTable" where
  "record_success s key =
     (case su_map s key of
        Some (SuUnwired _ _ _ _) \<Rightarrow> s
      | _ \<Rightarrow> s\<lparr>su_map := (su_map s)(key \<mapsto> SuHealthy)\<rparr>)"

definition record_unwired :: "UnwireReason \<Rightarrow> SubscriberStatusTable \<Rightarrow> SubKey \<Rightarrow> nat \<Rightarrow> SubscriberStatusTable" where
  "record_unwired reason s key at_ns =
     (let total = (case su_cumulative s key of None \<Rightarrow> 0 | Some v \<Rightarrow> v)
      in s\<lparr>su_map := (su_map s)(key \<mapsto> SuUnwired reason at_ns total at_ns)\<rparr>)"

definition record_closed :: "SubscriberStatusTable \<Rightarrow> SubKey \<Rightarrow> nat \<Rightarrow> SubscriberStatusTable" where
  "record_closed = record_unwired UwChannelClosed"

definition record_scope_revoked :: "SubscriberStatusTable \<Rightarrow> SubKey \<Rightarrow> nat \<Rightarrow> SubscriberStatusTable" where
  "record_scope_revoked = record_unwired UwScopeRevoked"

section \<open>The bus\<close>

record ScopedSender =
  sd_tx :: nat
  sd_scope :: nat

record ObservationBus =
  ob_routing :: "ScopedSender list list"
  ob_status :: SubscriberStatusTable

record DeliveryReport =
  dr_delivered :: nat
  dr_timed_out :: nat
  dr_closed :: nat

definition initial_slots :: nat where
  "initial_slots = 64"

definition bus_new :: ObservationBus where
  "bus_new = \<lparr>ob_routing = replicate initial_slots [], ob_status = status_table_new\<rparr>"

definition wire_subscriber_scoped :: "ObservationBus \<Rightarrow> EventTypeId \<Rightarrow> nat \<Rightarrow> nat \<Rightarrow> ObservationBus" where
  "wire_subscriber_scoped bus type_id tx scope =
     (let slot_idx = as_u32 type_id;
          r = ob_routing bus;
          r' = (if slot_idx \<ge> length r then r @ replicate (slot_idx + 8 - length r) [] else r)
      in bus\<lparr>ob_routing := r'[slot_idx := r' ! slot_idx @ [\<lparr>sd_tx = tx, sd_scope = scope\<rparr>]]\<rparr>)"

definition wire_subscriber :: "ObservationBus \<Rightarrow> EventTypeId \<Rightarrow> nat \<Rightarrow> ObservationBus" where
  "wire_subscriber bus type_id tx = wire_subscriber_scoped bus type_id tx 0"

definition revoke_slot :: "nat \<Rightarrow> nat \<Rightarrow> SubscriberStatusTable \<Rightarrow> nat \<times> ScopedSender list \<Rightarrow> SubscriberStatusTable" where
  "revoke_slot scope now_ns s slot =
     foldl (\<lambda>s (i, sender). if sd_scope sender = scope
                            then record_scope_revoked s (decode_type (fst slot), i) now_ns else s)
       s (zip [0..<length (snd slot)] (snd slot))"

definition bus_unwire_scope :: "ObservationBus \<Rightarrow> nat \<Rightarrow> nat \<Rightarrow> ObservationBus" where
  "bus_unwire_scope bus scope now_ns =
     (if scope = 0 then bus
      else \<lparr>ob_routing = map (filter (\<lambda>s. sd_scope s \<noteq> scope)) (ob_routing bus),
            ob_status = foldl (revoke_slot scope now_ns) (ob_status bus)
              (zip [0..<length (ob_routing bus)] (ob_routing bus))\<rparr>)"

definition senders_of :: "ObservationBus \<Rightarrow> EventTypeId \<Rightarrow> ScopedSender list" where
  "senders_of bus type_id = (case nth_opt (ob_routing bus) (as_u32 type_id) of None \<Rightarrow> [] | Some slot \<Rightarrow> slot)"

definition bus_publish :: "ObservationBus \<Rightarrow> EventTypeId \<Rightarrow> EventPayload \<Rightarrow> nat \<Rightarrow> (nat \<times> EventEnvelope) list" where
  "bus_publish bus type_id payload now_ns =
     (let env = \<lparr>ee_type_id = type_id, ee_payload = payload, ee_at_ns = now_ns\<rparr>
      in map (\<lambda>s. (sd_tx s, env)) (senders_of bus type_id))"

text \<open>Removing the given positions of a slot, the highest first.\<close>

definition drop_indices :: "ObservationBus \<Rightarrow> EventTypeId \<Rightarrow> nat list \<Rightarrow> ObservationBus" where
  "drop_indices bus type_id idxs =
     (case nth_opt (ob_routing bus) (as_u32 type_id) of
        None \<Rightarrow> bus
      | Some slot \<Rightarrow>
          let v = foldl (\<lambda>v i. if i < length v then remove_at i v else v) slot (rev (sort idxs))
          in bus\<lparr>ob_routing := (ob_routing bus)[as_u32 type_id := v]\<rparr>)"

text \<open>One completion before the deadline: the position of the sender and whether its channel was open.\<close>

definition complete_send ::
    "EventTypeId \<Rightarrow> nat \<Rightarrow> DeliveryReport \<times> SubscriberStatusTable \<times> nat set \<Rightarrow> nat \<times> bool
      \<Rightarrow> DeliveryReport \<times> SubscriberStatusTable \<times> nat set" where
  "complete_send type_id at_ns st c =
     (case st of (report, s, done) \<Rightarrow>
        case c of (idx, delivered) \<Rightarrow>
          if delivered
          then (report\<lparr>dr_delivered := dr_delivered report + 1\<rparr>, record_success s (type_id, idx), insert idx done)
          else (report\<lparr>dr_closed := dr_closed report + 1\<rparr>, record_closed s (type_id, idx) at_ns, insert idx done))"

definition time_out_sends ::
    "EventTypeId \<Rightarrow> nat \<Rightarrow> nat set \<Rightarrow> DeliveryReport \<times> SubscriberStatusTable \<times> nat list \<Rightarrow> nat
      \<Rightarrow> DeliveryReport \<times> SubscriberStatusTable \<times> nat list" where
  "time_out_sends type_id at_ns done st idx =
     (case st of (report, s, unwired) \<Rightarrow>
        if idx \<in> done then st
        else case record_timeout s (type_id, idx) at_ns of (now_unwired, s') \<Rightarrow>
          (report\<lparr>dr_timed_out := dr_timed_out report + 1\<rparr>, s', if now_unwired then unwired @ [idx] else unwired))"

definition publish_reliable ::
    "ObservationBus \<Rightarrow> EventTypeId \<Rightarrow> nat \<Rightarrow> (nat \<times> bool) list \<Rightarrow> DeliveryReport \<times> ObservationBus" where
  "publish_reliable bus type_id now_ns completions =
     (let zero = \<lparr>dr_delivered = 0, dr_timed_out = 0, dr_closed = 0\<rparr>;
          senders = senders_of bus type_id;
          n = length senders
      in if senders = [] then (zero, bus)
         else case foldl (complete_send type_id now_ns) (zero, ob_status bus, {}) completions of
           (report, s, done) \<Rightarrow>
             if {..<n} \<subseteq> done then (report, bus\<lparr>ob_status := s\<rparr>)
             else case foldl (time_out_sends type_id now_ns done) (report, s, []) [0..<n] of
               (report', s', unwired) \<Rightarrow>
                 (report', if unwired \<noteq> [] then drop_indices (bus\<lparr>ob_status := s'\<rparr>) type_id unwired
                           else bus\<lparr>ob_status := s'\<rparr>))"

section \<open>The metrics observer\<close>

record MetricsObserver =
  mo_dispatch_success :: nat
  mo_dispatch_failure :: nat
  mo_bytes_sent :: nat
  mo_meshsec_drop_total :: nat
  mo_meshsec_auth_drop_total :: nat
  mo_meshsec_replay_drop_total :: nat
  mo_native_drop_total :: nat
  mo_native_queue_overflow_drop_total :: nat

definition metrics_new :: MetricsObserver where
  "metrics_new =
     \<lparr>mo_dispatch_success = 0, mo_dispatch_failure = 0, mo_bytes_sent = 0, mo_meshsec_drop_total = 0,
      mo_meshsec_auth_drop_total = 0, mo_meshsec_replay_drop_total = 0, mo_native_drop_total = 0,
      mo_native_queue_overflow_drop_total = 0\<rparr>"

definition sent_bytes :: "EventPayload \<Rightarrow> nat" where
  "sent_bytes p = max (ep_bytes_out p) (ep_payload_bytes p)"

definition on_core_event :: "MetricsObserver \<Rightarrow> EventEnvelope \<Rightarrow> MetricsObserver" where
  "on_core_event m env =
     (let p = ee_payload env
      in case ee_type_id env of
           EtCore FlowOpened \<Rightarrow>
             m\<lparr>mo_dispatch_success := wrap64 (mo_dispatch_success m + 1),
               mo_bytes_sent := wrap64 (mo_bytes_sent m + sent_bytes p)\<rparr>
         | EtCore FlowClosed \<Rightarrow>
             (if \<not> (case ep_success p of None \<Rightarrow> True | Some b \<Rightarrow> b)
              then m\<lparr>mo_dispatch_failure := wrap64 (mo_dispatch_failure m + 1)\<rparr> else m)
             \<lparr>mo_bytes_sent := wrap64 (mo_bytes_sent m + sent_bytes p)\<rparr>
         | EtCore PathIoError \<Rightarrow> m\<lparr>mo_dispatch_failure := wrap64 (mo_dispatch_failure m + 1)\<rparr>
         | _ \<Rightarrow> m)"

definition on_observation_event :: "MetricsObserver \<Rightarrow> EventEnvelope \<Rightarrow> MetricsObserver" where
  "on_observation_event m env =
     (let reason = ep_reason (ee_payload env)
      in if ee_type_id env = obs_meshsec_drop
         then let m1 = m\<lparr>mo_meshsec_drop_total := wrap64 (mo_meshsec_drop_total m + 1)\<rparr>
              in if reason = Some ''auth''
                 then m1\<lparr>mo_meshsec_auth_drop_total := wrap64 (mo_meshsec_auth_drop_total m + 1)\<rparr>
                 else if reason = Some ''replay'' \<or> reason = Some ''replay_too_old''
                 then m1\<lparr>mo_meshsec_replay_drop_total := wrap64 (mo_meshsec_replay_drop_total m + 1)\<rparr>
                 else m1
         else if ee_type_id env = obs_native_drop
         then let m1 = m\<lparr>mo_native_drop_total := wrap64 (mo_native_drop_total m + 1)\<rparr>
              in if reason = Some ''queue_overflow''
                 then m1\<lparr>mo_native_queue_overflow_drop_total := wrap64 (mo_native_queue_overflow_drop_total m + 1)\<rparr>
                 else m1
         else m)"

section \<open>Wiring\<close>

text \<open>What an observer plugin declares, and the registry the bus verifies it against.\<close>

record ObserverDecl =
  od_subscribed_core :: "CoreEventId list"
  od_subscribed :: "EventTypeId list"
  od_writes :: "EventTypeId list"
  od_pulls :: "nat list"

definition observer_spec_of :: "nat \<Rightarrow> ObserverDecl \<Rightarrow> ObserverSpec" where
  "observer_spec_of idx d =
     \<lparr>os_id = (idx + 1) mod 2 ^ 32, os_owner = 1, os_scope = (idx + 1) mod 2 ^ 32,
      os_reads = map EtCore (od_subscribed_core d) @ od_subscribed d, os_writes = od_writes d, os_pulls = od_pulls d\<rparr>"

fun register_specs :: "ObservationRegistry \<Rightarrow> EventTypeSpec list \<Rightarrow> RegError + ObservationRegistry" where
  "register_specs reg [] = Ok reg"
| "register_specs reg (s # ss) = res_bind (register_event_type reg s) (\<lambda>reg'. register_specs reg' ss)"

fun register_observers :: "ObservationRegistry \<Rightarrow> nat \<Rightarrow> ObserverDecl list \<Rightarrow> RegError + ObservationRegistry" where
  "register_observers reg idx [] = Ok reg"
| "register_observers reg idx (d # ds) =
     res_bind (register_observer reg (observer_spec_of idx d)) (\<lambda>reg'. register_observers reg' (idx + 1) ds)"

definition verify_observer_declarations :: "ObserverDecl list \<Rightarrow> RegError list + unit" where
  "verify_observer_declarations observers =
     (case register_specs obs_registry_new default_event_type_specs of
        Inl e \<Rightarrow> Err [e]
      | Inr reg \<Rightarrow> (case register_observers reg 0 observers of
            Inl e \<Rightarrow> Err [e]
          | Inr reg' \<Rightarrow> obs_verify reg'))"

definition wire_scheduler_observer :: "ObservationBus \<Rightarrow> nat \<Rightarrow> ObservationBus" where
  "wire_scheduler_observer bus tx =
     foldl (\<lambda>b t. wire_subscriber b t tx) bus [EtCore FlowOpened, EtCore FlowClosed, EtCore PathIoError]"

definition wire_core_observers :: "ObservationBus \<Rightarrow> nat \<Rightarrow> nat \<Rightarrow> ObservationBus" where
  "wire_core_observers bus metrics_tx health_tx =
     (let b = foldl (\<lambda>b t. wire_subscriber b t metrics_tx) bus
                [EtCore FlowOpened, EtCore FlowClosed, EtCore PathIoError, obs_meshsec_drop, obs_native_drop]
      in foldl (\<lambda>b t. wire_subscriber b t health_tx) b [EtCore FlowOpened, EtCore FlowClosed, EtCore PathIoError])"

definition wire_user_observer :: "ObservationBus \<Rightarrow> ObserverDecl \<Rightarrow> nat \<Rightarrow> ObservationBus" where
  "wire_user_observer bus d tx =
     foldl (\<lambda>b t. wire_subscriber b t tx) (foldl (\<lambda>b c. wire_subscriber b (EtCore c) tx) bus (od_subscribed_core d))
       (od_subscribed d)"

section \<open>Lemmas\<close>

lemma decode_as_u32: "(\<And>n. t = EtObs n \<Longrightarrow> n < 2 ^ 32 - core_range_end) \<Longrightarrow> decode_type (as_u32 t) = t"
  by (cases t rule: as_u32.cases) (auto simp: decode_type_def core_range_end_def)

text \<open>A subscriber that times out \<open>n\<close> times in a row is degraded until the eighth time, then unwired.\<close>

definition time_outs :: "SubscriberStatusTable \<Rightarrow> SubKey \<Rightarrow> nat \<Rightarrow> nat \<Rightarrow> bool list \<times> SubscriberStatusTable" where
  "time_outs s key at_ns n = run_steps (\<lambda>s (_ :: unit). record_timeout s key at_ns) s (replicate n ())"

lemma record_timeout_unwired:
  assumes "su_map s key = Some (SuUnwired r a b c)"
  shows "fst (record_timeout s key at_ns) = False \<and> su_map (snd (record_timeout s key at_ns)) = su_map s"
  using assms by (simp add: record_timeout_def Let_def)

lemma record_timeout_degraded:
  assumes "su_map s key = Some (SuDegraded n)"
  shows "fst (record_timeout s key at_ns) \<longleftrightarrow> max_lifecycle_timeouts \<le> Suc n"
    "su_map (snd (record_timeout s key at_ns)) key
      = Some (if Suc n < max_lifecycle_timeouts then SuDegraded (Suc n)
              else SuUnwired UwTimeoutThresholdExceeded at_ns
                     (case su_cumulative s key of None \<Rightarrow> 1 | Some v \<Rightarrow> (v + 1) mod 2 ^ 32) at_ns)"
  using assms by (simp_all add: record_timeout_def Let_def)

lemma record_timeout_fresh:
  assumes "su_map s key = None \<or> su_map s key = Some SuHealthy"
  shows "fst (record_timeout s key at_ns) = False"
    "su_map (snd (record_timeout s key at_ns)) key = Some (SuDegraded 1)"
  using assms by (auto simp: record_timeout_def Let_def)

text \<open>The positions of a slot whose status is unwired stay so, whatever completes.\<close>

definition all_unwired :: "SubscriberStatusTable \<Rightarrow> EventTypeId \<Rightarrow> nat \<Rightarrow> bool" where
  "all_unwired s ty n \<longleftrightarrow> (\<forall>i < n. \<exists>r a b c. su_map s (ty, i) = Some (SuUnwired r a b c))"

lemma complete_sends_unwired:
  "all_unwired s ty n \<Longrightarrow> foldl (complete_send ty at) (rep, s, dn) cs = (rep', s', dn') \<Longrightarrow> all_unwired s' ty n"
proof (induction cs arbitrary: rep s dn)
  case (Cons c cs)
  obtain idx d where c: "c = (idx, d)" by (cases c)
  obtain r1 s1 d1 where st: "complete_send ty at (rep, s, dn) c = (r1, s1, d1)"
    by (cases "complete_send ty at (rep, s, dn) c") auto
  have "all_unwired s1 ty n"
    using Cons.prems(1) st
    by (auto simp: c complete_send_def all_unwired_def record_success_def record_closed_def record_unwired_def Let_def
        split: if_splits option.splits SubscriberStatus.splits) force+
  with Cons.IH [of s1 r1 d1] Cons.prems(2) st show ?case by simp
qed auto

lemma time_out_sends_unwired:
  "all_unwired s ty n \<Longrightarrow> (\<And>i. i \<in> set is \<Longrightarrow> i < n) \<Longrightarrow>
   foldl (time_out_sends ty at dn) (rep, s, un) is = (rep', s', un') \<Longrightarrow> un' = un"
proof (induction "is" arbitrary: rep s)
  case (Cons i "is")
  show ?case
  proof (cases "i \<in> dn")
    case True
    with Cons show ?thesis by (auto simp: time_out_sends_def)
  next
    case False
    from Cons.prems(1,2) obtain r a b c where u: "su_map s (ty, i) = Some (SuUnwired r a b c)"
      unfolding all_unwired_def by (meson list.set_intros(1))
    obtain s1 where s1: "record_timeout s (ty, i) at = (False, s1)" "su_map s1 = su_map s"
      using record_timeout_unwired [OF u, of at] by (cases "record_timeout s (ty, i) at") auto
    have "all_unwired s1 ty n" using Cons.prems(1) s1(2) by (simp add: all_unwired_def)
    with Cons False s1(1) show ?thesis by (auto simp: time_out_sends_def)
  qed
qed simp

lemma time_out_sends_status:
  "all_unwired s ty n \<Longrightarrow> foldl (time_out_sends ty at dn) (rep, s, un) is = (rep', s', un') \<Longrightarrow>
   (\<And>i. i \<in> set is \<Longrightarrow> i < n) \<Longrightarrow> all_unwired s' ty n"
proof (induction "is" arbitrary: rep s un)
  case (Cons i "is")
  show ?case
  proof (cases "i \<in> dn")
    case True
    with Cons show ?thesis by (auto simp: time_out_sends_def)
  next
    case False
    from Cons.prems(1,3) obtain r a b c where u: "su_map s (ty, i) = Some (SuUnwired r a b c)"
      unfolding all_unwired_def by (meson list.set_intros(1))
    obtain s1 where s1: "record_timeout s (ty, i) at = (False, s1)" "su_map s1 = su_map s"
      using record_timeout_unwired [OF u, of at] by (cases "record_timeout s (ty, i) at") auto
    have "all_unwired s1 ty n" using Cons.prems(1) s1(2) by (simp add: all_unwired_def)
    with Cons False s1(1) show ?thesis by (auto simp: time_out_sends_def)
  qed
qed simp

lemma unwired_status_shields:
  assumes "all_unwired (ob_status bus) ty (length (senders_of bus ty))"
  shows "ob_routing (snd (publish_reliable bus ty now completions)) = ob_routing bus
    \<and> all_unwired (ob_status (snd (publish_reliable bus ty now completions))) ty (length (senders_of bus ty))"
proof -
  obtain rep s dn where f: "foldl (complete_send ty now) (\<lparr>dr_delivered = 0, dr_timed_out = 0, dr_closed = 0\<rparr>, ob_status bus, {})
      completions = (rep, s, dn)" by (cases "foldl (complete_send ty now) (\<lparr>dr_delivered = 0, dr_timed_out = 0, dr_closed = 0\<rparr>,
      ob_status bus, {}) completions") auto
  have u: "all_unwired s ty (length (senders_of bus ty))" by (rule complete_sends_unwired [OF assms f])
  obtain rep' s' un where g: "foldl (time_out_sends ty now dn) (rep, s, []) [0..<length (senders_of bus ty)] = (rep', s', un)"
    by (cases "foldl (time_out_sends ty now dn) (rep, s, []) [0..<length (senders_of bus ty)]") auto
  have "un = []" by (rule time_out_sends_unwired [OF u _ g]) simp
  moreover have "all_unwired s' ty (length (senders_of bus ty))" by (rule time_out_sends_status [OF u g]) simp
  ultimately show ?thesis using f g u assms by (auto simp: publish_reliable_def Let_def)
qed

lemma concat_map_Nil: "concat (map f xs) = [] \<longleftrightarrow> (\<forall>x \<in> set xs. f x = [])"
  by (induction xs) auto

lemma writer_count_get:
  "om_get (foldl (\<lambda>m w. om_put (as_u32 w) (Suc (case om_get m (as_u32 w) of None \<Rightarrow> 0 | Some n \<Rightarrow> n)) m) m0 ws) k
   = (let c = length (filter (\<lambda>w. as_u32 w = k) ws)
      in if c = 0 then om_get m0 k else Some (c + (case om_get m0 k of None \<Rightarrow> 0 | Some n \<Rightarrow> n)))"
  by (induction ws arbitrary: m0) (auto simp: Let_def split: option.splits)

lemma writer_count_ok:
  "om_ok m0 \<Longrightarrow> om_ok (foldl (\<lambda>m w. om_put (as_u32 w) (Suc (case om_get m (as_u32 w) of None \<Rightarrow> 0 | Some n \<Rightarrow> n)) m) m0 ws)"
  by (induction ws arbitrary: m0) auto

lemma cycle_errors_exact: "cycle_errors reg = [] \<longleftrightarrow> acyclic (edge_rel (obs_edges reg))"
  if keys: "\<And>k s. (k, s) \<in> set (or_observers reg) \<Longrightarrow> os_id s = k"
proof -
  let ?keys = "om_keys (or_observers reg)" and ?adj = "obs_edges reg"
  have keyed: "\<And>u. u \<in> set ?keys \<longleftrightarrow> (\<exists>s. (u, s) \<in> set (or_observers reg))" by force
  have none: "?adj u = []" if "u \<notin> set ?keys" for u
  proof -
    have "os_id s \<noteq> u" if "s \<in> set (map snd (or_observers reg))" for s
      using that \<open>u \<notin> set ?keys\<close> keys unfolding keyed by auto
    then show ?thesis unfolding obs_edges_def concat_map_Nil by auto
  qed
  have sub: "set (?adj u) \<subseteq> set ?keys" for u
  proof
    fix w
    assume "w \<in> set (?adj u)"
    then obtain t where "w \<in> set (readers_of reg t)" by (auto simp: obs_edges_def split: if_splits)
    then show "w \<in> set ?keys" using keys by (auto simp: readers_of_def image_iff) force
  qed
  have fuel: "card (set ?keys) \<le> obs_fuel reg" using card_length [of ?keys] by (simp add: obs_fuel_def)
  note ex = search_exact [of "set ?keys" ?adj ?keys "obs_fuel reg", OF _ _ _ _ fuel]
  show ?thesis
  proof (cases "acyclic (edge_rel ?adj)")
    case True
    with ex(1) none sub obtain c where "search_all (obs_fuel reg) ?adj ?keys (\<lambda>_. 0) = Some (Inr c)" by auto
    with True show ?thesis by (simp add: cycle_errors_def)
  next
    case False
    with ex(2) none sub obtain a b where "search_all (obs_fuel reg) ?adj ?keys (\<lambda>_. 0) = Some (Inl (a, b))" by auto
    with False show ?thesis by (simp add: cycle_errors_def)
  qed
qed

section \<open>Properties\<close>

text \<open>C19: what the verifier of the observation registry guarantees. If it accepts a registry whose
  observers are stored under their ids, then every event type read or written is registered, no
  observer writes a core event, an event type that does not allow several writers has at most one
  declared write, every pull source is registered, and no chain of writes and reads leads from an
  observer back to itself.\<close>

theorem obs_verify_sound:
  assumes "obs_verify reg = Ok ()" "om_ok (or_observers reg)" "\<forall>(k, s) \<in> set (or_observers reg). os_id s = k"
  shows "(\<forall>s \<in> set (map snd (or_observers reg)). (\<forall>t \<in> set (os_reads s @ os_writes s). event_type reg t \<noteq> None)
      \<and> (\<forall>w \<in> set (os_writes s). \<not> is_core w) \<and> set (os_pulls s) \<subseteq> or_pull_sources reg)
    \<and> (\<forall>k t. om_get (or_event_types reg) k = Some t \<and> \<not> ts_multi_writer t \<longrightarrow>
        length (filter (\<lambda>w. as_u32 w = k) (concat (map os_writes (map snd (or_observers reg))))) \<le> 1)
    \<and> acyclic (edge_rel (obs_edges reg))"
proof -
  let ?specs = "map snd (or_observers reg)" and ?ws = "concat (map os_writes (map snd (or_observers reg)))"
  from assms(1) have errs: "\<forall>s \<in> set ?specs. spec_errors reg s = []" "writer_errors reg = []"
    "\<forall>s \<in> set ?specs. pull_errors reg s = []" "cycle_errors reg = []"
    unfolding obs_verify_def Let_def by (simp_all add: concat_map_Nil split: if_splits)
  have acyc: "acyclic (edge_rel (obs_edges reg))"
    using cycle_errors_exact [of reg] assms(3) errs(4) by blast
  have local: "(\<forall>t \<in> set (os_reads s @ os_writes s). event_type reg t \<noteq> None)
      \<and> (\<forall>w \<in> set (os_writes s). \<not> is_core w) \<and> set (os_pulls s) \<subseteq> or_pull_sources reg" if "s \<in> set ?specs" for s
  proof -
    from errs(1,3) that have "spec_errors reg s = []" "pull_errors reg s = []" by blast+
    then show ?thesis
      unfolding spec_errors_def pull_errors_def append_is_Nil_conv concat_map_Nil
      by (auto simp: filter_empty_conv split: if_splits)
  qed
  then have nocore: "filter (\<lambda>w. \<not> is_core w) ?ws = ?ws" unfolding filter_id_conv by auto
  have "length (filter (\<lambda>w. as_u32 w = k) ?ws) \<le> 1"
    if t: "om_get (or_event_types reg) k = Some t" "\<not> ts_multi_writer t" for k t
  proof (rule ccontr)
    assume c: "\<not> length (filter (\<lambda>w. as_u32 w = k) ?ws) \<le> 1"
    have "om_get (writer_count reg) k = Some (length (filter (\<lambda>w. as_u32 w = k) ?ws))"
    proof -
      have "length (filter (\<lambda>w. as_u32 w = k) ?ws) \<noteq> 0" using c by linarith
      then show ?thesis unfolding writer_count_def nocore writer_count_get Let_def by simp
    qed
    then have "(k, length (filter (\<lambda>w. as_u32 w = k) ?ws)) \<in> set (writer_count reg)" by (rule map_of_SomeD)
    with errs(2) c t show False unfolding writer_errors_def concat_map_Nil by fastforce
  qed
  with local acyc show ?thesis by blast
qed

theorem obs_verify_sound_witness:
  "acyclic (edge_rel (obs_edges \<lparr>or_event_types = [(17, \<lparr>ts_id = EtObs 1, ts_schema_hash = 0, ts_multi_writer = False, ts_delivery = DpLossy\<rparr>)],
     or_observers = [(1, \<lparr>os_id = 1, os_owner = 1, os_scope = 1, os_reads = [], os_writes = [EtObs 1], os_pulls = []\<rparr>),
                     (2, \<lparr>os_id = 2, os_owner = 1, os_scope = 2, os_reads = [EtObs 1], os_writes = [], os_pulls = []\<rparr>)],
     or_pull_sources = {}\<rparr>))"
proof -
  let ?reg = "\<lparr>or_event_types = [(17, \<lparr>ts_id = EtObs 1, ts_schema_hash = 0, ts_multi_writer = False, ts_delivery = DpLossy\<rparr>)],
     or_observers = [(1, \<lparr>os_id = 1, os_owner = 1, os_scope = 1, os_reads = [], os_writes = [EtObs 1], os_pulls = []\<rparr>),
                     (2, \<lparr>os_id = 2, os_owner = 1, os_scope = 2, os_reads = [EtObs 1], os_writes = [], os_pulls = []\<rparr>)],
     or_pull_sources = {}\<rparr>"
  have "obs_verify ?reg = Ok ()"
    by (simp add: obs_verify_def spec_errors_def writer_errors_def writer_count_def pull_errors_def cycle_errors_def
        obs_fuel_def obs_edges_def readers_of_def event_type_def is_core_def core_range_end_def)
  from obs_verify_sound [OF this] show ?thesis by simp
qed

text \<open>The status table outlives the position it is about. Positions whose status is unwired are
  shielded: however often, and with whatever completions, events are published reliably to them, no
  subscriber is removed. Unwiring one subscriber moves the next one to its position, so that one then
  times out for ever without being unwired.\<close>

lemma stale_status_shields:
  assumes "all_unwired (ob_status bus) ty (length (senders_of bus ty))"
  shows "ob_routing (foldl (\<lambda>b cs. snd (publish_reliable b ty now cs)) bus css) = ob_routing bus"
  using assms
proof (induction css arbitrary: bus)
  case (Cons cs css)
  let ?b = "snd (publish_reliable bus ty now cs)"
  have "ob_routing ?b = ob_routing bus" "all_unwired (ob_status ?b) ty (length (senders_of bus ty))"
    using unwired_status_shields [OF Cons.prems, of now cs] by simp_all
  moreover from this(1) have "senders_of ?b ty = senders_of bus ty" by (simp add: senders_of_def)
  ultimately show ?case using Cons.IH [of ?b] by simp
qed simp

text \<open>Two subscribers of which the first times out eight times: it is removed, and the second takes over
  its position and its status.\<close>

definition slow_bus :: "nat \<Rightarrow> ObservationBus" where
  "slow_bus n = foldl (\<lambda>b cs. snd (publish_reliable b (EtCore FlowClosed) 7 cs))
     \<lparr>ob_routing = [[], [], [\<lparr>sd_tx = 1, sd_scope = 0\<rparr>, \<lparr>sd_tx = 2, sd_scope = 0\<rparr>], []], ob_status = status_table_new\<rparr>
     (replicate n [(1, True)])"

lemma slow_bus_Suc: "slow_bus (Suc n) = snd (publish_reliable (slow_bus n) (EtCore FlowClosed) 7 [(1, True)])"
  unfolding slow_bus_def replicate_Suc replicate_append_same [symmetric] foldl_append foldl_Cons foldl_Nil ..

lemma slow_bus_degraded:
  "0 < n \<Longrightarrow> n < 8 \<Longrightarrow> ob_routing (slow_bus n) = [[], [], [\<lparr>sd_tx = 1, sd_scope = 0\<rparr>, \<lparr>sd_tx = 2, sd_scope = 0\<rparr>], []]
     \<and> su_map (ob_status (slow_bus n)) (EtCore FlowClosed, 0) = Some (SuDegraded n)"
proof (induction n)
  case (Suc n)
  note defs = slow_bus_Suc publish_reliable_def senders_of_def nth_opt_def complete_send_def time_out_sends_def
    record_timeout_def record_success_def max_lifecycle_timeouts_def lessThan_Suc numeral_2_eq_2
  show ?case
  proof (cases "n = 0")
    case True
    then show ?thesis by (simp add: defs slow_bus_def status_table_new_def Let_def)
  next
    case False
    with Suc show ?thesis by (simp add: defs Let_def split: option.splits SubscriberStatus.splits)
  qed
qed simp

end
