(* ===== verification/Schedulers.thy ===== *)
theory Schedulers
  imports Balance Forwarding Health Observation
begin

text \<open>
  The scheduler plugins: path cost (\<^verbatim>\<open>lib/mb-cost\<close>) and CAKE ranking (\<^verbatim>\<open>lib/mb-cake\<close>), the CAKE
  scheduler (\<^verbatim>\<open>crates/mesh-bus-scheduler-cake\<close>), the load-balance scheduler
  (\<^verbatim>\<open>crates/mesh-bus-scheduler-loadbalance\<close>) and the replicating one
  (\<^verbatim>\<open>crates/mesh-bus-scheduler-replicate\<close>). What the dispatcher relies on, the locale
  \<open>scheduler_plugin\<close>, is that a schedule is produced for every candidate list and is a permutation of
  its positions; all three plugins are interpretations of it. FxHash (\<open>fx\<close>), the standard hasher
  (\<open>sip\<close>) and the floating-point score of the lease rotation (\<open>score\<close>, \<open>gt\<close>) are parameters.
\<close>

section \<open>Path cost and CAKE ranking\<close>

record ScoreInputs =
  si_rtt_ms :: nat
  si_jitter_ms :: nat
  si_success_rate :: f64
  si_price_weight :: nat
  si_goodput_bps :: "nat option"
  si_capacity_bps :: "nat option"

definition saturation_penalty :: "nat option \<Rightarrow> nat option \<Rightarrow> nat" where
  "saturation_penalty goodput capacity =
     (case (goodput, capacity) of
        (Some g, Some c) \<Rightarrow>
          if c = 0 then 0
          else let util = fl_div (fl_of_nat g) (fl_of_nat c)
               in if util < round64 (7 / 10) then 0
                  else fl_to_u64 (fl_mul (min (fl_div (fl_sub util (round64 (7 / 10))) (round64 (3 / 10))) 1) 10000)
      | _ \<Rightarrow> 0)"

definition score_compute :: "ScoreInputs \<Rightarrow> nat" where
  "score_compute inputs =
     (if si_success_rate inputs \<le> 0 then u64_max
      else let rtt = sat_mul64 (si_rtt_ms inputs) (max (si_price_weight inputs) 1);
               jitter = si_jitter_ms inputs;
               penalty = fl_to_u64 (fl_mul (fl_sub 1 (si_success_rate inputs)) 10000);
               saturation = saturation_penalty (si_goodput_bps inputs) (si_capacity_bps inputs)
           in sat_add64 (sat_add64 (sat_add64 rtt jitter) penalty) saturation)"

record ExitMetric =
  em_id :: string
  em_rtt_ms :: nat
  em_jitter_ms :: nat
  em_success_rate :: f64
  em_weight :: nat
  em_goodput_bps :: "nat option"
  em_capacity_bps :: "nat option"

definition metric_inputs :: "ExitMetric \<Rightarrow> nat \<Rightarrow> ScoreInputs" where
  "metric_inputs m price_weight =
     \<lparr>si_rtt_ms = em_rtt_ms m, si_jitter_ms = em_jitter_ms m, si_success_rate = em_success_rate m,
      si_price_weight = max price_weight 1, si_goodput_bps = em_goodput_bps m, si_capacity_bps = em_capacity_bps m\<rparr>"

definition tiebreaker :: "(bytes \<Rightarrow> nat) \<Rightarrow> string \<Rightarrow> string \<Rightarrow> nat" where
  "tiebreaker fx session_id exit_id = fx (str_bytes session_id @ str_bytes ''|'' @ str_bytes exit_id)"

text \<open>Rust's stable \<^verbatim>\<open>sort_by\<close> with the comparison of score, then tie-breaker.\<close>

definition cake_before :: "nat \<times> nat \<times> 'm \<Rightarrow> nat \<times> nat \<times> 'm \<Rightarrow> bool" where
  "cake_before a b \<longleftrightarrow> fst a < fst b \<or> fst a = fst b \<and> fst (snd a) \<le> fst (snd b)"

fun cake_insert :: "nat \<times> nat \<times> 'm \<Rightarrow> (nat \<times> nat \<times> 'm) list \<Rightarrow> (nat \<times> nat \<times> 'm) list" where
  "cake_insert x [] = [x]"
| "cake_insert x (y # ys) = (if cake_before x y then x # y # ys else y # cake_insert x ys)"

definition cake_sort :: "(nat \<times> nat \<times> 'm) list \<Rightarrow> (nat \<times> nat \<times> 'm) list" where
  "cake_sort xs = foldr cake_insert xs []"

definition cake_rank :: "(bytes \<Rightarrow> nat) \<Rightarrow> ExitMetric list \<Rightarrow> string \<Rightarrow> nat \<Rightarrow> string list" where
  "cake_rank fx metrics session_id price_weight =
     map (em_id \<circ> snd \<circ> snd)
       (cake_sort (map (\<lambda>m. (score_compute (metric_inputs m price_weight), tiebreaker fx session_id (em_id m), m)) metrics))"

section \<open>The CAKE scheduler\<close>

record MetricSnapshot =
  sn_rtt_ms :: nat
  sn_jitter_ms :: nat
  sn_success_rate :: f64
  sn_goodput_bps :: "nat option"

record CakeScheduler =
  ck_windows :: "ExitId \<rightharpoonup> HealthWindow"
  ck_snapshot :: "ExitId \<rightharpoonup> MetricSnapshot"

definition cake_new :: CakeScheduler where
  "cake_new = \<lparr>ck_windows = Map.empty, ck_snapshot = Map.empty\<rparr>"

definition unknown_rtt_ms :: nat where
  "unknown_rtt_ms = 10"

definition positive :: "nat option \<Rightarrow> nat option" where
  "positive g = (case g of Some v \<Rightarrow> if v > 0 then Some v else None | None \<Rightarrow> None)"

definition metric_for :: "CakeScheduler \<Rightarrow> ExitId \<Rightarrow> ExitMetric" where
  "metric_for s i =
     (let m = ck_snapshot s i in
      \<lparr>em_id = i,
       em_rtt_ms = (case m of None \<Rightarrow> unknown_rtt_ms | Some x \<Rightarrow> sn_rtt_ms x),
       em_jitter_ms = (case m of None \<Rightarrow> 0 | Some x \<Rightarrow> sn_jitter_ms x),
       em_success_rate = (case m of None \<Rightarrow> 1 | Some x \<Rightarrow> sn_success_rate x),
       em_weight = 1,
       em_goodput_bps = positive (case m of None \<Rightarrow> None | Some x \<Rightarrow> sn_goodput_bps x),
       em_capacity_bps = None\<rparr>)"

definition snapshot_of_window :: "HealthWindow \<Rightarrow> MetricSnapshot" where
  "snapshot_of_window w =
     (let g = goodput_bps w in
      \<lparr>sn_rtt_ms = mean_rtt_ms w, sn_jitter_ms = jitter_ms w, sn_success_rate = success_rate w,
       sn_goodput_bps = (if g > 0 then Some g else None)\<rparr>)"

definition republish_snapshot :: "(ExitId \<rightharpoonup> HealthWindow) \<Rightarrow> (ExitId \<rightharpoonup> MetricSnapshot)" where
  "republish_snapshot windows = (\<lambda>i. map_option snapshot_of_window (windows i))"

definition rank_config :: "RankContext \<Rightarrow> nat" where
  "rank_config ctx = (case rx_traffic_class ctx of TcBulk \<Rightarrow> 2 | _ \<Rightarrow> 1)"

definition cake_schedule :: "(bytes \<Rightarrow> nat) \<Rightarrow> CakeScheduler \<Rightarrow> ExitId list \<Rightarrow> RankContext \<Rightarrow> ScheduleDecision" where
  "cake_schedule fx s candidates ctx =
     (let metrics = map (metric_for s) candidates;
          order_ids = cake_rank fx metrics (rx_flow_id ctx) (rank_config ctx)
      in SdOrdered (List.map_filter (\<lambda>oid. position (\<lambda>c. c = oid) candidates) order_ids))"

definition cake_feedback :: "CakeScheduler \<Rightarrow> ExitResult \<Rightarrow> nat \<Rightarrow> nat \<Rightarrow> CakeScheduler" where
  "cake_feedback s result payload_bytes at_ms =
     (let w0 = (case ck_windows s (er_exit_id result) of None \<Rightarrow> health_window_new 64 | Some w \<Rightarrow> w);
          w1 = record_outcome (record_rtt w0 (er_rtt_ms result)) (er_success result);
          w2 = (if payload_bytes > 0 then record_payload w1 payload_bytes at_ms else w1);
          windows = (ck_windows s)(er_exit_id result \<mapsto> w2)
      in \<lparr>ck_windows = windows, ck_snapshot = republish_snapshot windows\<rparr>)"

text \<open>The exit an event is about, and the feedback the scheduler derives from it.\<close>

definition event_exit :: "EventPayload \<Rightarrow> string option" where
  "event_exit p = (case ep_selected_exit p of Some e \<Rightarrow> Some e | None \<Rightarrow> ep_exit_id p)"

definition cake_on_observation :: "CakeScheduler \<Rightarrow> EventEnvelope \<Rightarrow> CakeScheduler" where
  "cake_on_observation s event =
     (if ee_type_id event \<notin> {EtCore FlowOpened, EtCore FlowClosed, EtCore PathIoError} then s
      else let p = ee_payload event in
        case event_exit p of
          None \<Rightarrow> s
        | Some e \<Rightarrow>
            cake_feedback s
              \<lparr>er_exit_id = e,
               er_success = (case ep_success p of Some b \<Rightarrow> b | None \<Rightarrow> ee_type_id event \<noteq> EtCore PathIoError),
               er_rtt_ms = ep_rtt_ms p, er_local_endpoint = None, er_return_event = RvIdle\<rparr>
              (max (ep_bytes_out p) (ep_payload_bytes p)) (ep_at_ms p))"

text \<open>The feedback observer: the sample an event gives, and its consumer.\<close>

definition cake_observer_sample :: "EventEnvelope \<Rightarrow> (ExitResult \<times> nat \<times> nat) option" where
  "cake_observer_sample env =
     (if ee_type_id env \<notin> {EtCore FlowClosed, EtCore PathIoError} then None
      else let p = ee_payload env in
        case event_exit p of
          None \<Rightarrow> None
        | Some e \<Rightarrow>
            Some (\<lparr>er_exit_id = e,
                   er_success = (case ep_success p of Some b \<Rightarrow> b | None \<Rightarrow> ee_type_id env = EtCore FlowClosed),
                   er_rtt_ms = ep_rtt_ms p, er_local_endpoint = None, er_return_event = RvIdle\<rparr>,
                  max (ep_bytes_out p) (ep_payload_bytes p), ep_at_ms p))"

definition cake_observer_drain :: "CakeScheduler \<Rightarrow> (ExitResult \<times> nat \<times> nat) list \<Rightarrow> CakeScheduler" where
  "cake_observer_drain s samples = foldl (\<lambda>s (r, b, t). cake_feedback s r b t) s samples"

definition cake_score_for :: "CakeScheduler \<Rightarrow> ExitId \<Rightarrow> RankContext \<Rightarrow> nat" where
  "cake_score_for s exit_id ctx = score_compute (metric_inputs (metric_for s exit_id) (rank_config ctx))"

definition cake_goodput_bps_for :: "CakeScheduler \<Rightarrow> ExitId \<Rightarrow> nat option" where
  "cake_goodput_bps_for s exit_id =
     positive (case ck_snapshot s exit_id of None \<Rightarrow> None | Some m \<Rightarrow> sn_goodput_bps m)"

section \<open>The replicating scheduler\<close>

definition replicate_schedule :: "ExitId list \<Rightarrow> RankContext \<Rightarrow> ScheduleDecision" where
  "replicate_schedule candidates ctx = SdReplicate [0..<length candidates]"

section \<open>The load-balance scheduler\<close>

datatype LoadBalanceMode = LbRoundRobin | LbStickySessions | LbConsistentHashing | LbSourceLeaseRotate

record LoadBalanceState =
  lb_ids :: "string list"
  lb_rr :: Wrr
  lb_sticky :: StickyTable
  lb_source_lease :: SourceLeaseRotate

record LoadBalanceScheduler =
  ls_mode :: LoadBalanceMode
  ls_state :: LoadBalanceState
  ls_weights :: "string \<rightharpoonup> nat"

definition default_source_lease_settings :: SourceLeaseRotateConfig where
  "default_source_lease_settings =
     \<lparr>lc_idle_timeout_ms = 600000, lc_max_age_ms = 3600000, lc_max_age_policy = MaOff, lc_switch_cooldown_ms = 60000\<rparr>"

definition with_sticky_ttl_ms :: "LoadBalanceMode \<Rightarrow> nat \<Rightarrow> LoadBalanceScheduler" where
  "with_sticky_ttl_ms mode sticky_ttl_ms =
     \<lparr>ls_mode = mode,
      ls_state = \<lparr>lb_ids = [], lb_rr = wrr_new [], lb_sticky = sticky_new sticky_ttl_ms,
                  lb_source_lease = lease_new default_source_lease_settings\<rparr>,
      ls_weights = Map.empty\<rparr>"

definition with_source_lease_rotate :: "SourceLeaseRotateConfig \<Rightarrow> LoadBalanceScheduler" where
  "with_source_lease_rotate settings =
     \<lparr>ls_mode = LbSourceLeaseRotate,
      ls_state = \<lparr>lb_ids = [], lb_rr = wrr_new [], lb_sticky = sticky_new 600000,
                  lb_source_lease = lease_new settings\<rparr>,
      ls_weights = Map.empty\<rparr>"

text \<open>The weights of the exits, collected into a map: of two entries for one exit the later one stays.\<close>

definition with_weights :: "LoadBalanceScheduler \<Rightarrow> (string \<times> nat) list \<Rightarrow> LoadBalanceScheduler" where
  "with_weights s weights = s\<lparr>ls_weights := map_of (rev weights)\<rparr>"

text \<open>The scheduler as the runtime builds it from its configuration.\<close>

definition build_load_balance ::
    "LoadBalanceMode \<Rightarrow> nat \<Rightarrow> SourceLeaseRotateConfig \<Rightarrow> (string \<times> nat) list \<Rightarrow> LoadBalanceScheduler" where
  "build_load_balance mode sticky_ttl_secs settings weights =
     (let scheduler = (if mode = LbSourceLeaseRotate then with_source_lease_rotate settings
                       else with_sticky_ttl_ms mode (sat_mul64 sticky_ttl_secs 1000))
      in with_weights scheduler weights)"

definition target_key_or_flow :: "RankContext \<Rightarrow> string" where
  "target_key_or_flow ctx = (case rx_target_key ctx of Some k \<Rightarrow> k | None \<Rightarrow> rx_flow_id ctx)"

definition hash_key_part :: "string option \<Rightarrow> bytes" where
  "hash_key_part k = (case k of Some s \<Rightarrow> [1] @ le_bytes 8 (length s) @ hash_str s | None \<Rightarrow> [0])"

definition hash_pair :: "(bytes \<Rightarrow> nat) \<Rightarrow> string option \<Rightarrow> string option \<Rightarrow> string" where
  "hash_pair sip src tgt = ''h:'' @ hex_fixed 16 (sip (hash_key_part src @ hash_key_part tgt))"

definition sticky_key :: "(bytes \<Rightarrow> nat) \<Rightarrow> RankContext \<Rightarrow> string" where
  "sticky_key sip ctx =
     (case (rx_source_key ctx, rx_target_key ctx) of
        (None, None) \<Rightarrow> rx_flow_id ctx
      | (src, tgt) \<Rightarrow> hash_pair sip src tgt)"

definition source_lease_key :: "RankContext \<Rightarrow> string" where
  "source_lease_key ctx = (case rx_source_key ctx of Some k \<Rightarrow> k | None \<Rightarrow> rx_flow_id ctx)"

definition to_candidates :: "ExitId list \<Rightarrow> (string \<rightharpoonup> nat) \<Rightarrow> Candidate list" where
  "to_candidates candidates weights =
     map (\<lambda>i. \<lparr>cd_id = i, cd_weight = max (case weights i of None \<Rightarrow> 1 | Some w \<Rightarrow> w) 1\<rparr>) candidates"

definition order_with_first :: "ExitId list \<Rightarrow> string option \<Rightarrow> nat list" where
  "order_with_first candidates picked =
     (let order = [0..<length candidates] in
      case picked of
        None \<Rightarrow> order
      | Some p \<Rightarrow> (case position (\<lambda>i. i = p) candidates of
            None \<Rightarrow> order
          | Some pos \<Rightarrow> pos # remove_at pos order))"

definition lb_refresh :: "LoadBalanceState \<Rightarrow> ExitId list \<Rightarrow> (string \<rightharpoonup> nat) \<Rightarrow> LoadBalanceState" where
  "lb_refresh st candidates weights =
     (if candidates = lb_ids st then st
      else st\<lparr>lb_ids := candidates, lb_rr := wrr_new (to_candidates candidates weights)\<rparr>)"

definition pick_source_lease_decision ::
    "(bytes \<Rightarrow> nat) \<Rightarrow> (nat \<Rightarrow> nat \<Rightarrow> 'f) \<Rightarrow> ('f \<Rightarrow> 'f \<Rightarrow> bool) \<Rightarrow> LoadBalanceState \<Rightarrow> ExitId list \<Rightarrow> RankContext
      \<Rightarrow> nat \<Rightarrow> (string \<rightharpoonup> nat) \<Rightarrow> SourceLeaseDecision option \<times> LoadBalanceState" where
  "pick_source_lease_decision fx score gt st candidates ctx now_ms weights =
     (case lease_pick fx score gt (lb_source_lease st) (source_lease_key ctx) (to_candidates candidates weights) now_ms
            (map_option (\<lambda>a. \<lparr>la_active_flows = sa_active_flows a, la_idle_since_ms = sa_idle_since_ms a\<rparr>)
              (rx_source_activity ctx)) of
        (d, l') \<Rightarrow> (d, st\<lparr>lb_source_lease := l'\<rparr>))"

text \<open>The picked candidate and the new state; \<open>None\<close> stands for a pick that does not return.\<close>

definition lb_pick ::
    "(bytes \<Rightarrow> nat) \<Rightarrow> (bytes \<Rightarrow> nat) \<Rightarrow> (nat \<Rightarrow> nat \<Rightarrow> 'f) \<Rightarrow> ('f \<Rightarrow> 'f \<Rightarrow> bool) \<Rightarrow> nat \<Rightarrow> LoadBalanceScheduler
      \<Rightarrow> ExitId list \<Rightarrow> RankContext \<Rightarrow> (string option \<times> LoadBalanceScheduler) option" where
  "lb_pick fx sip score gt now_ms s candidates ctx =
     (let st = ls_state s; w = ls_weights s in
      case ls_mode s of
        LbConsistentHashing \<Rightarrow> Some (consistent_pick fx (to_candidates candidates w) (target_key_or_flow ctx), s)
      | LbStickySessions \<Rightarrow>
          map_option (\<lambda>(p, t). (p, s\<lparr>ls_state := st\<lparr>lb_sticky := t\<rparr>\<rparr>))
            (sticky_pick (lb_sticky st) (sticky_key sip ctx) (to_candidates candidates w) now_ms)
      | LbRoundRobin \<Rightarrow>
          (let st' = lb_refresh st candidates w in
           map_option (\<lambda>(p, r). (p, s\<lparr>ls_state := st'\<lparr>lb_rr := r\<rparr>\<rparr>)) (wrr_pick (lb_rr st')))
      | LbSourceLeaseRotate \<Rightarrow>
          (case pick_source_lease_decision fx score gt st candidates ctx now_ms w of
             (d, st') \<Rightarrow> Some (map_option ld_candidate_id d, s\<lparr>ls_state := st'\<rparr>)))"

definition lb_schedule ::
    "(bytes \<Rightarrow> nat) \<Rightarrow> (bytes \<Rightarrow> nat) \<Rightarrow> (nat \<Rightarrow> nat \<Rightarrow> 'f) \<Rightarrow> ('f \<Rightarrow> 'f \<Rightarrow> bool) \<Rightarrow> nat \<Rightarrow> LoadBalanceScheduler
      \<Rightarrow> ExitId list \<Rightarrow> RankContext \<Rightarrow> (ScheduleDecision \<times> LoadBalanceScheduler) option" where
  "lb_schedule fx sip score gt now_ms s candidates ctx =
     map_option (\<lambda>(picked, s'). (SdOrdered (order_with_first candidates picked), s'))
       (lb_pick fx sip score gt now_ms s candidates ctx)"

section \<open>The contract of a scheduler plugin\<close>

definition covers_candidates :: "ScheduleDecision \<Rightarrow> nat \<Rightarrow> bool" where
  "covers_candidates d n \<longleftrightarrow> distinct (schedule_indices d) \<and> set (schedule_indices d) = {..<n}"

text \<open>A plugin with state \<open>s\<close> and invariant \<open>inv\<close>: on distinct candidates it returns a schedule of all of
  them and keeps its invariant.\<close>

locale scheduler_plugin =
  fixes schedule :: "nat \<Rightarrow> 's \<Rightarrow> ExitId list \<Rightarrow> RankContext \<Rightarrow> (ScheduleDecision \<times> 's) option"
    and inv :: "'s \<Rightarrow> bool"
  assumes schedule_total: "inv s \<Longrightarrow> distinct cands \<Longrightarrow>
      \<exists>d s'. schedule now s cands ctx = Some (d, s') \<and> inv s' \<and> covers_candidates d (length cands)"
begin

text \<open>Any sequence of requests is answered, each schedule covering its candidates.\<close>

fun schedule_all :: "'s \<Rightarrow> (nat \<times> ExitId list \<times> RankContext) list \<Rightarrow> ScheduleDecision list option" where
  "schedule_all s [] = Some []"
| "schedule_all s ((now, cands, ctx) # rs) =
     (case schedule now s cands ctx of
        None \<Rightarrow> None
      | Some (d, s') \<Rightarrow> map_option (\<lambda>ds. d # ds) (schedule_all s' rs))"

lemma schedule_all_total:
  "inv s \<Longrightarrow> \<forall>(now, cands, ctx) \<in> set rs. distinct cands \<Longrightarrow>
   \<exists>ds. schedule_all s rs = Some ds \<and> list_all2 (\<lambda>(now, cands, ctx) d. covers_candidates d (length cands)) rs ds"
proof (induction rs arbitrary: s)
  case (Cons r rs)
  obtain now cands ctx where r: "r = (now, cands, ctx)" by (cases r)
  with Cons.prems schedule_total [of s cands now ctx] obtain d s' where
    d: "schedule now s cands ctx = Some (d, s')" "inv s'" "covers_candidates d (length cands)" by auto
  from Cons.IH [OF d(2)] Cons.prems(2) d r show ?case by auto
qed simp

lemma first_choice:
  assumes "inv s" "distinct cands" "cands \<noteq> []" "schedule now s cands ctx = Some (d, s')"
  shows "schedule_indices d \<noteq> [] \<and> hd (schedule_indices d) < length cands"
proof -
  from schedule_total [OF assms(1,2), of now ctx] assms(4) have c: "covers_candidates d (length cands)" by auto
  then have idx: "set (schedule_indices d) = {..<length cands}" unfolding covers_candidates_def by blast
  have "0 \<in> set (schedule_indices d)" unfolding idx using assms(3) by simp
  then have ne: "schedule_indices d \<noteq> []" by (metis empty_iff list.set(1))
  have "hd (schedule_indices d) \<in> {..<length cands}" unfolding idx [symmetric] by (rule hd_in_set [OF ne])
  with ne show ?thesis by simp
qed

end

section \<open>Replicate and CAKE keep the contract\<close>

interpretation replicating: scheduler_plugin
  "\<lambda>now (_ :: unit) cands ctx. Some (replicate_schedule cands ctx, ())" "\<lambda>_. True"
  by unfold_locales (auto simp: replicate_schedule_def covers_candidates_def)

lemma cake_insert_set: "set (cake_insert x xs) = insert x (set xs)"
  by (induction xs) auto

lemma cake_insert_length: "length (cake_insert x xs) = Suc (length xs)"
  by (induction xs) auto

lemma cake_sort_set: "set (cake_sort xs) = set xs"
  by (induction xs) (auto simp: cake_sort_def cake_insert_set)

lemma cake_sort_length: "length (cake_sort xs) = length xs"
  by (induction xs) (auto simp: cake_sort_def cake_insert_length)

lemma cake_insert_sorted:
  "sorted_wrt cake_before xs \<Longrightarrow> sorted_wrt cake_before (cake_insert x xs)"
proof (induction xs)
  case (Cons y ys)
  have trans: "cake_before a c" if "cake_before a b" "cake_before b c" for a b c :: "nat \<times> nat \<times> 'a"
    using that by (auto simp: cake_before_def)
  have total: "cake_before y x" if "\<not> cake_before x y" using that by (auto simp: cake_before_def)
  show ?case
  proof (cases "cake_before x y")
    case True
    with Cons.prems trans [OF True] show ?thesis by auto
  next
    case False
    with Cons total show ?thesis by (auto simp: cake_insert_set)
  qed
qed simp

lemma cake_sort_sorted: "sorted_wrt cake_before (cake_sort xs)"
  by (induction xs) (auto simp: cake_sort_def cake_insert_sorted)

lemma cake_rank_set: "set (cake_rank fx ms sid pw) = em_id ` set ms"
  by (force simp: cake_rank_def cake_sort_set)

lemma cake_rank_length: "length (cake_rank fx ms sid pw) = length ms"
  by (simp add: cake_rank_def cake_sort_length)

lemma position_nth: "distinct xs \<Longrightarrow> i < length xs \<Longrightarrow> position (\<lambda>c. c = xs ! i) xs = Some i"
proof (induction xs arbitrary: i)
  case (Cons x xs)
  then show ?case by (cases i) auto
qed simp

lemma positions_cover:
  assumes "distinct cands" "set ids = set cands" "length ids = length cands"
  shows "covers_candidates (SdOrdered (List.map_filter (\<lambda>oid. position (\<lambda>c. c = oid) cands) ids)) (length cands)"
proof -
  let ?pos = "\<lambda>oid. the (position (\<lambda>c. c = oid) cands)"
  have in_pos: "?pos x < length cands \<and> cands ! ?pos x = x" if x: "x \<in> set cands" for x
  proof -
    obtain i where i: "i < length cands" "x = cands ! i" using x by (auto simp: in_set_conv_nth)
    with position_nth [OF assms(1) i(1)] show ?thesis by simp
  qed
  have eq: "List.map_filter (\<lambda>oid. position (\<lambda>c. c = oid) cands) xs = map ?pos xs" if "set xs \<subseteq> set cands" for xs
    using that by (induction xs) (auto simp: position_None split: option.splits)
  have "card (set ids) = length ids" unfolding assms(2,3) by (rule distinct_card [OF assms(1)])
  then have "distinct ids" by (rule card_distinct)
  moreover have "inj_on ?pos (set ids)" unfolding assms(2)
    by (rule inj_on_inverseI [where g = "\<lambda>i. cands ! i"]) (simp add: in_pos)
  moreover have "?pos ` set ids = {..<length cands}"
  proof
    show "?pos ` set ids \<subseteq> {..<length cands}" unfolding assms(2) using in_pos by auto
    show "{..<length cands} \<subseteq> ?pos ` set ids"
    proof
      fix i
      assume "i \<in> {..<length cands}"
      then have "i < length cands" by simp
      with position_nth [OF assms(1) this] show "i \<in> ?pos ` set ids"
        unfolding assms(2) by (intro image_eqI [of _ _ "cands ! i"]) simp_all
    qed
  qed
  ultimately show ?thesis using eq [of ids] assms(2) by (simp add: covers_candidates_def distinct_map)
qed

lemma cake_covers:
  assumes "distinct cands"
  shows "covers_candidates (cake_schedule fx s cands ctx) (length cands)"
proof -
  have "em_id ` set (map (metric_for s) cands) = set cands" by (force simp: metric_for_def Let_def)
  then show ?thesis
    unfolding cake_schedule_def Let_def by (intro positions_cover [OF assms]) (simp_all add: cake_rank_set cake_rank_length)
qed

interpretation cake: scheduler_plugin "\<lambda>now s cands ctx. Some (cake_schedule fx s cands ctx, s)" "\<lambda>_. True" for fx
  by unfold_locales (auto simp: cake_covers)

section \<open>Load balancing keeps the contract\<close>

text \<open>A picker whose candidates all have positive weight: its loop ends, and stays such a picker.\<close>

definition wrr_ok :: "Wrr \<Rightarrow> bool" where
  "wrr_ok w \<longleftrightarrow> wr_cands w = [] \<or> wr_cursor w < length (wr_cands w) \<and> (\<forall>c \<in> set (wr_cands w). 0 < cd_weight c)"

lemma wrr_ok_pick:
  assumes "wrr_ok w"
  shows "\<exists>p w'. wrr_pick w = Some (p, w') \<and> wrr_ok w'"
proof (cases "wr_cands w = []")
  case True
  with assms show ?thesis by (simp add: wrr_pick_def)
next
  case False
  with assms have c: "wr_cursor w < length (wr_cands w)" "\<forall>c \<in> set (wr_cands w). 0 < cd_weight c"
    by (auto simp: wrr_ok_def)
  let ?w = "w\<lparr>wr_cursor := (wr_cursor w + 1) mod length (wr_cands w), wr_counter := 0\<rparr>"
  show ?thesis
  proof (cases "wr_counter w < cd_weight (wr_cands w ! wr_cursor w)")
    case True
    with wrr_loop_hit [OF True] False c show ?thesis by (auto simp: wrr_pick_def wrr_ok_def)
  next
    case nxt: False
    have "(wr_cursor w + 1) mod length (wr_cands w) < length (wr_cands w)" using False by (intro mod_less_divisor) simp
    moreover from this c(2) have "wr_counter ?w < cd_weight (wr_cands ?w ! wr_cursor ?w)" by simp
    ultimately show ?thesis
      using wrr_loop_next [OF nxt] wrr_loop_hit [of ?w] False c(2) by (auto simp: wrr_pick_def wrr_ok_def)
  qed
qed

lemma to_candidates_weights: "c \<in> set (to_candidates cands w) \<Longrightarrow> 0 < cd_weight c"
  by (auto simp: to_candidates_def)

lemma to_candidates_ids: "map cd_id (to_candidates cands w) = cands"
  by (simp add: to_candidates_def comp_def)

lemma wrr_ok_new: "wrr_ok (wrr_new (to_candidates cands w))"
  by (auto simp: wrr_ok_def wrr_new_def to_candidates_weights)

definition lb_inv :: "LoadBalanceScheduler \<Rightarrow> bool" where
  "lb_inv s \<longleftrightarrow> wrr_ok (lb_rr (ls_state s)) \<and> wrr_ok (st_picker (lb_sticky (ls_state s)))"

lemma lb_inv_new: "lb_inv (with_sticky_ttl_ms mode ttl)" "lb_inv (with_source_lease_rotate cfg)"
  by (simp_all add: lb_inv_def with_sticky_ttl_ms_def with_source_lease_rotate_def sticky_new_def wrr_ok_def wrr_new_def)

lemma lb_inv_weights [simp]: "lb_inv (with_weights s weights) \<longleftrightarrow> lb_inv s"
  by (simp add: lb_inv_def with_weights_def)

lemma lb_inv_built: "lb_inv (build_load_balance mode secs settings weights)"
  by (simp add: build_load_balance_def lb_inv_new)

lemma refresh_picker_ok:
  "wrr_ok (st_picker t) \<Longrightarrow> wrr_ok (st_picker (refresh_picker t (to_candidates cands w)))"
  by (simp add: refresh_picker_def Let_def wrr_ok_new)

lemma sticky_pick_ok:
  assumes "wrr_ok (st_picker t)"
  shows "\<exists>p t'. sticky_pick t key (to_candidates cands w) now = Some (p, t') \<and> wrr_ok (st_picker t')"
proof -
  have re: "\<exists>p t'. sticky_repick t key (to_candidates cands w) now = Some (p, t') \<and> wrr_ok (st_picker t')"
  proof -
    obtain p r where p: "wrr_pick (st_picker (refresh_picker t (to_candidates cands w))) = Some (p, r)" "wrr_ok r"
      using wrr_ok_pick [OF refresh_picker_ok [OF assms]] by blast
    then show ?thesis by (cases p) (simp_all add: sticky_repick_def Let_def)
  qed
  have "wrr_ok (st_picker (refresh_picker (t\<lparr>st_entries := Map.empty\<rparr>) (to_candidates cands w)))"
    using assms by (intro refresh_picker_ok) simp
  with re assms show ?thesis by (auto simp: sticky_pick_def split: option.splits)
qed

lemma order_with_first_covers: "covers_candidates (SdOrdered (order_with_first cands picked)) (length cands)"
proof -
  have "covers_candidates (SdOrdered (pos # remove_at pos [0..<length cands])) (length cands)" if "pos < length cands" for pos
    using remove_at_perm [of pos "[0..<length cands]"] remove_at_distinct [of pos "[0..<length cands]"] that
    by (simp add: covers_candidates_def atLeast0LessThan)
  then show ?thesis
    by (auto simp: order_with_first_def Let_def covers_candidates_def dest: position_Some split: option.splits)
qed

lemma lb_pick_ok:
  assumes "lb_inv s"
  shows "\<exists>p s'. lb_pick fx sip score gt now s cands ctx = Some (p, s') \<and> lb_inv s'"
proof (cases "ls_mode s")
  case LbRoundRobin
  let ?st = "lb_refresh (ls_state s) cands (ls_weights s)"
  have "wrr_ok (lb_rr ?st)" "st_picker (lb_sticky ?st) = st_picker (lb_sticky (ls_state s))"
    using assms by (simp_all add: lb_refresh_def lb_inv_def wrr_ok_new)
  moreover obtain p r where "wrr_pick (lb_rr ?st) = Some (p, r)" "wrr_ok r" using wrr_ok_pick [OF calculation(1)] by blast
  ultimately show ?thesis using LbRoundRobin assms by (simp add: lb_pick_def Let_def lb_inv_def)
next
  case LbStickySessions
  obtain p t where "sticky_pick (lb_sticky (ls_state s)) (sticky_key sip ctx) (to_candidates cands (ls_weights s)) now = Some (p, t)"
    "wrr_ok (st_picker t)" using sticky_pick_ok assms unfolding lb_inv_def by blast
  with LbStickySessions assms show ?thesis by (simp add: lb_pick_def Let_def lb_inv_def)
next
  case LbConsistentHashing
  with assms show ?thesis by (simp add: lb_pick_def Let_def)
next
  case LbSourceLeaseRotate
  with assms show ?thesis
    by (auto simp: lb_pick_def Let_def lb_inv_def pick_source_lease_decision_def split: prod.splits)
qed

interpretation lb: scheduler_plugin "lb_schedule fx sip score gt" lb_inv for fx sip score gt
proof
  fix s now ctx and cands :: "ExitId list"
  assume "lb_inv s"
  from lb_pick_ok [OF this, of fx sip score gt now cands ctx] order_with_first_covers
  show "\<exists>d s'. lb_schedule fx sip score gt now s cands ctx = Some (d, s') \<and> lb_inv s' \<and> covers_candidates d (length cands)"
    by (auto simp: lb_schedule_def)
qed

lemma positions_ids:
  "set ids \<subseteq> set cands \<Longrightarrow>
   map ((!) cands) (List.map_filter (\<lambda>oid. position (\<lambda>c. c = oid) cands) ids) = ids"
proof (induction ids)
  case (Cons oid ids)
  then obtain i where "position (\<lambda>c. c = oid) cands = Some i"
    using position_None [of "\<lambda>c. c = oid" cands] by (cases "position (\<lambda>c. c = oid) cands") auto
  with position_Some [OF this] Cons show ?case by simp
qed simp

lemma cake_rank_sorted:
  "sorted (map (\<lambda>i. cake_score_for s i ctx) (cake_rank fx (map (metric_for s) cands) sid (rank_config ctx)))"
proof -
  let ?xs = "map (\<lambda>m. (score_compute (metric_inputs m (rank_config ctx)), tiebreaker fx sid (em_id m), m)) (map (metric_for s) cands)"
  have "sorted (map fst (cake_sort ?xs))"
    using cake_sort_sorted [of ?xs] unfolding sorted_map
    by (rule sorted_wrt_mono_rel [rotated]) (auto simp: cake_before_def)
  moreover have "map (\<lambda>i. cake_score_for s i ctx) (map (em_id \<circ> snd \<circ> snd) (cake_sort ?xs)) = map fst (cake_sort ?xs)"
    by (auto simp: cake_sort_set cake_score_for_def metric_for_def Let_def)
  ultimately show ?thesis unfolding cake_rank_def by metis
qed

section \<open>Properties\<close>

text \<open>C20: the load-balance scheduler always answers, in each of its four modes and with any configured weights, zero
  included: every weight it builds its pickers from is at least 1, so that no pick loops. Built as the runtime builds it, it
  answers every sequence of requests with distinct candidates, each answer being a permutation of the candidates' positions.\<close>

theorem lb_answers_all:
  assumes "\<forall>(now, cands, ctx) \<in> set rs. distinct cands"
  shows "\<exists>ds. scheduler_plugin.schedule_all (lb_schedule fx sip score gt) (build_load_balance mode secs settings weights) rs = Some ds
    \<and> list_all2 (\<lambda>(now, cands, ctx) d. covers_candidates d (length cands)) rs ds"
  by (rule lb.schedule_all_total [OF lb_inv_built assms])

definition sample_ctx :: RankContext where
  "sample_ctx = rank_context_of (frame_open (\<lambda>_. 0) ''s'' \<lparr>ep_host = ''h'', ep_port = 80\<rparr>)"

theorem lb_answers_all_witness:
  "\<exists>ds. scheduler_plugin.schedule_all (lb_schedule (\<lambda>_. 0) (\<lambda>_. 0) (\<lambda>h w. w) (>))
      (build_load_balance LbRoundRobin 5 default_source_lease_settings [(''a'', 0), (''b'', 0)])
     [(1, [''a'', ''b''], sample_ctx), (2, [''a''], sample_ctx)] = Some ds
    \<and> list_all2 (\<lambda>(now, cands, ctx) d. covers_candidates d (length cands))
        [(1 :: nat, [''a'', ''b''], sample_ctx), (2, [''a''], sample_ctx)] ds"
  by (rule lb_answers_all) simp

text \<open>The CAKE scheduler orders the candidates by cost. On distinct candidates its schedule is a
  permutation of them along which the score of the exits never decreases.\<close>

lemma cake_schedule_by_cost:
  assumes "distinct cands"
  shows "covers_candidates (cake_schedule fx s cands ctx) (length cands)
    \<and> sorted (map (\<lambda>i. cake_score_for s (cands ! i) ctx) (schedule_indices (cake_schedule fx s cands ctx)))"
proof -
  let ?ids = "cake_rank fx (map (metric_for s) cands) (rx_flow_id ctx) (rank_config ctx)"
  have ids: "map ((!) cands) (schedule_indices (cake_schedule fx s cands ctx)) = ?ids"
    unfolding cake_schedule_def Let_def schedule_indices.simps
    by (rule positions_ids) (auto simp: cake_rank_set metric_for_def Let_def)
  have "map (\<lambda>i. cake_score_for s (cands ! i) ctx) (schedule_indices (cake_schedule fx s cands ctx))
      = map (\<lambda>i. cake_score_for s i ctx) ?ids"
    unfolding ids [symmetric] by simp
  with cake_covers [OF assms] cake_rank_sorted show ?thesis by auto
qed

end
