(* ===== verification/Dispatch.thy ===== *)
theory Dispatch
  imports Schedulers
begin

text \<open>
  The dispatcher (\<^verbatim>\<open>crates/mesh-bus-core/src/kernel/dispatch.rs\<close>, \<^verbatim>\<open>dispatch_forwarder.rs\<close>,
  \<^verbatim>\<open>dispatch_observation.rs\<close>, \<^verbatim>\<open>dispatch_return.rs\<close>, \<^verbatim>\<open>source_activity.rs\<close>,
  the shapes and counters of \<^verbatim>\<open>forwarder.rs\<close>, the candidate buckets of \<^verbatim>\<open>compiled.rs\<close> and the
  snapshot of \<^verbatim>\<open>runtime.rs\<close>), and the observer that publishes exit health
  (\<^verbatim>\<open>health_observer.rs\<close>).

  The state is the shared tables of a \<^verbatim>\<open>DispatchRuntime\<close>; byte counters are objects in a heap, because a
  flow's state and the counter table share them. Everything the dispatcher does to the outside (frames
  sent, sessions closed, events returned or published, probe replies) is appended to a log. The
  egresses, the scheduler, the clock and the published health snapshot are the environment: functions
  of the log, so that their answers may depend on everything that happened before. A call of
  \<open>dispatch\<close> is one step; interleavings inside a call are not represented.
\<close>

section \<open>Shapes, counters, outcomes\<close>

datatype DataplaneShape = ShForwarder | ShDatagramForwarder | ShFrameRouter

fun shape_tag :: "DataplaneShape \<Rightarrow> nat" where
  "shape_tag ShForwarder = 0"
| "shape_tag ShFrameRouter = 1"
| "shape_tag ShDatagramForwarder = 2"

definition derive_shape :: "FlowSemantics \<Rightarrow> ReturnSemantics \<Rightarrow> nat \<Rightarrow> Capabilities \<Rightarrow> string list \<Rightarrow> DataplaneShape" where
  "derive_shape flow_semantics return_semantics realized_paths caps transform_steps =
     (if realized_paths \<noteq> 1 \<or> transform_steps \<noteq> [] then ShFrameRouter
      else case flow_semantics of
             FlByteStream \<Rightarrow>
               if return_semantics = ReDirect \<and> ca_supports_stream caps then ShForwarder else ShFrameRouter
           | FlDatagram \<Rightarrow>
               if (return_semantics = ReDirect \<or> return_semantics = RePacketDedup) \<and> ca_supports_datagram caps
               then ShDatagramForwarder else ShFrameRouter
           | FlMessage \<Rightarrow> ShFrameRouter)"

record FlowCounters =
  fc_bytes_in :: nat
  fc_bytes_out :: nat

definition flow_counters_new :: FlowCounters where
  "flow_counters_new = \<lparr>fc_bytes_in = 0, fc_bytes_out = 0\<rparr>"

datatype DisconnectReason =
    DiConnectionRefused | DiNetworkUnreachable | DiHostUnreachable | DiTtlExpired | DiTimedOut
  | DiUpstreamEof | DiConnectionReset | DiNotConnected | DiNoUsableExit | DiSessionClosed
  | DiReaderClosed | DiQueueFull | DiAddressNotSupported | DiOther string

fun close_from_disconnect :: "DisconnectReason \<Rightarrow> CloseReason" where
  "close_from_disconnect DiConnectionRefused = ClConnectionRefused"
| "close_from_disconnect DiNetworkUnreachable = ClNetworkUnreachable"
| "close_from_disconnect DiHostUnreachable = ClHostUnreachable"
| "close_from_disconnect DiTtlExpired = ClTtlExpired"
| "close_from_disconnect DiTimedOut = ClTimedOut"
| "close_from_disconnect DiUpstreamEof = ClUpstreamEof"
| "close_from_disconnect DiConnectionReset = ClConnectionReset"
| "close_from_disconnect DiNotConnected = ClNotConnected"
| "close_from_disconnect DiNoUsableExit = ClNoUsableExit"
| "close_from_disconnect DiSessionClosed = ClSessionClosed"
| "close_from_disconnect DiReaderClosed = ClReaderClosed"
| "close_from_disconnect DiQueueFull = ClConnectionReset"
| "close_from_disconnect DiAddressNotSupported = ClAddressNotSupported"
| "close_from_disconnect (DiOther s) = ClOther s"

definition close_reason_is_success :: "CloseReason \<Rightarrow> bool" where
  "close_reason_is_success reason =
     (case reason of
        ClConnectionRefused \<Rightarrow> False | ClNetworkUnreachable \<Rightarrow> False | ClHostUnreachable \<Rightarrow> False
      | ClTimedOut \<Rightarrow> False | ClNotConnected \<Rightarrow> False | ClConnectionReset \<Rightarrow> False
      | ClAddressNotSupported \<Rightarrow> False | ClOther _ \<Rightarrow> False
      | _ \<Rightarrow> True)"

text \<open>The derived \<^verbatim>\<open>Debug\<close> text of a close reason; a payload string is quoted with the
  escapes of \<^verbatim>\<open>char::escape_debug\<close> for ASCII (unprintable characters beyond ASCII are left as they are).\<close>

definition debug_char :: "char \<Rightarrow> string" where
  "debug_char c =
     (if c = CHR 0x22 then [CHR 0x5c, CHR 0x22]
      else if c = CHR 0x5c then [CHR 0x5c, CHR 0x5c]
      else if c = CHR 0x09 then [CHR 0x5c, CHR ''t'']
      else if c = CHR 0x0a then [CHR 0x5c, CHR ''n'']
      else if c = CHR 0x0d then [CHR 0x5c, CHR ''r'']
      else if c = CHR 0x00 then [CHR 0x5c, CHR ''0'']
      else let n = of_char c
           in if n < 32 \<or> n = 127
              then [CHR 0x5c] @ ''u{'' @ (if n < 16 then [hex_char n] else [hex_char (n div 16), hex_char (n mod 16)]) @ ''}''
              else [c])"

fun close_reason_debug :: "CloseReason \<Rightarrow> string" where
  "close_reason_debug ClTtlExpired = ''TtlExpired''"
| "close_reason_debug ClSessionClosed = ''SessionClosed''"
| "close_reason_debug ClNoUsableExit = ''NoUsableExit''"
| "close_reason_debug ClConnectionRefused = ''ConnectionRefused''"
| "close_reason_debug ClNetworkUnreachable = ''NetworkUnreachable''"
| "close_reason_debug ClHostUnreachable = ''HostUnreachable''"
| "close_reason_debug ClTimedOut = ''TimedOut''"
| "close_reason_debug ClNotConnected = ''NotConnected''"
| "close_reason_debug ClConnectionReset = ''ConnectionReset''"
| "close_reason_debug ClUpstreamEof = ''UpstreamEof''"
| "close_reason_debug ClReaderClosed = ''ReaderClosed''"
| "close_reason_debug ClAddressNotSupported = ''AddressNotSupported''"
| "close_reason_debug (ClOther s) = ''Other('' @ [CHR 0x22] @ concat (map debug_char s) @ [CHR 0x22] @ '')''"

datatype ProbeOutcome = PoHandled | PoFallback | PoFailed ReturnEvent

datatype ForwarderOpenOutcome = FoHandled | FoFailed ReturnEvent | FoUnsupported

section \<open>State, log, environment\<close>

record FlowState =
  fs_shape :: DataplaneShape
  fs_sink_idx :: nat
  fs_exit_id :: ExitId
  fs_counters :: nat
  fs_source_key :: "string option"

record ExitRuntimeStats =
  xs_send_count :: nat
  xs_success_count :: nat
  xs_failure_count :: nat
  xs_last_rtt_ms :: nat
  xs_payload_bytes_total :: nat

text \<open>The close handle of an opened forwarder; the transport itself belongs to the egress.\<close>

record ForwarderClose =
  fw_flow_id :: FlowId
  fw_session_id :: SessionId
  fw_exit_id :: ExitId
  fw_closed :: bool
  fw_shape :: DataplaneShape
  fw_counters :: nat

datatype Effect =
    EfSend nat Frame
  | EfClose nat SessionId
  | EfReturn ReturnEvent
  | EfPublish EventTypeId EventPayload
  | EfProbe SessionId ProbeOutcome
  | EfOpen nat Frame

record DispatchRuntime =
  rt_flow_counters :: "FlowId \<rightharpoonup> nat"
  rt_counter_heap :: "FlowCounters list"
  rt_flow_states :: "FlowId \<rightharpoonup> FlowState"
  rt_source_activity :: "string \<rightharpoonup> SourceActivity"
  rt_forwarder_streams :: "SessionId \<rightharpoonup> ForwarderClose"
  rt_forwarder_datagrams :: "SessionId \<rightharpoonup> ForwarderClose \<times> Endpoint"
  rt_probe_channels :: "SessionId set"
  rt_flow_pins :: "FlowId \<rightharpoonup> nat"
  rt_packet_returns :: "(FlowId \<times> PacketId) set"
  rt_active_polls :: "SessionId \<times> nat \<rightharpoonup> Frame"
  rt_exit_stats :: "string \<rightharpoonup> ExitRuntimeStats"
  rt_log :: "Effect list"

definition runtime_new :: DispatchRuntime where
  "runtime_new =
     \<lparr>rt_flow_counters = Map.empty, rt_counter_heap = [], rt_flow_states = Map.empty, rt_source_activity = Map.empty,
      rt_forwarder_streams = Map.empty, rt_forwarder_datagrams = Map.empty, rt_probe_channels = {},
      rt_flow_pins = Map.empty, rt_packet_returns = {}, rt_active_polls = Map.empty, rt_exit_stats = Map.empty, rt_log = []\<rparr>"

record OpenedForwarder =
  of_local_endpoint :: "Endpoint option"
  of_rtt_ms :: nat

text \<open>The environment. \<open>en_arrival\<close> is the order in which the answers of concurrent sends come back.\<close>

record Env =
  en_ids :: "ExitId list"
  en_caps :: "Capabilities list"
  en_send :: "Effect list \<Rightarrow> nat \<Rightarrow> Frame \<Rightarrow> ExitResult"
  en_open_stream :: "Effect list \<Rightarrow> nat \<Rightarrow> Frame \<Rightarrow> (DisconnectReason + OpenedForwarder) option"
  en_open_datagram :: "Effect list \<Rightarrow> nat \<Rightarrow> Frame \<Rightarrow> (DisconnectReason + OpenedForwarder) option"
  en_schedule :: "Effect list \<Rightarrow> ExitId list \<Rightarrow> RankContext \<Rightarrow> ScheduleDecision"
  en_score :: "Effect list \<Rightarrow> ExitId \<Rightarrow> ExitId list \<Rightarrow> RankContext \<Rightarrow> nat"
  en_clock :: "Effect list \<Rightarrow> nat"
  en_unhealthy :: "Effect list \<Rightarrow> string set"
  en_arrival :: "Effect list \<Rightarrow> nat list \<Rightarrow> nat list"

definition emit :: "Effect \<Rightarrow> DispatchRuntime \<Rightarrow> DispatchRuntime" where
  "emit e rt = rt\<lparr>rt_log := rt_log rt @ [e]\<rparr>"

section \<open>Source activity\<close>

definition activity_snapshot :: "DispatchRuntime \<Rightarrow> string option \<Rightarrow> SourceActivity option" where
  "activity_snapshot rt source_key = (case source_key of None \<Rightarrow> None | Some k \<Rightarrow> rt_source_activity rt k)"

definition activity_default :: SourceActivity where
  "activity_default = \<lparr>sa_active_flows = 0, sa_idle_since_ms = None\<rparr>"

definition entry_or_default :: "(string \<rightharpoonup> SourceActivity) \<Rightarrow> string \<Rightarrow> SourceActivity" where
  "entry_or_default m k = (case m k of None \<Rightarrow> activity_default | Some a \<Rightarrow> a)"

definition mark_open :: "DispatchRuntime \<Rightarrow> string option \<Rightarrow> DispatchRuntime" where
  "mark_open rt source_key =
     (case source_key of
        None \<Rightarrow> rt
      | Some k \<Rightarrow>
          let a = entry_or_default (rt_source_activity rt) k
          in rt\<lparr>rt_source_activity := (rt_source_activity rt)(k \<mapsto>
               \<lparr>sa_active_flows = sat_add32 (sa_active_flows a) 1, sa_idle_since_ms = None\<rparr>)\<rparr>)"

definition mark_closed_in_table :: "(string \<rightharpoonup> SourceActivity) \<Rightarrow> string \<Rightarrow> nat \<Rightarrow> (string \<rightharpoonup> SourceActivity)" where
  "mark_closed_in_table m k now_ms =
     (let a = entry_or_default m k;
          n = sa_active_flows a - 1
      in m(k \<mapsto> \<lparr>sa_active_flows = n, sa_idle_since_ms = (if n = 0 then Some now_ms else sa_idle_since_ms a)\<rparr>))"

definition mark_closed :: "Env \<Rightarrow> DispatchRuntime \<Rightarrow> string option \<Rightarrow> DispatchRuntime" where
  "mark_closed env rt source_key =
     (case source_key of
        None \<Rightarrow> rt
      | Some k \<Rightarrow> rt\<lparr>rt_source_activity := mark_closed_in_table (rt_source_activity rt) k (en_clock env (rt_log rt))\<rparr>)"

section \<open>Statistics and events\<close>

definition stats_default :: ExitRuntimeStats where
  "stats_default =
     \<lparr>xs_send_count = 0, xs_success_count = 0, xs_failure_count = 0, xs_last_rtt_ms = 0, xs_payload_bytes_total = 0\<rparr>"

definition update_exit_stats :: "DispatchRuntime \<Rightarrow> Measurement \<Rightarrow> DispatchRuntime" where
  "update_exit_stats rt m =
     (let s = (case rt_exit_stats rt (ms_exit_id m) of None \<Rightarrow> stats_default | Some s \<Rightarrow> s);
          s1 = s\<lparr>xs_send_count := sat_add64 (xs_send_count s) 1,
                 xs_last_rtt_ms := ms_rtt_ms m,
                 xs_payload_bytes_total := sat_add64 (xs_payload_bytes_total s) (ms_payload_bytes m)\<rparr>;
          s2 = (if ms_success m then s1\<lparr>xs_success_count := sat_add64 (xs_success_count s) 1\<rparr>
                else s1\<lparr>xs_failure_count := sat_add64 (xs_failure_count s) 1\<rparr>)
      in rt\<lparr>rt_exit_stats := (rt_exit_stats rt)(ms_exit_id m \<mapsto> s2)\<rparr>)"

definition record_dispatch :: "Env \<Rightarrow> DispatchRuntime \<Rightarrow> ExitResult \<Rightarrow> nat \<Rightarrow> DispatchRuntime" where
  "record_dispatch env rt result payload_bytes =
     update_exit_stats rt
       \<lparr>ms_exit_id = er_exit_id result, ms_at_ms = en_clock env (rt_log rt), ms_rtt_ms = er_rtt_ms result,
        ms_payload_bytes = payload_bytes, ms_jitter_ms = None, ms_throughput_bps = None,
        ms_success = er_success result\<rparr>"

definition publish_flow_opened :: "Env \<Rightarrow> DispatchRuntime \<Rightarrow> Frame \<Rightarrow> ExitResult \<Rightarrow> DataplaneShape \<Rightarrow> DispatchRuntime" where
  "publish_flow_opened env rt frame result shape =
     emit (EfPublish (EtCore FlowOpened) (payload_default\<lparr>
        ep_flow_id_text := Some (f_flow_id frame), ep_session_id_text := Some (f_session_id frame),
        ep_exit_id := Some (er_exit_id result), ep_selected_exit := Some (er_exit_id result),
        ep_route_group := f_route_group frame, ep_target_sink := f_target_sink frame,
        ep_packet_id := Some (f_packet_id frame), ep_payload_bytes := length (f_payload frame),
        ep_rtt_ms := er_rtt_ms result, ep_success := Some True, ep_shape := Some (shape_tag shape),
        ep_at_ms := en_clock env (rt_log rt)\<rparr>)) rt"

definition publish_path_io_error :: "Env \<Rightarrow> DispatchRuntime \<Rightarrow> Frame \<Rightarrow> ExitResult \<Rightarrow> bool \<Rightarrow> DispatchRuntime" where
  "publish_path_io_error env rt frame result terminal =
     emit (EfPublish (EtCore PathIoError) (payload_default\<lparr>
        ep_flow_id_text := Some (f_flow_id frame), ep_session_id_text := Some (f_session_id frame),
        ep_exit_id := Some (er_exit_id result), ep_selected_exit := Some (er_exit_id result),
        ep_route_group := f_route_group frame, ep_target_sink := f_target_sink frame,
        ep_packet_id := Some (f_packet_id frame), ep_payload_bytes := length (f_payload frame),
        ep_rtt_ms := er_rtt_ms result, ep_success := Some False,
        ep_close_reason := (case er_return_event result of RvClosed r \<Rightarrow> Some (close_reason_debug r) | _ \<Rightarrow> None),
        ep_terminal := terminal, ep_at_ms := en_clock env (rt_log rt)\<rparr>)) rt"

definition remove_flow_runtime_state :: "Env \<Rightarrow> DispatchRuntime \<Rightarrow> FlowId \<Rightarrow> FlowState option \<times> DispatchRuntime" where
  "remove_flow_runtime_state env rt flow_id =
     (let removed = rt_flow_states rt flow_id;
          rt1 = rt\<lparr>rt_flow_states := (rt_flow_states rt)(flow_id := None)\<rparr>;
          rt2 = (case removed of None \<Rightarrow> rt1 | Some st \<Rightarrow> mark_closed env rt1 (fs_source_key st))
      in (removed, rt2\<lparr>rt_flow_counters := (rt_flow_counters rt2)(flow_id := None),
                       rt_flow_pins := (rt_flow_pins rt2)(flow_id := None)\<rparr>))"

text \<open>The payload both ways of closing a flow publish.\<close>

definition flow_closed_payload ::
    "FlowId \<Rightarrow> SessionId \<Rightarrow> ExitId \<Rightarrow> CloseReason \<Rightarrow> DataplaneShape \<Rightarrow> nat \<Rightarrow> EventPayload" where
  "flow_closed_payload flow_id session_id exit_id reason shape at_ms =
     payload_default\<lparr>
        ep_flow_id_text := Some flow_id, ep_session_id_text := Some session_id,
        ep_exit_id := Some exit_id, ep_selected_exit := Some exit_id,
        ep_close_reason := Some (close_reason_debug reason),
        ep_success := Some (close_reason_is_success reason), ep_shape := Some (shape_tag shape),
        ep_at_ms := at_ms\<rparr>"

definition close_flow_if_open :: "Env \<Rightarrow> DispatchRuntime \<Rightarrow> FlowId \<Rightarrow> CloseReason \<Rightarrow> SessionId \<Rightarrow> DispatchRuntime" where
  "close_flow_if_open env rt flow_id reason session_id =
     (case remove_flow_runtime_state env rt flow_id of
        (None, rt1) \<Rightarrow> rt1
      | (Some st, rt1) \<Rightarrow>
          emit (EfPublish (EtCore FlowClosed)
            (flow_closed_payload flow_id session_id (fs_exit_id st) reason (fs_shape st) (en_clock env (rt_log rt1)))) rt1)"

text \<open>Closing an opened forwarder, once.\<close>

definition forwarder_cleanup :: "Env \<Rightarrow> DispatchRuntime \<Rightarrow> FlowId \<Rightarrow> DispatchRuntime" where
  "forwarder_cleanup env rt flow_id = snd (remove_flow_runtime_state env rt flow_id)"

definition close_once :: "Env \<Rightarrow> DispatchRuntime \<Rightarrow> ForwarderClose \<Rightarrow> CloseReason \<Rightarrow> DispatchRuntime \<times> ForwarderClose" where
  "close_once env rt fc reason =
     (if fw_closed fc then (rt, fc)
      else let rt1 = forwarder_cleanup env rt (fw_flow_id fc)
           in (emit (EfPublish (EtCore FlowClosed)
                 (flow_closed_payload (fw_flow_id fc) (fw_session_id fc) (fw_exit_id fc) reason (fw_shape fc)
                   (en_clock env (rt_log rt1)))) rt1,
               fc\<lparr>fw_closed := True\<rparr>))"

section \<open>Returns\<close>

text \<open>The Boolean tells whether the event went out or was a duplicate; \<open>receiving\<close> is whether the return
  channel has a receiver. The dispatcher itself ignores it, so \<open>send_return\<close> only gives the state.\<close>

definition send_return_with_packet_id ::
    "bool \<Rightarrow> DispatchRuntime \<Rightarrow> Frame \<Rightarrow> ReturnEvent \<Rightarrow> PacketId \<Rightarrow> bool \<times> DispatchRuntime" where
  "send_return_with_packet_id receiving rt frame event packet_id =
     (if f_return_semantics frame = ReDirect then (receiving, emit (EfReturn event) rt)
      else let key = (f_flow_id frame, packet_id)
           in if key \<in> rt_packet_returns rt then (True, rt)
              else (receiving,
                    emit (EfReturn event) (rt\<lparr>rt_packet_returns := insert key (rt_packet_returns rt)\<rparr>)))"

definition send_return :: "DispatchRuntime \<Rightarrow> Frame \<Rightarrow> ReturnEvent \<Rightarrow> DispatchRuntime" where
  "send_return rt frame event = snd (send_return_with_packet_id True rt frame event (f_packet_id frame))"

section \<open>Candidates\<close>

record CompiledCandidate =
  cc_egress_idx :: nat
  cc_exit_id :: ExitId
  cc_groups :: "string list"

definition compile_bucket :: "Env \<Rightarrow> FlowSemantics \<Rightarrow> CompiledCandidate list" where
  "compile_bucket env want =
     List.map_filter (\<lambda>(idx, i, caps).
         if \<not> capability_matches_flow caps want then None
         else Some \<lparr>cc_egress_idx = idx, cc_exit_id = i, cc_groups = ca_groups caps\<rparr>)
       (zip [0..<length (en_ids env)] (zip (en_ids env) (en_caps env)))"

definition from_egresses :: "Env \<Rightarrow> CompiledCandidate list list" where
  "from_egresses env = [compile_bucket env FlByteStream, compile_bucket env FlDatagram, compile_bucket env FlMessage]"

fun semantics_index :: "FlowSemantics \<Rightarrow> nat" where
  "semantics_index FlByteStream = 0"
| "semantics_index FlDatagram = 1"
| "semantics_index FlMessage = 2"

definition candidate_bucket :: "Env \<Rightarrow> FlowSemantics \<Rightarrow> CompiledCandidate list" where
  "candidate_bucket env sem = from_egresses env ! semantics_index sem"

definition candidate_matches :: "string option \<Rightarrow> string option \<Rightarrow> CompiledCandidate \<Rightarrow> bool" where
  "candidate_matches route_group target_sink c =
     (if (case target_sink of Some sink \<Rightarrow> cc_exit_id c \<noteq> sink | None \<Rightarrow> False) then False
      else case route_group of Some g \<Rightarrow> g \<in> set (cc_groups c) | None \<Rightarrow> True)"

definition healthy_candidates ::
    "Env \<Rightarrow> DispatchRuntime \<Rightarrow> FlowSemantics \<Rightarrow> string option \<Rightarrow> string option \<Rightarrow> ExitId list \<times> nat list" where
  "healthy_candidates env rt sem route_group target_sink =
     (let unhealthy = en_unhealthy env (rt_log rt);
          matching = filter (candidate_matches route_group target_sink) (candidate_bucket env sem);
          healthy = filter (\<lambda>c. cc_exit_id c \<notin> unhealthy) matching
      in if healthy = [] then
           (if route_group \<noteq> None \<or> target_sink \<noteq> None then ([], [])
            else (map cc_exit_id matching, map cc_egress_idx matching))
         else (map cc_exit_id healthy, map cc_egress_idx healthy))"

definition map_candidate_order :: "nat list \<Rightarrow> nat list \<Rightarrow> nat list" where
  "map_candidate_order order candidate_map = List.map_filter (nth_opt candidate_map) order"

fun valid_order_from :: "nat set \<Rightarrow> nat list \<Rightarrow> nat \<Rightarrow> nat list" where
  "valid_order_from seen [] n = []"
| "valid_order_from seen (idx # order) n =
     (if idx < n \<and> idx \<notin> seen then idx # valid_order_from (insert idx seen) order n
      else valid_order_from seen order n)"

definition valid_order :: "nat list \<Rightarrow> nat \<Rightarrow> nat list" where
  "valid_order order egress_count = valid_order_from {} order egress_count"

definition move_to_front :: "nat \<Rightarrow> nat list \<Rightarrow> nat list" where
  "move_to_front pos order = order ! pos # remove_at pos order"

definition apply_pin_with_hysteresis ::
    "Env \<Rightarrow> DispatchRuntime \<Rightarrow> nat list \<Rightarrow> nat \<Rightarrow> ExitId list \<Rightarrow> RankContext \<Rightarrow> f64 \<Rightarrow> nat list" where
  "apply_pin_with_hysteresis env rt order pinned candidates ctx tau =
     (case position (\<lambda>idx. idx = pinned) order of
        None \<Rightarrow> order
      | Some pos \<Rightarrow>
          if length order \<le> 1 then move_to_front pos order
          else case find (\<lambda>i. i \<noteq> pinned) order of
                 None \<Rightarrow> order
               | Some best_alt_idx \<Rightarrow>
                   let pin_score = en_score env (rt_log rt) (en_ids env ! pinned) candidates ctx;
                       alt_score = en_score env (rt_log rt) (en_ids env ! best_alt_idx) candidates ctx
                   in if fl_of_nat pin_score < fl_mul (fl_add 1 tau) (fl_of_nat alt_score)
                      then move_to_front pos order else order)"

definition snapshot_unhealthy :: "Env \<Rightarrow> DispatchRuntime \<Rightarrow> string \<Rightarrow> bool" where
  "snapshot_unhealthy env rt exit_id \<longleftrightarrow> exit_id \<in> en_unhealthy env (rt_log rt)"

definition schedule_frame :: "Env \<Rightarrow> DispatchRuntime \<Rightarrow> Frame \<Rightarrow> ExitId list \<Rightarrow> RankContext \<Rightarrow> ScheduleDecision" where
  "schedule_frame env rt frame candidates ctx =
     (case (f_flow_semantics frame, f_schedule_hint frame) of
        (FlDatagram, ShFanOut k) \<Rightarrow> SdReplicate [0..<min k (length candidates)]
      | _ \<Rightarrow> en_schedule env (rt_log rt) candidates ctx)"

section \<open>Opening flows\<close>

text \<open>The entries of an opened flow: its counters (kept if there are some), its state, and the activity of
  its source when the flow was not open before.\<close>

definition register_flow ::
    "DispatchRuntime \<Rightarrow> Frame \<Rightarrow> nat \<Rightarrow> DataplaneShape \<Rightarrow> ExitId \<Rightarrow> nat \<times> DispatchRuntime" where
  "register_flow rt frame idx shape exit_id =
     (let flow = f_flow_id frame;
          (addr, rt1) = (case rt_flow_counters rt flow of
             Some a \<Rightarrow> (a, rt)
           | None \<Rightarrow> (length (rt_counter_heap rt),
               rt\<lparr>rt_counter_heap := rt_counter_heap rt @ [flow_counters_new],
                  rt_flow_counters := (rt_flow_counters rt)(flow \<mapsto> length (rt_counter_heap rt))\<rparr>));
          previous = rt_flow_states rt1 flow;
          rt2 = rt1\<lparr>rt_flow_states := (rt_flow_states rt1)(flow \<mapsto>
             \<lparr>fs_shape = shape, fs_sink_idx = idx, fs_exit_id = exit_id, fs_counters = addr,
              fs_source_key = f_source_key frame\<rparr>)\<rparr>
      in (addr, if previous = None then mark_open rt2 (f_source_key frame) else rt2))"

definition set_pin :: "DispatchRuntime \<Rightarrow> FlowId \<Rightarrow> nat \<Rightarrow> DispatchRuntime" where
  "set_pin rt flow idx = rt\<lparr>rt_flow_pins := (rt_flow_pins rt)(flow \<mapsto> idx)\<rparr>"

definition reply_probe :: "DispatchRuntime \<Rightarrow> SessionId \<Rightarrow> ProbeOutcome \<Rightarrow> DispatchRuntime" where
  "reply_probe rt sid outcome =
     (if sid \<in> rt_probe_channels rt
      then emit (EfProbe sid outcome) (rt\<lparr>rt_probe_channels := rt_probe_channels rt - {sid}\<rparr>) else rt)"

definition connected_result :: "ExitId \<Rightarrow> OpenedForwarder \<Rightarrow> ExitResult" where
  "connected_result i opened =
     \<lparr>er_exit_id = i, er_success = True, er_rtt_ms = of_rtt_ms opened, er_local_endpoint = of_local_endpoint opened,
      er_return_event = RvConnected i (of_local_endpoint opened) (of_rtt_ms opened)\<rparr>"

definition refused_result :: "ExitId \<Rightarrow> DisconnectReason \<Rightarrow> ExitResult" where
  "refused_result i reason =
     \<lparr>er_exit_id = i, er_success = False, er_rtt_ms = 0, er_local_endpoint = None,
      er_return_event = RvClosed (close_from_disconnect reason)\<rparr>"

definition try_open_forwarder_stream ::
    "Env \<Rightarrow> DispatchRuntime \<Rightarrow> Frame \<Rightarrow> nat \<Rightarrow> DataplaneShape \<Rightarrow> ForwarderOpenOutcome \<times> DispatchRuntime" where
  "try_open_forwarder_stream env rt frame idx shape =
     (if f_kind frame \<noteq> FkOpen \<or> shape \<noteq> ShForwarder then (FoUnsupported, rt)
      else let i = en_ids env ! idx; rt0 = emit (EfOpen idx frame) rt in
        case en_open_stream env (rt_log rt) idx frame of
          Some (Inr opened) \<Rightarrow>
            let result = connected_result i opened;
                rt1 = set_pin (record_dispatch env rt0 result (length (f_payload frame))) (f_flow_id frame) idx;
                (addr, rt2) = register_flow rt1 frame idx shape i;
                rt3 = rt2\<lparr>rt_forwarder_streams := (rt_forwarder_streams rt2)(f_session_id frame \<mapsto>
                  \<lparr>fw_flow_id = f_flow_id frame, fw_session_id = f_session_id frame, fw_exit_id = i,
                   fw_closed = False, fw_shape = ShForwarder, fw_counters = addr\<rparr>)\<rparr>;
                rt4 = publish_flow_opened env rt3 frame result shape
            in (FoHandled, send_return rt4 frame (er_return_event result))
        | Some (Inl reason) \<Rightarrow>
            let result = refused_result i reason;
                rt1 = record_dispatch env rt0 result (length (f_payload frame))
            in (FoFailed (er_return_event result), publish_path_io_error env rt1 frame result True)
        | None \<Rightarrow> (FoUnsupported, rt0))"

definition try_open_forwarder_datagram ::
    "Env \<Rightarrow> DispatchRuntime \<Rightarrow> Frame \<Rightarrow> nat \<Rightarrow> DataplaneShape \<Rightarrow> ProbeOutcome \<times> DispatchRuntime" where
  "try_open_forwarder_datagram env rt frame idx shape =
     (if f_kind frame \<noteq> FkOpen \<or> shape \<noteq> ShDatagramForwarder then (PoFallback, rt)
      else let i = en_ids env ! idx; rt0 = emit (EfOpen idx frame) rt in
        case en_open_datagram env (rt_log rt) idx frame of
          Some (Inr opened) \<Rightarrow>
            let result = connected_result i opened;
                rt1 = set_pin (record_dispatch env rt0 result 0) (f_flow_id frame) idx;
                (addr, rt2) = register_flow rt1 frame idx shape i;
                rt3 = rt2\<lparr>rt_forwarder_datagrams := (rt_forwarder_datagrams rt2)(f_session_id frame \<mapsto>
                  (\<lparr>fw_flow_id = f_flow_id frame, fw_session_id = f_session_id frame, fw_exit_id = i,
                    fw_closed = False, fw_shape = ShDatagramForwarder, fw_counters = addr\<rparr>, f_target frame))\<rparr>;
                rt4 = publish_flow_opened env rt3 frame result shape
            in (PoHandled, reply_probe rt4 (f_session_id frame) PoHandled)
        | Some (Inl reason) \<Rightarrow>
            let result = refused_result i reason;
                rt1 = record_dispatch env rt0 result 0
            in (PoFailed (er_return_event result), publish_path_io_error env rt1 frame result True)
        | None \<Rightarrow> (PoFallback, rt0))"

section \<open>Sending\<close>

definition open_return_event :: "Frame \<Rightarrow> ExitResult \<Rightarrow> ReturnEvent" where
  "open_return_event frame result =
     (if f_kind frame = FkOpen
      then RvConnected (er_exit_id result) (er_local_endpoint result) (er_rtt_ms result)
      else er_return_event result)"

definition abort_session_polls :: "DispatchRuntime \<Rightarrow> SessionId \<Rightarrow> DispatchRuntime" where
  "abort_session_polls rt sid = rt\<lparr>rt_active_polls := (\<lambda>k. if fst k = sid then None else rt_active_polls rt k)\<rparr>"

text \<open>A poll task keeps the frame it was spawned for; the table of tasks holds it.\<close>

definition ensure_stream_poll :: "DispatchRuntime \<Rightarrow> Frame \<Rightarrow> nat \<Rightarrow> DispatchRuntime" where
  "ensure_stream_poll rt frame idx =
     (if f_flow_semantics frame = FlMessage then rt
      else let key = (f_session_id frame, idx) in
        if rt_active_polls rt key \<noteq> None then rt
        else rt\<lparr>rt_active_polls := (rt_active_polls rt)(key \<mapsto> frame)\<rparr>)"

definition end_poll :: "DispatchRuntime \<Rightarrow> SessionId \<times> nat \<Rightarrow> DispatchRuntime" where
  "end_poll rt key = rt\<lparr>rt_active_polls := (rt_active_polls rt)(key := None)\<rparr>"

text \<open>One turn of the poll task of \<open>key\<close>: whether the bus is shutting down, whether the return channel
  still has a receiver, and the event the egress answers.\<close>

definition poll_turn :: "Env \<Rightarrow> DispatchRuntime \<Rightarrow> SessionId \<times> nat \<Rightarrow> bool \<Rightarrow> bool \<Rightarrow> ReturnEvent \<Rightarrow> DispatchRuntime" where
  "poll_turn env rt key shutdown receiving event =
     (case rt_active_polls rt key of
        None \<Rightarrow> rt
      | Some frame \<Rightarrow>
          if shutdown then end_poll rt key
          else case event of
            RvIdle \<Rightarrow> rt
          | RvClosed reason \<Rightarrow>
              end_poll (emit (EfReturn (RvClosed reason))
                (close_flow_if_open env rt (f_flow_id frame) reason (f_session_id frame))) key
          | _ \<Rightarrow>
              let packet_id = (case event of
                    RvData seq _ \<Rightarrow> if f_flow_semantics frame = FlDatagram then seq else f_packet_id frame
                  | _ \<Rightarrow> f_packet_id frame);
                  (delivered, rt1) = send_return_with_packet_id receiving rt frame event packet_id
              in if delivered then rt1 else end_poll rt1 key)"

definition add_up_bytes :: "DispatchRuntime \<Rightarrow> nat \<Rightarrow> nat \<Rightarrow> DispatchRuntime" where
  "add_up_bytes rt addr n =
     (case nth_opt (rt_counter_heap rt) addr of
        None \<Rightarrow> rt
      | Some c \<Rightarrow> rt\<lparr>rt_counter_heap := (rt_counter_heap rt)[addr := c\<lparr>fc_bytes_out := wrap64 (fc_bytes_out c + n)\<rparr>]\<rparr>)"

text \<open>What follows a successful send in \<^verbatim>\<open>dispatch_ordered\<close>.\<close>

definition sent_ok :: "Env \<Rightarrow> DispatchRuntime \<Rightarrow> Frame \<Rightarrow> nat \<Rightarrow> DataplaneShape \<Rightarrow> ExitResult \<Rightarrow> DispatchRuntime" where
  "sent_ok env rt frame idx shape result =
     (let return_event = open_return_event frame result;
          rt1 = set_pin rt (f_flow_id frame) idx;
          rt2 = (if f_kind frame = FkOpen
                 then publish_flow_opened env (snd (register_flow rt1 frame idx shape (er_exit_id result))) frame result shape
                 else case rt_flow_counters rt1 (f_flow_id frame) of
                        Some addr \<Rightarrow> add_up_bytes rt1 addr (length (f_payload frame))
                      | None \<Rightarrow> rt1);
          rt3 = ensure_stream_poll rt2 frame idx
      in if return_event \<noteq> RvIdle \<or> f_kind frame = FkOpen then send_return rt3 frame return_event else rt3)"

definition all_failed :: "DispatchRuntime \<Rightarrow> Frame \<Rightarrow> ReturnEvent option \<Rightarrow> DispatchRuntime" where
  "all_failed rt frame lastf =
     emit (EfReturn (case lastf of Some (RvClosed reason) \<Rightarrow> RvClosed reason | _ \<Rightarrow> RvClosed ClNoUsableExit))
       (reply_probe rt (f_session_id frame)
         (PoFailed (case lastf of Some ev \<Rightarrow> ev | None \<Rightarrow> RvClosed ClNoUsableExit)))"

definition shape_for :: "Env \<Rightarrow> Frame \<Rightarrow> nat \<Rightarrow> DataplaneShape" where
  "shape_for env frame idx =
     (if f_kind frame = FkOpen
      then derive_shape (f_flow_semantics frame) (f_return_semantics frame) 1 (en_caps env ! idx) []
      else ShFrameRouter)"

fun ordered_loop :: "Env \<Rightarrow> DispatchRuntime \<Rightarrow> Frame \<Rightarrow> nat list \<Rightarrow> ReturnEvent option \<Rightarrow> DispatchRuntime" where
  "ordered_loop env rt frame [] lastf = all_failed rt frame lastf"
| "ordered_loop env rt frame (idx # rest) lastf =
     (let frame' = frame\<lparr>f_path_trace := f_path_trace frame @ [en_ids env ! idx]\<rparr>;
          shape = shape_for env frame' idx;
          attempt = (\<lambda>rt.
            let result = en_send env (rt_log rt) idx frame';
                rt1 = record_dispatch env (emit (EfSend idx frame') rt) result (length (f_payload frame'))
            in if er_success result then sent_ok env rt1 frame' idx shape result
               else ordered_loop env (publish_path_io_error env rt1 frame' result True) frame' rest
                      (Some (er_return_event result)))
      in if f_kind frame' = FkOpen \<and> shape = ShForwarder
         then (case try_open_forwarder_stream env rt frame' idx shape of
                 (FoHandled, rt1) \<Rightarrow> rt1
               | (FoFailed ev, rt1) \<Rightarrow> ordered_loop env rt1 frame' rest (Some ev)
               | (FoUnsupported, rt1) \<Rightarrow> attempt rt1)
         else if f_kind frame' = FkOpen \<and> shape = ShDatagramForwarder
         then (case try_open_forwarder_datagram env rt frame' idx shape of
                 (PoHandled, rt1) \<Rightarrow> rt1
               | (PoFallback, rt1) \<Rightarrow> reply_probe rt1 (f_session_id frame') PoFallback
               | (PoFailed ev, rt1) \<Rightarrow> ordered_loop env rt1 frame' rest (Some ev))
         else attempt rt)"

definition dispatch_ordered :: "Env \<Rightarrow> DispatchRuntime \<Rightarrow> Frame \<Rightarrow> nat list \<Rightarrow> DispatchRuntime" where
  "dispatch_ordered env rt frame order = ordered_loop env rt frame (valid_order order (length (en_ids env))) None"

definition replica :: "Env \<Rightarrow> Frame \<Rightarrow> nat \<Rightarrow> Frame" where
  "replica env frame idx = frame\<lparr>f_path_trace := f_path_trace frame @ [en_ids env ! idx]\<rparr>"

text \<open>One answer of a replicated send, \<open>returned\<close> telling whether an earlier one succeeded.\<close>

definition replicate_answer ::
    "Env \<Rightarrow> Frame \<Rightarrow> Effect list \<Rightarrow> DispatchRuntime \<times> bool \<Rightarrow> nat \<Rightarrow> DispatchRuntime \<times> bool" where
  "replicate_answer env frame sent st idx =
     (case st of (rt, returned) \<Rightarrow>
        let result = en_send env sent idx (replica env frame idx);
            rt1 = record_dispatch env rt result (length (f_payload frame))
        in if \<not> er_success result then (publish_path_io_error env rt1 frame result False, returned)
           else let rt2 = ensure_stream_poll rt1 frame idx
                in if returned then (rt2, True)
                   else let rt3 = set_pin rt2 (f_flow_id frame) idx
                        in (if er_return_event result \<noteq> RvIdle \<or> f_kind frame = FkOpen
                            then send_return rt3 frame (er_return_event result) else rt3, True))"

definition dispatch_replicate :: "Env \<Rightarrow> DispatchRuntime \<Rightarrow> Frame \<Rightarrow> nat list \<Rightarrow> DispatchRuntime" where
  "dispatch_replicate env rt frame order =
     (let order' = valid_order order (length (en_ids env)) in
      if order' = [] then emit (EfReturn (RvClosed ClNoUsableExit)) rt
      else let rt1 = foldl (\<lambda>rt idx. emit (EfSend idx (replica env frame idx)) rt) rt order';
               (rt2, returned) = foldl (replicate_answer env frame (rt_log rt1)) (rt1, False)
                                   (en_arrival env (rt_log rt1) order')
           in if returned then rt2 else emit (EfReturn (RvClosed ClNoUsableExit)) rt2)"

definition dispatch_forwarder_frame :: "Env \<Rightarrow> DispatchRuntime \<Rightarrow> Frame \<Rightarrow> FlowState \<Rightarrow> DispatchRuntime" where
  "dispatch_forwarder_frame env rt frame st =
     (let idx = fs_sink_idx st;
          result = en_send env (rt_log rt) idx frame;
          rt1 = record_dispatch env (emit (EfSend idx frame) rt) result (length (f_payload frame))
      in if er_success result
         then let rt2 = add_up_bytes rt1 (fs_counters st) (length (f_payload frame))
              in if er_return_event result \<noteq> RvIdle then send_return rt2 frame (er_return_event result) else rt2
         else let rt2 = publish_path_io_error env rt1 frame result True;
                  reason = (case er_return_event result of RvClosed r \<Rightarrow> r | _ \<Rightarrow> ClOther ''send failed'');
                  rt3 = close_flow_if_open env rt2 (f_flow_id frame) reason (f_session_id frame)
              in emit (EfReturn (RvClosed reason)) rt3)"

text \<open>A close or cancel frame.\<close>

definition dispatch_close :: "Env \<Rightarrow> DispatchRuntime \<Rightarrow> Frame \<Rightarrow> DispatchRuntime" where
  "dispatch_close env rt frame =
     (let rt1 = (case rt_flow_pins rt (f_flow_id frame) of
            Some idx \<Rightarrow> emit (EfClose idx (f_session_id frame))
                          (rt\<lparr>rt_flow_pins := (rt_flow_pins rt)(f_flow_id frame := None)\<rparr>)
          | None \<Rightarrow> rt);
          rt2 = abort_session_polls rt1 (f_session_id frame);
          rt3 = rt2\<lparr>rt_forwarder_datagrams := (rt_forwarder_datagrams rt2)(f_session_id frame := None),
                    rt_forwarder_streams := (rt_forwarder_streams rt2)(f_session_id frame := None)\<rparr>;
          rt4 = close_flow_if_open env rt3 (f_flow_id frame) ClSessionClosed (f_session_id frame);
          rt5 = rt4\<lparr>rt_packet_returns := {k \<in> rt_packet_returns rt4. fst k \<noteq> f_flow_id frame}\<rparr>
      in emit (EfReturn (RvClosed ClSessionClosed)) rt5)"

definition pin_order :: "Env \<Rightarrow> DispatchRuntime \<Rightarrow> Frame \<Rightarrow> nat list \<Rightarrow> ExitId list \<Rightarrow> RankContext \<Rightarrow> nat list" where
  "pin_order env rt frame order candidates ctx =
     (case rt_flow_pins rt (f_flow_id frame) of
        None \<Rightarrow> order
      | Some pinned \<Rightarrow>
          if snapshot_unhealthy env rt (en_ids env ! pinned) then order
          else apply_pin_with_hysteresis env rt order pinned candidates ctx (round64 (1 / 5)))"

definition dispatch_scheduled :: "Env \<Rightarrow> DispatchRuntime \<Rightarrow> Frame \<Rightarrow> DispatchRuntime" where
  "dispatch_scheduled env rt frame =
     (let (candidates, candidate_map) =
            healthy_candidates env rt (f_flow_semantics frame) (f_route_group frame) (f_target_sink frame);
          ctx = (rank_context_of frame)\<lparr>rx_source_activity := activity_snapshot rt (f_source_key frame)\<rparr>
      in case schedule_frame env rt frame candidates ctx of
           SdOrdered order \<Rightarrow>
             dispatch_ordered env rt frame
               (pin_order env rt frame (map_candidate_order order candidate_map) candidates ctx)
         | SdReplicate order \<Rightarrow>
             dispatch_replicate env rt (frame\<lparr>f_return_semantics := RePacketDedup\<rparr>)
               (pin_order env rt frame (map_candidate_order order candidate_map) candidates ctx))"

definition dispatch :: "Env \<Rightarrow> DispatchRuntime \<Rightarrow> Frame \<Rightarrow> DispatchRuntime" where
  "dispatch env rt frame =
     (if f_ttl frame = 0 then emit (EfReturn (RvClosed ClTtlExpired)) rt
      else let frame1 = frame\<lparr>f_ttl := f_ttl frame - 1\<rparr> in
        if f_kind frame1 = FkClose \<or> f_kind frame1 = FkCancel then dispatch_close env rt frame1
        else case (if f_kind frame1 = FkOpen then None else rt_flow_states rt (f_flow_id frame1)) of
          Some st \<Rightarrow>
            if fs_shape st = ShForwarder then dispatch_forwarder_frame env rt frame1 st
            else dispatch_scheduled env rt frame1
        | None \<Rightarrow> dispatch_scheduled env rt frame1)"

section \<open>Inputs of the bus\<close>

text \<open>What changes the tables of a running bus: a submitted frame, a turn of a poll task, and the close of
  an opened forwarder by the ingress that holds its handle.\<close>

datatype BusInput =
    BiFrame Frame
  | BiPoll "SessionId \<times> nat" bool bool ReturnEvent
  | BiClose ForwarderClose CloseReason

fun bus_input :: "Env \<Rightarrow> DispatchRuntime \<Rightarrow> BusInput \<Rightarrow> DispatchRuntime" where
  "bus_input env rt (BiFrame frame) = dispatch env rt frame"
| "bus_input env rt (BiPoll key shutdown receiving event) = poll_turn env rt key shutdown receiving event"
| "bus_input env rt (BiClose fc reason) = fst (close_once env rt fc reason)"

definition bus_run :: "Env \<Rightarrow> DispatchRuntime \<Rightarrow> BusInput list \<Rightarrow> DispatchRuntime" where
  "bus_run env rt inputs = foldl (bus_input env) rt inputs"

section \<open>Exit health and the snapshot\<close>

datatype Sample = SampleSuccess string nat | SampleFailure string nat

definition sample_of :: "EventTypeId \<Rightarrow> EventPayload \<Rightarrow> Sample option" where
  "sample_of type_id payload =
     (case (case ep_selected_exit payload of Some e \<Rightarrow> Some e | None \<Rightarrow> ep_exit_id payload) of
        None \<Rightarrow> None
      | Some exit_id \<Rightarrow>
          if type_id = EtCore FlowClosed \<and> (case ep_success payload of None \<Rightarrow> True | Some b \<Rightarrow> b)
          then Some (SampleSuccess exit_id (ep_at_ms payload))
          else if type_id = EtCore FlowClosed \<or> type_id = EtCore PathIoError
          then Some (SampleFailure exit_id (ep_at_ms payload))
          else None)"

text \<open>The queue between the bus and the drainer drops a sample when it is full.\<close>

definition health_on_core_event :: "Sample list \<Rightarrow> EventTypeId \<Rightarrow> EventPayload \<Rightarrow> Sample list" where
  "health_on_core_event queue type_id payload =
     (case sample_of type_id payload of
        None \<Rightarrow> queue
      | Some s \<Rightarrow> if length queue < 4096 then queue @ [s] else queue)"

definition health_publish :: "ExitHealthTable \<Rightarrow> string list \<Rightarrow> nat \<Rightarrow> string set" where
  "health_publish t exit_ids now_ms = set (filter (\<lambda>i. \<not> can_dispatch t i now_ms) exit_ids)"

fun drain_sample :: "string list \<Rightarrow> ExitHealthTable \<times> string set \<Rightarrow> Sample \<Rightarrow> ExitHealthTable \<times> string set" where
  "drain_sample exit_ids (t, snap) (SampleSuccess exit_id at_ms) =
     (let t' = health_record t exit_id True at_ms in (t', health_publish t' exit_ids at_ms))"
| "drain_sample exit_ids (t, snap) (SampleFailure exit_id at_ms) =
     (let t' = health_record t exit_id False at_ms in (t', health_publish t' exit_ids at_ms))"

definition drainer :: "HealthPolicy \<Rightarrow> string list \<Rightarrow> Sample list \<Rightarrow> ExitHealthTable \<times> string set" where
  "drainer policy exit_ids samples = foldl (drain_sample exit_ids) (health_table_new policy, {}) samples"

text \<open>The samples of a log, and the snapshot a drainer that keeps up has published after it.\<close>

definition log_samples :: "Effect list \<Rightarrow> Sample list" where
  "log_samples es =
     List.map_filter (\<lambda>e. case e of EfPublish ty p \<Rightarrow> sample_of ty p | _ \<Rightarrow> None) es"

definition published_health :: "HealthPolicy \<Rightarrow> string list \<Rightarrow> Effect list \<Rightarrow> string set" where
  "published_health policy exit_ids es = snd (drainer policy exit_ids (log_samples es))"

record ExitSnapshot =
  sn_exit_id :: ExitId
  sn_protocol :: string
  sn_supports_stream :: bool
  sn_supports_datagram :: bool
  sn_stats :: ExitRuntimeStats

record BusSnapshot =
  bs_exits :: "ExitSnapshot list"
  bs_metrics :: MetricsObserver
  bs_flows :: "FlowId \<rightharpoonup> FlowCounters"

definition collect_snapshot :: "Env \<Rightarrow> DispatchRuntime \<Rightarrow> MetricsObserver \<Rightarrow> BusSnapshot" where
  "collect_snapshot env rt metrics =
     \<lparr>bs_exits = map (\<lambda>(i, caps).
          \<lparr>sn_exit_id = i, sn_protocol = ca_protocol caps, sn_supports_stream = ca_supports_stream caps,
           sn_supports_datagram = ca_supports_datagram caps,
           sn_stats = (case rt_exit_stats rt i of None \<Rightarrow> stats_default | Some s \<Rightarrow> s)\<rparr>)
        (zip (en_ids env) (en_caps env)),
      bs_metrics = metrics,
      bs_flows = (\<lambda>f. Option.bind (rt_flow_counters rt f) (nth_opt (rt_counter_heap rt)))\<rparr>"

end
