(* ===== verification/Dispatch_Invariants.thy ===== *)
theory Dispatch_Invariants
  imports Dispatch "HOL-Library.Multiset"
begin

text \<open>
  Invariants of the dispatcher over arbitrary sequences of submitted frames, poll turns and forwarder
  closes. The locale \<open>dispatch_invariant\<close> says once what a property of the tables must survive to be
  an invariant of the bus: updates that leave the flow tables alone (\<open>same_core\<close>), the registration of a
  flow, and its removal. It is interpreted for the indices the dispatcher follows and for the accounting of
  active flows per source.
\<close>

section \<open>Environment\<close>

text \<open>What the bus relies on: every egress has its capabilities, and the answers of a replicated send are
  those of the sends, in some order.\<close>

definition env_ok :: "Env \<Rightarrow> bool" where
  "env_ok env \<longleftrightarrow> length (en_caps env) = length (en_ids env)
     \<and> (\<forall>es order. mset (en_arrival env es order) = mset order)"

lemma env_ok_arrival: "env_ok env \<Longrightarrow> set (en_arrival env es order) = set order"
  unfolding env_ok_def by (metis mset_eq_setD)

section \<open>Updates that leave the flow tables alone\<close>

definition same_core :: "Env \<Rightarrow> DispatchRuntime \<Rightarrow> DispatchRuntime \<Rightarrow> bool" where
  "same_core env rt rt' \<longleftrightarrow>
     rt_flow_states rt' = rt_flow_states rt \<and> rt_flow_counters rt' = rt_flow_counters rt
     \<and> length (rt_counter_heap rt') = length (rt_counter_heap rt)
     \<and> rt_source_activity rt' = rt_source_activity rt
     \<and> (\<forall>f i. rt_flow_pins rt' f = Some i \<longrightarrow> rt_flow_pins rt f = Some i \<or> i < length (en_ids env))
     \<and> (\<forall>k i fr. rt_active_polls rt' (k, i) = Some fr
          \<longrightarrow> (\<exists>fr'. rt_active_polls rt (k, i) = Some fr') \<or> i < length (en_ids env))"

named_theorems core

lemma same_core_refl [simp]: "same_core env rt rt"
  by (simp add: same_core_def)

lemma same_core_trans: "same_core env a b \<Longrightarrow> same_core env b c \<Longrightarrow> same_core env a c"
  unfolding same_core_def by (metis (no_types, lifting))

lemma same_core_emit [core]: "same_core env rt (emit e rt)"
  by (simp add: same_core_def emit_def)

lemma same_core_record [core]: "same_core env rt (record_dispatch env' rt result n)"
  by (simp add: same_core_def record_dispatch_def update_exit_stats_def Let_def)

lemma same_core_opened [core]: "same_core env rt (publish_flow_opened env' rt frame result shape)"
  by (simp add: publish_flow_opened_def core)

lemma same_core_io_error [core]: "same_core env rt (publish_path_io_error env' rt frame result t)"
  by (simp add: publish_path_io_error_def core)

lemma same_core_send_return_pid [core]:
  "same_core env rt (snd (send_return_with_packet_id r rt frame event pid))"
  by (simp add: send_return_with_packet_id_def Let_def same_core_def emit_def)

lemma same_core_send_return [core]: "same_core env rt (send_return rt frame event)"
  by (simp add: send_return_def core)

lemma same_core_probe [core]: "same_core env rt (reply_probe rt sid outcome)"
  by (simp add: same_core_def reply_probe_def emit_def)

lemma same_core_abort [core]: "same_core env rt (abort_session_polls rt sid)"
  by (simp add: same_core_def abort_session_polls_def)

lemma same_core_end_poll [core]: "same_core env rt (end_poll rt key)"
  by (simp add: same_core_def end_poll_def)

lemma same_core_add_up [core]: "same_core env rt (add_up_bytes rt addr n)"
  by (simp add: same_core_def add_up_bytes_def split: option.split)

lemma same_core_poll [core]: "idx < length (en_ids env) \<Longrightarrow> same_core env rt (ensure_stream_poll rt frame idx)"
  by (simp add: same_core_def ensure_stream_poll_def Let_def)

lemma same_core_pin [core]: "idx < length (en_ids env) \<Longrightarrow> same_core env rt (set_pin rt flow idx)"
  by (simp add: same_core_def set_pin_def)

lemma same_core_all_failed [core]: "same_core env rt (all_failed rt frame ev)"
  unfolding all_failed_def by (rule same_core_trans [OF same_core_probe same_core_emit])

lemma same_core_forwarders [core]:
  "same_core env rt (rt\<lparr>rt_forwarder_streams := a\<rparr>)" "same_core env rt (rt\<lparr>rt_forwarder_datagrams := b\<rparr>)"
  "same_core env rt (rt\<lparr>rt_forwarder_datagrams := b, rt_forwarder_streams := a\<rparr>)"
  "same_core env rt (rt\<lparr>rt_packet_returns := c\<rparr>)"
  by (simp_all add: same_core_def)

lemma same_core_unpin [core]: "same_core env rt (rt\<lparr>rt_flow_pins := (rt_flow_pins rt)(f := None)\<rparr>)"
  by (simp add: same_core_def)

lemma same_core_foldl:
  assumes "\<And>rt x. x \<in> set xs \<Longrightarrow> same_core env rt (f rt x)"
  shows "same_core env rt (foldl f rt xs)"
  using assms
proof (induction xs arbitrary: rt)
  case (Cons x xs)
  have "same_core env rt (f rt x)"
    by (rule Cons.prems) simp
  moreover have "same_core env (f rt x) (foldl f (f rt x) xs)"
    by (rule Cons.IH) (simp add: Cons.prems)
  ultimately show ?case
    by (simp add: same_core_trans [of env rt "f rt x"])
qed simp

lemma set_valid_order_from: "set (valid_order_from seen order n) = {i \<in> set order. i < n \<and> i \<notin> seen}"
  by (induction seen order n rule: valid_order_from.induct) auto

lemma set_valid_order [simp]: "set (valid_order order n) = {i \<in> set order. i < n}"
  by (simp add: valid_order_def set_valid_order_from)

lemma distinct_valid_order_from: "distinct (valid_order_from seen order n)"
  by (induction seen order n rule: valid_order_from.induct) (auto simp: set_valid_order_from)

lemma distinct_valid_order [simp]: "distinct (valid_order order n)"
  by (simp add: valid_order_def distinct_valid_order_from)

lemma same_core_answer:
  assumes "idx < length (en_ids env)"
  shows "same_core env (fst st) (fst (replicate_answer env frame sent st idx))"
proof -
  obtain rt b where st: "st = (rt, b)"
    by (cases st)
  define result where "result = en_send env sent idx (replica env frame idx)"
  define r1 where "r1 = record_dispatch env rt result (length (f_payload frame))"
  define r2 where "r2 = ensure_stream_poll r1 frame idx"
  define r3 where "r3 = set_pin r2 (f_flow_id frame) idx"
  have 1: "same_core env rt r1"
    by (simp add: r1_def core)
  have 2: "same_core env rt r2"
    by (rule same_core_trans [OF 1]) (simp add: r2_def core assms)
  have 3: "same_core env rt r3"
    by (rule same_core_trans [OF 2]) (simp add: r3_def core assms)
  have 4: "same_core env rt (send_return r3 frame ev)" for ev
    by (rule same_core_trans [OF 3]) (simp add: core)
  have 5: "same_core env rt (publish_path_io_error env r1 frame result False)"
    by (rule same_core_trans [OF 1]) (simp add: core)
  show ?thesis
    using 2 3 4 5 unfolding r3_def r2_def r1_def result_def
    by (simp add: replicate_answer_def st Let_def)
qed

lemma same_core_replicate [core]:
  assumes "env_ok env"
  shows "same_core env rt (dispatch_replicate env rt frame order)"
proof -
  define vo where "vo = valid_order order (length (en_ids env))"
  define r1 where "r1 = foldl (\<lambda>rt idx. emit (EfSend idx (replica env frame idx)) rt) rt vo"
  define arr where "arr = en_arrival env (rt_log r1) vo"
  define ans where "ans = foldl (replicate_answer env frame (rt_log r1)) (r1, False) arr"
  have 1: "same_core env rt r1"
    unfolding r1_def by (rule same_core_foldl) (simp add: core)
  have "set arr \<subseteq> {..<length (en_ids env)}"
    using env_ok_arrival [OF assms, of "rt_log r1" vo] by (auto simp: arr_def vo_def)
  then have "same_core env (fst st) (fst (foldl (replicate_answer env frame (rt_log r1)) st arr))" for st
  proof (induction arr arbitrary: st)
    case (Cons i arr)
    let ?st' = "replicate_answer env frame (rt_log r1) st i"
    have "same_core env (fst st) (fst ?st')"
      using Cons.prems by (intro same_core_answer) simp
    moreover have "same_core env (fst ?st') (fst (foldl (replicate_answer env frame (rt_log r1)) ?st' arr))"
      using Cons.prems by (intro Cons.IH) simp
    ultimately show ?case
      unfolding foldl_Cons by (rule same_core_trans)
  qed simp
  then have 2: "same_core env r1 (fst ans)"
    unfolding ans_def by (metis fst_conv)
  note 3 = same_core_trans [OF 1 2]
  note 4 = same_core_trans [OF 3 same_core_emit]
  show ?thesis
    unfolding dispatch_replicate_def Let_def vo_def [symmetric] r1_def [symmetric] arr_def [symmetric]
      ans_def [symmetric]
    using 3 4 by (simp add: case_prod_beta core)
qed

text \<open>One attempt of the ordered loop that goes through \<open>send\<close>, with the rest of the order to fall back on.\<close>

definition attempt_exit :: "Env \<Rightarrow> Frame \<Rightarrow> nat \<Rightarrow> nat list \<Rightarrow> DispatchRuntime \<Rightarrow> DispatchRuntime" where
  "attempt_exit env frame idx rest rt =
     (let result = en_send env (rt_log rt) idx frame;
          rt1 = record_dispatch env (emit (EfSend idx frame) rt) result (length (f_payload frame))
      in if er_success result then sent_ok env rt1 frame idx (shape_for env frame idx) result
         else ordered_loop env (publish_path_io_error env rt1 frame result True) frame rest
                (Some (er_return_event result)))"

lemma ordered_loop_Cons:
  "ordered_loop env rt frame (idx # rest) ev =
     (let frame' = replica env frame idx; shape = shape_for env frame' idx
      in if f_kind frame' = FkOpen \<and> shape = ShForwarder
         then (case try_open_forwarder_stream env rt frame' idx shape of
                 (FoHandled, rt1) \<Rightarrow> rt1
               | (FoFailed ev, rt1) \<Rightarrow> ordered_loop env rt1 frame' rest (Some ev)
               | (FoUnsupported, rt1) \<Rightarrow> attempt_exit env frame' idx rest rt1)
         else if f_kind frame' = FkOpen \<and> shape = ShDatagramForwarder
         then (case try_open_forwarder_datagram env rt frame' idx shape of
                 (PoHandled, rt1) \<Rightarrow> rt1
               | (PoFallback, rt1) \<Rightarrow> reply_probe rt1 (f_session_id frame') PoFallback
               | (PoFailed ev, rt1) \<Rightarrow> ordered_loop env rt1 frame' rest (Some ev))
         else attempt_exit env frame' idx rest rt)"
  unfolding ordered_loop.simps(2) Let_def attempt_exit_def replica_def by (rule refl)

section \<open>The contract of an invariant\<close>

locale dispatch_invariant =
  fixes env :: Env and I :: "nat \<Rightarrow> DispatchRuntime \<Rightarrow> bool" and okf :: "Frame \<Rightarrow> bool"
  assumes core_law: "I b rt \<Longrightarrow> same_core env rt rt' \<Longrightarrow> I b rt'"
    and more_law: "I b rt \<Longrightarrow> I (Suc b) rt"
    and register_law: "I b rt \<Longrightarrow> okf frame \<Longrightarrow> idx < length (en_ids env)
          \<Longrightarrow> I (Suc b) (snd (register_flow rt frame idx shape i))"
    and remove_law: "I b rt \<Longrightarrow> I b (snd (remove_flow_runtime_state env rt flow))"
    and okf_law: "f_flow_id frame' = f_flow_id frame \<Longrightarrow> f_source_key frame' = f_source_key frame
          \<Longrightarrow> okf frame' = okf frame"
begin

lemma close_keeps: "I b rt \<Longrightarrow> I b (close_flow_if_open env rt flow reason sid)"
  unfolding close_flow_if_open_def
  using remove_law [of b rt flow] core_law [OF _ same_core_emit]
  by (auto split: prod.split option.split)

lemma close_once_keeps: "I b rt \<Longrightarrow> I b (fst (close_once env rt fc reason))"
  unfolding close_once_def forwarder_cleanup_def Let_def
  using remove_law [of b rt "fw_flow_id fc"] core_law [OF _ same_core_emit] by simp

lemma poll_keeps: "I b rt \<Longrightarrow> I b (poll_turn env rt key shutdown receiving event)"
proof -
  assume rt: "I b rt"
  have sent: "I b rt1" if "send_return_with_packet_id receiving rt frame event pid = (d, rt1)" for frame pid d rt1
    using core_law [OF rt same_core_send_return_pid, of receiving frame event pid] that by simp
  show ?thesis
    unfolding poll_turn_def Let_def
    by (auto split: option.split ReturnEvent.split prod.split
        intro: rt sent core_law [OF _ same_core_end_poll] core_law [OF _ same_core_emit] close_keeps)
qed

lemma opened_keeps:
  assumes rt: "I b rt" and "okf frame" and idx: "idx < length (en_ids env)"
    and reg: "register_flow (set_pin (record_dispatch env (emit e rt) result n) flow idx) frame idx shape i = (addr, rt2)"
  shows "I (Suc b) rt2"
proof -
  have "I b (set_pin (record_dispatch env (emit e rt) result n) flow idx)"
    by (rule core_law [OF core_law [OF core_law [OF rt same_core_emit] same_core_record] same_core_pin [OF idx]])
  from register_law [OF this assms(2) idx, of shape i] reg show ?thesis
    by simp
qed

lemma refused_keeps: "I b rt \<Longrightarrow> I b (publish_path_io_error env (record_dispatch env (emit e rt) result n) frame result t)"
  by (rule core_law [OF core_law [OF core_law [OF _ same_core_emit] same_core_record] same_core_io_error])

lemma stream_keeps:
  assumes "I b rt" and "okf frame" and "idx < length (en_ids env)"
  shows "I (Suc b) (snd (try_open_forwarder_stream env rt frame idx shape))"
  using assms unfolding try_open_forwarder_stream_def Let_def
  by (auto split: option.split sum.split prod.split
      intro!: more_law [OF assms(1)] more_law [OF core_law [OF assms(1) same_core_emit]] more_law [OF refused_keeps]
        core_law [OF _ same_core_send_return] core_law [OF _ same_core_opened] core_law [OF _ same_core_forwarders(1)]
      dest: opened_keeps [OF assms])

lemma datagram_keeps:
  assumes "I b rt" and "okf frame" and "idx < length (en_ids env)"
  shows "I (Suc b) (snd (try_open_forwarder_datagram env rt frame idx shape))"
  using assms unfolding try_open_forwarder_datagram_def Let_def
  by (auto split: option.split sum.split prod.split
      intro!: more_law [OF assms(1)] more_law [OF core_law [OF assms(1) same_core_emit]] more_law [OF refused_keeps]
        core_law [OF _ same_core_probe] core_law [OF _ same_core_opened] core_law [OF _ same_core_forwarders(2)]
      dest: opened_keeps [OF assms])

lemma sent_keeps:
  assumes rt: "I b rt" and "okf frame" and idx: "idx < length (en_ids env)"
  shows "I (Suc b) (sent_ok env rt frame idx shape result)"
proof -
  note pin = core_law [OF rt same_core_pin [OF idx], of "f_flow_id frame"]
  note registered = register_law [OF pin assms(2) idx, of shape "er_exit_id result"]
  show ?thesis
    unfolding sent_ok_def Let_def
    by (auto split: option.split
        intro!: core_law [OF _ same_core_send_return] core_law [OF _ same_core_poll [OF idx]]
          core_law [OF registered same_core_opened] more_law [OF pin] more_law [OF core_law [OF pin same_core_add_up]])
qed

lemma stream_failed_keeps:
  assumes "I b rt" and "try_open_forwarder_stream env rt frame idx shape = (out, rt1)" and "out \<noteq> FoHandled"
  shows "I b rt1"
  using assms unfolding try_open_forwarder_stream_def Let_def
  by (auto split: option.splits sum.splits prod.splits if_splits
      intro: refused_keeps core_law [OF _ same_core_emit])

lemma datagram_failed_keeps:
  assumes "I b rt" and "try_open_forwarder_datagram env rt frame idx shape = (out, rt1)" and "out \<noteq> PoHandled"
  shows "I b rt1"
  using assms unfolding try_open_forwarder_datagram_def Let_def
  by (auto split: option.splits sum.splits prod.splits if_splits
      intro: refused_keeps core_law [OF _ same_core_emit])

lemma ordered_keeps:
  assumes "I b rt" and "okf frame" and "set order \<subseteq> {..<length (en_ids env)}"
  shows "I (Suc b) (ordered_loop env rt frame order ev)"
  using assms
proof (induction order arbitrary: rt frame ev)
  case Nil
  then show ?case
    by (simp add: more_law core_law [OF _ same_core_all_failed])
next
  case (Cons idx rest)
  define frame' where frame'_eq [symmetric]: "frame' = replica env frame idx"
  have ok': "okf frame'"
    using Cons.prems(2) okf_law [of frame' frame] by (simp add: frame'_eq [symmetric] replica_def)
  have idx: "idx < length (en_ids env)" and rest: "set rest \<subseteq> {..<length (en_ids env)}"
    using Cons.prems(3) by auto
  note again = Cons.IH [OF _ ok' rest]
  note stream = stream_keeps [OF Cons.prems(1) ok' idx] and datagram = datagram_keeps [OF Cons.prems(1) ok' idx]
  let ?attempt = "attempt_exit env frame' idx rest"
  have attempt: "I (Suc b) (?attempt r)" if "I b r" for r
    unfolding attempt_exit_def Let_def using that
    by (auto intro!: again refused_keeps sent_keeps ok' idx core_law [OF _ same_core_record] core_law [OF _ same_core_emit])
  define shape where shape_eq [symmetric]: "shape = shape_for env frame' idx"
  obtain os rs where os: "try_open_forwarder_stream env rt frame' idx shape = (os, rs)"
    by fastforce
  obtain od rd where od: "try_open_forwarder_datagram env rt frame' idx shape = (od, rd)"
    by fastforce
  note failed_s = stream_failed_keeps [OF Cons.prems(1) os] and failed_d = datagram_failed_keeps [OF Cons.prems(1) od]
  have s: "I (Suc b) rs" and d: "I (Suc b) rd"
    using stream [of shape] datagram [of shape] os od by simp_all
  show ?case
    unfolding ordered_loop_Cons frame'_eq Let_def shape_eq os od
    by (cases os; cases od) (simp_all add: s d failed_s failed_d again attempt Cons.prems(1) core_law [OF d same_core_probe])
qed

lemma forwarder_frame_keeps: "I b rt \<Longrightarrow> I b (dispatch_forwarder_frame env rt frame st)"
  unfolding dispatch_forwarder_frame_def Let_def
  by (auto intro!: close_keeps refused_keeps core_law [OF _ same_core_emit] core_law [OF _ same_core_add_up]
      core_law [OF _ same_core_send_return] core_law [OF _ same_core_record])

lemma dispatch_close_keeps: "I b rt \<Longrightarrow> I b (dispatch_close env rt frame)"
  unfolding dispatch_close_def Let_def
  by (auto split: option.split intro!: close_keeps core_law [OF _ same_core_emit] core_law [OF _ same_core_forwarders(3)]
      core_law [OF _ same_core_forwarders(4)] core_law [OF _ same_core_abort] core_law [OF _ same_core_unpin])

lemma scheduled_keeps: "env_ok env \<Longrightarrow> I b rt \<Longrightarrow> okf frame \<Longrightarrow> I (Suc b) (dispatch_scheduled env rt frame)"
  unfolding dispatch_scheduled_def Let_def dispatch_ordered_def
  by (auto split: prod.split ScheduleDecision.split intro!: ordered_keeps more_law [OF core_law [OF _ same_core_replicate]])

lemma dispatch_keeps:
  assumes "I b rt" and "okf frame" and "env_ok env"
  shows "I (Suc b) (dispatch env rt frame)"
proof -
  have "okf (frame\<lparr>f_ttl := f_ttl frame - 1\<rparr>)"
    using assms(2) okf_law [of "frame\<lparr>f_ttl := f_ttl frame - 1\<rparr>" frame] by simp
  then show ?thesis
    unfolding dispatch_def Let_def using assms(1,3)
    by (auto split: option.split simp: scheduled_keeps
        intro: more_law [OF core_law [OF _ same_core_emit]] more_law [OF dispatch_close_keeps]
          more_law [OF forwarder_frame_keeps])
qed

lemma input_keeps:
  "env_ok env \<Longrightarrow> I b rt \<Longrightarrow> (\<forall>frame. x = BiFrame frame \<longrightarrow> okf frame) \<Longrightarrow> I (Suc b) (bus_input env rt x)"
  by (cases x) (simp_all add: dispatch_keeps more_law poll_keeps close_once_keeps)

lemma run_keeps:
  assumes "I b rt" and "\<forall>frame. BiFrame frame \<in> set inputs \<longrightarrow> okf frame" and "env_ok env"
  shows "I (b + length inputs) (bus_run env rt inputs)"
  using assms
proof (induction inputs arbitrary: b rt)
  case (Cons x inputs)
  have "I (Suc b) (bus_input env rt x)"
    using Cons.prems by (intro input_keeps) auto
  from Cons.IH [OF this] Cons.prems(2,3) show ?case
    by (simp add: bus_run_def)
qed (simp add: bus_run_def)

end

section \<open>Indices and shared counters\<close>

text \<open>Every index the dispatcher follows into the egress list is in range, and the counters of an open flow
  are the object the counter table holds for it.\<close>

definition runtime_ok :: "Env \<Rightarrow> DispatchRuntime \<Rightarrow> bool" where
  "runtime_ok env rt \<longleftrightarrow>
     (\<forall>f i. rt_flow_pins rt f = Some i \<longrightarrow> i < length (en_ids env))
     \<and> (\<forall>k i fr. rt_active_polls rt (k, i) = Some fr \<longrightarrow> i < length (en_ids env))
     \<and> (\<forall>f st. rt_flow_states rt f = Some st \<longrightarrow>
          fs_sink_idx st < length (en_ids env) \<and> rt_flow_counters rt f = Some (fs_counters st))
     \<and> (\<forall>f a. rt_flow_counters rt f = Some a \<longrightarrow> a < length (rt_counter_heap rt))
     \<and> inj_on (rt_flow_counters rt) (dom (rt_flow_counters rt))"

lemma runtime_ok_new: "runtime_ok env runtime_new"
  by (simp add: runtime_ok_def runtime_new_def)

lemma runtime_ok_core: "runtime_ok env rt \<Longrightarrow> same_core env rt rt' \<Longrightarrow> runtime_ok env rt'"
  unfolding runtime_ok_def same_core_def by (elim conjE, intro conjI) (simp_all, blast+)

lemma mark_open_fields [simp]:
  "rt_flow_pins (mark_open rt k) = rt_flow_pins rt" "rt_active_polls (mark_open rt k) = rt_active_polls rt"
  "rt_flow_states (mark_open rt k) = rt_flow_states rt" "rt_flow_counters (mark_open rt k) = rt_flow_counters rt"
  "rt_counter_heap (mark_open rt k) = rt_counter_heap rt"
  by (simp_all add: mark_open_def Let_def split: option.split)

lemma mark_closed_fields [simp]:
  "rt_flow_pins (mark_closed env rt k) = rt_flow_pins rt" "rt_active_polls (mark_closed env rt k) = rt_active_polls rt"
  "rt_flow_states (mark_closed env rt k) = rt_flow_states rt" "rt_flow_counters (mark_closed env rt k) = rt_flow_counters rt"
  "rt_counter_heap (mark_closed env rt k) = rt_counter_heap rt"
  by (simp_all add: mark_closed_def split: option.split)

lemma register_flow_fields:
  "rt_flow_pins (snd (register_flow rt frame idx shape i)) = rt_flow_pins rt"
  "rt_active_polls (snd (register_flow rt frame idx shape i)) = rt_active_polls rt"
  by (simp_all add: register_flow_def Let_def split: option.split)

lemma register_flow_tables:
  "\<exists>addr heap. rt_flow_counters (snd (register_flow rt frame idx shape i)) = (rt_flow_counters rt)(f_flow_id frame \<mapsto> addr)
     \<and> rt_counter_heap (snd (register_flow rt frame idx shape i)) = rt_counter_heap rt @ heap
     \<and> rt_flow_states (snd (register_flow rt frame idx shape i)) = (rt_flow_states rt)(f_flow_id frame \<mapsto>
          \<lparr>fs_shape = shape, fs_sink_idx = idx, fs_exit_id = i, fs_counters = addr, fs_source_key = f_source_key frame\<rparr>)
     \<and> (rt_flow_counters rt (f_flow_id frame) = Some addr
        \<or> rt_flow_counters rt (f_flow_id frame) = None \<and> addr = length (rt_counter_heap rt) \<and> heap = [flow_counters_new])"
  (is "\<exists>addr heap. ?P addr heap")
proof (cases "rt_flow_counters rt (f_flow_id frame)")
  case None
  then have "?P (length (rt_counter_heap rt)) [flow_counters_new]"
    by (simp add: register_flow_def Let_def)
  then show ?thesis
    by blast
next
  case (Some a)
  then have "?P a []"
    by (simp add: register_flow_def Let_def fun_upd_idem)
  then show ?thesis
    by blast
qed

lemma runtime_ok_register:
  assumes ok: "runtime_ok env rt" and idx: "idx < length (en_ids env)"
  shows "runtime_ok env (snd (register_flow rt frame idx shape i))"
proof -
  let ?r = "snd (register_flow rt frame idx shape i)" and ?f = "f_flow_id frame"
  obtain addr heap where c: "rt_flow_counters ?r = (rt_flow_counters rt)(?f \<mapsto> addr)"
    and h: "rt_counter_heap ?r = rt_counter_heap rt @ heap"
    and s: "rt_flow_states ?r = (rt_flow_states rt)(?f \<mapsto>
          \<lparr>fs_shape = shape, fs_sink_idx = idx, fs_exit_id = i, fs_counters = addr, fs_source_key = f_source_key frame\<rparr>)"
    and a: "rt_flow_counters rt ?f = Some addr
        \<or> rt_flow_counters rt ?f = None \<and> addr = length (rt_counter_heap rt) \<and> heap = [flow_counters_new]"
    using register_flow_tables [of rt frame idx shape i] by blast
  have bounds: "rt_flow_counters rt f = Some x \<Longrightarrow> x < length (rt_counter_heap rt)" for f x
    using ok by (simp add: runtime_ok_def)
  have fresh: "rt_flow_counters rt f \<noteq> Some addr" if "f \<noteq> ?f" for f
  proof
    assume "rt_flow_counters rt f = Some addr"
    with a bounds [of f addr] have "rt_flow_counters rt ?f = rt_flow_counters rt f"
      by auto
    with \<open>rt_flow_counters rt f = Some addr\<close> ok that show False
      unfolding runtime_ok_def by (metis (no_types, lifting) domI inj_onD)
  qed
  have "inj_on (rt_flow_counters ?r) (dom (rt_flow_counters ?r))"
    unfolding c using ok fresh
    by (auto simp: runtime_ok_def inj_on_def dom_def)
  moreover have "addr < length (rt_counter_heap ?r)"
    using a bounds [of ?f addr] by (auto simp: h)
  ultimately show ?thesis
    using ok idx unfolding runtime_ok_def register_flow_fields c h s
    by (auto simp: trans_less_add1)
qed

lemma remove_flow_fields:
  "rt_flow_states (snd (remove_flow_runtime_state env rt f)) = (rt_flow_states rt)(f := None)"
  "rt_flow_counters (snd (remove_flow_runtime_state env rt f)) = (rt_flow_counters rt)(f := None)"
  "rt_flow_pins (snd (remove_flow_runtime_state env rt f)) = (rt_flow_pins rt)(f := None)"
  "rt_active_polls (snd (remove_flow_runtime_state env rt f)) = rt_active_polls rt"
  "rt_counter_heap (snd (remove_flow_runtime_state env rt f)) = rt_counter_heap rt"
  by (simp_all add: remove_flow_runtime_state_def Let_def split: option.split)

lemma runtime_ok_remove: "runtime_ok env rt \<Longrightarrow> runtime_ok env (snd (remove_flow_runtime_state env rt f))"
  unfolding runtime_ok_def remove_flow_fields
  by (auto simp: inj_on_def split: if_splits)

section \<open>Active flows per source\<close>

text \<open>\<open>flows_of\<close> are the open flows of a source key. The activity of a source is exact when its entry counts
  them, and carries an idle time exactly while there are none.\<close>

definition flows_of :: "DispatchRuntime \<Rightarrow> string \<Rightarrow> FlowId set" where
  "flows_of rt k = {f. \<exists>st. rt_flow_states rt f = Some st \<and> fs_source_key st = Some k}"

definition activity_exact :: "DispatchRuntime \<Rightarrow> string \<Rightarrow> bool" where
  "activity_exact rt k =
     (case rt_source_activity rt k of
        None \<Rightarrow> flows_of rt k = {}
      | Some a \<Rightarrow> sa_active_flows a = card (flows_of rt k) \<and> (sa_idle_since_ms a = None \<longleftrightarrow> flows_of rt k \<noteq> {}))"

definition activity_inv :: "(FlowId \<Rightarrow> string option) \<Rightarrow> nat \<Rightarrow> DispatchRuntime \<Rightarrow> bool" where
  "activity_inv src b rt \<longleftrightarrow>
     (b \<le> u32_max \<longrightarrow> finite (dom (rt_flow_states rt)) \<and> card (dom (rt_flow_states rt)) \<le> b
       \<and> (\<forall>f st. rt_flow_states rt f = Some st \<longrightarrow> fs_source_key st = src f) \<and> (\<forall>k. activity_exact rt k))"

lemma activity_exact_cong:
  "rt_source_activity rt' k = rt_source_activity rt k \<Longrightarrow> flows_of rt' k = flows_of rt k
     \<Longrightarrow> activity_exact rt' k = activity_exact rt k"
  by (auto simp: activity_exact_def split: option.split)

lemma flows_of_dom: "flows_of rt k \<subseteq> dom (rt_flow_states rt)"
  by (auto simp: flows_of_def)

lemma activity_inv_new: "activity_inv src 0 runtime_new"
  by (simp add: activity_inv_def runtime_new_def activity_exact_def flows_of_def)

lemma activity_inv_core: "activity_inv src b rt \<Longrightarrow> same_core env rt rt' \<Longrightarrow> activity_inv src b rt'"
proof -
  assume core: "same_core env rt rt'" and inv: "activity_inv src b rt"
  have "flows_of rt' = flows_of rt"
    using core by (simp add: fun_eq_iff flows_of_def same_core_def)
  moreover have "rt_source_activity rt' = rt_source_activity rt"
    using core by (simp add: same_core_def)
  ultimately have "activity_exact rt' k = activity_exact rt k" for k
    by (intro activity_exact_cong) simp_all
  with core inv show ?thesis
    by (simp add: activity_inv_def same_core_def)
qed

lemma activity_inv_more: "activity_inv src b rt \<Longrightarrow> activity_inv src (Suc b) rt"
  by (auto simp: activity_inv_def)

lemma register_flow_activity:
  "rt_source_activity (snd (register_flow rt frame idx shape i)) =
     (if rt_flow_states rt (f_flow_id frame) = None then rt_source_activity (mark_open rt (f_source_key frame))
      else rt_source_activity rt)"
  by (auto simp: register_flow_def Let_def mark_open_def entry_or_default_def split: option.split)

lemma register_flow_states:
  "\<exists>st. rt_flow_states (snd (register_flow rt frame idx shape i)) = (rt_flow_states rt)(f_flow_id frame \<mapsto> st)
     \<and> fs_source_key st = f_source_key frame"
  using register_flow_tables [of rt frame idx shape i] by (elim exE conjE) (intro exI conjI, assumption, simp)

lemma flows_of_register:
  "flows_of (snd (register_flow rt frame idx shape i)) k =
     (if f_source_key frame = Some k then insert (f_flow_id frame) (flows_of rt k)
      else flows_of rt k - {f_flow_id frame})"
proof -
  obtain st where s: "rt_flow_states (snd (register_flow rt frame idx shape i)) = (rt_flow_states rt)(f_flow_id frame \<mapsto> st)"
    and "fs_source_key st = f_source_key frame"
    using register_flow_states by blast
  then show ?thesis
    unfolding flows_of_def s by auto
qed

lemma activity_register:
  assumes inv: "activity_inv src b rt" and src: "f_source_key frame = src (f_flow_id frame)"
  shows "activity_inv src (Suc b) (snd (register_flow rt frame idx shape i))"
  unfolding activity_inv_def
proof (intro impI conjI allI)
  assume b: "Suc b \<le> u32_max"
  let ?r = "snd (register_flow rt frame idx shape i)" and ?f = "f_flow_id frame"
  have fin: "finite (dom (rt_flow_states rt))" and card: "card (dom (rt_flow_states rt)) \<le> b"
    and keys: "\<And>f st. rt_flow_states rt f = Some st \<Longrightarrow> fs_source_key st = src f"
    and exact: "\<And>k. activity_exact rt k"
    using inv b by (auto simp: activity_inv_def)
  obtain st0 where s: "rt_flow_states ?r = (rt_flow_states rt)(?f \<mapsto> st0)" and s0: "fs_source_key st0 = f_source_key frame"
    using register_flow_states by blast
  have dom: "dom (rt_flow_states ?r) = insert ?f (dom (rt_flow_states rt))"
    by (simp add: s)
  show "finite (dom (rt_flow_states ?r))" and "card (dom (rt_flow_states ?r)) \<le> Suc b"
    using fin card by (simp_all add: dom card_insert_if)
  show "fs_source_key st = src f" if "rt_flow_states ?r f = Some st" for f st
    using that s0 src keys [of f st] by (cases "f = ?f") (simp_all add: s)
  show "activity_exact ?r k" for k
  proof (cases "rt_flow_states rt ?f = None")
    case True
    then have new: "?f \<notin> flows_of rt k"
      by (simp add: flows_of_def)
    have le: "card (flows_of rt k) < u32_max" and fink: "finite (flows_of rt k)"
      using card_mono [OF fin flows_of_dom, of k] card b finite_subset [OF flows_of_dom fin] by auto
    show ?thesis
    proof (cases "f_source_key frame = Some k")
      case key: True
      have n: "sa_active_flows (entry_or_default (rt_source_activity rt) k) = card (flows_of rt k)"
        using exact [of k]
        by (cases "rt_source_activity rt k") (simp_all add: activity_exact_def entry_or_default_def activity_default_def)
      have "rt_source_activity ?r k = Some \<lparr>sa_active_flows = Suc (card (flows_of rt k)), sa_idle_since_ms = None\<rparr>"
        using True key n le by (simp add: register_flow_activity mark_open_def Let_def sat_add32_def)
      moreover have "flows_of ?r k = insert ?f (flows_of rt k)"
        using key by (simp add: flows_of_register)
      ultimately show ?thesis
        using new fink by (simp add: activity_exact_def)
    next
      case key: False
      have "activity_exact ?r k = activity_exact rt k"
        using True key new
        by (intro activity_exact_cong)
          (simp_all add: register_flow_activity flows_of_register mark_open_def Let_def split: option.split)
      with exact [of k] show ?thesis
        by simp
    qed
  next
    case False
    then obtain st where "rt_flow_states rt ?f = Some st"
      by blast
    with keys [OF this] src have "?f \<in> flows_of rt k \<longleftrightarrow> f_source_key frame = Some k"
      by (simp add: flows_of_def)
    then have "flows_of ?r k = flows_of rt k"
      by (simp add: flows_of_register insert_absorb)
    with False have "activity_exact ?r k = activity_exact rt k"
      by (intro activity_exact_cong) (auto simp: register_flow_activity)
    with exact [of k] show ?thesis
      by simp
  qed
qed

interpretation indices: dispatch_invariant env "\<lambda>_. runtime_ok env" "\<lambda>_. True" for env
  by unfold_locales (auto intro: runtime_ok_core runtime_ok_register runtime_ok_remove)

lemma flows_of_remove: "flows_of (snd (remove_flow_runtime_state env rt f)) k = flows_of rt k - {f}"
  by (auto simp: flows_of_def remove_flow_fields)

lemma remove_flow_activity:
  "rt_source_activity (snd (remove_flow_runtime_state env rt f)) =
     (case rt_flow_states rt f of
        None \<Rightarrow> rt_source_activity rt
      | Some st \<Rightarrow> (case fs_source_key st of
           None \<Rightarrow> rt_source_activity rt
         | Some k \<Rightarrow> mark_closed_in_table (rt_source_activity rt) k (en_clock env (rt_log rt))))"
  by (simp add: remove_flow_runtime_state_def Let_def mark_closed_def split: option.split)

lemma activity_exact_remove:
  assumes exact: "activity_exact rt k" and fin: "finite (flows_of rt k)"
  shows "activity_exact (snd (remove_flow_runtime_state env rt f)) k"
proof (cases "f \<in> flows_of rt k")
  case True
  then obtain st where st: "rt_flow_states rt f = Some st" "fs_source_key st = Some k"
    by (auto simp: flows_of_def)
  obtain a where a: "rt_source_activity rt k = Some a" "sa_active_flows a = card (flows_of rt k)" "sa_idle_since_ms a = None"
    using exact True by (auto simp: activity_exact_def split: option.splits)
  have n: "card (flows_of rt k - {f}) = card (flows_of rt k) - 1"
    using True by (simp add: card_Diff_singleton)
  then have one: "flows_of rt k - {f} = {} \<longleftrightarrow> card (flows_of rt k) - 1 = 0"
    using fin by (metis card_0_eq finite_Diff)
  have "rt_source_activity (snd (remove_flow_runtime_state env rt f)) k =
      Some \<lparr>sa_active_flows = card (flows_of rt k) - 1,
            sa_idle_since_ms = (if card (flows_of rt k) - 1 = 0 then Some (en_clock env (rt_log rt)) else None)\<rparr>"
    using st a by (simp add: remove_flow_activity mark_closed_in_table_def Let_def entry_or_default_def)
  then show ?thesis
    unfolding activity_exact_def flows_of_remove one n by simp
next
  case False
  have "rt_source_activity (snd (remove_flow_runtime_state env rt f)) k = rt_source_activity rt k"
    using False by (auto simp: remove_flow_activity flows_of_def mark_closed_in_table_def Let_def split: option.split)
  moreover have "flows_of (snd (remove_flow_runtime_state env rt f)) k = flows_of rt k"
    using False by (simp add: flows_of_remove)
  ultimately have "activity_exact (snd (remove_flow_runtime_state env rt f)) k = activity_exact rt k"
    by (rule activity_exact_cong)
  with exact show ?thesis
    by simp
qed

lemma activity_remove:
  assumes "activity_inv src b rt"
  shows "activity_inv src b (snd (remove_flow_runtime_state env rt f))"
  using assms card_mono [OF _ Diff_subset, of "dom (rt_flow_states rt)" "{f}"] finite_subset [OF flows_of_dom]
  unfolding activity_inv_def
  by (auto simp: remove_flow_fields split: if_splits intro: activity_exact_remove)

interpretation activity: dispatch_invariant env "activity_inv src" "\<lambda>frame. f_source_key frame = src (f_flow_id frame)"
  for env src
  by unfold_locales
    (auto intro: activity_inv_core activity_inv_more activity_register activity_remove)

section \<open>Properties\<close>

text \<open>A bus with two stream exits, of which the first refuses every frame, and the frames of one flow.\<close>

definition sample_env :: Env where
  "sample_env =
     \<lparr>en_ids = [''a'', ''b''],
      en_caps = [\<lparr>ca_protocol = ''tcp'', ca_supports_stream = True, ca_supports_datagram = False,
                  ca_max_payload_bytes = None, ca_groups = [''g'']\<rparr>,
                 \<lparr>ca_protocol = ''tcp'', ca_supports_stream = True, ca_supports_datagram = False,
                  ca_max_payload_bytes = None, ca_groups = [''g'']\<rparr>],
      en_send = (\<lambda>_ i _. if i = 0
          then \<lparr>er_exit_id = ''a'', er_success = False, er_rtt_ms = 1, er_local_endpoint = None,
                er_return_event = RvClosed ClConnectionRefused\<rparr>
          else \<lparr>er_exit_id = ''b'', er_success = True, er_rtt_ms = 1, er_local_endpoint = None,
                er_return_event = RvIdle\<rparr>),
      en_open_stream = (\<lambda>_ _ _. None), en_open_datagram = (\<lambda>_ _ _. None),
      en_schedule = (\<lambda>_ candidates _. SdOrdered [0..<length candidates]),
      en_score = (\<lambda>_ _ _ _. 1), en_clock = length, en_unhealthy = (\<lambda>_. {}),
      en_arrival = (\<lambda>_ order. order)\<rparr>"

definition sample_frame :: "FrameKind \<Rightarrow> Frame" where
  "sample_frame kind =
     \<lparr>f_packet_id = 1, f_flow_id = ''f'', f_session_id = ''s'', f_seq = 0, f_kind = kind, f_payload = [],
      f_target = \<lparr>ep_host = ''h'', ep_port = 80\<rparr>, f_ttl = 8, f_traffic_class = TcInteractive, f_policy_ref = None,
      f_deadline_ms = None, f_schedule_hint = ShAuto, f_path_trace = [], f_flow_semantics = FlByteStream,
      f_return_semantics = ReDirect, f_source_key = Some ''client'', f_target_key = None, f_route_group = Some ''g'',
      f_target_sink = None\<rparr>"

lemma sample_env_ok: "env_ok sample_env"
  by (simp add: env_ok_def sample_env_def)

text \<open>C21: Every index the dispatcher uses to reach an egress (the pin of a flow, the sink of an open flow, the
  key of a poll task) is in range after any sequence of frames, poll turns and forwarder closes; and each open
  flow shares its byte counters with the counter table, no two flows sharing one.\<close>
theorem bus_indices_safe:
  assumes "env_ok env"
  shows "runtime_ok env (bus_run env runtime_new inputs)"
  using indices.run_keeps [OF runtime_ok_new _ assms] by simp

theorem bus_indices_safe_witness:
  "env_ok sample_env
   \<and> runtime_ok sample_env (bus_run sample_env runtime_new [BiFrame (sample_frame FkOpen), BiFrame (sample_frame FkData)])"
  using bus_indices_safe [OF sample_env_ok] sample_env_ok by blast

text \<open>C22: When every frame of a flow carries the same source key, the activity table is exact after any sequence
  of inputs short enough for a 32-bit count: the entry of a source counts exactly its open flows, and it has an
  idle time exactly when it has none.\<close>
theorem source_activity_exact:
  assumes "env_ok env" and "length inputs \<le> u32_max"
    and "\<forall>frame. BiFrame frame \<in> set inputs \<longrightarrow> f_source_key frame = src (f_flow_id frame)"
  shows "activity_exact (bus_run env runtime_new inputs) k"
  using activity.run_keeps [OF activity_inv_new assms(3) assms(1)] assms(2) by (simp add: activity_inv_def)

theorem source_activity_exact_witness:
  "activity_exact (bus_run sample_env runtime_new [BiFrame (sample_frame FkOpen), BiFrame (sample_frame FkClose)]) ''client''"
  by (rule source_activity_exact [OF sample_env_ok, where src = "\<lambda>_. Some ''client''"])
    (auto simp: u32_max_def sample_frame_def)

end
