(* ===== verification/Dispatch_Routing.thy ===== *)
theory Dispatch_Routing
  imports Dispatch_Invariants
begin

text \<open>
  Where the dispatcher sends a frame. \<open>attempts\<close> lists the sends and forwarder opens of a log. A frame that
  is scheduled only reaches exits that carry its flow semantics, are in its route group and are its target sink;
  an exit is sent the frame at most once, and before that asked at most once to open the flow itself; and the exits get
  the frame itself, with its time to live decremented. The last section shows what the health snapshot does to frames
  that are bound to one exit and whose flow is not open.
\<close>

section \<open>Attempts\<close>

text \<open>An exit is asked to open a forwarder for the frame, or it is sent the frame.\<close>

datatype Try = TryOpen | TrySend

definition attempt_of :: "Effect \<Rightarrow> (nat \<times> Try \<times> Frame) option" where
  "attempt_of e = (case e of EfSend i f \<Rightarrow> Some (i, TrySend, f) | EfOpen i f \<Rightarrow> Some (i, TryOpen, f) | _ \<Rightarrow> None)"

definition attempts :: "DispatchRuntime \<Rightarrow> (nat \<times> Try \<times> Frame) list" where
  "attempts rt = List.map_filter attempt_of (rt_log rt)"

named_theorems att

lemma attempts_emit [att]: "attempts (emit e rt) = attempts rt @ (case attempt_of e of None \<Rightarrow> [] | Some a \<Rightarrow> [a])"
  by (simp add: attempts_def emit_def List.map_filter_def split: option.split)

lemma attempt_of_simps [att]:
  "attempt_of (EfSend i f) = Some (i, TrySend, f)" "attempt_of (EfOpen i f) = Some (i, TryOpen, f)"
  "attempt_of (EfClose i s) = None" "attempt_of (EfReturn ev) = None"
  "attempt_of (EfPublish ty p) = None" "attempt_of (EfProbe s outcome) = None"
  by (simp_all add: attempt_of_def)

lemma attempts_log: "rt_log rt' = rt_log rt \<Longrightarrow> attempts rt' = attempts rt"
  by (simp add: attempts_def)

lemma attempts_record [att]: "attempts (record_dispatch env rt result n) = attempts rt"
  by (rule attempts_log) (simp add: record_dispatch_def update_exit_stats_def Let_def)

lemma attempts_opened [att]: "attempts (publish_flow_opened env rt frame result shape) = attempts rt"
  by (simp add: publish_flow_opened_def att)

lemma attempts_io_error [att]: "attempts (publish_path_io_error env rt frame result t) = attempts rt"
  by (simp add: publish_path_io_error_def att)

lemma attempts_send_return [att]: "attempts (send_return rt frame event) = attempts rt"
proof -
  have "attempts (rt\<lparr>rt_packet_returns := x\<rparr>) = attempts rt" for x
    by (rule attempts_log) simp
  then show ?thesis
    by (simp add: send_return_def send_return_with_packet_id_def Let_def att)
qed

lemma attempts_probe [att]: "attempts (reply_probe rt sid outcome) = attempts rt"
proof -
  have "attempts (rt\<lparr>rt_probe_channels := x\<rparr>) = attempts rt" for x
    by (rule attempts_log) simp
  then show ?thesis
    by (simp add: reply_probe_def att)
qed

lemma attempts_poll [att]: "attempts (ensure_stream_poll rt frame idx) = attempts rt"
  by (rule attempts_log) (simp add: ensure_stream_poll_def Let_def)

lemma attempts_pin [att]: "attempts (set_pin rt flow idx) = attempts rt"
  by (rule attempts_log) (simp add: set_pin_def)

lemma attempts_add_up [att]: "attempts (add_up_bytes rt addr n) = attempts rt"
  by (rule attempts_log) (simp add: add_up_bytes_def split: option.split)

lemma attempts_register [att]: "attempts (snd (register_flow rt frame idx shape i)) = attempts rt"
  by (rule attempts_log) (simp add: register_flow_def Let_def mark_open_def split: option.split)

lemma attempts_forwarders [att]:
  "attempts (rt\<lparr>rt_forwarder_streams := a\<rparr>) = attempts rt" "attempts (rt\<lparr>rt_forwarder_datagrams := b\<rparr>) = attempts rt"
  by (rule attempts_log, simp)+

lemma attempts_all_failed [att]: "attempts (all_failed rt frame ev) = attempts rt"
  by (simp add: all_failed_def att)

lemma attempts_sent_ok [att]: "attempts (sent_ok env rt frame idx shape result) = attempts rt"
  by (simp add: sent_ok_def Let_def att split: option.split)

lemma attempts_stream:
  assumes "f_kind frame = FkOpen"
  shows "attempts (snd (try_open_forwarder_stream env rt frame idx ShForwarder)) = attempts rt @ [(idx, TryOpen, frame)]"
  using assms
  by (auto simp: try_open_forwarder_stream_def Let_def case_prod_beta att split: option.split sum.split)

lemma attempts_datagram:
  assumes "f_kind frame = FkOpen"
  shows "attempts (snd (try_open_forwarder_datagram env rt frame idx ShDatagramForwarder)) = attempts rt @ [(idx, TryOpen, frame)]"
  using assms
  by (auto simp: try_open_forwarder_datagram_def Let_def case_prod_beta att split: option.split sum.split)

lemma attempts_replicate_sends:
  "attempts (foldl (\<lambda>rt idx. emit (EfSend idx (replica env frame idx)) rt) rt order) =
     attempts rt @ map (\<lambda>i. (i, TrySend, replica env frame i)) order"
  by (induction order arbitrary: rt) (simp_all add: att)

lemma attempts_answer [att]: "attempts (fst (replicate_answer env frame sent st idx)) = attempts (fst st)"
  by (simp add: replicate_answer_def Let_def case_prod_beta att)

lemma attempts_answers: "attempts (fst (foldl (replicate_answer env frame sent) st order)) = attempts (fst st)"
  by (induction order arbitrary: st) (simp_all add: att)

lemma attempts_replicate:
  "attempts (dispatch_replicate env rt frame order) =
     attempts rt @ map (\<lambda>i. (i, TrySend, replica env frame i)) (valid_order order (length (en_ids env)))"
  by (simp add: dispatch_replicate_def Let_def case_prod_beta att attempts_answers attempts_replicate_sends)

section \<open>The trials of an ordered dispatch\<close>

text \<open>The frame an exit gets is the dispatched one up to its path trace and, when it is replicated, its return
  semantics.\<close>

definition same_frame :: "Frame \<Rightarrow> Frame \<Rightarrow> bool" where
  "same_frame f g \<longleftrightarrow>
     f\<lparr>f_path_trace := [], f_return_semantics := ReDirect\<rparr> = g\<lparr>f_path_trace := [], f_return_semantics := ReDirect\<rparr>"

text \<open>Two attempts at one exit are a request to open followed by a send, so there are at most two.\<close>

definition tried_once :: "(nat \<times> Try \<times> Frame) list \<Rightarrow> bool" where
  "tried_once new \<longleftrightarrow> sorted_wrt (\<lambda>(i, k, _) (j, l, _). i = j \<longrightarrow> k = TryOpen \<and> l = TrySend) new"

definition trials :: "Frame \<Rightarrow> nat list \<Rightarrow> (nat \<times> Try \<times> Frame) list \<Rightarrow> bool" where
  "trials frame order new \<longleftrightarrow>
     (\<exists>m. remdups_adj (map fst new) = take m order) \<and> tried_once new
     \<and> (\<forall>(i, k, f) \<in> set new. same_frame f frame \<and> (k = TryOpen \<longrightarrow> f_kind frame = FkOpen))"

lemma same_frame_replica [simp]: "same_frame (replica env frame i) frame"
  by (simp add: same_frame_def replica_def)

lemma trials_Nil [simp]: "trials frame order []"
  by (auto simp: trials_def tried_once_def intro: exI [of _ 0])

lemma replica_kind [simp]: "f_kind (replica env frame i) = f_kind frame"
  by (simp add: replica_def)

lemma tried_once_sends: "distinct order \<Longrightarrow> tried_once (map (\<lambda>i. (i, TrySend, g i)) order)"
  by (induction order) (auto simp: tried_once_def)

text \<open>The attempts at one exit.\<close>

definition tries_at :: "nat \<Rightarrow> Frame \<Rightarrow> (nat \<times> Try \<times> Frame) list \<Rightarrow> bool" where
  "tries_at idx f pre \<longleftrightarrow> pre = [(idx, TrySend, f)] \<or>
     f_kind f = FkOpen \<and> (pre = [(idx, TryOpen, f)] \<or> pre = [(idx, TryOpen, f), (idx, TrySend, f)])"

lemma remdups_adj_Cons_other: "x \<noteq> hd ys \<or> ys = [] \<Longrightarrow> remdups_adj (x # ys) = x # remdups_adj ys"
  by (cases ys) auto

lemma trials_Cons:
  assumes "trials (replica env frame idx) rest new" and "idx \<notin> set rest" and "tries_at idx (replica env frame idx) pre"
  shows "trials frame (idx # rest) (pre @ new)"
proof -
  from assms(1) obtain m where m: "remdups_adj (map fst new) = take m rest" and once: "tried_once new"
    and same: "\<forall>(i, k, f) \<in> set new. same_frame f (replica env frame idx) \<and> (k = TryOpen \<longrightarrow> f_kind frame = FkOpen)"
    by (auto simp: trials_def)
  have sub: "set (map fst new) \<subseteq> set rest"
    using m by (metis remdups_adj_set set_take_subset)
  then have "idx \<noteq> hd (map fst new) \<or> map fst new = []"
    using assms(2) by (metis hd_in_set subsetD)
  from remdups_adj_Cons_other [OF this]
  have "remdups_adj (map fst (pre @ new)) = take (Suc m) (idx # rest)"
    using assms(3) m by (auto simp: tries_at_def)
  moreover have "idx \<notin> fst ` set new"
    using sub assms(2) by auto
  then have "tried_once (pre @ new)"
    using once assms(3) by (force simp: tries_at_def tried_once_def)
  moreover have "\<forall>(i, k, f) \<in> set (pre @ new). same_frame f frame \<and> (k = TryOpen \<longrightarrow> f_kind frame = FkOpen)"
    using same assms(3) by (auto simp: same_frame_def replica_def tries_at_def)
  ultimately show ?thesis
    unfolding trials_def by blast
qed

lemma ordered_trials:
  "distinct order \<Longrightarrow> \<exists>new. attempts (ordered_loop env rt frame order ev) = attempts rt @ new \<and> trials frame order new"
proof (induction order arbitrary: rt frame ev)
  case Nil
  then show ?case
    by (simp add: att)
next
  case (Cons idx rest)
  let ?f = "replica env frame idx"
  have fresh: "idx \<notin> set rest" and rest: "distinct rest"
    using Cons.prems by simp_all
  have one: "\<exists>new. attempts r = attempts rt @ new \<and> trials frame (idx # rest) new"
    if "attempts r = attempts r0 @ new0" "trials ?f rest new0" "attempts r0 = attempts rt @ pre" "tries_at idx ?f pre" for r r0 new0 pre
    using that trials_Cons [OF that(2) fresh that(4)] by auto
  have step: "\<exists>new. attempts (ordered_loop env r0 ?f rest ev') = attempts rt @ new \<and> trials frame (idx # rest) new"
    if "attempts r0 = attempts rt @ pre" "tries_at idx ?f pre" for r0 ev' pre
    using Cons.IH [OF rest, of r0 ?f ev'] one that by blast
  have stop: "\<exists>new. attempts r = attempts rt @ new \<and> trials frame (idx # rest) new"
    if "attempts r = attempts rt @ pre" "tries_at idx ?f pre" for r pre
    using one [of r r "[]"] that by simp
  have attempt: "\<exists>new. attempts (attempt_exit env ?f idx rest r0) = attempts rt @ new \<and> trials frame (idx # rest) new"
    if "attempts r0 = attempts rt @ pre" "tries_at idx ?f (pre @ [(idx, TrySend, ?f)])" for r0 pre
  proof (cases "er_success (en_send env (rt_log r0) idx ?f)")
    case True
    then show ?thesis
      using that by (intro stop [OF _ that(2)]) (auto simp: attempt_exit_def Let_def att)
  next
    case False
    then show ?thesis
      using that unfolding attempt_exit_def Let_def
      by (simp only: if_False) (rule step [OF _ that(2)], auto simp: att)
  qed
  obtain os rs where os: "try_open_forwarder_stream env rt ?f idx ShForwarder = (os, rs)"
    by fastforce
  obtain od rd where od: "try_open_forwarder_datagram env rt ?f idx ShDatagramForwarder = (od, rd)"
    by fastforce
  have s: "f_kind ?f = FkOpen \<Longrightarrow> attempts rs = attempts rt @ [(idx, TryOpen, ?f)]"
    using attempts_stream [of ?f env rt idx] os by simp
  have d: "f_kind ?f = FkOpen \<Longrightarrow> attempts rd = attempts rt @ [(idx, TryOpen, ?f)]"
    using attempts_datagram [of ?f env rt idx] od by simp
  have opened: "f_kind frame = FkOpen \<Longrightarrow> tries_at idx ?f [(idx, TryOpen, ?f)]"
    and both: "f_kind frame = FkOpen \<Longrightarrow> tries_at idx ?f ([(idx, TryOpen, ?f)] @ [(idx, TrySend, ?f)])"
    and sent: "tries_at idx ?f ([] @ [(idx, TrySend, ?f)])"
    by (simp_all add: tries_at_def)
  show ?case
    unfolding ordered_loop_Cons Let_def
    using step [OF s opened] stop [OF s opened] step [OF d opened] stop [OF d opened] attempt [OF s both] attempt [OF _ sent]
    by (cases os; cases od) (auto simp: os od att)
qed

section \<open>Which exits a frame may reach\<close>

definition may_carry :: "Env \<Rightarrow> DispatchRuntime \<Rightarrow> Frame \<Rightarrow> nat \<Rightarrow> bool" where
  "may_carry env rt frame i \<longleftrightarrow>
     i < length (en_ids env)
     \<and> capability_matches_flow (en_caps env ! i) (f_flow_semantics frame)
     \<and> (case f_route_group frame of None \<Rightarrow> True | Some g \<Rightarrow> g \<in> set (ca_groups (en_caps env ! i)))
     \<and> (case f_target_sink frame of None \<Rightarrow> True | Some s \<Rightarrow> en_ids env ! i = s)
     \<and> (f_route_group frame = None \<and> f_target_sink frame = None \<or> en_ids env ! i \<notin> en_unhealthy env (rt_log rt))"

lemma candidate_bucket_eq: "candidate_bucket env sem = compile_bucket env sem"
  by (cases sem) (simp_all add: candidate_bucket_def from_egresses_def numeral_2_eq_2)

lemma compile_bucket_mem:
  assumes "env_ok env" and "c \<in> set (compile_bucket env sem)"
  shows "cc_egress_idx c < length (en_ids env) \<and> capability_matches_flow (en_caps env ! cc_egress_idx c) sem
     \<and> cc_exit_id c = en_ids env ! cc_egress_idx c \<and> cc_groups c = ca_groups (en_caps env ! cc_egress_idx c)"
  using assms
  by (auto simp: compile_bucket_def List.map_filter_def env_ok_def in_set_zip split: if_splits)

lemma healthy_candidates_carry:
  assumes "env_ok env"
    and "i \<in> set (snd (healthy_candidates env rt (f_flow_semantics frame) (f_route_group frame) (f_target_sink frame)))"
  shows "may_carry env rt frame i"
  using assms(2) compile_bucket_mem [OF assms(1)]
  by (auto simp: healthy_candidates_def Let_def candidate_bucket_eq candidate_matches_def may_carry_def
      split: if_splits option.splits)

lemma map_candidate_order_subset: "set (map_candidate_order order m) \<subseteq> set m"
  by (auto simp: map_candidate_order_def List.map_filter_def nth_opt_def split: if_splits)

lemma set_move_to_front: "pos < length order \<Longrightarrow> set (move_to_front pos order) = set order"
  using id_take_nth_drop [of pos order] by (metis Cons_eq_appendI Un_insert_right append_Nil insert_is_Un list.simps(15)
    move_to_front_def remove_at_def set_append)

lemma set_pin_order: "set (pin_order env rt frame order candidates ctx) = set order"
proof -
  have "set (apply_pin_with_hysteresis env rt order pinned candidates ctx tau) = set order" for pinned tau
    unfolding apply_pin_with_hysteresis_def
    by (auto simp: Let_def set_move_to_front dest!: position_Some split: option.splits)
  then show ?thesis
    by (simp add: pin_order_def split: option.split)
qed

definition routed :: "Env \<Rightarrow> DispatchRuntime \<Rightarrow> Frame \<Rightarrow> (nat \<times> Try \<times> Frame) list \<Rightarrow> bool" where
  "routed env rt frame new \<longleftrightarrow>
     tried_once new \<and> distinct (remdups_adj (map fst new))
     \<and> (\<forall>(i, k, f) \<in> set new. may_carry env rt frame i \<and> same_frame f frame \<and> (k = TryOpen \<longrightarrow> f_kind frame = FkOpen))"

lemma trials_routed:
  assumes "trials frame order new" and "distinct order" and "\<forall>i \<in> set order. may_carry env rt frame i"
  shows "routed env rt frame new"
proof -
  from assms(1) obtain m where m: "remdups_adj (map fst new) = take m order"
    by (auto simp: trials_def)
  then have "fst ` set new \<subseteq> set order"
    by (metis list.set_map remdups_adj_set set_take_subset)
  then show ?thesis
    using assms m by (force simp: routed_def trials_def)
qed

lemma scheduled_routed:
  assumes "env_ok env"
  shows "\<exists>new. attempts (dispatch_scheduled env rt frame) = attempts rt @ new \<and> routed env rt frame new"
proof -
  obtain cs cm where cm: "healthy_candidates env rt (f_flow_semantics frame) (f_route_group frame) (f_target_sink frame) = (cs, cm)"
    by fastforce
  define ctx where "ctx = (rank_context_of frame)\<lparr>rx_source_activity := activity_snapshot rt (f_source_key frame)\<rparr>"
  define order where "order o' = valid_order (pin_order env rt frame (map_candidate_order o' cm) cs ctx) (length (en_ids env))" for o'
  have carry: "\<forall>i \<in> set (order o'). may_carry env rt frame i" for o'
    using healthy_candidates_carry [OF assms, of _ rt frame] map_candidate_order_subset [of o' cm]
    by (auto simp: order_def set_pin_order cm)
  have ordered: "\<exists>new. attempts (ordered_loop env rt frame (order o') None) = attempts rt @ new \<and> routed env rt frame new" for o'
    using ordered_trials [of "order o'" env rt frame None] trials_routed [OF _ _ carry] by (auto simp: order_def)
  have rep: "routed env rt frame (map (\<lambda>i. (i, TrySend, replica env (frame\<lparr>f_return_semantics := RePacketDedup\<rparr>) i)) (order o'))" for o'
  proof -
    have "distinct (order o')" by (simp add: order_def)
    then show ?thesis
      using carry [of o'] by (auto simp: routed_def same_frame_def replica_def o_def remdups_adj_distinct tried_once_sends)
  qed
  show ?thesis
    unfolding dispatch_scheduled_def Let_def cm ctx_def [symmetric]
    using ordered rep
    by (auto simp: dispatch_ordered_def order_def attempts_replicate split: ScheduleDecision.split)
qed

text \<open>C23: A frame that is scheduled (it opens a flow, or its flow is not open) is only ever handed to exits that
  support its flow semantics, are in its route group if it names one and are its target sink if it names one, and
  then are not marked unhealthy. Each exit is sent the frame at most once, and before that asked at most once to open a
  forwarder, which happens for opening frames only; the attempts at one exit are consecutive, and no exit is returned to.
  What an exit gets is the frame with its time to live decremented.\<close>
theorem dispatch_routes_within_policy:
  assumes "env_ok env" and "f_ttl frame \<noteq> 0" and "f_kind frame \<noteq> FkClose" and "f_kind frame \<noteq> FkCancel"
    and "f_kind frame = FkOpen \<or> rt_flow_states rt (f_flow_id frame) = None"
  shows "\<exists>new. attempts (dispatch env rt frame) = attempts rt @ new
    \<and> routed env rt (frame\<lparr>f_ttl := f_ttl frame - 1\<rparr>) new"
proof -
  have "dispatch env rt frame = dispatch_scheduled env rt (frame\<lparr>f_ttl := f_ttl frame - 1\<rparr>)"
    using assms(2-5) by (auto simp: dispatch_def Let_def)
  then show ?thesis
    using scheduled_routed [OF assms(1)] by simp
qed

theorem dispatch_routes_within_policy_witness:
  "\<exists>new. attempts (dispatch sample_env runtime_new (sample_frame FkOpen)) = attempts runtime_new @ new
     \<and> routed sample_env runtime_new ((sample_frame FkOpen)\<lparr>f_ttl := 7\<rparr>) new"
  using dispatch_routes_within_policy [OF sample_env_ok, of "sample_frame FkOpen" runtime_new]
  by (simp add: sample_frame_def)

section \<open>A flow bound to an unhealthy exit\<close>

text \<open>The effects of a dispatch that reaches no exit are answers only.\<close>

definition answers_only :: "Effect list \<Rightarrow> bool" where
  "answers_only es \<longleftrightarrow> (\<forall>e \<in> set es. (\<exists>ev. e = EfReturn ev) \<or> (\<exists>s outcome. e = EfProbe s outcome))"

definition only_answered :: "DispatchRuntime \<Rightarrow> DispatchRuntime \<Rightarrow> bool" where
  "only_answered rt rt' \<longleftrightarrow>
     rt_flow_states rt' = rt_flow_states rt \<and> (\<exists>es. rt_log rt' = rt_log rt @ es \<and> answers_only es)"

lemma only_answered_trans: "only_answered a b \<Longrightarrow> only_answered b c \<Longrightarrow> only_answered a c"
  unfolding only_answered_def answers_only_def by (metis Un_iff append.assoc set_append)

lemma only_answered_return: "only_answered rt (emit (EfReturn ev) rt)"
  by (simp add: only_answered_def answers_only_def emit_def)

lemma only_answered_probe: "only_answered rt (reply_probe rt s outcome)"
  by (simp add: only_answered_def answers_only_def reply_probe_def emit_def)

lemma only_answered_failed: "only_answered rt (all_failed rt frame ev)"
  unfolding all_failed_def by (rule only_answered_trans [OF only_answered_probe only_answered_return])

lemma attempts_only_answered: "only_answered rt rt' \<Longrightarrow> attempts rt' = attempts rt"
  by (force simp: only_answered_def answers_only_def attempts_def List.map_filter_def attempt_of_def filter_empty_conv)

lemma samples_only_answered: "only_answered rt rt' \<Longrightarrow> log_samples (rt_log rt') = log_samples (rt_log rt)"
  by (force simp: only_answered_def answers_only_def log_samples_def List.map_filter_def filter_empty_conv)

lemma no_candidates_answered:
  assumes "healthy_candidates env rt (f_flow_semantics frame) (f_route_group frame) (f_target_sink frame) = (cs, [])"
  shows "only_answered rt (dispatch_scheduled env rt frame)"
proof -
  have "pin_order env rt frame (map_candidate_order order []) cs ctx = []" for order ctx
    using set_pin_order [of env rt frame "map_candidate_order order []" cs ctx] map_candidate_order_subset [of order "[]"]
    by simp
  then show ?thesis
    unfolding dispatch_scheduled_def Let_def assms
    by (simp add: dispatch_ordered_def dispatch_replicate_def valid_order_def only_answered_failed only_answered_return
        split: ScheduleDecision.split)
qed

lemma bound_to_unhealthy_answered:
  assumes "f_target_sink frame = Some x" and "x \<in> en_unhealthy env (rt_log rt)"
    and "f_kind frame \<notin> {FkClose, FkCancel}" and "rt_flow_states rt (f_flow_id frame) = None"
  shows "only_answered rt (dispatch env rt frame)"
proof -
  let ?f = "frame\<lparr>f_ttl := f_ttl frame - 1\<rparr>"
  have "healthy_candidates env rt (f_flow_semantics ?f) (f_route_group ?f) (f_target_sink ?f) = ([], [])"
    using assms(1,2)
    by (auto simp: healthy_candidates_def Let_def candidate_matches_def filter_empty_conv split: if_splits)
  from no_candidates_answered [OF this] assms(3,4) show ?thesis
    by (auto simp: dispatch_def Let_def only_answered_return)
qed

text \<open>The exit health the bus uses is what a drainer that keeps up with the events has published.\<close>

definition health_wired :: "Env \<Rightarrow> HealthPolicy \<Rightarrow> bool" where
  "health_wired env policy \<longleftrightarrow> en_unhealthy env = published_health policy (en_ids env)"

lemma can_dispatch_eventually: "\<exists>t0. \<forall>now \<ge> t0. can_dispatch t x now"
proof (cases "et_exits t x")
  case (Some h)
  then have "\<forall>now \<ge> eh_last_failure_ms h + hp_probe_after_ms (et_policy t). can_dispatch t x now"
    by (auto simp: can_dispatch_def)
  then show ?thesis
    by blast
qed (simp add: can_dispatch_def)

text \<open>C24: While an exit is published as unhealthy, frames of flows that are not open and that are bound to it as their target
  sink do not reach it: however many of them are dispatched one after the other and however late, none produces an
  attempt at any exit or a health sample, so without other traffic the snapshot keeps excluding the exit, although from some
  time on the health table itself would let it be probed. Data of flows that are already open are not covered: they follow
  their flow without a health check.\<close>
theorem bound_flow_never_probes:
  assumes "health_wired env policy" and "x \<in> en_unhealthy env (rt_log rt)"
    and "\<forall>frame \<in> set frames. f_target_sink frame = Some x \<and> f_kind frame \<notin> {FkClose, FkCancel}
           \<and> rt_flow_states rt (f_flow_id frame) = None"
  shows "attempts (foldl (dispatch env) rt frames) = attempts rt
    \<and> x \<in> en_unhealthy env (rt_log (foldl (dispatch env) rt frames))
    \<and> (\<exists>t0. \<forall>now \<ge> t0.
         can_dispatch (fst (drainer policy (en_ids env) (log_samples (rt_log (foldl (dispatch env) rt frames))))) x now)"
proof -
  have "only_answered rt (foldl (dispatch env) rt frames)"
    using assms(2,3)
  proof (induction frames arbitrary: rt)
    case (Cons frame frames)
    have one: "only_answered rt (dispatch env rt frame)"
      using Cons.prems by (intro bound_to_unhealthy_answered) auto
    have "x \<in> en_unhealthy env (rt_log (dispatch env rt frame))"
      using samples_only_answered [OF one] Cons.prems(1) assms(1) by (simp add: health_wired_def published_health_def)
    with Cons.IH [of "dispatch env rt frame"] Cons.prems(2) one
    have "only_answered (dispatch env rt frame) (foldl (dispatch env) (dispatch env rt frame) frames)"
      by (simp add: only_answered_def)
    with one show ?case
      by (simp add: only_answered_trans)
  qed (simp add: only_answered_def answers_only_def)
  then show ?thesis
    using attempts_only_answered samples_only_answered assms(1,2) can_dispatch_eventually
    by (simp add: health_wired_def published_health_def)
qed

text \<open>A log in which the exit ''a'' failed twice in a row.\<close>

definition failed_twice :: DispatchRuntime where
  "failed_twice =
     runtime_new\<lparr>rt_log := replicate 2 (EfPublish (EtCore PathIoError) (payload_default\<lparr>ep_exit_id := Some ''a'', ep_at_ms := 5\<rparr>))\<rparr>"

definition wired_env :: Env where
  "wired_env = sample_env\<lparr>en_unhealthy := published_health health_policy_default [''a'', ''b'']\<rparr>"

theorem bound_flow_never_probes_witness:
  "attempts (dispatch wired_env failed_twice ((sample_frame FkOpen)\<lparr>f_target_sink := Some ''a''\<rparr>)) = attempts failed_twice"
proof -
  have w: "health_wired wired_env health_policy_default"
    by (simp add: health_wired_def wired_env_def sample_env_def)
  have u: "''a'' \<in> en_unhealthy wired_env (rt_log failed_twice)"
    by (simp add: wired_env_def failed_twice_def published_health_def drainer_def log_samples_def List.map_filter_def
        sample_of_def payload_default_def numeral_2_eq_2 health_record_def health_table_new_def health_publish_def
        can_dispatch_def health_policy_default_def Let_def)
  from bound_flow_never_probes [OF w u, of "[(sample_frame FkOpen)\<lparr>f_target_sink := Some ''a''\<rparr>]"]
  show ?thesis
    by (simp add: sample_frame_def failed_twice_def runtime_new_def)
qed

end
