(* ===== verification/Net_Addr.thy ===== *)
theory Net_Addr
  imports Text_Ops "HOL-Library.Word"
begin

text \<open>
  IP addresses of Rust's standard library (\<^verbatim>\<open>std::net::IpAddr\<close>) and their parser: an IPv4 address is four
  decimal groups without leading zeros, an IPv6 address up to eight hexadecimal groups with at most one run of
  zeros left out and an optional IPv4 tail. A reader takes the rest of the text and answers a value with what is
  left, or nothing. Also the error-reporting integer parser and the line splitting of the standard library.
\<close>

section \<open>Addresses\<close>

datatype IpAddr = IpV4 u32 | IpV6 "128 word"

fun is_ipv4 :: "IpAddr \<Rightarrow> bool" where
  "is_ipv4 (IpV4 _) = True"
| "is_ipv4 (IpV6 _) = False"

definition of_groups :: "nat \<Rightarrow> nat list \<Rightarrow> nat" where
  "of_groups base gs = foldl (\<lambda>acc g. acc * base + g) 0 gs"

section \<open>Readers\<close>

definition hex_val :: "char \<Rightarrow> nat option" where
  "hex_val c = (let n = of_char c in
     if 48 \<le> n \<and> n \<le> 57 then Some (n - 48)
     else if 97 \<le> n \<and> n \<le> 102 then Some (n - 87)
     else if 65 \<le> n \<and> n \<le> 70 then Some (n - 55) else None)"

definition radix_val :: "nat \<Rightarrow> char \<Rightarrow> nat option" where
  "radix_val radix c = (if radix = 16 then hex_val c else digit_val c)"

text \<open>The digits of a number: the value, how many were read, and the rest; nothing when there are more than
  \<open>maxd\<close> digits or the value leaves the type.\<close>

fun read_digits :: "nat \<Rightarrow> nat \<Rightarrow> nat \<Rightarrow> nat \<Rightarrow> nat \<Rightarrow> string \<Rightarrow> (nat \<times> nat \<times> string) option" where
  "read_digits radix maxd maxv acc n [] = Some (acc, n, [])"
| "read_digits radix maxd maxv acc n (c # cs) =
     (case radix_val radix c of
        None \<Rightarrow> Some (acc, n, c # cs)
      | Some d \<Rightarrow>
          if acc * radix + d > maxv then None
          else if n + 1 > maxd then None
          else read_digits radix maxd maxv (acc * radix + d) (n + 1) cs)"

definition read_number :: "nat \<Rightarrow> nat \<Rightarrow> nat \<Rightarrow> bool \<Rightarrow> string \<Rightarrow> (nat \<times> string) option" where
  "read_number radix maxd maxv allow_zero_prefix s =
     (case read_digits radix maxd maxv 0 0 s of
        None \<Rightarrow> None
      | Some (v, n, rest) \<Rightarrow>
          if n = 0 then None
          else if \<not> allow_zero_prefix \<and> hd s = CHR ''0'' \<and> n > 1 then None
          else Some (v, rest))"

definition read_given_char :: "char \<Rightarrow> string \<Rightarrow> string option" where
  "read_given_char c s = (case s of [] \<Rightarrow> None | x # xs \<Rightarrow> if x = c then Some xs else None)"

definition read_separator :: "char \<Rightarrow> nat \<Rightarrow> (string \<Rightarrow> ('a \<times> string) option) \<Rightarrow> string \<Rightarrow> ('a \<times> string) option" where
  "read_separator sep index inner s =
     (if index > 0 then Option.bind (read_given_char sep s) inner else inner s)"

fun read_octets :: "nat \<Rightarrow> nat \<Rightarrow> string \<Rightarrow> (nat list \<times> string) option" where
  "read_octets 0 i s = Some ([], s)"
| "read_octets (Suc k) i s =
     (case read_separator CHR ''.'' i (read_number 10 3 255 False) s of
        None \<Rightarrow> None
      | Some (o1, rest) \<Rightarrow> map_option (\<lambda>(os, r). (o1 # os, r)) (read_octets k (i + 1) rest))"

definition read_ipv4_addr :: "string \<Rightarrow> (u32 \<times> string) option" where
  "read_ipv4_addr s = map_option (\<lambda>(os, r). (of_nat (of_groups 256 os), r)) (read_octets 4 0 s)"

text \<open>Up to \<open>limit\<close> groups from the \<open>i\<close>-th on: the groups, whether they end in an IPv4 address, and the rest.\<close>

function read_groups :: "nat \<Rightarrow> nat \<Rightarrow> string \<Rightarrow> nat list \<times> bool \<times> string" where
  "read_groups limit i s =
     (if i \<ge> limit then ([], False, s)
      else case (if i < limit - 1 then read_separator CHR '':'' i read_ipv4_addr s else None) of
        Some (a, rest) \<Rightarrow> ([unat a div 65536, unat a mod 65536], True, rest)
      | None \<Rightarrow>
          (case read_separator CHR '':'' i (read_number 16 4 65535 True) s of
             None \<Rightarrow> ([], False, s)
           | Some (g, rest) \<Rightarrow> (case read_groups limit (i + 1) rest of (gs, v4, r) \<Rightarrow> (g # gs, v4, r))))"
  by pat_completeness auto

termination
  by (relation "measure (\<lambda>(limit, i, s). limit - i)") auto

declare read_groups.simps [simp del]

definition read_ipv6_addr :: "string \<Rightarrow> (128 word \<times> string) option" where
  "read_ipv6_addr s =
     (case read_groups 8 0 s of (hs, head_ipv4, r) \<Rightarrow>
        if length hs = 8 then Some (of_nat (of_groups 65536 hs), r)
        else if head_ipv4 then None
        else case Option.bind (read_given_char CHR '':'' r) (read_given_char CHR '':'') of
          None \<Rightarrow> None
        | Some r1 \<Rightarrow>
            (case read_groups (8 - (length hs + 1)) 0 r1 of (ts, _, r2) \<Rightarrow>
               Some (of_nat (of_groups 65536 (hs @ replicate (8 - length hs - length ts) 0 @ ts)), r2)))"

definition read_ip_addr :: "string \<Rightarrow> (IpAddr \<times> string) option" where
  "read_ip_addr s =
     (case read_ipv4_addr s of
        Some (a, r) \<Rightarrow> Some (IpV4 a, r)
      | None \<Rightarrow> map_option (\<lambda>(a, r). (IpV6 a, r)) (read_ipv6_addr s))"

definition parse_ip :: "string \<Rightarrow> IpAddr option" where
  "parse_ip s = (case read_ip_addr s of Some (a, []) \<Rightarrow> Some a | _ \<Rightarrow> None)"

definition parse_ipv4 :: "string \<Rightarrow> u32 option" where
  "parse_ipv4 s = (case read_ipv4_addr s of Some (a, []) \<Rightarrow> Some a | _ \<Rightarrow> None)"

definition parse_ipv6 :: "string \<Rightarrow> 128 word option" where
  "parse_ipv6 s = (case read_ipv6_addr s of Some (a, []) \<Rightarrow> Some a | _ \<Rightarrow> None)"

section \<open>Printing\<close>

fun join_with :: "string \<Rightarrow> string list \<Rightarrow> string" where
  "join_with sep [] = []"
| "join_with sep [x] = x"
| "join_with sep (x # xs) = x @ sep @ join_with sep xs"

definition ipv4_octets :: "u32 \<Rightarrow> nat list" where
  "ipv4_octets a = map (\<lambda>i. unat a div 256 ^ i mod 256) [3, 2, 1, 0]"

definition ipv4_display :: "u32 \<Rightarrow> string" where
  "ipv4_display a = join_with ''.'' (map show_nat (ipv4_octets a))"

definition ipv6_segments :: "128 word \<Rightarrow> nat list" where
  "ipv6_segments a = map (\<lambda>i. unat a div 65536 ^ i mod 65536) [7, 6, 5, 4, 3, 2, 1, 0]"

fun show_hex :: "nat \<Rightarrow> string" where
  "show_hex n = (if n < 16 then [hex_char n] else show_hex (n div 16) @ [hex_char (n mod 16)])"

declare show_hex.simps [simp del]

text \<open>The first longest run of zero groups: its start and its length.\<close>

fun zero_span :: "nat \<Rightarrow> nat \<times> nat \<Rightarrow> nat \<times> nat \<Rightarrow> nat list \<Rightarrow> nat \<times> nat" where
  "zero_span i longest current [] = longest"
| "zero_span i longest current (g # gs) =
     (if g = 0
      then let c = (if snd current = 0 then i else fst current, snd current + 1)
           in zero_span (i + 1) (if snd c > snd longest then c else longest) c gs
      else zero_span (i + 1) longest (0, 0) gs)"

definition ipv6_display :: "128 word \<Rightarrow> string" where
  "ipv6_display a =
     (let gs = ipv6_segments a in
      if take 6 gs = [0, 0, 0, 0, 0, 0xffff] then ''::ffff:'' @ ipv4_display (of_nat (unat a mod 2 ^ 32))
      else case zero_span 0 (0, 0) (0, 0) gs of (start, len) \<Rightarrow>
        if len > 1 then join_with '':'' (map show_hex (take start gs)) @ ''::'' @ join_with '':'' (map show_hex (drop (start + len) gs))
        else join_with '':'' (map show_hex gs))"

fun ip_display :: "IpAddr \<Rightarrow> string" where
  "ip_display (IpV4 a) = ipv4_display a"
| "ip_display (IpV6 a) = ipv6_display a"

section \<open>Integers with errors\<close>

datatype IntErrorKind = IeEmpty | IeInvalidDigit | IePosOverflow

fun int_digits :: "nat \<Rightarrow> nat \<Rightarrow> string \<Rightarrow> IntErrorKind + nat" where
  "int_digits maxv acc [] = Ok acc"
| "int_digits maxv acc (c # cs) =
     (case digit_val c of
        None \<Rightarrow> Err IeInvalidDigit
      | Some d \<Rightarrow> if acc * 10 + d > maxv then Err IePosOverflow else int_digits maxv (acc * 10 + d) cs)"

definition parse_unsigned :: "nat \<Rightarrow> string \<Rightarrow> IntErrorKind + nat" where
  "parse_unsigned maxv s =
     (case s of
        [] \<Rightarrow> Err IeEmpty
      | c # cs \<Rightarrow>
          if cs = [] \<and> (c = CHR ''+'' \<or> c = CHR ''-'') then Err IeInvalidDigit
          else int_digits maxv 0 (if c = CHR ''+'' then cs else s))"

section \<open>Whitespace and lines\<close>

text \<open>The characters of \<^verbatim>\<open>char::is_whitespace\<close> as UTF-8 byte strings, and \<^verbatim>\<open>str::trim\<close>.\<close>

definition white_space :: "string list" where
  "white_space =
     map (\<lambda>n. [char_of n]) ([9..<14] @ [32 :: nat])
     @ map (map (char_of :: nat \<Rightarrow> char))
         ([[0xC2, 0x85], [0xC2, 0xA0], [0xE1, 0x9A, 0x80]] @ map (\<lambda>n. [0xE2, 0x80, n]) ([0x80..<0x8B] @ [0xA8, 0xA9, 0xAF])
          @ [[0xE2, 0x81, 0x9F], [0xE3, 0x80, 0x80]])"

function strip_while :: "string list \<Rightarrow> string \<Rightarrow> string" where
  "strip_while ws s =
     (case find (\<lambda>w. w \<noteq> [] \<and> starts_with w s) ws of None \<Rightarrow> s | Some w \<Rightarrow> strip_while ws (drop (length w) s))"
  by pat_completeness auto
termination
  by (relation "measure (\<lambda>(ws, s). length s)") (auto simp: find_Some_iff starts_with_def strip_prefix_Some)

declare strip_while.simps [simp del]

definition trim_start :: "string \<Rightarrow> string" where
  "trim_start s = strip_while white_space s"

definition trim_end :: "string \<Rightarrow> string" where
  "trim_end s = rev (strip_while (map rev white_space) (rev s))"

definition trim :: "string \<Rightarrow> string" where
  "trim s = trim_end (trim_start s)"

text \<open>\<^verbatim>\<open>str::lines\<close>: a final newline ends the last line, and a carriage return before a newline is dropped.\<close>

definition text_lines :: "string \<Rightarrow> string list" where
  "text_lines s =
     (let parts = split_on CHR 0x0a s;
          ended = butlast parts;
          strip = (\<lambda>l. case strip_suffix [CHR 0x0d] l of None \<Rightarrow> l | Some l' \<Rightarrow> l')
      in map strip ended @ (if last parts = [] then [] else [last parts]))"

definition contains_sub :: "string \<Rightarrow> string \<Rightarrow> bool" where
  "contains_sub p s \<longleftrightarrow> (\<exists>i \<in> {0..length s}. starts_with p (drop i s))"

definition eq_ignore_ascii_case :: "string \<Rightarrow> string \<Rightarrow> bool" where
  "eq_ignore_ascii_case a b \<longleftrightarrow> to_ascii_lowercase a = to_ascii_lowercase b"

section \<open>Facts\<close>

lemma read_digits_length: "read_digits radix maxd maxv acc n s = Some (v, m, r) \<Longrightarrow> length r \<le> length s"
  by (induction radix maxd maxv acc n s rule: read_digits.induct) (auto split: option.splits if_splits)

lemma read_digits_bound:
  "read_digits radix maxd maxv acc n s = Some (v, m, r) \<Longrightarrow> acc \<le> maxv \<Longrightarrow> v \<le> maxv"
  by (induction radix maxd maxv acc n s rule: read_digits.induct) (auto split: option.splits if_splits)

lemma read_number_bound: "read_number radix maxd maxv z s = Some (v, r) \<Longrightarrow> v \<le> maxv"
  by (auto simp: read_number_def dest: read_digits_bound split: option.splits if_splits)

lemma contains_sub_iff: "contains_sub p s \<longleftrightarrow> (\<exists>a b. s = a @ p @ b)"
proof
  assume "contains_sub p s"
  then obtain i r where "drop i s = p @ r"
    by (auto simp: contains_sub_def starts_with_def strip_prefix_Some)
  then have "s = take i s @ p @ r"
    by (metis append_take_drop_id)
  then show "\<exists>a b. s = a @ p @ b"
    by blast
next
  assume "\<exists>a b. s = a @ p @ b"
  then obtain a b where "s = a @ p @ b"
    by blast
  then have "strip_prefix p (drop (length a) s) = Some b" and "length a \<le> length s"
    by (simp_all add: strip_prefix_Some)
  then show "contains_sub p s"
    by (auto simp: contains_sub_def starts_with_def)
qed

lemma int_digits_bound: "int_digits maxv acc s = Ok n \<Longrightarrow> acc \<le> maxv \<Longrightarrow> n \<le> maxv"
  by (induction maxv acc s rule: int_digits.induct) (auto split: option.splits if_splits)

lemma parse_unsigned_bound: "parse_unsigned maxv s = Ok n \<Longrightarrow> n \<le> maxv"
  by (auto simp: parse_unsigned_def simp del: int_digits.simps dest: int_digits_bound split: list.splits if_splits)

lemma ends_with_iff: "ends_with p s \<longleftrightarrow> (\<exists>r. s = r @ p)"
  by (auto simp: ends_with_def strip_suffix_Some)



end
