(* ===== verification/Rules.thy ===== *)
theory Rules
  imports Net_Addr
begin

text \<open>
  The rule engine (\<^verbatim>\<open>lib/mb-rule/src/types.rs\<close>, \<^verbatim>\<open>data_handle.rs\<close>): predicates, match expressions,
  actions, chains and rulesets; evaluation of a chain with its trace; validation; and loading of rulesets.

  IP networks (\<^verbatim>\<open>ipnet\<close>), regular expressions (\<^verbatim>\<open>regex\<close>) and JSON values (\<^verbatim>\<open>serde_json\<close>)
  are other crates: their types are type variables and their functions the fields of \<open>rule_lib\<close>. The files that
  hold rulesets are a function from paths.
\<close>

lemma check_all_cong [fundef_cong]:
  "xs = ys \<Longrightarrow> (\<And>x. x \<in> set ys \<Longrightarrow> f x = g x) \<Longrightarrow> check_all f xs = check_all g ys"
  by (induction xs arbitrary: ys) (auto split: sum.split)

section \<open>Types\<close>

datatype RuleNetwork = RnTcp | RnUdp

datatype RuleSessionShape = RsStream | RsDatagram

datatype RuleTrafficClass = RtInteractive | RtBulk | RtControl

datatype RuleTransformKind = TkFragment | TkCompress | TkEncrypt | TkChecksum | TkParity

datatype RuleSocks5Command = ScConnect | ScBind | ScUdpAssociate

datatype RuleScheduleHint = RhAuto | RhFanOut nat

record 'j RuleTransformDescriptor =
  td_kind :: RuleTransformKind
  td_params :: 'j

record RuleCtx =
  cx_src_ip :: "IpAddr option"
  cx_dst_ip :: "IpAddr option"
  cx_dst_port :: "nat option"
  cx_network :: "RuleNetwork option"
  cx_flow_id :: "string option"
  cx_session_shape :: "RuleSessionShape option"
  cx_operation :: "string option"
  cx_schedule_hint :: "RuleScheduleHint option"
  cx_traffic_class :: "RuleTrafficClass option"
  cx_transform_kind :: "RuleTransformKind option"
  cx_fragment_group :: "string option"
  cx_hostname :: "string option"
  cx_socks5_command :: "RuleSocks5Command option"
  cx_consumer :: "string option"
  cx_dns_qtype :: "string option"
  cx_authenticated_user :: "string option"
  cx_dst_geo :: "string option"
  cx_asn :: "nat option"
  cx_geosite_tags :: "string list"

definition ctx_empty :: RuleCtx where
  "ctx_empty =
     \<lparr>cx_src_ip = None, cx_dst_ip = None, cx_dst_port = None, cx_network = None, cx_flow_id = None,
      cx_session_shape = None, cx_operation = None, cx_schedule_hint = None, cx_traffic_class = None,
      cx_transform_kind = None, cx_fragment_group = None, cx_hostname = None, cx_socks5_command = None,
      cx_consumer = None, cx_dns_qtype = None, cx_authenticated_user = None, cx_dst_geo = None, cx_asn = None,
      cx_geosite_tags = []\<rparr>"

datatype ('n, 'r) Predicate =
    PdSrcCidr 'n | PdDstCidr 'n | PdSrcIpEq IpAddr | PdDstIpEq IpAddr
  | PdDstPortEq nat | PdDstPortRange nat nat
  | PdNetworkEq RuleNetwork | PdSessionShapeEq RuleSessionShape | PdOperationEq string
  | PdSocks5CommandEq RuleSocks5Command
  | PdHostnameExact string | PdHostnameSuffix string | PdHostnameKeyword string | PdHostnameRegex 'r
  | PdFragmentGroupExact string | PdTransformKindEq RuleTransformKind | PdTrafficClassEq RuleTrafficClass
  | PdRulesetMember string | PdConsumer string | PdDnsQtype string
  | PdAuthenticatedUserEq string | PdAuthenticatedUserAny | PdDstGeoEq string
  | PdAsnEq nat | PdAsnAny "nat list" | PdGeositeTag string

datatype ('n, 'r) MatchExpr =
    MxTerm "('n, 'r) Predicate" | MxPredicate "('n, 'r) Predicate"
  | MxAll "('n, 'r) MatchExpr list" | MxAny "('n, 'r) MatchExpr list" | MxNot "('n, 'r) MatchExpr"

datatype 'j Action =
    AcAllow | AcDeny | AcSetRouteGroup string | AcSetResolverPool string
  | AcSetScheduleHint RuleScheduleHint | AcSetTransform "'j RuleTransformDescriptor"
  | AcCompose "'j Action list" | AcSetCostBias int

record ('n, 'r, 'j) Rule =
  rl_id :: "string option"
  rl_match :: "('n, 'r) MatchExpr"
  rl_action :: "'j Action"

record MatchTrace =
  mt_matched :: bool
  mt_rule_index :: "nat option"
  mt_rule_id :: "string option"
  mt_default_used :: bool

record 'j RuleDecision =
  rd_action :: "'j Action"
  rd_trace :: MatchTrace

record ('n, 'r, 'j) RuleChain =
  rc_rules :: "('n, 'r, 'j) Rule list"
  rc_default :: "'j Action"

datatype RulesetFormat = RfDomainSuffix | RfIpCidr | RfClassical

datatype RulesetSource = SrcInline "string list" | SrcLocal string

datatype RulesetField = FdHostname | FdSrcIp | FdDstIp

record Ruleset =
  rs_name :: string
  rs_format :: RulesetFormat
  rs_field :: "RulesetField option"
  rs_source :: RulesetSource

record 'n ResolvedRuleset =
  rr_field :: "RulesetField option"
  rr_format :: RulesetFormat
  rr_entries :: "string list"
  rr_cidrs :: "'n list"

type_synonym 'n RuleSetRegistry = "string \<rightharpoonup> 'n ResolvedRuleset"

text \<open>The other crates' functions.\<close>

record ('n, 'r, 'j) rule_lib =
  lb_net_contains :: "'n \<Rightarrow> IpAddr \<Rightarrow> bool"
  lb_net_parse :: "string \<Rightarrow> string + 'n"
  lb_regex_new :: "string \<Rightarrow> string + 'r"
  lb_regex_str :: "'r \<Rightarrow> string"
  lb_regex_match :: "'r \<Rightarrow> string \<Rightarrow> bool"
  lb_json_null :: 'j
  lb_json_is_object :: "'j \<Rightarrow> bool"

section \<open>Evaluation\<close>

definition pick_ip :: "RuleCtx \<Rightarrow> RulesetField option \<Rightarrow> IpAddr option" where
  "pick_ip ctx f =
     (case f of Some FdSrcIp \<Rightarrow> cx_src_ip ctx | Some FdDstIp \<Rightarrow> cx_dst_ip ctx | _ \<Rightarrow> None)"

definition eval_ruleset ::
    "('n, 'r, 'j) rule_lib \<Rightarrow> string \<Rightarrow> RuleCtx \<Rightarrow> 'n RuleSetRegistry \<Rightarrow> bool" where
  "eval_ruleset lib name ctx reg =
     (case reg name of
        None \<Rightarrow> False
      | Some rs \<Rightarrow>
          (case rr_format rs of
             RfDomainSuffix \<Rightarrow>
               (case cx_hostname ctx of
                  None \<Rightarrow> False
                | Some h \<Rightarrow> list_ex (\<lambda>s. ends_with s h) (rr_entries rs))
           | RfIpCidr \<Rightarrow>
               (case pick_ip ctx (rr_field rs) of
                  None \<Rightarrow> False
                | Some ip \<Rightarrow> list_ex (\<lambda>n. lb_net_contains lib n ip) (rr_cidrs rs))
           | RfClassical \<Rightarrow> False))"

definition opt_holds :: "('a \<Rightarrow> bool) \<Rightarrow> 'a option \<Rightarrow> bool" where
  "opt_holds p x = (case x of None \<Rightarrow> False | Some y \<Rightarrow> p y)"

fun eval_predicate ::
    "('n, 'r, 'j) rule_lib \<Rightarrow> ('n, 'r) Predicate \<Rightarrow> RuleCtx \<Rightarrow> 'n RuleSetRegistry \<Rightarrow> bool" where
  "eval_predicate lib (PdSrcCidr n) ctx reg = opt_holds (lb_net_contains lib n) (cx_src_ip ctx)"
| "eval_predicate lib (PdDstCidr n) ctx reg = opt_holds (lb_net_contains lib n) (cx_dst_ip ctx)"
| "eval_predicate lib (PdSrcIpEq ip) ctx reg = (cx_src_ip ctx = Some ip)"
| "eval_predicate lib (PdDstIpEq ip) ctx reg = (cx_dst_ip ctx = Some ip)"
| "eval_predicate lib (PdDstPortEq p) ctx reg = (cx_dst_port ctx = Some p)"
| "eval_predicate lib (PdDstPortRange a b) ctx reg = opt_holds (\<lambda>p. p \<ge> a \<and> p \<le> b) (cx_dst_port ctx)"
| "eval_predicate lib (PdNetworkEq n) ctx reg = (cx_network ctx = Some n)"
| "eval_predicate lib (PdSessionShapeEq s) ctx reg = (cx_session_shape ctx = Some s)"
| "eval_predicate lib (PdOperationEq s) ctx reg = (cx_operation ctx = Some s)"
| "eval_predicate lib (PdSocks5CommandEq c) ctx reg = (cx_socks5_command ctx = Some c)"
| "eval_predicate lib (PdHostnameExact s) ctx reg = (cx_hostname ctx = Some s)"
| "eval_predicate lib (PdHostnameSuffix s) ctx reg = opt_holds (ends_with s) (cx_hostname ctx)"
| "eval_predicate lib (PdHostnameKeyword s) ctx reg = opt_holds (contains_sub s) (cx_hostname ctx)"
| "eval_predicate lib (PdHostnameRegex r) ctx reg = opt_holds (lb_regex_match lib r) (cx_hostname ctx)"
| "eval_predicate lib (PdFragmentGroupExact s) ctx reg = (cx_fragment_group ctx = Some s)"
| "eval_predicate lib (PdTransformKindEq k) ctx reg = (cx_transform_kind ctx = Some k)"
| "eval_predicate lib (PdTrafficClassEq c) ctx reg = (cx_traffic_class ctx = Some c)"
| "eval_predicate lib (PdRulesetMember name) ctx reg = eval_ruleset lib name ctx reg"
| "eval_predicate lib (PdConsumer s) ctx reg = (cx_consumer ctx = Some s)"
| "eval_predicate lib (PdDnsQtype s) ctx reg = opt_holds (\<lambda>q. eq_ignore_ascii_case q s) (cx_dns_qtype ctx)"
| "eval_predicate lib (PdAuthenticatedUserEq s) ctx reg = (cx_authenticated_user ctx = Some s)"
| "eval_predicate lib PdAuthenticatedUserAny ctx reg = (cx_authenticated_user ctx \<noteq> None)"
| "eval_predicate lib (PdDstGeoEq s) ctx reg = (cx_dst_geo ctx = Some s)"
| "eval_predicate lib (PdAsnEq n) ctx reg = (cx_asn ctx = Some n)"
| "eval_predicate lib (PdAsnAny ns) ctx reg = opt_holds (\<lambda>a. a \<in> set ns) (cx_asn ctx)"
| "eval_predicate lib (PdGeositeTag t) ctx reg = (t \<in> set (cx_geosite_tags ctx))"

fun eval_match ::
    "('n, 'r, 'j) rule_lib \<Rightarrow> ('n, 'r) MatchExpr \<Rightarrow> RuleCtx \<Rightarrow> 'n RuleSetRegistry \<Rightarrow> bool" where
  "eval_match lib (MxTerm p) ctx reg = eval_predicate lib p ctx reg"
| "eval_match lib (MxPredicate p) ctx reg = eval_predicate lib p ctx reg"
| "eval_match lib (MxAll xs) ctx reg = list_all (\<lambda>x. eval_match lib x ctx reg) xs"
| "eval_match lib (MxAny xs) ctx reg = list_ex (\<lambda>x. eval_match lib x ctx reg) xs"
| "eval_match lib (MxNot x) ctx reg = (\<not> eval_match lib x ctx reg)"

fun evaluate_from ::
    "('n, 'r, 'j) rule_lib \<Rightarrow> nat \<Rightarrow> ('n, 'r, 'j) Rule list \<Rightarrow> 'j Action \<Rightarrow> RuleCtx \<Rightarrow> 'n RuleSetRegistry
      \<Rightarrow> 'j RuleDecision" where
  "evaluate_from lib idx [] dflt ctx reg =
     \<lparr>rd_action = dflt,
      rd_trace = \<lparr>mt_matched = False, mt_rule_index = None, mt_rule_id = None, mt_default_used = True\<rparr>\<rparr>"
| "evaluate_from lib idx (rule # rules) dflt ctx reg =
     (if eval_match lib (rl_match rule) ctx reg
      then \<lparr>rd_action = rl_action rule,
            rd_trace = \<lparr>mt_matched = True, mt_rule_index = Some idx, mt_rule_id = rl_id rule, mt_default_used = False\<rparr>\<rparr>
      else evaluate_from lib (idx + 1) rules dflt ctx reg)"

definition evaluate_with_trace ::
    "('n, 'r, 'j) rule_lib \<Rightarrow> ('n, 'r, 'j) RuleChain \<Rightarrow> RuleCtx \<Rightarrow> 'n RuleSetRegistry \<Rightarrow> 'j RuleDecision" where
  "evaluate_with_trace lib chain ctx reg = evaluate_from lib 0 (rc_rules chain) (rc_default chain) ctx reg"

section \<open>Validation\<close>

datatype ValidateError =
    VeComposeAllowDenyConflict | VeComposeMultipleRouteGroup | VeComposeMultipleResolverPool
  | VeComposeMultipleCostBias | VeEmptyCompose | VeEmptyRouteGroup | VeEmptyResolverPool
  | VeInvalidTransformParams | VeInvalidFanoutK | VeInvalidCostBias | VeEmptyRulesetName | VeEmptyRulesetRef
  | VeDuplicateRulesetName string | VeEmptyRulesetValue string | VeEmptyRulesetPath string | VeEmptyRuleId
  | VeEmptyPredicateValue string | VeEmptyPredicateSet string | VeEmptyMatchGroup string
  | VeInvalidDstPortRange nat nat | VeRulesetIpCidrField string | VeRulesetDomainSuffixField string
  | VeRulesetClassicalField string

definition check_value :: "string \<Rightarrow> string \<Rightarrow> ValidateError + unit" where
  "check_value field value = ensure (value \<noteq> []) (VeEmptyPredicateValue field)"

definition validate_predicate :: "('n, 'r, 'j) rule_lib \<Rightarrow> ('n, 'r) Predicate \<Rightarrow> ValidateError + unit" where
  "validate_predicate lib p =
     (case p of
        PdDstPortRange a b \<Rightarrow> ensure (a \<le> b) (VeInvalidDstPortRange a b)
      | PdHostnameExact s \<Rightarrow> check_value ''hostname'' s
      | PdOperationEq s \<Rightarrow> check_value ''operation'' s
      | PdHostnameSuffix s \<Rightarrow> check_value ''hostname_suffix'' s
      | PdHostnameKeyword s \<Rightarrow> check_value ''hostname_keyword'' s
      | PdHostnameRegex r \<Rightarrow> check_value ''hostname_regex'' (lb_regex_str lib r)
      | PdFragmentGroupExact s \<Rightarrow> check_value ''fragment_group'' s
      | PdRulesetMember name \<Rightarrow> ensure (name \<noteq> []) VeEmptyRulesetRef
      | PdConsumer s \<Rightarrow> check_value ''consumer'' s
      | PdDnsQtype s \<Rightarrow> check_value ''dns_qtype'' s
      | PdAuthenticatedUserEq s \<Rightarrow> check_value ''authenticated_user'' s
      | PdDstGeoEq s \<Rightarrow> check_value ''dst_geo'' s
      | PdAsnAny ns \<Rightarrow> ensure (ns \<noteq> []) (VeEmptyPredicateSet ''asn'')
      | PdGeositeTag s \<Rightarrow> check_value ''geosite_tag'' s
      | _ \<Rightarrow> Ok ())"

fun validate_match :: "('n, 'r, 'j) rule_lib \<Rightarrow> ('n, 'r) MatchExpr \<Rightarrow> ValidateError + unit" where
  "validate_match lib (MxTerm p) = validate_predicate lib p"
| "validate_match lib (MxPredicate p) = validate_predicate lib p"
| "validate_match lib (MxAll items) =
     (if items = [] then Err (VeEmptyMatchGroup ''all'') else check_all (\<lambda>i. validate_match lib i) items)"
| "validate_match lib (MxAny items) =
     (if items = [] then Err (VeEmptyMatchGroup ''any'') else check_all (\<lambda>i. validate_match lib i) items)"
| "validate_match lib (MxNot inner) = validate_match lib inner"

record ComposeEffects =
  ce_has_allow :: bool
  ce_has_deny :: bool
  ce_route_groups :: nat
  ce_resolver_pools :: nat
  ce_cost_biases :: nat

definition effects_default :: ComposeEffects where
  "effects_default =
     \<lparr>ce_has_allow = False, ce_has_deny = False, ce_route_groups = 0, ce_resolver_pools = 0, ce_cost_biases = 0\<rparr>"

fun collect_effects :: "'j Action \<Rightarrow> ComposeEffects \<Rightarrow> ComposeEffects" where
  "collect_effects AcAllow out = out\<lparr>ce_has_allow := True\<rparr>"
| "collect_effects AcDeny out = out\<lparr>ce_has_deny := True\<rparr>"
| "collect_effects (AcSetRouteGroup _) out = out\<lparr>ce_route_groups := ce_route_groups out + 1\<rparr>"
| "collect_effects (AcSetResolverPool _) out = out\<lparr>ce_resolver_pools := ce_resolver_pools out + 1\<rparr>"
| "collect_effects (AcSetCostBias _) out = out\<lparr>ce_cost_biases := ce_cost_biases out + 1\<rparr>"
| "collect_effects (AcCompose items) out = fold collect_effects items out"
| "collect_effects (AcSetScheduleHint _) out = out"
| "collect_effects (AcSetTransform _) out = out"

definition check_effects :: "'j Action \<Rightarrow> ValidateError + unit" where
  "check_effects a =
     (let eff = collect_effects a effects_default in
      if ce_has_allow eff \<and> ce_has_deny eff then Err VeComposeAllowDenyConflict
      else if ce_route_groups eff > 1 then Err VeComposeMultipleRouteGroup
      else if ce_resolver_pools eff > 1 then Err VeComposeMultipleResolverPool
      else if ce_cost_biases eff > 1 then Err VeComposeMultipleCostBias
      else Ok ())"

fun validate_action :: "('n, 'r, 'j) rule_lib \<Rightarrow> 'j Action \<Rightarrow> ValidateError + unit" where
  "validate_action lib (AcSetRouteGroup g) = ensure (g \<noteq> []) VeEmptyRouteGroup"
| "validate_action lib (AcSetResolverPool p) = ensure (p \<noteq> []) VeEmptyResolverPool"
| "validate_action lib (AcSetScheduleHint h) = (case h of RhFanOut k \<Rightarrow> ensure (k \<noteq> 0) VeInvalidFanoutK | RhAuto \<Rightarrow> Ok ())"
| "validate_action lib (AcSetTransform desc) =
     ensure (td_params desc = lb_json_null lib \<or> lb_json_is_object lib (td_params desc)) VeInvalidTransformParams"
| "validate_action lib (AcSetCostBias n) = ensure (-9000 \<le> n \<and> n \<le> 9000) VeInvalidCostBias"
| "validate_action lib (AcCompose actions) =
     (if actions = [] then Err VeEmptyCompose
      else case check_all (\<lambda>a. validate_action lib a) actions of
             Inl e \<Rightarrow> Err e
           | Inr _ \<Rightarrow> check_effects (AcCompose actions))"
| "validate_action lib AcAllow = Ok ()"
| "validate_action lib AcDeny = Ok ()"

definition validate_ruleset :: "Ruleset \<Rightarrow> ValidateError + unit" where
  "validate_ruleset rs =
     (if rs_name rs = [] then Err VeEmptyRulesetName
      else case (case rs_source rs of
                   SrcInline values \<Rightarrow>
                     if values = [] \<or> list_ex (\<lambda>v. v = []) values then Err (VeEmptyRulesetValue (rs_name rs)) else Ok ()
                 | SrcLocal path \<Rightarrow> if path = [] then Err (VeEmptyRulesetPath (rs_name rs)) else Ok ()) of
        Inl e \<Rightarrow> Err e
      | Inr _ \<Rightarrow>
          (case (rs_format rs, rs_field rs) of
             (RfIpCidr, Some FdSrcIp) \<Rightarrow> Ok ()
           | (RfIpCidr, Some FdDstIp) \<Rightarrow> Ok ()
           | (RfIpCidr, _) \<Rightarrow> Err (VeRulesetIpCidrField (rs_name rs))
           | (RfDomainSuffix, Some FdHostname) \<Rightarrow> Ok ()
           | (RfDomainSuffix, _) \<Rightarrow> Err (VeRulesetDomainSuffixField (rs_name rs))
           | (RfClassical, None) \<Rightarrow> Ok ()
           | (RfClassical, Some _) \<Rightarrow> Err (VeRulesetClassicalField (rs_name rs))))"

definition validate_rule :: "('n, 'r, 'j) rule_lib \<Rightarrow> ('n, 'r, 'j) Rule \<Rightarrow> ValidateError + unit" where
  "validate_rule lib r =
     (if rl_id r = Some [] then Err VeEmptyRuleId
      else res_bind (validate_match lib (rl_match r)) (\<lambda>_. validate_action lib (rl_action r)))"

fun validate_rulesets :: "string set \<Rightarrow> Ruleset list \<Rightarrow> ValidateError + unit" where
  "validate_rulesets names [] = Ok ()"
| "validate_rulesets names (rs # rest) =
     res_bind (validate_ruleset rs) (\<lambda>_.
       if rs_name rs \<in> names then Err (VeDuplicateRulesetName (rs_name rs))
       else validate_rulesets (insert (rs_name rs) names) rest)"

definition validate_chain :: "('n, 'r, 'j) rule_lib \<Rightarrow> ('n, 'r, 'j) RuleChain \<Rightarrow> Ruleset list \<Rightarrow> ValidateError + unit" where
  "validate_chain lib chain rulesets =
     res_bind (check_all (validate_rule lib) (rc_rules chain)) (\<lambda>_.
     res_bind (validate_action lib (rc_default chain)) (\<lambda>_.
     validate_rulesets {} rulesets))"

section \<open>Loading rulesets\<close>

datatype ParseError =
    PrYaml string | PrMissingDefault | PrMissingRules | PrUnknownAction string | PrUnknownPredicateKey string
  | PrRuleBothMatchAndFlat | PrCidr string | PrRegex string | PrIp | PrInt IntErrorKind
  | PrInvalidValue string string

definition tick :: string where
  "tick = [CHR 0x60]"

fun validate_error_text :: "ValidateError \<Rightarrow> string" where
  "validate_error_text VeComposeAllowDenyConflict = ''Compose contains both Allow and Deny''"
| "validate_error_text VeComposeMultipleRouteGroup = ''Compose contains more than one SetRouteGroup''"
| "validate_error_text VeComposeMultipleResolverPool = ''Compose contains more than one set_resolver_pool''"
| "validate_error_text VeComposeMultipleCostBias = ''Compose contains more than one SetCostBias''"
| "validate_error_text VeEmptyCompose = ''Compose must not be empty''"
| "validate_error_text VeEmptyRouteGroup = ''SetRouteGroup must not be empty''"
| "validate_error_text VeEmptyResolverPool = ''set_resolver_pool must not be empty''"
| "validate_error_text VeInvalidTransformParams = ''SetTransform params must be absent or object''"
| "validate_error_text VeInvalidFanoutK = ''fanout.k must be >= 1''"
| "validate_error_text VeInvalidCostBias = ''SetCostBias must be between -9000 and 9000''"
| "validate_error_text VeEmptyRulesetName = ''ruleset name must not be empty''"
| "validate_error_text VeEmptyRulesetRef = ''ruleset reference must not be empty''"
| "validate_error_text (VeDuplicateRulesetName n) = ''ruleset '' @ tick @ n @ tick @ '' is duplicate''"
| "validate_error_text (VeEmptyRulesetValue n) = ''ruleset '' @ tick @ n @ tick @ '' value must not be empty''"
| "validate_error_text (VeEmptyRulesetPath n) = ''ruleset '' @ tick @ n @ tick @ '' local path must not be empty''"
| "validate_error_text VeEmptyRuleId = ''rule id must not be empty''"
| "validate_error_text (VeEmptyPredicateValue f) = ''predicate '' @ tick @ f @ tick @ '' must not be empty''"
| "validate_error_text (VeEmptyPredicateSet f) = ''predicate set '' @ tick @ f @ tick @ '' must not be empty''"
| "validate_error_text (VeEmptyMatchGroup g) = ''match '' @ tick @ g @ tick @ '' group must not be empty''"
| "validate_error_text (VeInvalidDstPortRange a b) =
     ''dst_port_range start '' @ tick @ show_nat a @ tick @ '' must be <= end '' @ tick @ show_nat b @ tick"
| "validate_error_text (VeRulesetIpCidrField n) =
     ''Ruleset '' @ tick @ n @ tick @ '' format '' @ tick @ ''ip-cidr'' @ tick @ '' requires field=src_ip or dst_ip''"
| "validate_error_text (VeRulesetDomainSuffixField n) =
     ''Ruleset '' @ tick @ n @ tick @ '' format '' @ tick @ ''domain-suffix'' @ tick @ '' requires field=hostname''"
| "validate_error_text (VeRulesetClassicalField n) =
     ''Ruleset '' @ tick @ n @ tick @ '' format '' @ tick @ ''classical'' @ tick @ '' must omit field''"

definition map_err :: "('e \<Rightarrow> 'f) \<Rightarrow> 'e + 'a \<Rightarrow> 'f + 'a" where
  "map_err f r = (case r of Inl e \<Rightarrow> Inl (f e) | Inr x \<Rightarrow> Inr x)"

fun collect_results :: "('a \<Rightarrow> 'e + 'b) \<Rightarrow> 'a list \<Rightarrow> 'e + 'b list" where
  "collect_results f [] = Ok []"
| "collect_results f (x # xs) = res_bind (f x) (\<lambda>y. map_sum id (\<lambda>ys. y # ys) (collect_results f xs))"

lemma collect_results_cong [fundef_cong]:
  "xs = ys \<Longrightarrow> (\<And>x. x \<in> set ys \<Longrightarrow> f x = g x) \<Longrightarrow> collect_results f xs = collect_results g ys"
  by (induction xs arbitrary: ys) auto

definition ruleset_lines :: "(string \<Rightarrow> string + string) \<Rightarrow> Ruleset \<Rightarrow> ParseError + string list" where
  "ruleset_lines read_file rs =
     (case rs_source rs of
        SrcInline values \<Rightarrow> Ok values
      | SrcLocal path \<Rightarrow>
          map_sum (\<lambda>e. PrUnknownAction (''read '' @ path @ '': '' @ e))
            (\<lambda>text. map trim (filter (\<lambda>l. trim l \<noteq> [] \<and> \<not> starts_with ''#'' (trim_start l)) (text_lines text)))
            (read_file path))"

definition resolve_ruleset ::
    "('n, 'r, 'j) rule_lib \<Rightarrow> (string \<Rightarrow> string + string) \<Rightarrow> Ruleset \<Rightarrow> ParseError + 'n ResolvedRuleset" where
  "resolve_ruleset lib read_file rs =
     res_bind (map_err (\<lambda>e. PrInvalidValue (''rule_sets.'' @ rs_name rs) (validate_error_text e)) (validate_ruleset rs)) (\<lambda>_.
     res_bind (ruleset_lines read_file rs) (\<lambda>raw_lines.
     if raw_lines = [] then Err (PrInvalidValue ''rule_sets'' (tick @ rs_name rs @ tick @ '' empty''))
     else (case rs_format rs of
        RfIpCidr \<Rightarrow>
          map_sum id (\<lambda>cidrs. \<lparr>rr_field = rs_field rs, rr_format = rs_format rs, rr_entries = [], rr_cidrs = cidrs\<rparr>)
            (collect_results (\<lambda>l.
               map_err (\<lambda>e. PrInvalidValue (''rule_sets.'' @ rs_name rs @ ''.values[]'') (l @ '': '' @ e))
                 (lb_net_parse lib l)) raw_lines)
      | _ \<Rightarrow> Ok \<lparr>rr_field = rs_field rs, rr_format = rs_format rs, rr_entries = raw_lines, rr_cidrs = []\<rparr>)))"

fun load_from ::
    "('n, 'r, 'j) rule_lib \<Rightarrow> (string \<Rightarrow> string + string) \<Rightarrow> 'n RuleSetRegistry \<Rightarrow> Ruleset list
      \<Rightarrow> ParseError + 'n RuleSetRegistry" where
  "load_from lib read_file out [] = Ok out"
| "load_from lib read_file out (rs # rest) =
     (if out (rs_name rs) \<noteq> None
      then Err (PrInvalidValue ''rule_sets'' (''duplicate name '' @ tick @ rs_name rs @ tick))
      else res_bind (resolve_ruleset lib read_file rs) (\<lambda>r. load_from lib read_file (out(rs_name rs \<mapsto> r)) rest))"

definition registry_load ::
    "('n, 'r, 'j) rule_lib \<Rightarrow> (string \<Rightarrow> string + string) \<Rightarrow> Ruleset list \<Rightarrow> ParseError + 'n RuleSetRegistry" where
  "registry_load lib read_file sets = load_from lib read_file Map.empty sets"

section \<open>Facts about results\<close>

lemma collect_results_Ok: "collect_results f xs = Ok ys \<longleftrightarrow> list_all2 (\<lambda>x y. f x = Ok y) xs ys"
proof (induction xs arbitrary: ys)
  case (Cons x xs)
  then show ?case
    by (cases ys; cases "f x"; cases "collect_results f xs") (auto simp: res_bind_def)
qed auto

lemma collect_results_Err:
  "collect_results f xs = Err e \<longleftrightarrow> (\<exists>pre x post. xs = pre @ x # post \<and> f x = Err e \<and> (\<forall>y \<in> set pre. is_Ok (f y)))"
proof (induction xs)
  case (Cons x xs)
  show ?case
  proof (cases "f x")
    case (Inl e')
    have "e' = e" if "x # xs = pre @ z # post" "f z = Err e" "\<forall>y \<in> set pre. is_Ok (f y)" for pre z post
      using that Inl by (cases pre) auto
    moreover have "\<exists>pre z post. x # xs = pre @ z # post \<and> f z = Err e' \<and> (\<forall>y \<in> set pre. is_Ok (f y))"
      using Inl by (intro exI [of _ "[]"]) simp
    ultimately show ?thesis
      using Inl by auto
  next
    case (Inr y)
    then have "collect_results f (x # xs) = Err e \<longleftrightarrow> collect_results f xs = Err e"
      by (cases "collect_results f xs") auto
    moreover have "(\<exists>pre z post. x # xs = pre @ z # post \<and> f z = Err e \<and> (\<forall>y \<in> set pre. is_Ok (f y)))
        \<longleftrightarrow> (\<exists>pre z post. xs = pre @ z # post \<and> f z = Err e \<and> (\<forall>y \<in> set pre. is_Ok (f y)))" (is "?l \<longleftrightarrow> ?r")
    proof
      assume ?l
      then obtain pre z post where "x # xs = pre @ z # post" "f z = Err e" "\<forall>y \<in> set pre. is_Ok (f y)"
        by blast
      with Inr show ?r
        by (cases pre) auto
    next
      assume ?r
      then obtain pre z post where "xs = pre @ z # post" "f z = Err e" "\<forall>y \<in> set pre. is_Ok (f y)"
        by blast
      with Inr show ?l
        by (intro exI [of _ "x # pre"] exI [of _ z] exI [of _ post]) simp
    qed
    ultimately show ?thesis
      using Cons.IH by simp
  qed
qed simp

lemma list_all2_right: "list_all2 P xs ys \<Longrightarrow> y \<in> set ys \<Longrightarrow> \<exists>x \<in> set xs. P x y"
  by (induction xs ys rule: list_all2_induct) auto

lemma map_sum_Ok: "map_sum f g r = Ok y \<longleftrightarrow> (\<exists>x. r = Ok x \<and> y = g x)"
  by (cases r) auto

lemma map_sum_Err: "map_sum f g r = Err e \<longleftrightarrow> (\<exists>x. r = Err x \<and> e = f x)"
  by (cases r) auto

lemma map_err_Ok: "map_err f r = Ok y \<longleftrightarrow> r = Ok y"
  by (cases r) (auto simp: map_err_def)

lemmas result_Ok = map_sum_Ok map_err_Ok collect_results_Ok

section \<open>First match\<close>

lemma evaluate_from_split:
  assumes "\<forall>r \<in> set pre. \<not> eval_match lib (rl_match r) ctx reg"
  shows "evaluate_from lib idx (pre @ rules) dflt ctx reg = evaluate_from lib (idx + length pre) rules dflt ctx reg"
  using assms by (induction pre arbitrary: idx) simp_all

lemma evaluate_first:
  assumes "rc_rules chain = pre @ r # post"
    and "\<forall>q \<in> set pre. \<not> eval_match lib (rl_match q) ctx reg" and "eval_match lib (rl_match r) ctx reg"
  shows "evaluate_with_trace lib chain ctx reg =
    \<lparr>rd_action = rl_action r, rd_trace = \<lparr>mt_matched = True, mt_rule_index = Some (length pre), mt_rule_id = rl_id r,
       mt_default_used = False\<rparr>\<rparr>"
  using assms by (simp add: evaluate_with_trace_def evaluate_from_split)

lemma evaluate_default:
  assumes "\<forall>q \<in> set (rc_rules chain). \<not> eval_match lib (rl_match q) ctx reg"
  shows "evaluate_with_trace lib chain ctx reg =
    \<lparr>rd_action = rc_default chain, rd_trace = \<lparr>mt_matched = False, mt_rule_index = None, mt_rule_id = None,
       mt_default_used = True\<rparr>\<rparr>"
  using assms evaluate_from_split [of "rc_rules chain" lib ctx reg 0 "[]"] by (simp add: evaluate_with_trace_def)

section \<open>What validation of an action means\<close>

text \<open>The leaves of an action, and validity stated over them.\<close>

fun leaves :: "'j Action \<Rightarrow> 'j Action list" where
  "leaves (AcCompose items) = concat (map leaves items)"
| "leaves a = [a]"

fun no_empty_compose :: "'j Action \<Rightarrow> bool" where
  "no_empty_compose (AcCompose items) \<longleftrightarrow> items \<noteq> [] \<and> list_all no_empty_compose items"
| "no_empty_compose _ \<longleftrightarrow> True"

fun leaf_ok :: "('n, 'r, 'j) rule_lib \<Rightarrow> 'j Action \<Rightarrow> bool" where
  "leaf_ok lib (AcSetRouteGroup g) \<longleftrightarrow> g \<noteq> []"
| "leaf_ok lib (AcSetResolverPool p) \<longleftrightarrow> p \<noteq> []"
| "leaf_ok lib (AcSetScheduleHint h) \<longleftrightarrow> h \<noteq> RhFanOut 0"
| "leaf_ok lib (AcSetTransform d) \<longleftrightarrow> td_params d = lb_json_null lib \<or> lb_json_is_object lib (td_params d)"
| "leaf_ok lib (AcSetCostBias n) \<longleftrightarrow> -9000 \<le> n \<and> n \<le> 9000"
| "leaf_ok lib _ \<longleftrightarrow> True"

definition is_route_group :: "'j Action \<Rightarrow> bool" where
  "is_route_group a = (case a of AcSetRouteGroup _ \<Rightarrow> True | _ \<Rightarrow> False)"

definition is_resolver_pool :: "'j Action \<Rightarrow> bool" where
  "is_resolver_pool a = (case a of AcSetResolverPool _ \<Rightarrow> True | _ \<Rightarrow> False)"

definition is_cost_bias :: "'j Action \<Rightarrow> bool" where
  "is_cost_bias a = (case a of AcSetCostBias _ \<Rightarrow> True | _ \<Rightarrow> False)"

definition coherent :: "'j Action list \<Rightarrow> bool" where
  "coherent ls \<longleftrightarrow>
     \<not> (AcAllow \<in> set ls \<and> AcDeny \<in> set ls) \<and> length (filter is_route_group ls) \<le> 1
     \<and> length (filter is_resolver_pool ls) \<le> 1 \<and> length (filter is_cost_bias ls) \<le> 1"

definition add_effects :: "'j Action list \<Rightarrow> ComposeEffects \<Rightarrow> ComposeEffects" where
  "add_effects ls out =
     \<lparr>ce_has_allow = (ce_has_allow out \<or> AcAllow \<in> set ls), ce_has_deny = (ce_has_deny out \<or> AcDeny \<in> set ls),
      ce_route_groups = ce_route_groups out + length (filter is_route_group ls),
      ce_resolver_pools = ce_resolver_pools out + length (filter is_resolver_pool ls),
      ce_cost_biases = ce_cost_biases out + length (filter is_cost_bias ls)\<rparr>"

lemmas leaf_kinds = is_route_group_def is_resolver_pool_def is_cost_bias_def

lemma add_effects_append: "add_effects (xs @ ys) out = add_effects ys (add_effects xs out)"
  by (simp add: add_effects_def disj_assoc)

lemma add_effects_Nil: "add_effects [] out = out"
  by (simp add: add_effects_def)

lemma collect_effects_leaves: "collect_effects a out = add_effects (leaves a) out"
proof (induction a out rule: collect_effects.induct)
  case (6 items out)
  then show ?case
  proof (induction items arbitrary: out)
    case (Cons x xs)
    then show ?case
      by (simp add: add_effects_append)
  qed (simp add: add_effects_Nil)
qed (simp_all add: add_effects_def leaf_kinds)

lemma check_effects_coherent: "check_effects a = Ok () \<longleftrightarrow> coherent (leaves a)"
  by (auto simp: check_effects_def Let_def collect_effects_leaves add_effects_def effects_default_def coherent_def)

lemma coherent_append: "coherent (xs @ ys) \<Longrightarrow> coherent xs \<and> coherent ys"
  by (auto simp: coherent_def)

lemma coherent_part: "coherent (concat (map leaves items)) \<Longrightarrow> a \<in> set items \<Longrightarrow> coherent (leaves a)"
  by (metis coherent_append concat.simps(2) concat_append list.simps(9) map_append split_list)

lemma validate_action_leaves:
  "validate_action lib a = Ok () \<longleftrightarrow> no_empty_compose a \<and> (\<forall>l \<in> set (leaves a). leaf_ok lib l) \<and> coherent (leaves a)"
proof (induction lib a rule: validate_action.induct)
  case (6 lib actions)
  have "validate_action lib (AcCompose actions) = Ok () \<longleftrightarrow>
      actions \<noteq> [] \<and> check_all (validate_action lib) actions = Ok () \<and> coherent (leaves (AcCompose actions))"
    by (simp add: check_effects_coherent split: sum.split)
  with 6 show ?case
    by (auto simp: check_all_Ok list_all_iff dest: coherent_part)
qed (auto simp: coherent_def leaf_kinds split: RuleScheduleHint.split)

section \<open>Property\<close>

text \<open>An action is accepted by validation exactly when no composition in it is empty, every leaf is acceptable on
  its own, and over all leaves at any depth there are not both an allow and a deny and at most one route group, one
  resolver pool and one cost bias.\<close>

lemma validate_action_exact:
  "validate_action lib a = Ok () \<longleftrightarrow>
     no_empty_compose a \<and> (\<forall>l \<in> set (leaves a). leaf_ok lib l) \<and> coherent (leaves a)"
  by (rule validate_action_leaves)

definition nested_action :: "unit Action" where
  "nested_action = AcCompose [AcAllow, AcCompose [AcSetRouteGroup ''a'', AcSetRouteGroup ''b'']]"

end
