(* ===== verification/Rule_Yaml.thy ===== *)
theory Rule_Yaml
  imports Rules Float64
begin

text \<open>
  The reader of rule documents (\<^verbatim>\<open>lib/mb-rule/src/data_handle/yaml_parser.rs\<close>): from a YAML value to a chain
  and its rulesets. The text-to-value step, the debug rendering of a value and its conversion to JSON belong to
  other crates and are the fields of \<open>yaml_lib\<close>. Values are documents without tags; a mapping keeps its entries
  in order.
\<close>

section \<open>Values\<close>

datatype Value =
    YNull | YBool bool | YInt int | YFloat f64 | YString string | YSeq "Value list" | YMap "(Value \<times> Value) list"

definition as_str :: "Value \<Rightarrow> string option" where
  "as_str v = (case v of YString s \<Rightarrow> Some s | _ \<Rightarrow> None)"

definition as_sequence :: "Value \<Rightarrow> Value list option" where
  "as_sequence v = (case v of YSeq xs \<Rightarrow> Some xs | _ \<Rightarrow> None)"

definition as_mapping :: "Value \<Rightarrow> (Value \<times> Value) list option" where
  "as_mapping v = (case v of YMap ms \<Rightarrow> Some ms | _ \<Rightarrow> None)"

definition as_u64 :: "Value \<Rightarrow> nat option" where
  "as_u64 v = (case v of YInt i \<Rightarrow> if 0 \<le> i \<and> i < 2 ^ 64 then Some (nat i) else None | _ \<Rightarrow> None)"

definition as_i64 :: "Value \<Rightarrow> int option" where
  "as_i64 v = (case v of YInt i \<Rightarrow> if - (2 ^ 63) \<le> i \<and> i < 2 ^ 63 then Some i else None | _ \<Rightarrow> None)"

definition map_get :: "(Value \<times> Value) list \<Rightarrow> string \<Rightarrow> Value option" where
  "map_get ms key = map_of ms (YString key)"

record 'j yaml_lib =
  yl_from_str :: "string \<Rightarrow> string + Value"
  yl_debug :: "Value \<Rightarrow> string"
  yl_json :: "Value \<Rightarrow> string + 'j"

text \<open>A sub-value is smaller.\<close>

lemma map_get_size:
  assumes "map_get ms key = Some v"
  shows "size v < size (YMap ms)"
proof -
  have "(YString key, v) \<in> set ms"
    using assms by (simp add: map_get_def map_of_SomeD)
  then have "size_prod size size (YString key, v) \<le> size_list (size_prod size size) ms"
    by (rule size_list_estimation') simp
  then show ?thesis
    by simp
qed

lemma sequence_size: "as_sequence v = Some xs \<Longrightarrow> x \<in> set xs \<Longrightarrow> size x < size v"
  by (cases v) (auto simp: as_sequence_def dest!: size_list_estimation' [where f = size and y = "size x"])

lemma map_sequence_size:
  "map_get ms key = Some y \<Longrightarrow> as_sequence y = Some xs \<Longrightarrow> x \<in> set xs \<Longrightarrow> size x < size (YMap ms)"
  using map_get_size [of ms key y] sequence_size [of y xs x] by linarith

section \<open>Helpers\<close>

definition reject_empty_symbol :: "string \<Rightarrow> string \<Rightarrow> ParseError + unit" where
  "reject_empty_symbol field value = ensure (value \<noteq> []) (PrInvalidValue field ''empty'')"

definition reject_empty_match_group :: "string \<Rightarrow> Value list \<Rightarrow> ParseError + unit" where
  "reject_empty_match_group field values = ensure (values \<noteq> []) (PrInvalidValue field ''empty'')"

definition parse_non_empty_string :: "'j yaml_lib \<Rightarrow> string \<Rightarrow> Value \<Rightarrow> ParseError + string" where
  "parse_non_empty_string yl field value =
     res_bind (ok_or (as_str value) (PrInvalidValue field (yl_debug yl value))) (\<lambda>s.
     res_bind (reject_empty_symbol field s) (\<lambda>_. Ok s))"

definition named :: "string \<Rightarrow> (string \<times> 'a) list \<Rightarrow> string \<Rightarrow> ParseError + 'a" where
  "named field table s = ok_or (map_of table s) (PrInvalidValue field s)"

definition transform_kinds :: "(string \<times> RuleTransformKind) list" where
  "transform_kinds =
     [(''fragment'', TkFragment), (''compress'', TkCompress), (''encrypt'', TkEncrypt),
      (''checksum'', TkChecksum), (''parity'', TkParity)]"

definition u16_max :: nat where
  "u16_max = 65535"

section \<open>Predicates\<close>

definition parse_port :: "Value \<Rightarrow> ParseError + nat" where
  "parse_port val =
     res_bind (ok_or (as_u64 val) (PrInvalidValue ''dst_port'' (case as_str val of None \<Rightarrow> [] | Some t \<Rightarrow> t))) (\<lambda>n.
     if n > u16_max then Err (PrInvalidValue ''dst_port'' (show_nat n)) else Ok n)"

definition parse_port_range :: "string \<Rightarrow> ParseError + nat \<times> nat" where
  "parse_port_range sv =
     (case split_once CHR ''-'' sv of
        None \<Rightarrow> Err (PrInvalidValue ''dst_port_range'' sv)
      | Some (a, b) \<Rightarrow>
          res_bind (map_err PrInt (parse_unsigned u16_max a)) (\<lambda>start.
          res_bind (map_err PrInt (parse_unsigned u16_max b)) (\<lambda>e.
          if start > e then Err (PrInvalidValue ''dst_port_range'' sv) else Ok (start, e))))"

definition parse_asn_item :: "'j yaml_lib \<Rightarrow> Value \<Rightarrow> ParseError + nat" where
  "parse_asn_item yl v =
     res_bind (ok_or (as_u64 v) (PrInvalidValue ''asn[]'' (yl_debug yl v))) (\<lambda>n.
     if n > u32_max then Err (PrInvalidValue ''asn[]'' (show_nat n)) else Ok n)"

definition parse_asn :: "'j yaml_lib \<Rightarrow> Value \<Rightarrow> ParseError + ('n, 'r) Predicate" where
  "parse_asn yl val =
     (case as_u64 val of
        Some n \<Rightarrow> if n > u32_max then Err (PrInvalidValue ''asn'' (show_nat n)) else Ok (PdAsnEq n)
      | None \<Rightarrow>
          (case as_sequence val of
             Some seq \<Rightarrow>
               if seq = [] then Err (PrInvalidValue ''asn'' ''empty'')
               else map_sum id PdAsnAny (collect_results (parse_asn_item yl) seq)
           | None \<Rightarrow> Err (PrInvalidValue ''asn'' (yl_debug yl val))))"

definition parse_predicate ::
    "('n, 'r, 'j) rule_lib \<Rightarrow> 'j yaml_lib \<Rightarrow> string \<Rightarrow> Value \<Rightarrow> ParseError + ('n, 'r) Predicate" where
  "parse_predicate lib yl key val =
     (let s = (case as_str val of None \<Rightarrow> [] | Some t \<Rightarrow> t);
          text = parse_non_empty_string yl key val
      in if key = ''src_cidr'' then map_sum PrCidr PdSrcCidr (lb_net_parse lib s)
         else if key = ''dst_cidr'' then map_sum PrCidr PdDstCidr (lb_net_parse lib s)
         else if key = ''src_ip'' then map_sum id PdSrcIpEq (ok_or (parse_ip s) PrIp)
         else if key = ''dst_ip'' then map_sum id PdDstIpEq (ok_or (parse_ip s) PrIp)
         else if key = ''dst_port'' then map_sum id PdDstPortEq (parse_port val)
         else if key = ''dst_port_range'' then map_sum id (\<lambda>(a, b). PdDstPortRange a b) (parse_port_range s)
         else if key = ''network'' then map_sum id PdNetworkEq (named ''network'' [(''tcp'', RnTcp), (''udp'', RnUdp)] s)
         else if key = ''session_shape'' then
           map_sum id PdSessionShapeEq (named ''session_shape'' [(''stream'', RsStream), (''datagram'', RsDatagram)] s)
         else if key = ''operation'' then map_sum id PdOperationEq text
         else if key = ''socks5_command'' then
           map_sum id PdSocks5CommandEq
             (named ''socks5_command'' [(''connect'', ScConnect), (''bind'', ScBind), (''udp_associate'', ScUdpAssociate)] s)
         else if key = ''hostname'' then map_sum id PdHostnameExact text
         else if key = ''hostname_suffix'' then map_sum id PdHostnameSuffix text
         else if key = ''hostname_keyword'' then map_sum id PdHostnameKeyword text
         else if key = ''hostname_regex'' then
           res_bind text (\<lambda>t. map_sum PrRegex PdHostnameRegex (lb_regex_new lib t))
         else if key = ''fragment_group'' then map_sum id PdFragmentGroupExact text
         else if key = ''traffic_class'' then
           map_sum id PdTrafficClassEq
             (named ''traffic_class'' [(''interactive'', RtInteractive), (''bulk'', RtBulk), (''control'', RtControl)] s)
         else if key = ''transform_kind'' then map_sum id PdTransformKindEq (named ''transform_kind'' transform_kinds s)
         else if key = ''ruleset'' then res_bind (reject_empty_symbol ''ruleset'' s) (\<lambda>_. Ok (PdRulesetMember s))
         else if key = ''consumer'' then map_sum id PdConsumer text
         else if key = ''dns_qtype'' then map_sum id PdDnsQtype text
         else if key = ''authenticated_user'' then
           map_sum id (\<lambda>t. if t = ''*'' then PdAuthenticatedUserAny else PdAuthenticatedUserEq t) text
         else if key = ''dst_geo'' then map_sum id PdDstGeoEq text
         else if key = ''asn'' then parse_asn yl val
         else if key = ''geosite_tag'' then map_sum id PdGeositeTag text
         else Err (PrUnknownPredicateKey key))"

section \<open>Matches\<close>

definition key_text :: "Value \<Rightarrow> string" where
  "key_text k = (case as_str k of None \<Rightarrow> [] | Some s \<Rightarrow> s)"

definition control_keys :: "string list" where
  "control_keys = [''all'', ''any'', ''not'', ''ruleset'']"

definition check_control_keys :: "(Value \<times> Value) list \<Rightarrow> ParseError + unit" where
  "check_control_keys ms =
     check_all (\<lambda>ctrl. ensure (\<not> (map_get ms ctrl \<noteq> None \<and> length ms > 1))
         (PrUnknownAction (''match control key '' @ tick @ ctrl @ tick @ '' must be the only key in mapping'')))
       control_keys"

definition parse_terms ::
    "('n, 'r, 'j) rule_lib \<Rightarrow> 'j yaml_lib \<Rightarrow> (Value \<times> Value) list \<Rightarrow> ParseError + ('n, 'r) MatchExpr" where
  "parse_terms lib yl ms =
     (case ms of
        [] \<Rightarrow> Err (PrUnknownAction ''empty match'')
      | [(k, v)] \<Rightarrow> map_sum id MxTerm (parse_predicate lib yl (key_text k) v)
      | _ \<Rightarrow> map_sum id MxAll
               (collect_results (\<lambda>(k, v). map_sum id MxTerm (parse_predicate lib yl (key_text k) v)) ms))"

function parse_match ::
    "('n, 'r, 'j) rule_lib \<Rightarrow> 'j yaml_lib \<Rightarrow> Value \<Rightarrow> ParseError + ('n, 'r) MatchExpr" where
  "parse_match lib yl v =
     (case as_mapping v of
        None \<Rightarrow> Err (PrUnknownAction ''match must be mapping'')
      | Some ms \<Rightarrow>
          res_bind (check_control_keys ms) (\<lambda>_.
          case Option.bind (map_get ms ''all'') as_sequence of
            Some seq \<Rightarrow>
              res_bind (reject_empty_match_group ''all'' seq) (\<lambda>_.
                map_sum id MxAll (collect_results (\<lambda>x. parse_match lib yl x) seq))
          | None \<Rightarrow>
              (case Option.bind (map_get ms ''any'') as_sequence of
                 Some seq \<Rightarrow>
                   res_bind (reject_empty_match_group ''any'' seq) (\<lambda>_.
                     map_sum id MxAny (collect_results (\<lambda>x. parse_match lib yl x) seq))
               | None \<Rightarrow>
                   (case map_get ms ''not'' of
                      Some inner \<Rightarrow> map_sum id MxNot (parse_match lib yl inner)
                    | None \<Rightarrow>
                        (case Option.bind (map_get ms ''ruleset'') as_str of
                           Some name \<Rightarrow>
                             res_bind (reject_empty_symbol ''ruleset'' name) (\<lambda>_. Ok (MxTerm (PdRulesetMember name)))
                         | None \<Rightarrow> parse_terms lib yl ms)))))"
  by pat_completeness auto

termination
  by (relation "measure (\<lambda>(lib, yl, v). size v)")
     (auto simp: as_mapping_def bind_eq_Some_conv split: Value.splits dest: map_get_size map_sequence_size)

declare parse_match.simps [simp del]

section \<open>Actions\<close>

definition parse_empty_action_payload :: "'j yaml_lib \<Rightarrow> string \<Rightarrow> Value \<Rightarrow> ParseError + unit" where
  "parse_empty_action_payload yl field value =
     res_bind (ok_or (as_mapping value) (PrInvalidValue field (yl_debug yl value))) (\<lambda>ms.
     ensure (ms = []) (PrInvalidValue field ''non-empty payload''))"

text \<open>The loop over the keys of a mapping that only knows some of them.\<close>

definition check_keys ::
    "string list \<Rightarrow> ParseError \<Rightarrow> (string \<Rightarrow> ParseError) \<Rightarrow> (Value \<times> Value) list \<Rightarrow> ParseError + unit" where
  "check_keys allowed not_string unknown ms =
     check_all (\<lambda>(k, _). case as_str k of
         None \<Rightarrow> Err not_string
       | Some key \<Rightarrow> ensure (key \<in> set allowed) (unknown key)) ms"

definition parse_fanout :: "'j yaml_lib \<Rightarrow> Value \<Rightarrow> ParseError + RuleScheduleHint" where
  "parse_fanout yl fanout =
     res_bind (ok_or (as_mapping fanout) (PrInvalidValue ''fanout'' (yl_debug yl fanout))) (\<lambda>ms.
     res_bind (check_keys [''k''] (PrUnknownAction ''fanout keys must be strings'')
         (\<lambda>key. PrInvalidValue (''fanout.'' @ key) ''unknown key'') ms) (\<lambda>_.
     res_bind (ok_or (Option.bind (map_get ms ''k'') as_u64) (PrInvalidValue ''fanout.k'' ''missing'')) (\<lambda>k.
     if k = 0 \<or> k > u32_max then Err (PrInvalidValue ''fanout.k'' (show_nat k)) else Ok (RhFanOut k))))"

definition parse_schedule_hint :: "'j yaml_lib \<Rightarrow> Value \<Rightarrow> ParseError + RuleScheduleHint" where
  "parse_schedule_hint yl v =
     (if as_str v = Some ''auto'' then Ok RhAuto
      else res_bind (ok_or (as_mapping v) (PrUnknownAction ''schedule_hint shape'')) (\<lambda>ms.
        res_bind (check_keys [''fanout''] (PrUnknownAction ''schedule_hint keys must be strings'')
            (\<lambda>key. PrInvalidValue (''schedule_hint.'' @ key) ''unknown key'') ms) (\<lambda>_.
        case map_get ms ''fanout'' of
          Some fanout \<Rightarrow> parse_fanout yl fanout
        | None \<Rightarrow> Err (PrUnknownAction ''unknown schedule_hint''))))"

definition parse_transform ::
    "('n, 'r, 'j) rule_lib \<Rightarrow> 'j yaml_lib \<Rightarrow> Value \<Rightarrow> ParseError + 'j RuleTransformDescriptor" where
  "parse_transform lib yl vv =
     res_bind (ok_or (as_mapping vv) (PrUnknownAction ''set_transform must be mapping'')) (\<lambda>ms.
     res_bind (check_keys [''kind'', ''params''] (PrUnknownAction ''set_transform keys must be strings'')
         (\<lambda>key. PrInvalidValue (''set_transform.'' @ key) ''unknown key'') ms) (\<lambda>_.
     res_bind (ok_or (Option.bind (map_get ms ''kind'') as_str) (PrUnknownAction ''set_transform.kind missing'')) (\<lambda>kind.
     res_bind (named ''transform.kind'' transform_kinds kind) (\<lambda>k.
     res_bind (case map_get ms ''params'' of
          None \<Rightarrow> Ok (lb_json_null lib)
        | Some params \<Rightarrow>
            if as_mapping params = None
            then Err (PrInvalidValue ''set_transform.params'' (yl_debug yl params))
            else map_err (PrInvalidValue ''set_transform.params'') (yl_json yl params)) (\<lambda>params.
     Ok \<lparr>td_kind = k, td_params = params\<rparr>)))))"

definition parse_named_target :: "'j yaml_lib \<Rightarrow> string \<Rightarrow> Value \<Rightarrow> ParseError + string" where
  "parse_named_target yl field vv =
     res_bind (ok_or (as_str vv) (PrInvalidValue field (yl_debug yl vv))) (\<lambda>g.
     if g = [] then Err (PrInvalidValue field ''empty'') else Ok g)"

definition show_int :: "int \<Rightarrow> string" where
  "show_int i = (if i < 0 then CHR ''-'' # show_nat (nat (- i)) else show_nat (nat i))"

definition parse_cost_bias :: "'j yaml_lib \<Rightarrow> Value \<Rightarrow> ParseError + int" where
  "parse_cost_bias yl vv =
     res_bind (ok_or (as_i64 vv) (PrInvalidValue ''set_cost_bias'' (yl_debug yl vv))) (\<lambda>n.
     if -9000 \<le> n \<and> n \<le> 9000 then Ok n else Err (PrInvalidValue ''set_cost_bias'' (show_int n)))"

function parse_action :: "('n, 'r, 'j) rule_lib \<Rightarrow> 'j yaml_lib \<Rightarrow> Value \<Rightarrow> ParseError + 'j Action" where
  "parse_action lib yl v =
     (case as_str v of
        Some s \<Rightarrow>
          if s = ''allow'' then Ok AcAllow else if s = ''deny'' then Ok AcDeny else Err (PrUnknownAction s)
      | None \<Rightarrow>
          (case as_mapping v of
             None \<Rightarrow> Err (PrUnknownAction ''action must be string or mapping'')
           | Some [(k, vv)] \<Rightarrow>
               (case as_str k of
                  None \<Rightarrow> Err (PrUnknownAction ''action key must be a string'')
                | Some key \<Rightarrow>
                    if key = ''allow'' then res_bind (parse_empty_action_payload yl ''allow'' vv) (\<lambda>_. Ok AcAllow)
                    else if key = ''deny'' then res_bind (parse_empty_action_payload yl ''deny'' vv) (\<lambda>_. Ok AcDeny)
                    else if key = ''set_route_group'' then map_sum id AcSetRouteGroup (parse_named_target yl key vv)
                    else if key = ''set_resolver_pool'' then map_sum id AcSetResolverPool (parse_named_target yl key vv)
                    else if key = ''set_schedule_hint'' then map_sum id AcSetScheduleHint (parse_schedule_hint yl vv)
                    else if key = ''set_transform'' then map_sum id AcSetTransform (parse_transform lib yl vv)
                    else if key = ''compose'' then
                      (case as_sequence vv of
                         None \<Rightarrow> Err (PrUnknownAction ''compose must be sequence'')
                       | Some seq \<Rightarrow>
                           if seq = [] then Err (PrInvalidValue ''compose'' ''empty'')
                           else map_sum id AcCompose (collect_results (\<lambda>x. parse_action lib yl x) seq))
                    else if key = ''set_cost_bias'' then map_sum id AcSetCostBias (parse_cost_bias yl vv)
                    else Err (PrUnknownAction key))
           | Some ms \<Rightarrow>
               Err (PrUnknownAction (''action mapping must have exactly one key, got '' @ show_nat (length ms)))))"
  by pat_completeness auto

termination
  by (relation "measure (\<lambda>(lib, yl, v). size v)")
     (auto simp: as_mapping_def split: Value.splits dest!: sequence_size)

declare parse_action.simps [simp del]

section \<open>Rulesets, rules, documents\<close>

definition parse_values :: "'j yaml_lib \<Rightarrow> string \<Rightarrow> Value list \<Rightarrow> ParseError + string list" where
  "parse_values yl name seq =
     collect_results (\<lambda>v.
       res_bind (ok_or (as_str v) (PrInvalidValue (''rule_sets.'' @ name @ ''.values[]'') (yl_debug yl v))) (\<lambda>value.
       if value = [] then Err (PrInvalidValue (''rule_sets.'' @ name @ ''.values[]'') ''empty'') else Ok value)) seq"

definition parse_source :: "'j yaml_lib \<Rightarrow> string \<Rightarrow> (Value \<times> Value) list \<Rightarrow> ParseError + RulesetSource" where
  "parse_source yl name ms =
     (let p = ''rule_sets.'' @ name in
      res_bind (ok_or (Option.bind (map_get ms ''type'') as_str) (PrUnknownAction (p @ ''.type missing (inline|local)''))) (\<lambda>kind.
      if kind = ''inline'' then
        (if map_get ms ''path'' \<noteq> None then Err (PrInvalidValue (p @ ''.path'') ''not allowed for inline source'')
         else res_bind (ok_or (Option.bind (map_get ms ''values'') as_sequence) (PrUnknownAction (p @ ''.values missing''))) (\<lambda>seq.
           if seq = [] then Err (PrInvalidValue (p @ ''.values'') ''empty'')
           else map_sum id SrcInline (parse_values yl name seq)))
      else if kind = ''local'' then
        (if map_get ms ''values'' \<noteq> None then Err (PrInvalidValue (p @ ''.values'') ''not allowed for local source'')
         else res_bind (ok_or (Option.bind (map_get ms ''path'') as_str) (PrUnknownAction (p @ ''.path missing''))) (\<lambda>path.
           if path = [] then Err (PrInvalidValue (p @ ''.path'') ''empty'') else Ok (SrcLocal path)))
      else Err (PrInvalidValue (p @ ''.type'') kind)))"

definition parse_ruleset :: "'j yaml_lib \<Rightarrow> string \<Rightarrow> Value \<Rightarrow> ParseError + Ruleset" where
  "parse_ruleset yl name v =
     (let p = ''rule_sets.'' @ name in
      res_bind (ok_or (as_mapping v) (PrUnknownAction (p @ '' must be mapping''))) (\<lambda>ms.
      res_bind (check_keys [''type'', ''format'', ''field'', ''values'', ''path'']
          (PrUnknownAction (p @ '' keys must be strings''))
          (\<lambda>key. PrInvalidValue (p @ ''.'' @ key) ''unknown key'') ms) (\<lambda>_.
      res_bind (ok_or (Option.bind (map_get ms ''format'') as_str) (PrUnknownAction (p @ ''.format missing''))) (\<lambda>format_str.
      res_bind (named (p @ ''.format'')
          [(''domain-suffix'', RfDomainSuffix), (''ip-cidr'', RfIpCidr), (''classical'', RfClassical)] format_str) (\<lambda>format.
      res_bind (case Option.bind (map_get ms ''field'') as_str of
           None \<Rightarrow> Ok None
         | Some f \<Rightarrow> map_sum id Some
             (named (p @ ''.field'') [(''hostname'', FdHostname), (''src_ip'', FdSrcIp), (''dst_ip'', FdDstIp)] f)) (\<lambda>field.
      if format = RfClassical \<and> field \<noteq> None
      then Err (PrInvalidValue (p @ ''.field'') ''not allowed for classical'')
      else res_bind (parse_source yl name ms) (\<lambda>source.
        Ok \<lparr>rs_name = name, rs_format = format, rs_field = field, rs_source = source\<rparr>)))))))"

text \<open>Reading a rule can fail, and it can panic.\<close>

datatype ParseFault = PfErr ParseError | PfPanic string

definition faulty :: "ParseError + 'a \<Rightarrow> ParseFault + 'a" where
  "faulty r = map_err PfErr r"

definition parse_rule_id :: "'j yaml_lib \<Rightarrow> (Value \<times> Value) list \<Rightarrow> ParseError + string option" where
  "parse_rule_id yl ms =
     (case map_get ms ''id'' of
        None \<Rightarrow> Ok None
      | Some v \<Rightarrow>
          (case v of
             YString s \<Rightarrow> if s = [] then Err (PrInvalidValue ''id'' ''empty'') else Ok (Some s)
           | _ \<Rightarrow> Err (PrInvalidValue ''id'' (yl_debug yl v))))"

definition flat_keys :: "(Value \<times> Value) list \<Rightarrow> (Value \<times> Value) list" where
  "flat_keys ms = filter (\<lambda>(k, _). key_text k \<notin> {''action'', ''match'', ''id''}) ms"

definition parse_flat_term ::
    "('n, 'r, 'j) rule_lib \<Rightarrow> 'j yaml_lib \<Rightarrow> Value \<times> Value \<Rightarrow> ParseFault + ('n, 'r) MatchExpr" where
  "parse_flat_term lib yl kv =
     (case kv of (k, v) \<Rightarrow>
        (case as_str k of
           None \<Rightarrow> Err (PfPanic ''yaml mapping keys are strings'')
         | Some key \<Rightarrow> faulty (map_sum id MxTerm (parse_predicate lib yl key v))))"

definition parse_rule ::
    "('n, 'r, 'j) rule_lib \<Rightarrow> 'j yaml_lib \<Rightarrow> Value \<Rightarrow> ParseFault + ('n, 'r, 'j) Rule" where
  "parse_rule lib yl v =
     res_bind (faulty (ok_or (as_mapping v) (PrUnknownAction ''rule must be mapping''))) (\<lambda>ms.
     res_bind (faulty (ok_or (map_get ms ''action'') (PrUnknownAction (''rule missing '' @ tick @ ''action'' @ tick)))) (\<lambda>action_val.
     res_bind (faulty (parse_action lib yl action_val)) (\<lambda>action.
     res_bind (faulty (parse_rule_id yl ms)) (\<lambda>rid.
     if map_get ms ''match'' \<noteq> None \<and> flat_keys ms \<noteq> [] then Err (PfErr PrRuleBothMatchAndFlat)
     else res_bind
       (case map_get ms ''match'' of
          Some mv \<Rightarrow> faulty (parse_match lib yl mv)
        | None \<Rightarrow>
            res_bind (collect_results (parse_flat_term lib yl) (flat_keys ms)) (\<lambda>terms.
            case terms of
              [] \<Rightarrow> Err (PfErr (PrUnknownAction ''rule has no predicates''))
            | [t] \<Rightarrow> Ok t
            | _ \<Rightarrow> Ok (MxAll terms)))
       (\<lambda>m. Ok \<lparr>rl_id = rid, rl_match = m, rl_action = action\<rparr>)))))"

definition parse_rulesets :: "'j yaml_lib \<Rightarrow> (Value \<times> Value) list \<Rightarrow> ParseError + Ruleset list" where
  "parse_rulesets yl rs_map =
     collect_results (\<lambda>(name_v, decl_v).
       res_bind (ok_or (as_str name_v) (PrUnknownAction ''rule_sets keys must be strings'')) (\<lambda>name.
       if name = [] then Err (PrInvalidValue ''rule_sets'' ''empty name'') else parse_ruleset yl name decl_v)) rs_map"

definition parse_document ::
    "('n, 'r, 'j) rule_lib \<Rightarrow> 'j yaml_lib \<Rightarrow> Value \<Rightarrow> ParseFault + ('n, 'r, 'j) RuleChain \<times> Ruleset list" where
  "parse_document lib yl raw =
     res_bind (faulty (ok_or (as_mapping raw) (PrUnknownAction ''chain must be mapping''))) (\<lambda>ms.
     res_bind (faulty (check_keys [''rules'', ''default'', ''rule_sets'']
         (PrUnknownAction ''top-level keys must be strings'')
         (\<lambda>key. PrInvalidValue key ''unknown top-level key'') ms)) (\<lambda>_.
     res_bind (faulty (ok_or (map_get ms ''default'') PrMissingDefault)) (\<lambda>default_val.
     res_bind (faulty (parse_action lib yl default_val)) (\<lambda>dflt.
     res_bind (case map_get ms ''rules'' of
         None \<Rightarrow> Err (PfErr PrMissingRules)
       | Some rv \<Rightarrow>
           (case rv of
              YSeq seq \<Rightarrow> collect_results (parse_rule lib yl) seq
            | _ \<Rightarrow> Err (PfErr (PrUnknownAction ''rules must be sequence'')))) (\<lambda>rules.
     res_bind (faulty (case map_get ms ''rule_sets'' of
         None \<Rightarrow> Ok []
       | Some rv \<Rightarrow>
           (case rv of
              YMap rs_map \<Rightarrow> parse_rulesets yl rs_map
            | _ \<Rightarrow> Err (PrUnknownAction ''rule_sets must be mapping'')))) (\<lambda>rulesets.
     Ok (\<lparr>rc_rules = rules, rc_default = dflt\<rparr>, rulesets)))))))"

definition parse_chain_and_rulesets_yaml ::
    "('n, 'r, 'j) rule_lib \<Rightarrow> 'j yaml_lib \<Rightarrow> string \<Rightarrow> ParseFault + ('n, 'r, 'j) RuleChain \<times> Ruleset list" where
  "parse_chain_and_rulesets_yaml lib yl s =
     res_bind (faulty (map_err PrYaml (yl_from_str yl s))) (parse_document lib yl)"

definition parse_chain_yaml ::
    "('n, 'r, 'j) rule_lib \<Rightarrow> 'j yaml_lib \<Rightarrow> string \<Rightarrow> ParseFault + ('n, 'r, 'j) RuleChain" where
  "parse_chain_yaml lib yl s = map_sum id fst (parse_chain_and_rulesets_yaml lib yl s)"

section \<open>What a parsed document satisfies\<close>

text \<open>What is relied on of the other crates: a compiled regular expression remembers its source, and a mapping
  converts to a JSON object.\<close>

definition rule_libs_ok :: "('n, 'r, 'j) rule_lib \<Rightarrow> 'j yaml_lib \<Rightarrow> bool" where
  "rule_libs_ok lib yl \<longleftrightarrow>
     (\<forall>s r. lb_regex_new lib s = Ok r \<longrightarrow> lb_regex_str lib r = s)
     \<and> (\<forall>v j. as_mapping v \<noteq> None \<longrightarrow> yl_json yl v = Ok j \<longrightarrow> lb_json_is_object lib j)"

lemma parse_text_Ok: "parse_non_empty_string yl field v = Ok s \<Longrightarrow> s \<noteq> []"
  by (auto simp: parse_non_empty_string_def reject_empty_symbol_def result_simps)

lemma parse_port_range_Ok: "parse_port_range s = Ok (a, b) \<Longrightarrow> a \<le> b \<and> b \<le> u16_max"
  by (auto simp: parse_port_range_def result_simps map_err_Ok dest: parse_unsigned_bound split: option.splits if_splits)

lemma parse_asn_valid: "parse_asn yl v = Ok p \<Longrightarrow> validate_predicate lib p = Ok ()"
  by (auto simp: parse_asn_def result_Ok validate_predicate_def split: option.splits if_splits)

lemma parse_predicate_valid:
  assumes "parse_predicate lib yl key v = Ok p" and "rule_libs_ok lib yl"
  shows "validate_predicate lib p = Ok ()"
  using assms unfolding parse_predicate_def Let_def rule_libs_ok_def
  by (simp split: if_splits)
    (auto simp: result_Ok result_simps validate_predicate_def check_value_def reject_empty_symbol_def
      dest: parse_text_Ok parse_port_range_Ok parse_asn_valid [where lib = lib])

lemma parse_terms_valid:
  assumes "parse_terms lib yl ms = Ok m" and "rule_libs_ok lib yl"
  shows "validate_match lib m = Ok ()"
proof -
  note valid = parse_predicate_valid [OF _ assms(2)]
  have terms: "\<forall>y \<in> set ys. validate_match lib y = Ok ()"
    if "list_all2 (\<lambda>x y. (case x of (k, v) \<Rightarrow> map_sum id MxTerm (parse_predicate lib yl (key_text k) v)) = Ok y) xs ys" for xs ys
    using that by (induction xs ys rule: list_all2_induct) (auto simp: map_sum_Ok valid)
  show ?thesis
    using assms(1)
    by (auto simp: parse_terms_def result_Ok check_all_Ok valid terms simp del: collect_results.simps split: list.splits)
qed

lemma parsed_group_valid:
  assumes "list_all2 (\<lambda>x y. parse_match lib yl x = Ok y) xs ys"
    and "\<And>x m. x \<in> set xs \<Longrightarrow> parse_match lib yl x = Ok m \<Longrightarrow> validate_match lib m = Ok ()"
  shows "\<forall>y \<in> set ys. validate_match lib y = Ok ()"
  using assms by (blast dest: list_all2_right)

lemma parse_match_valid:
  assumes "rule_libs_ok lib yl"
  shows "parse_match lib yl v = Ok m \<Longrightarrow> validate_match lib m = Ok ()"
proof (induction "size v" arbitrary: v m rule: less_induct)
  case less
  obtain ms where v: "v = YMap ms"
    using less.prems by (subst (asm) parse_match.simps) (auto simp: as_mapping_def split: option.splits Value.splits)
  have group: "\<forall>y \<in> set ys. validate_match lib y = Ok ()"
    if "list_all2 (\<lambda>x y. parse_match lib yl x = Ok y) xs ys" "map_get ms key = Some w" "as_sequence w = Some xs" for xs ys key w
    using that(1) by (rule parsed_group_valid) (use less.hyps map_sequence_size [OF that(2,3)] v in blast)
  have negated: "validate_match lib m' = Ok ()" if "parse_match lib yl w = Ok m'" "map_get ms key = Some w" for w m' key
    using less.hyps [OF _ that(1)] map_get_size [OF that(2)] v by blast
  have empty: "list_all2 P xs [] \<longleftrightarrow> xs = []" for P :: "Value \<Rightarrow> ('a, 'b) MatchExpr \<Rightarrow> bool" and xs
    by simp
  show ?case
    using less.prems assms unfolding v
    by (subst (asm) parse_match.simps)
      (auto simp: as_mapping_def result_simps result_Ok reject_empty_match_group_def reject_empty_symbol_def bind_eq_Some_conv
        validate_predicate_def check_all_Ok group negated parse_terms_valid split: option.splits)
qed

lemma parse_transform_ok:
  assumes "parse_transform lib yl v = Ok d" and "rule_libs_ok lib yl"
  shows "leaf_ok lib (AcSetTransform d)"
proof -
  obtain ms where "(case map_get ms ''params'' of
          None \<Rightarrow> Ok (lb_json_null lib)
        | Some params \<Rightarrow>
            if as_mapping params = None
            then Err (PrInvalidValue ''set_transform.params'' (yl_debug yl params))
            else map_err (PrInvalidValue ''set_transform.params'') (yl_json yl params)) = Ok (td_params d)"
    using assms(1) unfolding parse_transform_def by (simp only: res_bind_eq_Inr) auto
  then show ?thesis
    using assms(2) by (auto simp: map_err_Ok rule_libs_ok_def split: option.splits if_splits)
qed

lemma parse_schedule_hint_ok: "parse_schedule_hint yl v = Ok h \<Longrightarrow> h \<noteq> RhFanOut 0"
  by (auto simp: parse_schedule_hint_def parse_fanout_def result_simps split: option.splits if_splits)

lemma parse_named_target_ok: "parse_named_target yl field v = Ok g \<Longrightarrow> g \<noteq> []"
  by (auto simp: parse_named_target_def result_simps split: if_splits)

lemma parse_cost_bias_ok: "parse_cost_bias yl v = Ok n \<Longrightarrow> -9000 \<le> n \<and> n \<le> 9000"
  by (auto simp: parse_cost_bias_def result_simps split: if_splits)

definition leaves_ok :: "('n, 'r, 'j) rule_lib \<Rightarrow> 'j Action \<Rightarrow> bool" where
  "leaves_ok lib a \<longleftrightarrow> no_empty_compose a \<and> (\<forall>l \<in> set (leaves a). leaf_ok lib l)"

lemma leaves_ok_compose: "items \<noteq> [] \<Longrightarrow> \<forall>a \<in> set items. leaves_ok lib a \<Longrightarrow> leaves_ok lib (AcCompose items)"
  by (auto simp: leaves_ok_def list_all_iff)

lemma parsed_compose_ok:
  assumes "list_all2 (\<lambda>x y. parse_action lib yl x = Ok y) xs ys" and "xs \<noteq> []"
    and "\<And>x a. x \<in> set xs \<Longrightarrow> parse_action lib yl x = Ok a \<Longrightarrow> leaves_ok lib a"
  shows "leaves_ok lib (AcCompose ys)"
proof (rule leaves_ok_compose)
  show "ys \<noteq> []"
    using assms(1,2) by auto
  show "\<forall>y \<in> set ys. leaves_ok lib y"
    using list_all2_right [OF assms(1)] assms(3) by blast
qed

lemma leaves_ok_leaf: "leaf_ok lib l \<Longrightarrow> leaves l = [l] \<Longrightarrow> no_empty_compose l \<Longrightarrow> leaves_ok lib l"
  by (simp add: leaves_ok_def)

text \<open>An action is a word, or a mapping with one entry.\<close>

lemma parse_action_cases:
  assumes "parse_action lib yl v = Ok a"
  obtains (word) s where "v = YString s" "a = AcAllow \<or> a = AcDeny"
  | (allow) "a = AcAllow \<or> a = AcDeny"
  | (target) g where "g \<noteq> []" "a = AcSetRouteGroup g \<or> a = AcSetResolverPool g"
  | (hint) w h where "parse_schedule_hint yl w = Ok h" "a = AcSetScheduleHint h"
  | (transform) w d where "parse_transform lib yl w = Ok d" "a = AcSetTransform d"
  | (bias) n where "-9000 \<le> n" "n \<le> 9000" "a = AcSetCostBias n"
  | (compose) k w xs ys where "v = YMap [(k, w)]" "as_sequence w = Some xs" "xs \<noteq> []"
      "list_all2 (\<lambda>x y. parse_action lib yl x = Ok y) xs ys" "a = AcCompose ys"
  using assms
  by (subst (asm) parse_action.simps)
    (auto simp: as_mapping_def as_str_def result_simps result_Ok dest!: parse_named_target_ok parse_cost_bias_ok
      split: option.splits Value.splits list.splits prod.splits if_splits)

lemma parse_action_ok:
  assumes "rule_libs_ok lib yl"
  shows "parse_action lib yl v = Ok a \<Longrightarrow> leaves_ok lib a"
proof (induction "size v" arbitrary: v a rule: less_induct)
  case less
  from less.prems show ?case
  proof (cases rule: parse_action_cases)
    case (hint w h)
    then show ?thesis
      using parse_schedule_hint_ok [of yl w h] by (simp add: leaves_ok_leaf)
  next
    case (transform w d)
    then show ?thesis
      using parse_transform_ok [OF transform(1) assms] by (simp add: leaves_ok_leaf)
  next
    case (compose k w xs ys)
    have smaller: "size x < size v" if "x \<in> set xs" for x
      using sequence_size [OF compose(2) that] compose(1) by simp
    show ?thesis
      unfolding compose(5) using compose(4,3)
      by (rule parsed_compose_ok) (use less.hyps smaller in blast)
  qed (auto simp: leaves_ok_leaf)
qed

definition compose_conflicts :: "ValidateError set" where
  "compose_conflicts = {VeComposeAllowDenyConflict, VeComposeMultipleRouteGroup, VeComposeMultipleResolverPool, VeComposeMultipleCostBias}"

lemma check_effects_Err: "check_effects a = Err e \<Longrightarrow> e \<in> compose_conflicts"
  by (auto simp: check_effects_def Let_def compose_conflicts_def split: if_splits)

lemma validate_action_conflict: "leaves_ok lib a \<Longrightarrow> validate_action lib a = Err e \<Longrightarrow> e \<in> compose_conflicts"
proof (induction lib a rule: validate_action.induct)
  case (6 lib actions)
  then show ?case
    by (auto simp: leaves_ok_def list_all_iff split: if_splits sum.splits dest!: check_all_Err intro: check_effects_Err)
qed (auto simp: leaves_ok_def split: RuleScheduleHint.splits)

lemma faulty_Ok: "faulty r = Ok x \<longleftrightarrow> r = Ok x"
  by (simp add: faulty_def map_err_Ok)

definition rule_match_of ::
    "('n, 'r, 'j) rule_lib \<Rightarrow> 'j yaml_lib \<Rightarrow> (Value \<times> Value) list \<Rightarrow> ParseFault + ('n, 'r) MatchExpr" where
  "rule_match_of lib yl ms =
     (case map_get ms ''match'' of
        Some mv \<Rightarrow> faulty (parse_match lib yl mv)
      | None \<Rightarrow>
          res_bind (collect_results (parse_flat_term lib yl) (flat_keys ms)) (\<lambda>terms.
          case terms of
            [] \<Rightarrow> Err (PfErr (PrUnknownAction ''rule has no predicates''))
          | [t] \<Rightarrow> Ok t
          | _ \<Rightarrow> Ok (MxAll terms)))"

lemma parse_rule_eq:
  "parse_rule lib yl v =
     res_bind (faulty (ok_or (as_mapping v) (PrUnknownAction ''rule must be mapping''))) (\<lambda>ms.
     res_bind (faulty (ok_or (map_get ms ''action'') (PrUnknownAction (''rule missing '' @ tick @ ''action'' @ tick)))) (\<lambda>action_val.
     res_bind (faulty (parse_action lib yl action_val)) (\<lambda>action.
     res_bind (faulty (parse_rule_id yl ms)) (\<lambda>rid.
     if map_get ms ''match'' \<noteq> None \<and> flat_keys ms \<noteq> [] then Err (PfErr PrRuleBothMatchAndFlat)
     else res_bind (rule_match_of lib yl ms) (\<lambda>m. Ok \<lparr>rl_id = rid, rl_match = m, rl_action = action\<rparr>)))))"
  unfolding parse_rule_def rule_match_of_def by (rule refl)

lemma parse_rule_parts:
  assumes "parse_rule lib yl v = Ok r"
  obtains ms av where "as_mapping v = Some ms" "map_get ms ''action'' = Some av"
    "parse_action lib yl av = Ok (rl_action r)" "parse_rule_id yl ms = Ok (rl_id r)"
    "rule_match_of lib yl ms = Ok (rl_match r)"
  using assms unfolding parse_rule_eq by (auto simp: res_bind_eq_Inr faulty_Ok ok_or_eq_Inr split: if_splits)

lemma rule_match_valid:
  assumes "rule_match_of lib yl ms = Ok m" and "rule_libs_ok lib yl"
  shows "validate_match lib m = Ok ()"
proof -
  have flat: "\<forall>t \<in> set ts. validate_match lib t = Ok ()"
    if "list_all2 (\<lambda>x y. parse_flat_term lib yl x = Ok y) kvs ts" for kvs ts
    using that
    by (induction kvs ts rule: list_all2_induct)
      (auto simp: parse_flat_term_def faulty_Ok map_sum_Ok parse_predicate_valid [OF _ assms(2)] split: option.splits)
  show ?thesis
  proof (cases "map_get ms ''match''")
    case None
    then obtain ts where ts: "\<forall>t \<in> set ts. validate_match lib t = Ok ()"
      and m: "(case ts of [] \<Rightarrow> Err (PfErr (PrUnknownAction ''rule has no predicates'')) | [t] \<Rightarrow> Ok t | _ \<Rightarrow> Ok (MxAll ts)) = Ok m"
      using assms(1) flat by (auto simp: rule_match_of_def res_bind_eq_Inr collect_results_Ok)
    then show ?thesis
      by (auto simp: check_all_Ok split: list.splits)
  next
    case (Some mv)
    then show ?thesis
      using assms by (auto simp: rule_match_of_def faulty_Ok dest: parse_match_valid)
  qed
qed

lemma parse_rule_id_ok: "parse_rule_id yl ms = Ok rid \<Longrightarrow> rid \<noteq> Some []"
  by (auto simp: parse_rule_id_def split: option.splits Value.splits if_splits)

lemma parse_rule_conflict:
  assumes "parse_rule lib yl v = Ok r" and "rule_libs_ok lib yl" and "validate_rule lib r = Err e"
  shows "e \<in> compose_conflicts"
  using assms(1)
proof (rule parse_rule_parts)
  fix ms av
  assume a: "parse_action lib yl av = Ok (rl_action r)" and i: "parse_rule_id yl ms = Ok (rl_id r)"
    and m: "rule_match_of lib yl ms = Ok (rl_match r)"
  show ?thesis
    using assms(3) rule_match_valid [OF m assms(2)] parse_action_ok [OF assms(2) a] parse_rule_id_ok [OF i]
    by (auto simp: validate_rule_def intro: validate_action_conflict)
qed

definition field_errors :: "ValidateError set" where
  "field_errors = range VeRulesetIpCidrField \<union> range VeRulesetDomainSuffixField"

lemma parse_source_ok:
  assumes "parse_source yl name ms = Ok src"
  shows "case src of SrcInline values \<Rightarrow> values \<noteq> [] \<and> [] \<notin> set values | SrcLocal path \<Rightarrow> path \<noteq> []"
proof -
  have nonempty: "ys \<noteq> [] \<and> [] \<notin> set ys" if "parse_values yl name xs = Ok ys" "xs \<noteq> []" for xs ys
  proof
    have l: "list_all2 (\<lambda>v y. y \<noteq> []) xs ys"
      using that(1) unfolding parse_values_def collect_results_Ok
      by (rule list_all2_mono) (auto simp: res_bind_eq_Inr split: if_splits)
    show "ys \<noteq> []"
      using l that(2) by auto
    show "[] \<notin> set ys"
      using list_all2_right [OF l] by blast
  qed
  show ?thesis
    using assms unfolding parse_source_def Let_def
    by (auto simp: result_simps map_sum_Ok split: if_splits dest: nonempty)
qed

lemma parse_ruleset_ok:
  assumes "parse_ruleset yl name v = Ok rs"
  obtains ms where "parse_source yl name ms = Ok (rs_source rs)" "rs_name rs = name"
    "rs_format rs = RfClassical \<longrightarrow> rs_field rs = None"
  using assms unfolding parse_ruleset_def Let_def by (auto simp: res_bind_eq_Inr split: if_splits)

lemma parse_ruleset_field_error:
  assumes "parse_ruleset yl name v = Ok rs" and "name \<noteq> []" and "validate_ruleset rs = Err e"
  shows "e \<in> field_errors"
  using assms(1)
proof (rule parse_ruleset_ok)
  fix ms
  assume s: "parse_source yl name ms = Ok (rs_source rs)" and n: "rs_name rs = name"
    and c: "rs_format rs = RfClassical \<longrightarrow> rs_field rs = None"
  from s have "case rs_source rs of SrcInline values \<Rightarrow> values \<noteq> [] \<and> [] \<notin> set values | SrcLocal path \<Rightarrow> path \<noteq> []"
    by (rule parse_source_ok)
  then show ?thesis
    using assms(2,3) n c
    by (auto simp: validate_ruleset_def field_errors_def list_ex_iff
        split: RulesetSource.splits if_splits RulesetFormat.splits option.splits RulesetField.splits)
qed

lemma parse_rulesets_parts:
  assumes "parse_rulesets yl ms = Ok rss"
  shows "list_all2 (\<lambda>(k, v) rs. \<exists>name. k = YString name \<and> name \<noteq> [] \<and> parse_ruleset yl name v = Ok rs) ms rss"
  using assms unfolding parse_rulesets_def collect_results_Ok
  by (rule list_all2_mono) (auto simp: result_simps as_str_def split: if_splits Value.splits)

lemma parse_rulesets_names:
  assumes "parse_rulesets yl ms = Ok rss"
  shows "map fst ms = map (YString \<circ> rs_name) rss"
  using parse_rulesets_parts [OF assms]
  by (induction ms rss rule: list_all2_induct) (auto elim: parse_ruleset_ok)

lemma validate_rulesets_error:
  assumes "validate_rulesets names rss = Err e" and "distinct (map rs_name rss)" and "names \<inter> rs_name ` set rss = {}"
    and "\<And>rs e'. rs \<in> set rss \<Longrightarrow> validate_ruleset rs = Err e' \<Longrightarrow> e' \<in> field_errors"
  shows "e \<in> field_errors"
  using assms
proof (induction rss arbitrary: names)
  case (Cons rs rss)
  show ?case
  proof (cases "validate_ruleset rs")
    case (Inl e')
    then show ?thesis
      using Cons.prems(1) Cons.prems(4) [of rs e'] by simp
  next
    case (Inr u)
    then have "validate_rulesets (insert (rs_name rs) names) rss = Err e"
      using Cons.prems(1,3) by (simp split: if_splits)
    then show ?thesis
      by (rule Cons.IH) (use Cons.prems in auto)
  qed
qed simp

text \<open>No mapping of a YAML document has a key twice.\<close>

definition unique_ruleset_keys :: "Value \<Rightarrow> bool" where
  "unique_ruleset_keys raw \<longleftrightarrow>
     (\<forall>ms rs_map. as_mapping raw = Some ms \<longrightarrow> map_get ms ''rule_sets'' = Some (YMap rs_map) \<longrightarrow> distinct (map fst rs_map))"

lemma parse_rulesets_error:
  assumes p: "parse_rulesets yl ms = Ok rss" and d: "distinct (map fst ms)" and v: "validate_rulesets {} rss = Err e"
  shows "e \<in> field_errors"
proof (rule validate_rulesets_error [OF v])
  have "inj_on YString (rs_name ` set rss)"
    by (simp add: inj_on_def)
  then show "distinct (map rs_name rss)"
    using d unfolding parse_rulesets_names [OF p] by (metis distinct_map map_map)
  show "e' \<in> field_errors" if "rs \<in> set rss" "validate_ruleset rs = Err e'" for rs e'
    using list_all2_right [OF parse_rulesets_parts [OF p] that(1)] that(2) by (auto intro: parse_ruleset_field_error)
qed simp

lemma parse_document_parts:
  assumes "parse_document lib yl raw = Ok (chain, rss)"
  obtains ms dv seq where "as_mapping raw = Some ms" "parse_action lib yl dv = Ok (rc_default chain)"
    "list_all2 (\<lambda>v r. parse_rule lib yl v = Ok r) seq (rc_rules chain)"
    "map_get ms ''rule_sets'' = None \<and> rss = [] \<or> (\<exists>rs_map. map_get ms ''rule_sets'' = Some (YMap rs_map) \<and> parse_rulesets yl rs_map = Ok rss)"
proof -
  obtain ms dv dflt rules where m: "as_mapping raw = Some ms" and d0: "parse_action lib yl dv = Ok dflt"
    and c: "\<lparr>rc_rules = rules, rc_default = dflt\<rparr> = chain" and r0: "(case map_get ms ''rules'' of
         None \<Rightarrow> Err (PfErr PrMissingRules)
       | Some rv \<Rightarrow>
           (case rv of
              YSeq seq \<Rightarrow> collect_results (parse_rule lib yl) seq
            | _ \<Rightarrow> Err (PfErr (PrUnknownAction ''rules must be sequence'')))) = Ok rules"
    and s: "(case map_get ms ''rule_sets'' of
         None \<Rightarrow> Ok []
       | Some rv \<Rightarrow>
           (case rv of
              YMap rs_map \<Rightarrow> parse_rulesets yl rs_map
            | _ \<Rightarrow> Err (PrUnknownAction ''rule_sets must be mapping''))) = Ok rss"
    using assms unfolding parse_document_def
    by (simp only: res_bind_eq_Inr faulty_Ok ok_or_eq_Inr sum.inject prod.inject) blast
  have d: "parse_action lib yl dv = Ok (rc_default chain)" and rules: "rules = rc_rules chain"
    using d0 c by auto
  note r = r0 [unfolded rules]
  obtain seq where seq: "list_all2 (\<lambda>v r. parse_rule lib yl v = Ok r) seq (rc_rules chain)"
    using r by (auto simp: collect_results_Ok split: option.splits Value.splits)
  have "map_get ms ''rule_sets'' = None \<and> rss = []
      \<or> (\<exists>rs_map. map_get ms ''rule_sets'' = Some (YMap rs_map) \<and> parse_rulesets yl rs_map = Ok rss)"
    using s by (auto split: option.splits Value.splits)
  with m d seq that show thesis
    by blast
qed

text \<open>C25: A document the parser accepts, with distinct ruleset keys, is well formed up to two kinds of errors: its validation
  can only fail because an action combines conflicting parts, or because a ruleset lacks the field its format needs or names one
  its format does not allow. Every other error that validation knows is excluded by parsing.\<close>
theorem parsed_document_wf:
  assumes "parse_document lib yl raw = Ok (chain, rss)" and "rule_libs_ok lib yl" and "unique_ruleset_keys raw"
    and "validate_chain lib chain rss = Err e"
  shows "e \<in> compose_conflicts \<union> field_errors"
  using assms(1)
proof (rule parse_document_parts)
  fix ms dv seq
  assume raw: "as_mapping raw = Some ms" and d: "parse_action lib yl dv = Ok (rc_default chain)"
    and rules: "list_all2 (\<lambda>v r. parse_rule lib yl v = Ok r) seq (rc_rules chain)"
    and sets: "map_get ms ''rule_sets'' = None \<and> rss = []
      \<or> (\<exists>rs_map. map_get ms ''rule_sets'' = Some (YMap rs_map) \<and> parse_rulesets yl rs_map = Ok rss)"
  from assms(4) consider r where "r \<in> set (rc_rules chain)" "validate_rule lib r = Err e"
    | "validate_action lib (rc_default chain) = Err e" | "validate_rulesets {} rss = Err e"
    by (auto simp: validate_chain_def res_bind_eq_Inl dest: check_all_Err)
  then show ?thesis
  proof cases
    case 1
    with list_all2_right [OF rules 1(1)] show ?thesis
      by (auto dest: parse_rule_conflict [OF _ assms(2)])
  next
    case 2
    with parse_action_ok [OF assms(2) d] show ?thesis
      by (auto dest: validate_action_conflict)
  next
    case 3
    with sets raw assms(3) show ?thesis
      by (auto simp: unique_ruleset_keys_def dest: parse_rulesets_error)
  qed
qed

text \<open>Types and functions of the other crates for the examples: networks are texts that contain nothing.\<close>

definition sample_lib :: "(string, string, unit option) rule_lib" where
  "sample_lib =
     \<lparr>lb_net_contains = (\<lambda>_ _. False), lb_net_parse = Ok, lb_regex_new = Ok, lb_regex_str = id,
      lb_regex_match = (\<lambda>r s. r = s), lb_json_null = None, lb_json_is_object = (\<lambda>j. j \<noteq> None)\<rparr>"

definition sample_yaml :: "unit option yaml_lib" where
  "sample_yaml = \<lparr>yl_from_str = (\<lambda>_. Ok YNull), yl_debug = (\<lambda>_. []), yl_json = (\<lambda>_. Ok (Some ()))\<rparr>"

lemma sample_libs_ok: "rule_libs_ok sample_lib sample_yaml"
  by (simp add: rule_libs_ok_def sample_lib_def sample_yaml_def)

definition conflicting_document :: Value where
  "conflicting_document =
     YMap [(YString ''default'', YMap [(YString ''compose'', YSeq [YString ''allow'', YString ''deny''])]),
           (YString ''rules'', YSeq [])]"

lemma conflicting_document_parsed:
  "parse_document sample_lib sample_yaml conflicting_document = Ok (\<lparr>rc_rules = [], rc_default = AcCompose [AcAllow, AcDeny]\<rparr>, [])"
  by (simp add: parse_document_def conflicting_document_def as_mapping_def faulty_def map_err_def check_keys_def as_str_def
      ensure_def map_get_def parse_action.simps as_sequence_def)

text \<open>The other kind of error: a ruleset of domain suffixes without its field.\<close>

definition fieldless_document :: Value where
  "fieldless_document =
     YMap [(YString ''default'', YString ''allow''), (YString ''rules'', YSeq []),
           (YString ''rule_sets'', YMap [(YString ''s'', YMap [(YString ''type'', YString ''inline''),
              (YString ''format'', YString ''domain-suffix''), (YString ''values'', YSeq [YString ''example.org''])])])]"

definition fieldless_ruleset :: Ruleset where
  "fieldless_ruleset = \<lparr>rs_name = ''s'', rs_format = RfDomainSuffix, rs_field = None, rs_source = SrcInline [''example.org'']\<rparr>"

lemma fieldless_document_parsed:
  "parse_document sample_lib sample_yaml fieldless_document = Ok (\<lparr>rc_rules = [], rc_default = AcAllow\<rparr>, [fieldless_ruleset])"
  by (simp add: parse_document_def fieldless_document_def fieldless_ruleset_def as_mapping_def faulty_def map_err_def check_keys_def
      as_str_def ensure_def map_get_def parse_action.simps as_sequence_def parse_rulesets_def parse_ruleset_def parse_source_def
      parse_values_def named_def)

theorem parsed_document_wf_witness:
  "parse_document sample_lib sample_yaml conflicting_document = Ok (\<lparr>rc_rules = [], rc_default = AcCompose [AcAllow, AcDeny]\<rparr>, [])
   \<and> validate_chain sample_lib \<lparr>rc_rules = [], rc_default = AcCompose [AcAllow, AcDeny]\<rparr> [] = Err VeComposeAllowDenyConflict
   \<and> VeComposeAllowDenyConflict \<in> compose_conflicts \<union> field_errors
   \<and> parse_document sample_lib sample_yaml fieldless_document = Ok (\<lparr>rc_rules = [], rc_default = AcAllow\<rparr>, [fieldless_ruleset])
   \<and> validate_chain sample_lib \<lparr>rc_rules = [], rc_default = AcAllow\<rparr> [fieldless_ruleset] = Err (VeRulesetDomainSuffixField ''s'')
   \<and> VeRulesetDomainSuffixField ''s'' \<in> compose_conflicts \<union> field_errors"
proof -
  have u: "unique_ruleset_keys conflicting_document" "unique_ruleset_keys fieldless_document"
    by (simp_all add: unique_ruleset_keys_def conflicting_document_def fieldless_document_def as_mapping_def map_get_def)
  have c: "validate_chain sample_lib \<lparr>rc_rules = [], rc_default = AcCompose [AcAllow, AcDeny]\<rparr> [] = Err VeComposeAllowDenyConflict"
    by (simp add: validate_chain_def check_effects_def effects_default_def Let_def)
  have f: "validate_chain sample_lib \<lparr>rc_rules = [], rc_default = AcAllow\<rparr> [fieldless_ruleset] = Err (VeRulesetDomainSuffixField ''s'')"
    by (simp add: validate_chain_def fieldless_ruleset_def validate_ruleset_def)
  from parsed_document_wf [OF conflicting_document_parsed sample_libs_ok u(1) c]
    parsed_document_wf [OF fieldless_document_parsed sample_libs_ok u(2) f] c f conflicting_document_parsed fieldless_document_parsed
  show ?thesis by blast
qed

section \<open>When reading a rule panics\<close>

lemma faulty_no_panic: "faulty r \<noteq> Err (PfPanic t)"
  by (cases r) (simp_all add: faulty_def map_err_def)

lemma parse_flat_term_panic: "parse_flat_term lib yl (k, w) = Err (PfPanic t) \<longleftrightarrow> as_str k = None \<and> t = ''yaml mapping keys are strings''"
  by (auto simp: parse_flat_term_def faulty_no_panic split: option.splits)

lemma rule_match_panic:
  "rule_match_of lib yl ms = Err (PfPanic t) \<longleftrightarrow>
     map_get ms ''match'' = None \<and> collect_results (parse_flat_term lib yl) (flat_keys ms) = Err (PfPanic t)"
proof -
  have "(case ts of [] \<Rightarrow> Err (PfErr (PrUnknownAction ''rule has no predicates'')) | [u] \<Rightarrow> Ok u | _ \<Rightarrow> Ok (MxAll ts))
      \<noteq> Err (PfPanic t)" for ts :: "('a, 'b) MatchExpr list"
    by (simp split: list.split)
  then show ?thesis
    by (auto simp: rule_match_of_def faulty_no_panic res_bind_eq_Inl split: option.split)
qed

text \<open>C26: Reading a rule aborts the program exactly when its action and id are fine, it has no \<open>match\<close> entry, and the
  first of its other entries that is not a valid predicate has a key that is not a string.\<close>
theorem parse_rule_panics_iff:
  "(\<exists>t. parse_rule lib yl v = Err (PfPanic t)) \<longleftrightarrow>
     (\<exists>ms av a rid pre k w post. v = YMap ms \<and> map_get ms ''action'' = Some av \<and> parse_action lib yl av = Ok a
        \<and> parse_rule_id yl ms = Ok rid \<and> map_get ms ''match'' = None \<and> flat_keys ms = pre @ (k, w) # post
        \<and> as_str k = None \<and> (\<forall>x \<in> set pre. is_Ok (parse_flat_term lib yl x)))"
proof -
  have "parse_rule lib yl v = Err (PfPanic t) \<longleftrightarrow>
      (\<exists>ms av a rid. v = YMap ms \<and> map_get ms ''action'' = Some av \<and> parse_action lib yl av = Ok a
        \<and> parse_rule_id yl ms = Ok rid \<and> map_get ms ''match'' = None
        \<and> collect_results (parse_flat_term lib yl) (flat_keys ms) = Err (PfPanic t))" for t
    unfolding parse_rule_eq
    by (auto simp: res_bind_eq_Inl faulty_no_panic faulty_Ok ok_or_eq_Inr rule_match_panic as_mapping_def split: Value.splits)
  then show ?thesis
    by (simp add: collect_results_Err split_paired_Ex parse_flat_term_panic) blast
qed

text \<open>A rule with the key \<^verbatim>\<open>1\<close>.\<close>

definition numbered_rule :: Value where
  "numbered_rule = YMap [(YString ''action'', YString ''allow''), (YInt 1, YString ''x'')]"

theorem parse_rule_panics_iff_witness: "\<exists>t. parse_rule sample_lib sample_yaml numbered_rule = Err (PfPanic t)"
  unfolding parse_rule_panics_iff
  by (intro exI [of _ "[(YString ''action'', YString ''allow''), (YInt 1, YString ''x'')]"] exI [of _ "YString ''allow''"]
      exI [of _ AcAllow] exI [of _ None] exI [of _ "[]"] exI [of _ "YInt 1"] exI [of _ "YString ''x''"])
    (simp add: numbered_rule_def map_get_def parse_action.simps as_str_def parse_rule_id_def flat_keys_def key_text_def)

end
