(* ===== verification/Byte_Text.thy ===== *)
theory Byte_Text
  imports Net_Addr
begin

text \<open>
  Between bytes and text, as Rust's standard library has it: a string and its bytes, the check of
  \<^verbatim>\<open>std::str::from_utf8\<close>, network-order integers as words, and the contract \<open>positional_codec\<close> of a
  decoder that walks a message with a cursor.
\<close>

section \<open>Bytes and characters\<close>

definition bytes_str :: "bytes \<Rightarrow> string" where
  "bytes_str bs = map (\<lambda>b. char_of (unat b)) bs"

definition ascii_byte :: "u8 \<Rightarrow> bool" where
  "ascii_byte b \<longleftrightarrow> unat b < 128"

definition ascii_char :: "char \<Rightarrow> bool" where
  "ascii_char c \<longleftrightarrow> (of_char c :: nat) < 128"

lemma of_char_less: "(of_char c :: nat) < 256"
  by simp

lemma bytes_str_str_bytes [simp]: "bytes_str (str_bytes s) = s"
proof -
  have "char_of (unat (of_char c :: u8)) = c" for c
  proof -
    have "unat (of_char c :: u8) = (of_char c :: nat)"
      by (metis of_char_less of_nat_of_char unat_u8_of_nat mod_less)
    then show ?thesis by simp
  qed
  then show ?thesis by (simp add: bytes_str_def str_bytes_def comp_def)
qed

lemma str_bytes_bytes_str [simp]: "str_bytes (bytes_str bs) = bs"
proof -
  have "(of_char (char_of (unat b)) :: u8) = b" for b :: u8
    using unat_u8_less [of b] by (metis of_char_of of_nat_of_char mod_less unat_of_nat word_unat_eq_iff unat_u8_of_nat)
  then show ?thesis by (simp add: bytes_str_def str_bytes_def comp_def)
qed

lemma length_bytes_str [simp]: "length (bytes_str bs) = length bs"
  by (simp add: bytes_str_def)

lemma length_str_bytes [simp]: "length (str_bytes s) = length s"
  by (simp add: str_bytes_def)

lemma str_bytes_append [simp]: "str_bytes (s @ t) = str_bytes s @ str_bytes t"
  by (simp add: str_bytes_def)

lemma str_bytes_eq [simp]: "str_bytes s = str_bytes t \<longleftrightarrow> s = t"
  by (metis bytes_str_str_bytes)

lemma ascii_str_bytes: "list_all ascii_byte (str_bytes s) \<longleftrightarrow> list_all ascii_char s"
proof -
  have "unat (of_char c :: u8) = (of_char c :: nat)" for c
    by (metis of_char_less of_nat_of_char unat_u8_of_nat mod_less)
  then show ?thesis by (simp add: str_bytes_def ascii_byte_def ascii_char_def list_all_iff)
qed

section \<open>UTF-8\<close>

text \<open>For a lead byte of a sequence of two or more bytes: the range of the second byte and the number of
  continuation bytes after it.\<close>

definition utf8_lead :: "nat \<Rightarrow> (nat \<times> nat \<times> nat) option" where
  "utf8_lead n =
     (if 0xC2 \<le> n \<and> n \<le> 0xDF then Some (0x80, 0xBF, 0)
      else if n = 0xE0 then Some (0xA0, 0xBF, 1)
      else if 0xE1 \<le> n \<and> n \<le> 0xEC then Some (0x80, 0xBF, 1)
      else if n = 0xED then Some (0x80, 0x9F, 1)
      else if 0xEE \<le> n \<and> n \<le> 0xEF then Some (0x80, 0xBF, 1)
      else if n = 0xF0 then Some (0x90, 0xBF, 2)
      else if 0xF1 \<le> n \<and> n \<le> 0xF3 then Some (0x80, 0xBF, 2)
      else if n = 0xF4 then Some (0x80, 0x8F, 2)
      else None)"

definition continuation_byte :: "u8 \<Rightarrow> bool" where
  "continuation_byte b \<longleftrightarrow> 0x80 \<le> unat b \<and> unat b \<le> 0xBF"

function utf8_valid :: "bytes \<Rightarrow> bool" where
  "utf8_valid [] \<longleftrightarrow> True"
| "utf8_valid (b # bs) \<longleftrightarrow>
     (if unat b < 128 then utf8_valid bs
      else case utf8_lead (unat b) of
          None \<Rightarrow> False
        | Some (lo, hi, more) \<Rightarrow>
            (case bs of
               [] \<Rightarrow> False
             | c # cs \<Rightarrow> lo \<le> unat c \<and> unat c \<le> hi \<and> more \<le> length cs \<and> list_all continuation_byte (take more cs)
                        \<and> utf8_valid (drop more cs)))"
  by pat_completeness auto
termination by (relation "measure length") (auto simp: less_Suc_eq_le)

lemma ascii_utf8_valid: "list_all ascii_byte bs \<Longrightarrow> utf8_valid bs"
  by (induction bs) (auto simp: ascii_byte_def)

section \<open>Integers in network order\<close>

definition put_be16 :: "u16 \<Rightarrow> bytes" where
  "put_be16 w = be_bytes 2 (unat w)"

definition put_be32 :: "u32 \<Rightarrow> bytes" where
  "put_be32 w = be_bytes 4 (unat w)"

lemma word_of_be_bytes:
  "256 ^ k = (2 :: nat) ^ LENGTH('a) \<Longrightarrow> of_nat (be_val (be_bytes k (unat w))) = (w :: 'a :: len word)"
proof -
  assume "256 ^ k = (2 :: nat) ^ LENGTH('a)"
  moreover have "unat w < 2 ^ LENGTH('a)" by (rule unsigned_less)
  ultimately show ?thesis by simp
qed

lemma length_put_be [simp, codec_simps]: "length (put_be16 w) = 2" "length (put_be32 v) = 4"
  by (simp_all add: put_be16_def put_be32_def)

lemma be_val_put_be [simp, codec_simps]:
  "of_nat (be_val (put_be16 w)) = w" "of_nat (be_val (put_be32 v)) = v"
proof -
  have "unat w < 2 ^ LENGTH(16)" "unat v < 2 ^ LENGTH(32)" by (rule unsigned_less)+
  then have "unat w < 256 ^ 2" "unat v < 256 ^ 4" by simp_all
  then show "of_nat (be_val (put_be16 w)) = w" "of_nat (be_val (put_be32 v)) = v"
    by (simp_all add: put_be16_def put_be32_def)
qed

lemma be_val_put_be16_unat [simp, codec_simps]: "be_val (put_be16 w) = unat w"
proof -
  have "unat w < 2 ^ LENGTH(16)" by (rule unsigned_less)
  then show ?thesis by (simp add: put_be16_def)
qed

lemma unat_of_nat_u16: "n < 65536 \<Longrightarrow> unat (of_nat n :: u16) = n"
  by (simp add: unat_of_nat)

section \<open>Decoding with a cursor\<close>

text \<open>\<open>k\<close> bytes of \<open>buf\<close> from position \<open>i\<close>, the slice \<^verbatim>\<open>buf[i..i + k]\<close>.\<close>

definition slice :: "bytes \<Rightarrow> nat \<Rightarrow> nat \<Rightarrow> bytes" where
  "slice buf i k = take k (drop i buf)"

lemma slice_append [simp, codec_simps]: "slice (pre @ xs @ post) (length pre) (length xs) = xs"
  by (simp add: slice_def)

lemma length_slice: "i + k \<le> length buf \<Longrightarrow> length (slice buf i k) = k"
  by (simp add: slice_def)

text \<open>A loop that reads \<open>n\<close> items one after the other.\<close>

fun decode_many :: "(nat \<Rightarrow> 'e + 'a \<times> nat) \<Rightarrow> nat \<Rightarrow> nat \<Rightarrow> 'e + 'a list \<times> nat" where
  "decode_many dec 0 pos = Ok ([], pos)"
| "decode_many dec (Suc n) pos =
     res_bind (dec pos) (\<lambda>(x, pos'). res_bind (decode_many dec n pos') (\<lambda>(xs, p). Ok (x # xs, p)))"

text \<open>The contract of an item of a message: whatever precedes and follows its bytes, the decoder returns it
  and moves the cursor behind them.\<close>

locale positional_codec =
  fixes enc :: "'a \<Rightarrow> bytes"
    and dec :: "bytes \<Rightarrow> nat \<Rightarrow> 'e + 'a \<times> nat"
    and good :: "'a \<Rightarrow> bool"
  assumes dec_enc: "good x \<Longrightarrow> dec (pre @ enc x @ post) (length pre) = Ok (x, length pre + length (enc x))"
begin

lemma decode_many_enc:
  "\<forall>x \<in> set xs. good x \<Longrightarrow>
     decode_many (dec (pre @ concat (map enc xs) @ post)) (length xs) (length pre)
       = Ok (xs, length pre + length (concat (map enc xs)))"
proof (induction xs arbitrary: pre)
  case (Cons x xs)
  from Cons.IH [of "pre @ enc x"] Cons.prems dec_enc [of x pre "concat (map enc xs) @ post"]
  show ?case by simp
qed simp

lemma decode_many_at:
  assumes "buf = pre @ concat (map enc xs) @ post" "\<forall>x \<in> set xs. good x" "p = length pre"
    and "q = length pre + length (concat (map enc xs))"
  shows "decode_many (dec buf) (length xs) p = Ok (xs, q)"
  using assms decode_many_enc [of xs pre post] by simp

end

lemma decode_many_length: "decode_many dec n pos = Ok (xs, p) \<Longrightarrow> length xs = n"
  by (induction n arbitrary: pos xs p) (auto simp: result_simps)

text \<open>What every item of the sequence takes at least.\<close>

lemma decode_many_consumes:
  assumes "\<And>pos x p. dec pos = Ok (x, p) \<Longrightarrow> pos + k \<le> p \<and> p \<le> L"
    and "decode_many dec n pos = Ok (xs, p)" and "pos \<le> L"
  shows "pos + k * n \<le> p \<and> p \<le> L"
  using assms(2,3)
proof (induction n arbitrary: pos xs)
  case (Suc n)
  then obtain x q ys where "dec pos = Ok (x, q)" "decode_many dec n q = Ok (ys, p)"
    by (auto simp: result_simps)
  with assms(1) [of pos x q] Suc.IH [of q ys] show ?case by simp
qed simp

lemma decode_many_items:
  "decode_many dec n pos = Ok (xs, p) \<Longrightarrow> x \<in> set xs \<Longrightarrow> \<exists>q q'. dec q = Ok (x, q')"
  by (induction n arbitrary: pos xs) (auto simp: result_simps, blast)

end
