(* ===== verification/DNS_Codec.thy ===== *)
theory DNS_Codec
  imports Byte_Text Framing
begin

text \<open>
  The DNS message codec \<^verbatim>\<open>lib/mb-proto-dns/src\<close>: names with compression pointers, questions, resource
  records with their typed data, the EDNS pseudo-record and the length framing over TCP. A decoder takes the
  whole message and the position of its cursor and returns the new position; an encoder extends a buffer.
  The \<^verbatim>\<open>unreachable!\<close> of the record encoder is the value \<open>DfPanic\<close>.

  The lemmas show that the decoder undoes the encoder, that what is read is bounded by the size of the message
  (records, name lengths and pointer hops), and that a decoded message can be encoded again.
\<close>

section \<open>types.rs\<close>

datatype DecodeError =
    DeTruncated nat | DeCompressionLoop | DeInvalidLabel u8 | DeOversize string | DeInvalidRData u16 | DeNotUtf8

datatype DnsFault = DfErr DecodeError | DfPanic

datatype QType = QtA | QtCname | QtPtr | QtTxt | QtAaaa | QtOpt | QtAny

fun qtype_u16 :: "QType \<Rightarrow> u16" where
  "qtype_u16 QtA = 1"
| "qtype_u16 QtCname = 5"
| "qtype_u16 QtPtr = 12"
| "qtype_u16 QtTxt = 16"
| "qtype_u16 QtAaaa = 28"
| "qtype_u16 QtOpt = 41"
| "qtype_u16 QtAny = 255"

definition qtype_from_u16 :: "u16 \<Rightarrow> QType option" where
  "qtype_from_u16 v =
     (if v = 1 then Some QtA else if v = 5 then Some QtCname else if v = 12 then Some QtPtr
      else if v = 16 then Some QtTxt else if v = 28 then Some QtAaaa else if v = 41 then Some QtOpt
      else if v = 255 then Some QtAny else None)"

datatype RClass = RcIn

fun rclass_u16 :: "RClass \<Rightarrow> u16" where
  "rclass_u16 RcIn = 1"

datatype Name = Name (canonical: string)

definition name_from_ascii :: "string \<Rightarrow> DecodeError + Name" where
  "name_from_ascii s =
     (if s = [] then Err (DeInvalidLabel 0)
      else if \<not> list_all ascii_char s then Err DeNotUtf8
      else let out = to_ascii_lowercase s
           in Ok (Name (if ends_with ''.'' out then out else out @ ''.'')))"

definition name_labels :: "Name \<Rightarrow> string list" where
  "name_labels n = filter (\<lambda>s. s \<noteq> []) (split_on CHR ''.'' (canonical n))"

definition default_root :: Name where
  "default_root = Name ''.''"

record MessageHeader =
  mh_id :: u16
  mh_flags :: u16
  mh_qd :: u16
  mh_an :: u16
  mh_ns :: u16
  mh_ar :: u16

definition mh_set_counts :: "u16 \<Rightarrow> u16 \<Rightarrow> u16 \<Rightarrow> u16 \<Rightarrow> MessageHeader \<Rightarrow> MessageHeader" where
  "mh_set_counts qd an ns ar h = h \<lparr> mh_qd := qd, mh_an := an, mh_ns := ns, mh_ar := ar \<rparr>"

definition mh_qr :: "MessageHeader \<Rightarrow> bool" where
  "mh_qr h \<longleftrightarrow> drop_bit 15 (mh_flags h) AND 1 = 1"

definition mh_tc :: "MessageHeader \<Rightarrow> bool" where
  "mh_tc h \<longleftrightarrow> drop_bit 9 (mh_flags h) AND 1 = 1"

definition mh_rcode :: "MessageHeader \<Rightarrow> u8" where
  "mh_rcode h = ucast (mh_flags h AND 0x000f)"

record Question =
  q_name :: Name
  q_qtype :: QType
  q_qclass :: RClass

datatype RData =
    RdA u32
  | RdAaaa "128 word"
  | RdPtr Name
  | RdCname Name
  | RdTxt "string list"
  | RdOpt (opt_udp_payload_size: u16) (opt_ext_rcode: u8) (opt_edns_version: u8) (opt_flags: u16) (opt_options: bytes)
  | RdOpaque u16 bytes

record ResourceRecord =
  rr_name :: Name
  rr_qtype :: QType
  rr_qclass :: RClass
  rr_ttl :: u32
  rr_data :: RData

record Message =
  msg_header :: MessageHeader
  msg_questions :: "Question list"
  msg_answers :: "ResourceRecord list"
  msg_authorities :: "ResourceRecord list"
  msg_additionals :: "ResourceRecord list"

record EdnsConfig =
  ec_udp_payload_size :: u16
  ec_dnssec_ok :: bool

definition edns_default :: EdnsConfig where
  "edns_default = \<lparr> ec_udp_payload_size = 1232, ec_dnssec_ok = False \<rparr>"

section \<open>decode.rs\<close>

definition MAX_POINTER_HOPS :: nat where
  "MAX_POINTER_HOPS = 16"

definition cur_u16 :: "bytes \<Rightarrow> nat \<Rightarrow> DecodeError + u16 \<times> nat" where
  "cur_u16 buf pos =
     (if length buf < pos + 2 then Err (DeTruncated pos) else Ok (of_nat (be_val (slice buf pos 2)), pos + 2))"

definition cur_u32 :: "bytes \<Rightarrow> nat \<Rightarrow> DecodeError + u32 \<times> nat" where
  "cur_u32 buf pos =
     (if length buf < pos + 4 then Err (DeTruncated pos) else Ok (of_nat (be_val (slice buf pos 4)), pos + 4))"

text \<open>The characters of a label.\<close>

definition label_text :: "bytes \<Rightarrow> DecodeError + string" where
  "label_text bs = (if list_all ascii_byte bs then Ok (to_ascii_lowercase (bytes_str bs)) else Err DeNotUtf8)"

text \<open>The loop of \<open>decode_name\<close>: the hops made, the position read, whether a pointer was followed, the
  cursor and the text so far.\<close>

function name_loop :: "bytes \<Rightarrow> nat \<Rightarrow> nat \<Rightarrow> bool \<Rightarrow> nat \<Rightarrow> string \<Rightarrow> DecodeError + string \<times> nat" where
  "name_loop buf jumps pos followed cur out =
     (if length buf \<le> pos then Err (DeTruncated pos)
      else let len = buf ! pos
      in if len = 0 then Ok (out, if followed then cur else pos + 1)
      else if len AND 0xC0 = 0xC0 then
        if length buf \<le> pos + 1 then Err (DeTruncated pos)
        else let ptr = push_bit 8 (unat (len AND 0x3F)) OR unat (buf ! (pos + 1));
                 cur' = (if followed then cur else pos + 2)
             in if MAX_POINTER_HOPS < jumps + 1 then Err DeCompressionLoop
                else if pos \<le> ptr then Err DeCompressionLoop
                else name_loop buf (jumps + 1) ptr True cur' out
      else if len AND 0xC0 \<noteq> 0 then Err (DeInvalidLabel len)
      else let llen = unat len
      in if length buf < pos + 1 + llen then Err (DeTruncated pos)
         else case label_text (slice buf (pos + 1) llen) of
             Inl e \<Rightarrow> Inl e
           | Inr l \<Rightarrow> name_loop buf jumps (pos + 1 + llen) followed cur (out @ l @ ''.''))"
  by pat_completeness auto
termination
  by (relation "(\<lambda>(buf, jumps, pos, _). MAX_POINTER_HOPS - jumps) <*mlex*> measure (\<lambda>(buf, jumps, pos, _). length buf - pos)")
    (auto simp: mlex_prod_def)

declare name_loop.simps [simp del]

definition decode_name :: "bytes \<Rightarrow> nat \<Rightarrow> DecodeError + Name \<times> nat" where
  "decode_name buf cur =
     res_bind (name_loop buf 0 cur False cur []) (\<lambda>(out, cur').
     res_bind (name_from_ascii (if out = [] then ''.'' else out)) (\<lambda>n. Ok (n, cur')))"

text \<open>The segments of a TXT record.\<close>

function txt_parts :: "u16 \<Rightarrow> bytes \<Rightarrow> nat \<Rightarrow> DecodeError + string list" where
  "txt_parts qt rdata i =
     (if length rdata \<le> i then Ok []
      else let l = unat (rdata ! i)
      in if length rdata < i + 1 + l then Err (DeInvalidRData qt)
         else if \<not> utf8_valid (slice rdata (i + 1) l) then Err DeNotUtf8
         else res_bind (txt_parts qt rdata (i + 1 + l)) (\<lambda>ps. Ok (bytes_str (slice rdata (i + 1) l) # ps)))"
  by pat_completeness auto
termination by (relation "measure (\<lambda>(_, rdata, i). length rdata - i)") auto

declare txt_parts.simps [simp del]

definition decode_rdata :: "bytes \<Rightarrow> u16 \<Rightarrow> u16 \<Rightarrow> u32 \<Rightarrow> nat \<Rightarrow> nat \<Rightarrow> DecodeError + RData" where
  "decode_rdata buf qtype_raw qclass_raw ttl rdata_start rdlen =
     (let rdata = slice buf rdata_start rdlen in
      case qtype_from_u16 qtype_raw of
        Some QtA \<Rightarrow> if rdlen \<noteq> 4 then Err (DeInvalidRData qtype_raw) else Ok (RdA (of_nat (be_val rdata)))
      | Some QtAaaa \<Rightarrow> if rdlen \<noteq> 16 then Err (DeInvalidRData qtype_raw) else Ok (RdAaaa (of_nat (be_val rdata)))
      | Some QtPtr \<Rightarrow> res_bind (decode_name buf rdata_start) (\<lambda>(n, _). Ok (RdPtr n))
      | Some QtCname \<Rightarrow> res_bind (decode_name buf rdata_start) (\<lambda>(n, _). Ok (RdCname n))
      | Some QtTxt \<Rightarrow> res_bind (txt_parts qtype_raw rdata 0) (\<lambda>ps. Ok (RdTxt ps))
      | Some QtOpt \<Rightarrow> Ok (RdOpt qclass_raw (ucast (drop_bit 24 ttl)) (ucast (drop_bit 16 ttl)) (ucast (ttl AND 0xFFFF)) rdata)
      | _ \<Rightarrow> Ok (RdOpaque qtype_raw rdata))"

definition decode_rr :: "bytes \<Rightarrow> nat \<Rightarrow> DecodeError + ResourceRecord \<times> nat" where
  "decode_rr buf cur =
     res_bind (decode_name buf cur) (\<lambda>(name, cur).
     res_bind (cur_u16 buf cur) (\<lambda>(qtype_raw, cur).
     res_bind (cur_u16 buf cur) (\<lambda>(qclass_raw, cur).
     res_bind (cur_u32 buf cur) (\<lambda>(ttl, cur).
     res_bind (cur_u16 buf cur) (\<lambda>(rdlen_raw, cur).
       let rdlen = unat rdlen_raw in
       if length buf < cur + rdlen then Err (DeTruncated cur)
       else res_bind (decode_rdata buf qtype_raw qclass_raw ttl cur rdlen) (\<lambda>data.
         Ok (\<lparr> rr_name = name,
               rr_qtype = (case qtype_from_u16 qtype_raw of None \<Rightarrow> QtA | Some q \<Rightarrow> q),
               rr_qclass = RcIn, rr_ttl = ttl, rr_data = data \<rparr>, cur + rdlen)))))))"

definition decode_question :: "bytes \<Rightarrow> nat \<Rightarrow> DecodeError + Question \<times> nat" where
  "decode_question buf cur =
     res_bind (decode_name buf cur) (\<lambda>(name, cur).
     res_bind (cur_u16 buf cur) (\<lambda>(qtype_raw, cur).
     res_bind (cur_u16 buf cur) (\<lambda>(qclass_raw, cur).
       Ok (\<lparr> q_name = name,
             q_qtype = (case qtype_from_u16 qtype_raw of None \<Rightarrow> QtA | Some q \<Rightarrow> q),
             q_qclass = RcIn \<rparr>, cur))))"

definition decode_message :: "bytes \<Rightarrow> DecodeError + Message" where
  "decode_message buf =
     res_bind (cur_u16 buf 0) (\<lambda>(id, cur).
     res_bind (cur_u16 buf cur) (\<lambda>(flags, cur).
     res_bind (cur_u16 buf cur) (\<lambda>(qd, cur).
     res_bind (cur_u16 buf cur) (\<lambda>(an, cur).
     res_bind (cur_u16 buf cur) (\<lambda>(ns, cur).
     res_bind (cur_u16 buf cur) (\<lambda>(ar, cur).
     res_bind (decode_many (decode_question buf) (unat qd) cur) (\<lambda>(questions, cur).
     res_bind (decode_many (decode_rr buf) (unat an) cur) (\<lambda>(answers, cur).
     res_bind (decode_many (decode_rr buf) (unat ns) cur) (\<lambda>(authorities, cur).
     res_bind (decode_many (decode_rr buf) (unat ar) cur) (\<lambda>(additionals, cur).
       Ok \<lparr> msg_header = mh_set_counts qd an ns ar
               \<lparr> mh_id = id, mh_flags = flags, mh_qd = 0, mh_an = 0, mh_ns = 0, mh_ar = 0 \<rparr>,
            msg_questions = questions, msg_answers = answers, msg_authorities = authorities,
            msg_additionals = additionals \<rparr>))))))))))"

section \<open>encode.rs\<close>

fun encode_labels :: "string list \<Rightarrow> bytes \<Rightarrow> DecodeError + bytes" where
  "encode_labels [] buf = Ok buf"
| "encode_labels (l # ls) buf =
     (if 63 < length l then Err (DeOversize ''label > 63 octets'')
      else encode_labels ls (buf @ of_nat (length l) # str_bytes l))"

definition encode_name :: "Name \<Rightarrow> bytes \<Rightarrow> DecodeError + bytes" where
  "encode_name n buf = res_bind (encode_labels (name_labels n) buf) (\<lambda>buf. Ok (buf @ [0]))"

fun encode_txt :: "string list \<Rightarrow> bytes \<Rightarrow> DecodeError + bytes" where
  "encode_txt [] buf = Ok buf"
| "encode_txt (p # ps) buf =
     (if 255 < length p then Err (DeOversize ''TXT segment > 255'')
      else encode_txt ps (buf @ of_nat (length p) # str_bytes p))"

definition dns_err :: "DecodeError + 'a \<Rightarrow> DnsFault + 'a" where
  "dns_err r = (case r of Inl e \<Rightarrow> Inl (DfErr e) | Inr x \<Rightarrow> Inr x)"

fun encode_rdata :: "RData \<Rightarrow> bytes \<Rightarrow> DnsFault + bytes" where
  "encode_rdata (RdA ip) buf = Ok (buf @ be_bytes 4 (unat ip))"
| "encode_rdata (RdAaaa ip) buf = Ok (buf @ be_bytes 16 (unat ip))"
| "encode_rdata (RdPtr n) buf = dns_err (encode_name n buf)"
| "encode_rdata (RdCname n) buf = dns_err (encode_name n buf)"
| "encode_rdata (RdTxt ps) buf = dns_err (encode_txt ps buf)"
| "encode_rdata (RdOpt _ _ _ _ _) buf = Err DfPanic"
| "encode_rdata (RdOpaque _ raw) buf = Ok (buf @ raw)"

text \<open>The time to live of an OPT pseudo-record.\<close>

definition opt_ttl :: "u8 \<Rightarrow> u8 \<Rightarrow> u16 \<Rightarrow> u32" where
  "opt_ttl ext_rcode edns_version flags =
     push_bit 24 (ucast ext_rcode) OR push_bit 16 (ucast edns_version) OR ucast flags"

definition encode_opt :: "RData \<Rightarrow> bytes \<Rightarrow> DnsFault + bytes" where
  "encode_opt data buf =
     (case data of
        RdOpt sz rc ver fl opts \<Rightarrow>
          if 65535 < length opts then Err (DfErr (DeOversize ''OPT options > u16''))
          else Ok (buf @ [0] @ put_be16 (qtype_u16 QtOpt) @ put_be16 sz @ put_be32 (opt_ttl rc ver fl)
                   @ put_be16 (of_nat (length opts)) @ opts)
      | _ \<Rightarrow> Err (DfErr (DeInvalidRData (qtype_u16 QtOpt))))"

definition encode_rr :: "ResourceRecord \<Rightarrow> bytes \<Rightarrow> DnsFault + bytes" where
  "encode_rr rr buf =
     (if rr_qtype rr = QtOpt then encode_opt (rr_data rr) buf
      else
        res_bind (dns_err (encode_name (rr_name rr) buf)) (\<lambda>buf.
          let buf = buf @ put_be16 (qtype_u16 (rr_qtype rr)) @ put_be16 (rclass_u16 (rr_qclass rr)) @ put_be32 (rr_ttl rr);
              rdata_start = length buf;
              buf = buf @ put_be16 0;
              rdata_body_start = length buf
          in res_bind (encode_rdata (rr_data rr) buf) (\<lambda>buf.
            let rdlen = length buf - rdata_body_start;
                rdlen_bytes = put_be16 (of_nat rdlen)
            in if 65535 < rdlen then Err (DfErr (DeOversize ''rdata > u16''))
               else Ok (buf[rdata_start := rdlen_bytes ! 0, rdata_start + 1 := rdlen_bytes ! 1]))))"

definition encode_question :: "Question \<Rightarrow> bytes \<Rightarrow> DecodeError + bytes" where
  "encode_question q buf =
     res_bind (encode_name (q_name q) buf) (\<lambda>buf.
       Ok (buf @ put_be16 (qtype_u16 (q_qtype q)) @ put_be16 (rclass_u16 (q_qclass q))))"

text \<open>A loop of fallible writes.\<close>

fun encode_many :: "('a \<Rightarrow> bytes \<Rightarrow> 'e + bytes) \<Rightarrow> 'a list \<Rightarrow> bytes \<Rightarrow> 'e + bytes" where
  "encode_many enc [] buf = Ok buf"
| "encode_many enc (x # xs) buf = res_bind (enc x buf) (encode_many enc xs)"

definition encode_message :: "Message \<Rightarrow> DnsFault + bytes" where
  "encode_message m =
     (if 65535 < length (msg_questions m) \<or> 65535 < length (msg_answers m)
         \<or> 65535 < length (msg_authorities m) \<or> 65535 < length (msg_additionals m)
      then Err (DfErr (DeOversize ''section count > u16''))
      else
        res_bind (dns_err (encode_many encode_question (msg_questions m)
            (put_be16 (mh_id (msg_header m)) @ put_be16 (mh_flags (msg_header m))
             @ put_be16 (of_nat (length (msg_questions m))) @ put_be16 (of_nat (length (msg_answers m)))
             @ put_be16 (of_nat (length (msg_authorities m))) @ put_be16 (of_nat (length (msg_additionals m)))))) (\<lambda>buf.
        encode_many encode_rr (msg_answers m @ msg_authorities m @ msg_additionals m) buf))"

definition edns_opt_rr :: "EdnsConfig \<Rightarrow> ResourceRecord" where
  "edns_opt_rr cfg =
     \<lparr> rr_name = default_root, rr_qtype = QtOpt, rr_qclass = RcIn, rr_ttl = 0,
       rr_data = RdOpt (ec_udp_payload_size cfg) 0 0 (if ec_dnssec_ok cfg then 0x8000 else 0) [] \<rparr>"

section \<open>framing.rs\<close>

definition write_tcp_frame :: "bytes \<Rightarrow> bytes \<Rightarrow> bytes" where
  "write_tcp_frame out m = out @ put_be16 (of_nat (length m)) @ m"

definition try_read_tcp_frame :: "bytes \<Rightarrow> bytes option \<times> bytes" where
  "try_read_tcp_frame buf =
     (if length buf < 2 then (None, buf)
      else let len = be_val (take 2 buf)
      in if length buf < 2 + len then (None, buf)
         else (Some (take len (drop 2 buf)), drop len (drop 2 buf)))"

section \<open>Well-formed messages\<close>

definition wf_label :: "string \<Rightarrow> bool" where
  "wf_label l \<longleftrightarrow> l \<noteq> [] \<and> length l \<le> 63 \<and> CHR ''.'' \<notin> set l \<and> list_all ascii_char l \<and> to_ascii_lowercase l = l"

definition join_labels :: "string list \<Rightarrow> string" where
  "join_labels ls = (if ls = [] then ''.'' else concat (map (\<lambda>l. l @ ''.'') ls))"

definition wf_name :: "Name \<Rightarrow> bool" where
  "wf_name n \<longleftrightarrow> list_all wf_label (name_labels n) \<and> canonical n = join_labels (name_labels n)"

definition name_bytes :: "Name \<Rightarrow> bytes" where
  "name_bytes n = concat (map (\<lambda>l. of_nat (length l) # str_bytes l) (name_labels n)) @ [0]"

fun rdata_bytes :: "RData \<Rightarrow> bytes" where
  "rdata_bytes (RdA ip) = be_bytes 4 (unat ip)"
| "rdata_bytes (RdAaaa ip) = be_bytes 16 (unat ip)"
| "rdata_bytes (RdPtr n) = name_bytes n"
| "rdata_bytes (RdCname n) = name_bytes n"
| "rdata_bytes (RdTxt ps) = concat (map (\<lambda>p. of_nat (length p) # str_bytes p) ps)"
| "rdata_bytes (RdOpt _ _ _ _ opts) = opts"
| "rdata_bytes (RdOpaque _ raw) = raw"

fun wf_rdata :: "QType \<Rightarrow> RData \<Rightarrow> bool" where
  "wf_rdata QtA (RdA _) \<longleftrightarrow> True"
| "wf_rdata QtAaaa (RdAaaa _) \<longleftrightarrow> True"
| "wf_rdata QtPtr (RdPtr n) \<longleftrightarrow> wf_name n"
| "wf_rdata QtCname (RdCname n) \<longleftrightarrow> wf_name n"
| "wf_rdata QtTxt (RdTxt ps) \<longleftrightarrow> list_all (\<lambda>p. length p \<le> 255 \<and> utf8_valid (str_bytes p)) ps"
| "wf_rdata QtOpt (RdOpt _ _ _ _ _) \<longleftrightarrow> True"
| "wf_rdata QtAny (RdOpaque q _) \<longleftrightarrow> q = 255"
| "wf_rdata _ _ \<longleftrightarrow> False"

definition wf_rr :: "ResourceRecord \<Rightarrow> bool" where
  "wf_rr r \<longleftrightarrow> wf_rdata (rr_qtype r) (rr_data r) \<and> length (rdata_bytes (rr_data r)) \<le> 65535 \<and> wf_name (rr_name r)
     \<and> (case rr_data r of RdOpt _ rc ver fl _ \<Rightarrow> rr_name r = default_root \<and> rr_ttl r = opt_ttl rc ver fl | _ \<Rightarrow> True)"

definition wf_message :: "Message \<Rightarrow> bool" where
  "wf_message m \<longleftrightarrow>
     list_all (\<lambda>q. wf_name (q_name q)) (msg_questions m)
     \<and> list_all wf_rr (msg_answers m @ msg_authorities m @ msg_additionals m)
     \<and> unat (mh_qd (msg_header m)) = length (msg_questions m) \<and> unat (mh_an (msg_header m)) = length (msg_answers m)
     \<and> unat (mh_ns (msg_header m)) = length (msg_authorities m) \<and> unat (mh_ar (msg_header m)) = length (msg_additionals m)"


section \<open>What the encoder writes\<close>

lemma dns_err_simps [simp]: "dns_err (Inr x) = Inr x" "dns_err (Inl e) = Inl (DfErr e)"
  by (simp_all add: dns_err_def)

lemma dns_err_eq_Inr [simp]: "dns_err r = Inr x \<longleftrightarrow> r = Inr x"
  by (cases r) auto

lemma encode_labels_bytes:
  "list_all (\<lambda>l. length l \<le> 63) ls \<Longrightarrow>
     encode_labels ls buf = Ok (buf @ concat (map (\<lambda>l. of_nat (length l) # str_bytes l) ls))"
  by (induction ls arbitrary: buf) auto

lemma encode_name_bytes:
  "list_all (\<lambda>l. length l \<le> 63) (name_labels n) \<Longrightarrow> encode_name n buf = Ok (buf @ name_bytes n)"
  by (simp add: encode_name_def encode_labels_bytes name_bytes_def)

lemma wf_name_labels: "wf_name n \<Longrightarrow> list_all (\<lambda>l. length l \<le> 63) (name_labels n)"
  by (auto simp: wf_name_def wf_label_def list_all_iff)

lemma encode_name_wf: "wf_name n \<Longrightarrow> encode_name n buf = Ok (buf @ name_bytes n)"
  by (intro encode_name_bytes wf_name_labels)

lemma encode_txt_bytes:
  "list_all (\<lambda>p. length p \<le> 255) ps \<Longrightarrow>
     encode_txt ps buf = Ok (buf @ concat (map (\<lambda>p. of_nat (length p) # str_bytes p) ps))"
  by (induction ps arbitrary: buf) auto

lemma encode_rdata_bytes:
  "wf_rdata qt d \<Longrightarrow> qt \<noteq> QtOpt \<Longrightarrow> encode_rdata d buf = Ok (buf @ rdata_bytes d)"
  by (cases "(qt, d)" rule: wf_rdata.cases) (simp_all add: encode_name_wf encode_txt_bytes list_all_iff)

definition question_bytes :: "Question \<Rightarrow> bytes" where
  "question_bytes q = name_bytes (q_name q) @ put_be16 (qtype_u16 (q_qtype q)) @ put_be16 (rclass_u16 (q_qclass q))"

text \<open>The class field of a record: an OPT record has the payload size there.\<close>

definition rr_class_field :: "ResourceRecord \<Rightarrow> u16" where
  "rr_class_field r = (case rr_data r of RdOpt sz _ _ _ _ \<Rightarrow> sz | _ \<Rightarrow> rclass_u16 (rr_qclass r))"

definition rr_bytes :: "ResourceRecord \<Rightarrow> bytes" where
  "rr_bytes r = name_bytes (rr_name r) @ put_be16 (qtype_u16 (rr_qtype r)) @ put_be16 (rr_class_field r)
     @ put_be32 (rr_ttl r) @ put_be16 (of_nat (length (rdata_bytes (rr_data r)))) @ rdata_bytes (rr_data r)"

lemma root_bytes [simp]: "name_bytes default_root = [0]" "name_labels default_root = []"
  by (simp_all add: name_bytes_def name_labels_def default_root_def)

lemma put_be16_two: "\<exists>a b. put_be16 w = [a, b]"
proof -
  have "length (put_be16 w) = Suc (Suc 0)" by simp
  then show ?thesis by (simp only: length_Suc_conv length_0_conv) blast
qed

text \<open>Overwriting the placeholder of the length.\<close>

lemma patch_length:
  "(xs @ put_be16 0 @ ys)[length xs := put_be16 w ! 0, Suc (length xs) := put_be16 w ! 1] = xs @ put_be16 w @ ys"
proof -
  obtain a b c d where "put_be16 0 = [a, b]" "put_be16 w = [c, d]" using put_be16_two by metis
  then show ?thesis by (simp add: list_update_append)
qed

lemma encode_rr_bytes:
  assumes "wf_rr r"
  shows "encode_rr r buf = Ok (buf @ rr_bytes r)"
proof (cases "rr_qtype r = QtOpt")
  case True
  with assms obtain sz rc ver fl opts where "rr_data r = RdOpt sz rc ver fl opts"
    by (cases "rr_data r") (auto simp: wf_rr_def)
  with True assms show ?thesis
    by (simp add: encode_rr_def encode_opt_def wf_rr_def rr_bytes_def rr_class_field_def)
next
  case False
  have cls: "rr_class_field r = rclass_u16 (rr_qclass r)"
    using assms False by (cases "(rr_qtype r, rr_data r)" rule: wf_rdata.cases) (auto simp: wf_rr_def rr_class_field_def)
  let ?h = "buf @ name_bytes (rr_name r) @ put_be16 (qtype_u16 (rr_qtype r)) @ put_be16 (rclass_u16 (rr_qclass r))
      @ put_be32 (rr_ttl r)"
  let ?d = "rdata_bytes (rr_data r)"
  have d: "encode_rdata (rr_data r) b = Ok (b @ ?d)" for b
    using assms False by (auto simp: wf_rr_def intro: encode_rdata_bytes)
  have "encode_rr r buf
      = Ok ((?h @ put_be16 0 @ ?d)[length ?h := put_be16 (of_nat (length ?d)) ! 0,
                                   Suc (length ?h) := put_be16 (of_nat (length ?d)) ! 1])"
    using assms False by (simp add: encode_rr_def encode_name_wf wf_rr_def d Let_def add.assoc)
  then show ?thesis by (simp only: patch_length) (simp add: rr_bytes_def cls)
qed

lemma encode_question_bytes: "wf_name (q_name q) \<Longrightarrow> encode_question q buf = Ok (buf @ question_bytes q)"
  by (simp add: encode_question_def question_bytes_def encode_name_wf)

lemma encode_many_bytes:
  assumes "\<And>x buf. x \<in> set xs \<Longrightarrow> enc x buf = Ok (buf @ f x)"
  shows "encode_many enc xs buf = Ok (buf @ concat (map f xs))"
  using assms by (induction xs arbitrary: buf) auto

definition message_bytes :: "Message \<Rightarrow> bytes" where
  "message_bytes m =
     (put_be16 (mh_id (msg_header m)) @ put_be16 (mh_flags (msg_header m)) @ put_be16 (mh_qd (msg_header m))
        @ put_be16 (mh_an (msg_header m)) @ put_be16 (mh_ns (msg_header m)) @ put_be16 (mh_ar (msg_header m)))
     @ concat (map question_bytes (msg_questions m)) @ concat (map rr_bytes (msg_answers m))
     @ concat (map rr_bytes (msg_authorities m)) @ concat (map rr_bytes (msg_additionals m))"

lemma count_field: "unat (w :: u16) = n \<Longrightarrow> n \<le> 65535 \<and> of_nat n = w"
proof
  assume "unat w = n"
  moreover have "unat w < 2 ^ LENGTH(16)" by (rule unsigned_less)
  ultimately show "n \<le> 65535" by simp
qed auto

lemma encode_message_bytes:
  assumes "wf_message m"
  shows "encode_message m = Ok (message_bytes m)"
proof -
  note wf = assms [unfolded wf_message_def]
  have c: "length (msg_questions m) \<le> 65535" "length (msg_answers m) \<le> 65535" "length (msg_authorities m) \<le> 65535"
    "length (msg_additionals m) \<le> 65535"
    "of_nat (length (msg_questions m)) = mh_qd (msg_header m)" "of_nat (length (msg_answers m)) = mh_an (msg_header m)"
    "of_nat (length (msg_authorities m)) = mh_ns (msg_header m)" "of_nat (length (msg_additionals m)) = mh_ar (msg_header m)"
    using wf count_field by blast+
  have q: "encode_many encode_question (msg_questions m) b = Ok (b @ concat (map question_bytes (msg_questions m)))" for b
    using wf by (intro encode_many_bytes encode_question_bytes) (auto simp: list_all_iff)
  have r: "encode_many encode_rr (msg_answers m @ msg_authorities m @ msg_additionals m) b
      = Ok (b @ concat (map rr_bytes (msg_answers m @ msg_authorities m @ msg_additionals m)))" for b
    using wf by (intro encode_many_bytes encode_rr_bytes) (auto simp: list_all_iff)
  show ?thesis using c by (simp add: encode_message_def q r message_bytes_def not_less)
qed


section \<open>The decoder undoes the encoder\<close>

lemma short_length_byte:
  assumes "n \<le> 63"
  shows "(of_nat n :: u8) AND 0xC0 = 0"
proof -
  have "list_all (\<lambda>n. (of_nat n :: u8) AND 0xC0 = 0) [0..<64]" by code_simp
  moreover have "n \<in> set [0..<64]" using assms by simp
  ultimately show ?thesis by (simp add: list_all_iff)
qed

lemma to_ascii_lowercase_append [simp]: "to_ascii_lowercase (s @ t) = to_ascii_lowercase s @ to_ascii_lowercase t"
  by (simp add: to_ascii_lowercase_def)

lemma to_ascii_lowercase_dot [simp]:
  "to_ascii_lowercase [] = []" "to_ascii_lowercase (CHR ''.'' # s) = CHR ''.'' # to_ascii_lowercase s"
  by (simp_all add: to_ascii_lowercase_def)

lemma wf_label_text: "wf_label l \<Longrightarrow> label_text (str_bytes l) = Ok l"
  by (simp add: label_text_def ascii_str_bytes wf_label_def)

lemma nth_at_length: "(pre @ b # post) ! length pre = b"
  by simp

lemma name_loop_label:
  assumes "wf_label l"
  shows "name_loop (pre @ (of_nat (length l) # str_bytes l) @ post) j (length pre) f cur out
       = name_loop (pre @ (of_nat (length l) # str_bytes l) @ post) j (Suc (length pre + length l)) f cur (out @ l @ ''.'')"
proof -
  let ?buf = "pre @ (of_nat (length l) # str_bytes l) @ post"
  from assms have l: "length l \<le> 63" "l \<noteq> []" by (simp_all add: wf_label_def)
  have len: "unat (of_nat (length l) :: u8) = length l" using l(1) by (simp add: unat_of_nat)
  then have nz: "(of_nat (length l) :: u8) \<noteq> 0" using l(2) by (metis length_0_conv unat_0)
  have s: "slice (pre @ of_nat (length l) # str_bytes l @ post) (Suc (length pre)) (length l) = str_bytes l"
    by (simp add: slice_def)
  have at: "?buf ! length pre = of_nat (length l)" by simp
  show ?thesis
    by (subst name_loop.simps)
      (simp add: at nz len short_length_byte [OF l(1)] s wf_label_text [OF assms] Let_def del: append_assoc)
qed

lemma name_loop_bytes:
  assumes "list_all wf_label ls"
  shows "name_loop (pre @ (concat (map (\<lambda>l. of_nat (length l) # str_bytes l) ls) @ [0]) @ post) j (length pre) f cur out
       = Ok (out @ concat (map (\<lambda>l. l @ ''.'') ls),
             if f then cur else length pre + length (concat (map (\<lambda>l. (of_nat (length l) :: u8) # str_bytes l) ls) @ [0 :: u8]))"
  using assms
proof (induction ls arbitrary: pre out)
  case Nil
  show ?case by (subst name_loop.simps) (simp add: Let_def)
next
  case (Cons l ls)
  let ?rest = "concat (map (\<lambda>l. of_nat (length l) # str_bytes l) ls) @ [0]"
  from Cons.IH [of "pre @ of_nat (length l) # str_bytes l" "out @ l @ ''.''"] Cons.prems
  show ?case using name_loop_label [of l pre "?rest @ post" j f cur out]
    by (simp add: add.assoc)
qed

lemma ends_with_dot [simp]: "ends_with ''.'' (s @ ''.'')"
  by (auto simp: ends_with_iff)

lemma join_labels_ends: "\<exists>s. join_labels ls = s @ ''.''"
proof (cases ls rule: rev_cases)
  case (snoc ks k)
  then have "join_labels ls = (concat (map (\<lambda>l. l @ ''.'') ks) @ k) @ ''.''" by (simp add: join_labels_def)
  then show ?thesis by blast
qed (simp add: join_labels_def)

text \<open>A label as the decoder reads it: it may contain dots.\<close>

definition read_label :: "string \<Rightarrow> bool" where
  "read_label l \<longleftrightarrow> length l \<le> 63 \<and> list_all ascii_char l \<and> to_ascii_lowercase l = l"

lemma name_from_ascii_join:
  assumes "list_all read_label ls"
  shows "name_from_ascii (join_labels ls) = Ok (Name (join_labels ls))"
proof -
  have dot: "ascii_char CHR ''.''" by (simp add: ascii_char_def)
  from assms have "list_all ascii_char (concat (map (\<lambda>l. l @ ''.'') ls))
      \<and> to_ascii_lowercase (concat (map (\<lambda>l. l @ ''.'') ls)) = concat (map (\<lambda>l. l @ ''.'') ls)"
    by (induction ls) (use dot in \<open>auto simp: read_label_def\<close>)
  then have "list_all ascii_char (join_labels ls)" "to_ascii_lowercase (join_labels ls) = join_labels ls"
    using dot by (simp_all add: join_labels_def)
  moreover obtain s where "join_labels ls = s @ ''.''" using join_labels_ends by blast
  ultimately show ?thesis by (simp add: name_from_ascii_def)
qed

lemma wf_read_label: "list_all wf_label ls \<Longrightarrow> list_all read_label ls"
  by (auto simp: list_all_iff wf_label_def read_label_def)

lemma decode_name_bytes:
  assumes "wf_name n"
  shows "decode_name (pre @ name_bytes n @ post) (length pre) = Ok (n, length pre + length (name_bytes n))"
proof -
  let ?ls = "name_labels n"
  from assms have wf: "list_all wf_label ?ls" and n: "n = Name (join_labels ?ls)"
    by (auto simp: wf_name_def intro: Name.expand)
  have "(if concat (map (\<lambda>l. l @ ''.'') ?ls) = [] then ''.'' else concat (map (\<lambda>l. l @ ''.'') ?ls)) = join_labels ?ls"
    by (auto simp: join_labels_def)
  with name_loop_bytes [OF wf, of pre post 0 False "length pre" "[]"] name_from_ascii_join [OF wf_read_label [OF wf]] n
  show ?thesis by (simp add: decode_name_def name_bytes_def)
qed


lemma slice_at: "length xs = k \<Longrightarrow> slice (pre @ xs @ post) (length pre) k = xs"
  by (simp add: slice_def)

lemma cur_u16_at: "cur_u16 (pre @ put_be16 w @ post) (length pre) = Ok (w, length pre + 2)"
  by (simp add: cur_u16_def slice_at)

lemma cur_u32_at: "cur_u32 (pre @ put_be32 w @ post) (length pre) = Ok (w, length pre + 4)"
  by (simp add: cur_u32_def slice_at)

lemma cur_u16_eq: "B = pre @ put_be16 w @ post \<Longrightarrow> p = length pre \<Longrightarrow> q = length pre + 2 \<Longrightarrow> cur_u16 B p = Ok (w, q)"
  by (simp add: cur_u16_at)

lemma cur_u32_eq: "B = pre @ put_be32 w @ post \<Longrightarrow> p = length pre \<Longrightarrow> q = length pre + 4 \<Longrightarrow> cur_u32 B p = Ok (w, q)"
  by (simp add: cur_u32_at)

lemma qtype_from_u16_inverse [simp]: "qtype_from_u16 (qtype_u16 q) = Some q"
  by (cases q) (simp_all add: qtype_from_u16_def)

lemmas qtype_codes = qtype_from_u16_inverse [of QtA, simplified] qtype_from_u16_inverse [of QtCname, simplified]
  qtype_from_u16_inverse [of QtPtr, simplified] qtype_from_u16_inverse [of QtTxt, simplified]
  qtype_from_u16_inverse [of QtAaaa, simplified] qtype_from_u16_inverse [of QtOpt, simplified]
  qtype_from_u16_inverse [of QtAny, simplified]

lemma txt_parts_bytes:
  assumes "list_all (\<lambda>p. length p \<le> 255 \<and> utf8_valid (str_bytes p)) ps"
  shows "txt_parts q (pre @ concat (map (\<lambda>p. of_nat (length p) # str_bytes p) ps)) (length pre) = Ok ps"
  using assms
proof (induction ps arbitrary: pre)
  case Nil
  show ?case by (subst txt_parts.simps) simp
next
  case (Cons p ps)
  let ?rest = "concat (map (\<lambda>p. of_nat (length p) # str_bytes p) ps)"
  have len: "unat (of_nat (length p) :: u8) = length p" using Cons.prems by (simp add: unat_of_nat)
  have s: "slice (pre @ of_nat (length p) # str_bytes p @ ?rest) (Suc (length pre)) (length p) = str_bytes p"
    by (simp add: slice_def)
  from Cons.IH [of "pre @ of_nat (length p) # str_bytes p"] Cons.prems show ?case
    by (subst txt_parts.simps) (simp add: len s Let_def)
qed

lemma be_val_u32 [simp]: "of_nat (be_val (be_bytes 4 (unat w))) = (w :: u32)"
  by (rule word_of_be_bytes) simp

lemma be_val_u128 [simp]: "of_nat (be_val (be_bytes 16 (unat w))) = (w :: 128 word)"
  by (rule word_of_be_bytes) simp

lemma opt_ttl_fields:
  "ucast (drop_bit 24 (opt_ttl rc ver fl)) = rc" "ucast (drop_bit 16 (opt_ttl rc ver fl)) = ver"
  "ucast (opt_ttl rc ver fl AND 0xFFFF) = fl"
proof -
  have mask: "(0xFFFF :: u32) = mask 16" by (simp add: mask_eq_exp_minus_1)
  show "ucast (drop_bit 24 (opt_ttl rc ver fl)) = rc"
    by (rule bit_eqI) (auto simp: opt_ttl_def bit_simps dest: bit_imp_le_length)
  show "ucast (drop_bit 16 (opt_ttl rc ver fl)) = ver"
    by (rule bit_eqI) (auto simp: opt_ttl_def bit_simps dest: bit_imp_le_length)
  show "ucast (opt_ttl rc ver fl AND 0xFFFF) = fl"
    unfolding mask by (rule bit_eqI) (auto simp: opt_ttl_def bit_simps dest: bit_imp_le_length)
qed


lemma decode_rdata_bytes:
  assumes "wf_rdata qt d"
    and "case d of RdOpt sz rc ver fl _ \<Rightarrow> cls = sz \<and> ttl = opt_ttl rc ver fl | _ \<Rightarrow> True"
  shows "decode_rdata (pre @ rdata_bytes d @ post) (qtype_u16 qt) cls ttl (length pre) (length (rdata_bytes d)) = Ok d"
proof -
  from assms show ?thesis
    by (cases "(qt, d)" rule: wf_rdata.cases)
      (simp_all add: decode_rdata_def qtype_codes slice_at Let_def decode_name_bytes opt_ttl_fields
        txt_parts_bytes [of _ _ "[]", simplified] del: be_val_be_bytes)
qed

interpretation questions: positional_codec question_bytes decode_question "\<lambda>q. wf_name (q_name q)"
proof
  fix q :: Question and pre post
  assume wf: "wf_name (q_name q)"
  let ?p1 = "pre @ name_bytes (q_name q)"
  let ?p2 = "?p1 @ put_be16 (qtype_u16 (q_qtype q))"
  let ?c = "put_be16 (rclass_u16 (q_qclass q))"
  have buf: "pre @ question_bytes q @ post = pre @ name_bytes (q_name q) @ put_be16 (qtype_u16 (q_qtype q)) @ ?c @ post"
    by (simp add: question_bytes_def)
  have "q_qclass q = RcIn" by (cases "q_qclass q")
  with decode_name_bytes [OF wf, of pre "put_be16 (qtype_u16 (q_qtype q)) @ ?c @ post"]
    cur_u16_at [of ?p1 "qtype_u16 (q_qtype q)" "?c @ post"] cur_u16_at [of ?p2 _ post]
  show "decode_question (pre @ question_bytes q @ post) (length pre) = Ok (q, length pre + length (question_bytes q))"
    unfolding buf by (simp add: decode_question_def question_bytes_def add.assoc)
qed

interpretation records: positional_codec rr_bytes decode_rr wf_rr
proof
  fix r :: ResourceRecord and pre post
  assume wf: "wf_rr r"
  let ?d = "rdata_bytes (rr_data r)"
  let ?l = "of_nat (length ?d) :: u16"
  let ?n = "name_bytes (rr_name r)" and ?q = "put_be16 (qtype_u16 (rr_qtype r))"
  let ?c = "put_be16 (rr_class_field r)" and ?t = "put_be32 (rr_ttl r)"
  have buf: "pre @ rr_bytes r @ post = pre @ ?n @ ?q @ ?c @ ?t @ put_be16 ?l @ ?d @ post"
    by (simp add: rr_bytes_def)
  from wf have name: "wf_name (rr_name r)" and d: "wf_rdata (rr_qtype r) (rr_data r)" "length ?d \<le> 65535"
    and opt: "case rr_data r of RdOpt sz rc ver fl _ \<Rightarrow> rr_class_field r = sz \<and> rr_ttl r = opt_ttl rc ver fl | _ \<Rightarrow> True"
    by (auto simp: wf_rr_def rr_class_field_def split: RData.splits)
  have len: "unat ?l = length ?d" using d(2) by (simp add: unat_of_nat)
  have cls: "rr_qclass r = RcIn" by (cases "rr_qclass r")
  define B p1 p2 p3 p4 p5 where "B = pre @ rr_bytes r @ post" and "p1 = length pre + length ?n" and "p2 = p1 + 2"
    and "p3 = p2 + 2" and "p4 = p3 + 4" and "p5 = p4 + 2"
  note defs = p1_def p2_def p3_def p4_def p5_def
  have B: "B = pre @ ?n @ ?q @ ?c @ ?t @ put_be16 ?l @ ?d @ post" by (simp add: B_def buf)
  have r1: "decode_name B (length pre) = Ok (rr_name r, p1)"
    unfolding B p1_def by (rule decode_name_bytes [OF name])
  have r2: "cur_u16 B p1 = Ok (qtype_u16 (rr_qtype r), p2)"
    by (rule cur_u16_eq [where pre = "pre @ ?n"]) (simp_all add: B defs)
  have r3: "cur_u16 B p2 = Ok (rr_class_field r, p3)"
    by (rule cur_u16_eq [where pre = "pre @ ?n @ ?q"]) (simp_all add: B defs)
  have r4: "cur_u32 B p3 = Ok (rr_ttl r, p4)"
    by (rule cur_u32_eq [where pre = "pre @ ?n @ ?q @ ?c"]) (simp_all add: B defs)
  have r5: "cur_u16 B p4 = Ok (?l, p5)"
    by (rule cur_u16_eq [where pre = "pre @ ?n @ ?q @ ?c @ ?t"]) (simp_all add: B defs)
  have p5: "p5 = length (pre @ ?n @ ?q @ ?c @ ?t @ put_be16 ?l)" by (simp add: defs)
  have r6: "decode_rdata B (qtype_u16 (rr_qtype r)) (rr_class_field r) (rr_ttl r) p5 (length ?d) = Ok (rr_data r)"
    using decode_rdata_bytes [OF d(1) opt, of "pre @ ?n @ ?q @ ?c @ ?t @ put_be16 ?l" post]
    unfolding p5 B append_assoc .
  have fits: "\<not> length B < length pre + length (rr_bytes r)" "p5 + length ?d = length pre + length (rr_bytes r)"
    by (simp_all add: B_def defs rr_bytes_def)
  show "decode_rr (pre @ rr_bytes r @ post) (length pre) = Ok (r, length pre + length (rr_bytes r))"
    unfolding B_def [symmetric] by (simp add: decode_rr_def r1 r2 r3 r4 r5 r6 len fits cls Let_def)
qed


lemma header_reads:
  assumes "buf = (put_be16 a @ put_be16 b @ put_be16 c @ put_be16 d @ put_be16 e @ put_be16 f) @ rest"
  shows "cur_u16 buf 0 = Ok (a, 2)" "cur_u16 buf 2 = Ok (b, 4)" "cur_u16 buf 4 = Ok (c, 6)" "cur_u16 buf 6 = Ok (d, 8)"
    "cur_u16 buf 8 = Ok (e, 10)" "cur_u16 buf 10 = Ok (f, 12)"
  using cur_u16_at [of "[]" a "put_be16 b @ put_be16 c @ put_be16 d @ put_be16 e @ put_be16 f @ rest"]
    cur_u16_at [of "put_be16 a" b "put_be16 c @ put_be16 d @ put_be16 e @ put_be16 f @ rest"]
    cur_u16_at [of "put_be16 a @ put_be16 b" c "put_be16 d @ put_be16 e @ put_be16 f @ rest"]
    cur_u16_at [of "put_be16 a @ put_be16 b @ put_be16 c" d "put_be16 e @ put_be16 f @ rest"]
    cur_u16_at [of "put_be16 a @ put_be16 b @ put_be16 c @ put_be16 d" e "put_be16 f @ rest"]
    cur_u16_at [of "put_be16 a @ put_be16 b @ put_be16 c @ put_be16 d @ put_be16 e" f rest]
  by (simp_all add: assms)

lemma decode_message_bytes:
  assumes "wf_message m"
  shows "decode_message (message_bytes m @ rest) = Ok m"
proof -
  note wf = assms [unfolded wf_message_def list_all_append]
  let ?h = "msg_header m"
  let ?hb = "put_be16 (mh_id ?h) @ put_be16 (mh_flags ?h) @ put_be16 (mh_qd ?h) @ put_be16 (mh_an ?h)
      @ put_be16 (mh_ns ?h) @ put_be16 (mh_ar ?h)"
  let ?q = "concat (map question_bytes (msg_questions m))" and ?a = "concat (map rr_bytes (msg_answers m))"
    and ?n = "concat (map rr_bytes (msg_authorities m))" and ?x = "concat (map rr_bytes (msg_additionals m))"
  define B p1 p2 p3 p4 where "B = message_bytes m @ rest" and "p1 = 12 + length ?q" and "p2 = p1 + length ?a"
    and "p3 = p2 + length ?n" and "p4 = p3 + length ?x"
  have hd: "B = ?hb @ (?q @ ?a @ ?n @ ?x @ rest)" by (simp add: B_def message_bytes_def)
  have i1: "decode_many (decode_question B) (length (msg_questions m)) 12 = Ok (msg_questions m, p1)"
    by (rule questions.decode_many_at [where pre = ?hb]) (use wf in \<open>simp_all add: hd p1_def list_all_iff\<close>)
  have i2: "decode_many (decode_rr B) (length (msg_answers m)) p1 = Ok (msg_answers m, p2)"
    by (rule records.decode_many_at [where pre = "?hb @ ?q"]) (use wf in \<open>simp_all add: hd p1_def p2_def list_all_iff\<close>)
  have i3: "decode_many (decode_rr B) (length (msg_authorities m)) p2 = Ok (msg_authorities m, p3)"
    by (rule records.decode_many_at [where pre = "?hb @ ?q @ ?a"])
      (use wf in \<open>simp_all add: hd p1_def p2_def p3_def list_all_iff\<close>)
  have i4: "decode_many (decode_rr B) (length (msg_additionals m)) p3 = Ok (msg_additionals m, p4)"
    by (rule records.decode_many_at [where pre = "?hb @ ?q @ ?a @ ?n"])
      (use wf in \<open>simp_all add: hd p1_def p2_def p3_def p4_def list_all_iff\<close>)
  show ?thesis
    unfolding B_def [symmetric] by (simp add: decode_message_def header_reads [OF hd] i1 i2 i3 i4 wf mh_set_counts_def)
qed


section \<open>What the decoder can return\<close>

lemma to_ascii_lowercase_idem:
  "to_ascii_lowercase (to_ascii_lowercase s) = to_ascii_lowercase s"
  "list_all ascii_char s \<Longrightarrow> list_all ascii_char (to_ascii_lowercase s)"
  "length (to_ascii_lowercase s) = length s"
proof -
  show "to_ascii_lowercase (to_ascii_lowercase s) = to_ascii_lowercase s"
    by (auto simp: to_ascii_lowercase_def Let_def)
  show "list_all ascii_char s \<Longrightarrow> list_all ascii_char (to_ascii_lowercase s)"
    by (auto simp: to_ascii_lowercase_def Let_def ascii_char_def list_all_iff)
qed (simp add: to_ascii_lowercase_def)

lemma high_bits_clear:
  assumes "(w :: u8) AND 0xC0 = 0"
  shows "unat w \<le> 63"
proof -
  have "list_all (\<lambda>n. (of_nat n :: u8) AND 0xC0 = 0 \<longrightarrow> n \<le> 63) [0..<256]" by code_simp
  moreover have "unat w \<in> set [0..<256]" using unat_u8_less [of w] by simp
  ultimately show ?thesis using assms by (auto simp: list_all_iff simp del: set_upt dest!: bspec)
qed

lemma label_text_read:
  assumes "label_text (slice buf i k) = Ok l" "k \<le> 63" "i + k \<le> length buf"
  shows "read_label l \<and> length l = k"
proof -
  have "list_all ascii_char (bytes_str bs)" if "list_all ascii_byte bs" for bs
    using that ascii_str_bytes [of "bytes_str bs"] by simp
  with assms show ?thesis
    by (auto simp: label_text_def read_label_def to_ascii_lowercase_idem length_slice split: if_splits)
qed

lemma name_loop_result:
  "name_loop buf j pos f cur out = Ok (t, c) \<Longrightarrow>
     (\<exists>ls. t = out @ concat (map (\<lambda>l. l @ ''.'') ls) \<and> list_all read_label ls)
     \<and> (if f then c = cur else pos < c \<and> c \<le> length buf)
     \<and> length t \<le> length out + (MAX_POINTER_HOPS - j) * length buf + (length buf - pos)"
proof (induction buf j pos f cur out rule: name_loop.induct)
  case (1 buf j pos f cur out)
  note res = "1.prems" [unfolded name_loop.simps [of buf j pos f cur out]]
  have in_buf: "\<not> length buf \<le> pos" using res by (auto split: if_splits)
  consider (stop) "buf ! pos = 0"
    | (jump) "buf ! pos \<noteq> 0" "buf ! pos AND 0xC0 = 0xC0"
    | (label) "buf ! pos \<noteq> 0" "buf ! pos AND 0xC0 \<noteq> 0xC0" "buf ! pos AND 0xC0 = 0"
    using res in_buf by (auto simp: Let_def split: if_splits)
  then show ?case
  proof cases
    case stop
    with res in_buf show ?thesis by (auto simp: Let_def intro: exI [of _ "[]"])
  next
    case jump
    let ?ptr = "push_bit 8 (unat (buf ! pos AND 0x3F)) OR unat (buf ! (pos + 1))"
    let ?c = "if f then cur else pos + 2"
    from res jump in_buf have g: "\<not> length buf \<le> pos + 1" "\<not> MAX_POINTER_HOPS < j + 1" "\<not> pos \<le> ?ptr"
      and rec: "name_loop buf (j + 1) ?ptr True ?c out = Ok (t, c)"
      by (auto simp: Let_def split: if_splits)
    from "1.IH"(1) [OF in_buf refl jump g(1) refl refl g(2,3) rec]
    have ih: "\<exists>ls. t = out @ concat (map (\<lambda>l. l @ ''.'') ls) \<and> list_all read_label ls" "c = ?c"
      "length t \<le> length out + (MAX_POINTER_HOPS - (j + 1)) * length buf + (length buf - ?ptr)" by simp_all
    have "MAX_POINTER_HOPS - j = Suc (MAX_POINTER_HOPS - (j + 1))" using g(2) by simp
    then have "(MAX_POINTER_HOPS - (j + 1)) * length buf + length buf = (MAX_POINTER_HOPS - j) * length buf"
      by simp
    with ih g(1) in_buf show ?thesis by auto
  next
    case label
    let ?k = "unat (buf ! pos)"
    have small: "?k \<le> 63" by (rule high_bits_clear) (rule label(3))
    from res label in_buf obtain l where g: "\<not> length buf < pos + 1 + ?k"
      and l: "label_text (slice buf (pos + 1) ?k) = Ok l"
      and rec: "name_loop buf j (pos + 1 + ?k) f cur (out @ l @ ''.'') = Ok (t, c)"
      by (auto simp: Let_def split: if_splits sum.splits)
    from label_text_read [OF l small] g have rl: "read_label l" "length l = ?k" by simp_all
    from "1.IH"(2) [OF in_buf refl label(1,2) _ refl g l rec] label(3)
    obtain ls where "t = (out @ l @ ''.'') @ concat (map (\<lambda>l. l @ ''.'') ls)" "list_all read_label ls"
      and ih: "if f then c = cur else pos + 1 + ?k < c \<and> c \<le> length buf"
      "length t \<le> length (out @ l @ ''.'') + (MAX_POINTER_HOPS - j) * length buf + (length buf - (pos + 1 + ?k))"
      by auto
    then have "t = out @ concat (map (\<lambda>l. l @ ''.'') (l # ls)) \<and> list_all read_label (l # ls)" using rl by simp
    then have "\<exists>ls. t = out @ concat (map (\<lambda>l. l @ ''.'') ls) \<and> list_all read_label ls" by blast
    moreover have "if f then c = cur else pos < c \<and> c \<le> length buf" using ih(1) by (simp split: if_splits)
    moreover have "length t \<le> length out + (MAX_POINTER_HOPS - j) * length buf + (length buf - pos)"
      using ih(2) rl(2) g in_buf by simp
    ultimately show ?thesis by blast
  qed
qed


text \<open>A name read from a message.\<close>

lemma decode_name_result:
  assumes "decode_name buf cur = Ok (n, c)"
  shows "\<exists>ls. canonical n = join_labels ls \<and> list_all read_label ls" "cur < c" "c \<le> length buf"
    and "length (canonical n) \<le> (MAX_POINTER_HOPS + 1) * length buf"
proof -
  from assms obtain t where t: "name_loop buf 0 cur False cur [] = Ok (t, c)"
    and n: "name_from_ascii (if t = [] then ''.'' else t) = Ok n"
    by (auto simp: decode_name_def result_simps)
  from name_loop_result [OF t] obtain ls where ls: "t = concat (map (\<lambda>l. l @ ''.'') ls)" "list_all read_label ls"
    and b: "cur < c" "c \<le> length buf" "length t \<le> MAX_POINTER_HOPS * length buf + (length buf - cur)" by auto
  have "(if t = [] then ''.'' else t) = join_labels ls" using ls by (auto simp: join_labels_def)
  with n name_from_ascii_join [OF ls(2)] have c: "canonical n = join_labels ls" by auto
  with ls show "\<exists>ls. canonical n = join_labels ls \<and> list_all read_label ls" by blast
  show "cur < c" "c \<le> length buf" by (rule b)+
  have "1 \<le> length buf" using b by simp
  with b(3) ls(1) show "length (canonical n) \<le> (MAX_POINTER_HOPS + 1) * length buf"
    unfolding c join_labels_def by auto
qed

lemma split_on_append: "split_on c (a @ c # b) = split_on c a @ split_on c b"
proof (induction a)
  case (Cons x a)
  then show ?case by (cases "split_on c a") auto
qed simp

lemma split_on_pieces: "p \<in> set (split_on c s) \<Longrightarrow> length p \<le> length s"
proof (induction s arbitrary: p)
  case (Cons x s)
  then show ?case by (cases "split_on c s") (auto split: if_splits, fastforce+)
qed simp

lemma split_on_total: "sum_list (map (\<lambda>p. Suc (length p)) (split_on c s)) = Suc (length s)"
proof (induction s)
  case (Cons x s)
  then show ?case by (cases "split_on c s") auto
qed simp

lemma decoded_labels_short:
  assumes "decode_name buf cur = Ok (n, c)"
  shows "list_all (\<lambda>l. length l \<le> 63) (name_labels n)"
proof -
  from decode_name_result(1) [OF assms] obtain ls where ls: "canonical n = join_labels ls" "list_all read_label ls"
    by blast
  have "p \<in> set (split_on CHR ''.'' (concat (map (\<lambda>l. l @ ''.'') ls))) \<Longrightarrow> length p \<le> 63" for p
    using ls(2)
  proof (induction ls)
    case (Cons l ls)
    then show ?case using split_on_pieces [of p "CHR ''.''" l] by (auto simp: split_on_append read_label_def)
  qed simp
  with ls(1) show ?thesis by (auto simp: name_labels_def list_all_iff join_labels_def split: if_splits)
qed

lemma name_bytes_length: "length (name_bytes n) \<le> length (canonical n) + 2"
proof -
  have "sum_list (map (\<lambda>p. Suc (length p)) (filter P ps)) \<le> sum_list (map (\<lambda>p. Suc (length p)) ps)"
    for P and ps :: "string list"
    by (induction ps) auto
  then have "sum_list (map (\<lambda>p. Suc (length p)) (name_labels n)) \<le> Suc (length (canonical n))"
    unfolding name_labels_def using split_on_total by metis
  moreover have "length (concat (map (\<lambda>l. (of_nat (length l) :: u8) # str_bytes l) ls)) = sum_list (map (\<lambda>p. Suc (length p)) ls)"
    for ls by (induction ls) auto
  ultimately show ?thesis by (simp add: name_bytes_def)
qed


lemma cur_result:
  "cur_u16 buf p = Ok (v, q) \<Longrightarrow> q = p + 2 \<and> q \<le> length buf"
  "cur_u32 buf p = Ok (w, q) \<Longrightarrow> q = p + 4 \<and> q \<le> length buf"
  by (auto simp: cur_u16_def cur_u32_def split: if_splits)

lemma decode_question_result:
  assumes "decode_question buf p = Ok (q, p')"
  shows "p + 5 \<le> p' \<and> p' \<le> length buf \<and> (\<exists>c. decode_name buf p = Ok (q_name q, c))"
proof -
  from assms obtain n c qt c2 qc where n: "decode_name buf p = Ok (n, c)"
    and r: "cur_u16 buf c = Ok (qt, c2)" "cur_u16 buf c2 = Ok (qc, p')" and "q_name q = n"
    by (auto simp: decode_question_def result_simps)
  with decode_name_result(2) [OF n] cur_result(1) [OF r(1)] cur_result(1) [OF r(2)] show ?thesis by auto
qed

text \<open>The steps of a record that was read.\<close>

lemma decode_rr_parts:
  assumes "decode_rr buf p = Ok (r, p')"
  obtains c qt cls ttl start len where "decode_name buf p = Ok (rr_name r, c)" "start = c + 10" "p' = start + len"
    "p' \<le> length buf" "len \<le> 65535" "decode_rdata buf qt cls ttl start len = Ok (rr_data r)"
    "rr_qtype r = (case qtype_from_u16 qt of None \<Rightarrow> QtA | Some q \<Rightarrow> q)"
proof -
  from assms obtain n c qt c2 cls c3 ttl c4 l start d where n: "decode_name buf p = Ok (n, c)"
    and reads: "cur_u16 buf c = Ok (qt, c2)" "cur_u16 buf c2 = Ok (cls, c3)" "cur_u32 buf c3 = Ok (ttl, c4)"
      "cur_u16 buf c4 = Ok (l, start)"
    and fits: "\<not> length buf < start + unat l" and d: "decode_rdata buf qt cls ttl start (unat l) = Ok d"
    and r: "r = \<lparr> rr_name = n, rr_qtype = (case qtype_from_u16 qt of None \<Rightarrow> QtA | Some q \<Rightarrow> q),
               rr_qclass = RcIn, rr_ttl = ttl, rr_data = d \<rparr>" and p': "p' = start + unat l"
    unfolding decode_rr_def by (auto simp: result_simps Let_def split: if_splits)
  have "start = c + 10" using cur_result(1) [OF reads(1)] cur_result(1) [OF reads(2)] cur_result(2) [OF reads(3)]
    cur_result(1) [OF reads(4)] by simp
  moreover have "unat l \<le> 65535" using count_field [of l] by simp
  ultimately show ?thesis using that n fits d r p' by simp
qed

lemma txt_parts_result:
  "txt_parts q rdata i = Ok ps \<Longrightarrow> i \<le> length rdata \<Longrightarrow>
     list_all (\<lambda>p. length p \<le> 255) ps
     \<and> length (concat (map (\<lambda>p. (of_nat (length p) :: u8) # str_bytes p) ps)) = length rdata - i"
proof (induction q rdata i arbitrary: ps rule: txt_parts.induct)
  case (1 q rdata i)
  note res = "1.prems" [unfolded txt_parts.simps [of q rdata i]]
  show ?case
  proof (cases "length rdata \<le> i")
    case True
    with res show ?thesis by simp
  next
    case False
    let ?l = "unat (rdata ! i)"
    from res False obtain qs where g: "\<not> length rdata < i + 1 + ?l" "\<not> \<not> utf8_valid (slice rdata (i + 1) ?l)"
      and rec: "txt_parts q rdata (i + 1 + ?l) = Ok qs" and ps: "ps = bytes_str (slice rdata (i + 1) ?l) # qs"
      by (auto simp: Let_def result_simps split: if_splits)
    have "length (slice rdata (i + 1) ?l) = ?l" using g(1) by (intro length_slice) simp
    with "1.IH" [OF False refl g rec] g(1) ps unat_u8_less [of "rdata ! i"] show ?thesis by simp
  qed
qed


fun rdata_names :: "RData \<Rightarrow> Name list" where
  "rdata_names (RdPtr n) = [n]"
| "rdata_names (RdCname n) = [n]"
| "rdata_names _ = []"

definition rr_names :: "ResourceRecord \<Rightarrow> Name list" where
  "rr_names r = rr_name r # rdata_names (rr_data r)"

definition msg_records :: "Message \<Rightarrow> ResourceRecord list" where
  "msg_records m = msg_answers m @ msg_authorities m @ msg_additionals m"

definition msg_names :: "Message \<Rightarrow> Name list" where
  "msg_names m = map q_name (msg_questions m) @ concat (map rr_names (msg_records m))"

lemma decode_rdata_names:
  "decode_rdata buf qt cls ttl start len = Ok d \<Longrightarrow> n \<in> set (rdata_names d) \<Longrightarrow> \<exists>c. decode_name buf start = Ok (n, c)"
  unfolding decode_rdata_def Let_def by (auto simp: result_simps split: option.splits QType.splits if_splits)

lemma decode_rr_result:
  assumes "decode_rr buf p = Ok (r, p')"
  shows "p + 11 \<le> p' \<and> p' \<le> length buf \<and> (\<forall>n \<in> set (rr_names r). \<exists>q c. decode_name buf q = Ok (n, c))"
proof (rule decode_rr_parts [OF assms])
  fix c qt cls ttl start len
  assume n: "decode_name buf p = Ok (rr_name r, c)" and pos: "start = c + 10" "p' = start + len" "p' \<le> length buf"
    and d: "decode_rdata buf qt cls ttl start len = Ok (rr_data r)"
  have "p < c" by (rule decode_name_result(2) [OF n])
  with n pos decode_rdata_names [OF d] show ?thesis by (auto simp: rr_names_def) blast
qed

lemma decode_message_parts:
  assumes "decode_message buf = Ok m"
  obtains p1 p2 p3 p4 where
    "decode_many (decode_question buf) (length (msg_questions m)) 12 = Ok (msg_questions m, p1)"
    "decode_many (decode_rr buf) (length (msg_answers m)) p1 = Ok (msg_answers m, p2)"
    "decode_many (decode_rr buf) (length (msg_authorities m)) p2 = Ok (msg_authorities m, p3)"
    "decode_many (decode_rr buf) (length (msg_additionals m)) p3 = Ok (msg_additionals m, p4)"
    "12 \<le> length buf" "length (msg_questions m) \<le> 65535" "length (msg_answers m) \<le> 65535"
    "length (msg_authorities m) \<le> 65535" "length (msg_additionals m) \<le> 65535"
proof -
  from assms obtain a c1 b c2 qd c3 an c4 ns c5 ar c6 qs p1 ans p2 nss p3 ads p4
    where r: "cur_u16 buf 0 = Ok (a, c1)" "cur_u16 buf c1 = Ok (b, c2)" "cur_u16 buf c2 = Ok (qd, c3)"
      "cur_u16 buf c3 = Ok (an, c4)" "cur_u16 buf c4 = Ok (ns, c5)" "cur_u16 buf c5 = Ok (ar, c6)"
    and s: "decode_many (decode_question buf) (unat qd) c6 = Ok (qs, p1)"
      "decode_many (decode_rr buf) (unat an) p1 = Ok (ans, p2)" "decode_many (decode_rr buf) (unat ns) p2 = Ok (nss, p3)"
      "decode_many (decode_rr buf) (unat ar) p3 = Ok (ads, p4)"
    and m: "msg_questions m = qs" "msg_answers m = ans" "msg_authorities m = nss" "msg_additionals m = ads"
    unfolding decode_message_def by (auto simp: result_simps)
  have "c6 = 12" "12 \<le> length buf" using cur_result(1) [OF r(1)] cur_result(1) [OF r(2)] cur_result(1) [OF r(3)]
    cur_result(1) [OF r(4)] cur_result(1) [OF r(5)] cur_result(1) [OF r(6)] by auto
  moreover note l = decode_many_length [OF s(1)] decode_many_length [OF s(2)] decode_many_length [OF s(3)]
    decode_many_length [OF s(4)]
  moreover have "unat qd \<le> 65535" "unat an \<le> 65535" "unat ns \<le> 65535" "unat ar \<le> 65535"
    using count_field by blast+
  ultimately show ?thesis using that s m by simp
qed

text \<open>Every name of a decoded message was read somewhere in it, every record by the record decoder.\<close>

lemma decoded_record:
  assumes "decode_message buf = Ok m" "r \<in> set (msg_records m)"
  shows "\<exists>p p'. decode_rr buf p = Ok (r, p')"
  by (rule decode_message_parts [OF assms(1)]) (use assms(2) in \<open>auto simp: msg_records_def dest: decode_many_items\<close>)

lemma decoded_question:
  assumes "decode_message buf = Ok m" "q \<in> set (msg_questions m)"
  shows "\<exists>p p'. decode_question buf p = Ok (q, p')"
  by (rule decode_message_parts [OF assms(1)]) (use assms(2) in \<open>auto dest: decode_many_items\<close>)

lemma decoded_name:
  assumes "decode_message buf = Ok m" "n \<in> set (msg_names m)"
  shows "\<exists>p c. decode_name buf p = Ok (n, c)"
proof -
  from assms(2) consider q where "q \<in> set (msg_questions m)" "n = q_name q"
    | r where "r \<in> set (msg_records m)" "n \<in> set (rr_names r)"
    by (auto simp: msg_names_def)
  then show ?thesis
    by cases (metis decoded_question [OF assms(1)] decode_question_result,
      metis decoded_record [OF assms(1)] decode_rr_result)
qed

section \<open>Properties\<close>

text \<open>C27: Every well-formed DNS message can be encoded, and the decoder reads it back exactly, whatever bytes
  follow it.\<close>
theorem dns_message_roundtrip:
  assumes "wf_message m"
  shows "\<exists>buf. encode_message m = Ok buf \<and> (\<forall>rest. decode_message (buf @ rest) = Ok m)"
  using encode_message_bytes [OF assms] decode_message_bytes [OF assms] by blast

text \<open>C28: What the decoder produces is bounded by the size of the message: it has at most one question per five
  bytes and one record per eleven after the header, and although a name may follow up to sixteen compression pointers its
  text is at most seventeen times the message.\<close>
theorem dns_decode_bounded:
  assumes "decode_message buf = Ok m"
  shows "12 + 5 * length (msg_questions m) + 11 * length (msg_records m) \<le> length buf
       \<and> (\<forall>n \<in> set (msg_names m). length (canonical n) \<le> 17 * length buf)"
proof
  have q: "pos + 5 \<le> p \<and> p \<le> length buf" if "decode_question buf pos = Ok (x, p)" for pos x p
    using decode_question_result [OF that] by simp
  have r: "pos + 11 \<le> p \<and> p \<le> length buf" if "decode_rr buf pos = Ok (x, p)" for pos x p
    using decode_rr_result [OF that] by simp
  show "12 + 5 * length (msg_questions m) + 11 * length (msg_records m) \<le> length buf"
  proof (rule decode_message_parts [OF assms])
    fix p1 p2 p3 p4
    assume d: "decode_many (decode_question buf) (length (msg_questions m)) 12 = Ok (msg_questions m, p1)"
      "decode_many (decode_rr buf) (length (msg_answers m)) p1 = Ok (msg_answers m, p2)"
      "decode_many (decode_rr buf) (length (msg_authorities m)) p2 = Ok (msg_authorities m, p3)"
      "decode_many (decode_rr buf) (length (msg_additionals m)) p3 = Ok (msg_additionals m, p4)" "12 \<le> length buf"
    have 1: "12 + 5 * length (msg_questions m) \<le> p1 \<and> p1 \<le> length buf"
      by (rule decode_many_consumes [OF q d(1,5)])
    then have 2: "p1 + 11 * length (msg_answers m) \<le> p2 \<and> p2 \<le> length buf"
      by (intro decode_many_consumes [OF r d(2)]) auto
    then have 3: "p2 + 11 * length (msg_authorities m) \<le> p3 \<and> p3 \<le> length buf"
      by (intro decode_many_consumes [OF r d(3)]) auto
    then have "p3 + 11 * length (msg_additionals m) \<le> p4 \<and> p4 \<le> length buf"
      by (intro decode_many_consumes [OF r d(4)]) auto
    with 1 2 3 show ?thesis by (simp add: msg_records_def)
  qed
  show "\<forall>n \<in> set (msg_names m). length (canonical n) \<le> 17 * length buf"
    using decoded_name [OF assms] decode_name_result(4) by (fastforce simp: MAX_POINTER_HOPS_def)
qed


definition sample_query :: bytes where
  "sample_query = [18, 52, 1, 0, 0, 2, 0, 0, 0, 0, 0, 0, 1, 65, 0, 0, 1, 0, 1, 192, 12, 0, 28, 0, 1]"

definition sample_message :: Message where
  "sample_message =
     \<lparr> msg_header = \<lparr> mh_id = 0x1234, mh_flags = 0x100, mh_qd = 2, mh_an = 0, mh_ns = 0, mh_ar = 0 \<rparr>,
       msg_questions = [\<lparr> q_name = Name ''a.'', q_qtype = QtA, q_qclass = RcIn \<rparr>,
                        \<lparr> q_name = Name ''a.'', q_qtype = QtAaaa, q_qclass = RcIn \<rparr>],
       msg_answers = [], msg_authorities = [], msg_additionals = [] \<rparr>"

lemma sample_decodes: "decode_message sample_query = Ok sample_message"
  by code_simp

lemma sample_wf: "wf_message sample_message"
  by code_simp

theorem dns_message_roundtrip_witness:
  "wf_message sample_message \<and> (\<exists>buf. encode_message sample_message = Ok buf \<and> (\<forall>rest. decode_message (buf @ rest) = Ok sample_message))"
  using dns_message_roundtrip [OF sample_wf] sample_wf by blast

theorem dns_decode_bounded_witness:
  "decode_message sample_query = Ok sample_message
   \<and> 12 + 5 * length (msg_questions sample_message) + 11 * length (msg_records sample_message) \<le> length sample_query"
  using dns_decode_bounded [OF sample_decodes] sample_decodes by blast

lemma decode_rdata_fits:
  assumes "decode_rdata buf qt cls ttl start len = Ok d" "start + len \<le> length buf" "len \<le> 65535"
    and "17 * length buf + 2 \<le> 65535" and "qtype_from_u16 qt \<noteq> Some QtOpt"
  shows "\<exists>b. encode_rdata d pre = Ok (pre @ b) \<and> length b \<le> 65535"
proof -
  have name: "\<exists>b. encode_name n pre = Ok (pre @ b) \<and> length b \<le> 65535" if "decode_name buf start = Ok (n, c)" for n c
    using encode_name_bytes [OF decoded_labels_short [OF that], of pre] name_bytes_length [of n]
      decode_name_result(4) [OF that] assms(4) by (auto simp: MAX_POINTER_HOPS_def)
  have parts: "\<exists>b. encode_txt ps pre = Ok (pre @ b) \<and> length b \<le> 65535" if "txt_parts qt (slice buf start len) 0 = Ok ps" for ps
    using txt_parts_result [OF that] encode_txt_bytes [of ps pre] length_slice [OF assms(2)] assms(3) by auto
  have "encode_rdata (RdPtr n) pre = encode_rdata (RdCname n) pre" for n by simp
  with assms(1,5) length_slice [OF assms(2)] assms(3) show ?thesis unfolding decode_rdata_def Let_def
    by (auto simp: result_simps dest!: name parts split: option.splits QType.splits if_splits)
qed

lemma decoded_rr_encodes:
  assumes "decode_rr buf p = Ok (r, p')" "17 * length buf + 2 \<le> 65535"
  shows "\<exists>b. encode_rr r pre = Ok b"
proof (rule decode_rr_parts [OF assms(1)])
  fix c qt cls ttl start len
  assume n: "decode_name buf p = Ok (rr_name r, c)" and pos: "p' = start + len" "p' \<le> length buf" "len \<le> 65535"
    and d: "decode_rdata buf qt cls ttl start len = Ok (rr_data r)"
    and qt: "rr_qtype r = (case qtype_from_u16 qt of None \<Rightarrow> QtA | Some q \<Rightarrow> q)"
  show ?thesis
  proof (cases "qtype_from_u16 qt = Some QtOpt")
    case True
    with d have "rr_data r = RdOpt cls (ucast (drop_bit 24 ttl)) (ucast (drop_bit 16 ttl)) (ucast (ttl AND 0xFFFF)) (slice buf start len)"
      by (simp add: decode_rdata_def)
    with True length_slice [of start len buf] pos qt show ?thesis by (simp add: encode_rr_def encode_opt_def)
  next
    case False
    then have "rr_qtype r \<noteq> QtOpt" using qt by (auto split: option.splits)
    let ?h = "pre @ name_bytes (rr_name r) @ put_be16 (qtype_u16 (rr_qtype r)) @ put_be16 (rclass_u16 (rr_qclass r))
        @ put_be32 (rr_ttl r) @ put_be16 0"
    obtain b where "encode_rdata (rr_data r) ?h = Ok (?h @ b)" "length b \<le> 65535"
      using decode_rdata_fits [OF d _ pos(3) assms(2) False] pos by blast
    with \<open>rr_qtype r \<noteq> QtOpt\<close> encode_name_bytes [OF decoded_labels_short [OF n]]
    show ?thesis by (simp add: encode_rr_def Let_def)
  qed
qed

lemma encode_many_total:
  "(\<And>x buf. x \<in> set xs \<Longrightarrow> \<exists>b. enc x buf = Ok b) \<Longrightarrow> \<exists>b. encode_many enc xs buf = Ok b"
proof (induction xs arbitrary: buf)
  case (Cons x xs)
  then obtain b where "enc x buf = Ok b" by (meson list.set_intros(1))
  with Cons show ?case by simp
qed simp

text \<open>A decoded message of at most 3854 bytes can always be encoded again: the encoder neither answers an error
  nor reaches its panic.\<close>

lemma dns_reencode_total:
  assumes "decode_message buf = Ok m" "length buf \<le> 3854"
  shows "\<exists>b. encode_message m = Ok b"
proof (rule decode_message_parts [OF assms(1)])
  assume n: "length (msg_questions m) \<le> 65535" "length (msg_answers m) \<le> 65535" "length (msg_authorities m) \<le> 65535"
    "length (msg_additionals m) \<le> 65535"
  have q: "\<exists>b. encode_question x pre = Ok b" if x: "x \<in> set (msg_questions m)" for x pre
  proof -
    from decoded_question [OF assms(1) x] obtain p c where "decode_name buf p = Ok (q_name x, c)"
      using decode_question_result by blast
    from encode_name_bytes [OF decoded_labels_short [OF this]] show ?thesis by (simp add: encode_question_def)
  qed
  have r: "\<exists>b. encode_rr x pre = Ok b" if x: "x \<in> set (msg_answers m @ msg_authorities m @ msg_additionals m)" for x pre
    using decoded_record [OF assms(1)] x assms(2) decoded_rr_encodes by (fastforce simp: msg_records_def)
  obtain b where "encode_many encode_question (msg_questions m)
      (put_be16 (mh_id (msg_header m)) @ put_be16 (mh_flags (msg_header m))
       @ put_be16 (of_nat (length (msg_questions m))) @ put_be16 (of_nat (length (msg_answers m)))
       @ put_be16 (of_nat (length (msg_authorities m))) @ put_be16 (of_nat (length (msg_additionals m)))) = Ok b"
    using encode_many_total [where enc = encode_question, OF q] by blast
  moreover obtain b' where "encode_many encode_rr (msg_answers m @ msg_authorities m @ msg_additionals m) b = Ok b'"
    using encode_many_total [where enc = encode_rr, OF r] by blast
  ultimately show ?thesis using n by (simp add: encode_message_def not_less)
qed

section \<open>Records of unknown type, TCP framing\<close>

text \<open>The decoder keeps the number of an unknown record type in its data and falls back to type A for the record; the
  encoder writes the type of the record. A record of four bytes of an unknown type so comes back as an address.\<close>

lemma opaque_reencodes_as_address:
  assumes "rr_qtype r = QtA" "rr_data r = RdOpaque q raw" "length raw = 4" "wf_name (rr_name r)"
  shows "\<exists>b r'. encode_rr r [] = Ok b \<and> decode_rr b 0 = Ok (r', length b) \<and> rr_data r' = RdA (of_nat (be_val raw))"
proof -
  let ?r = "r \<lparr> rr_data := RdA (of_nat (be_val raw)) \<rparr>"
  have "be_val raw < 256 ^ 4" using be_val_bound [of raw] assms(3) by simp
  then have "unat (of_nat (be_val raw) :: u32) = be_val raw" by (simp add: unat_of_nat)
  then have raw: "be_bytes 4 (unat (of_nat (be_val raw) :: u32)) = raw"
    using be_bytes_be_val [of raw] assms(3) by simp
  have wf: "wf_rr ?r" using assms raw by (simp add: wf_rr_def)
  have "encode_rr r [] = encode_rr ?r []" using assms raw by (simp add: encode_rr_def)
  with encode_rr_bytes [OF wf, of "[]"] records.dec_enc [OF wf, of "[]" "[]"] show ?thesis by simp
qed

lemma tcp_frame_roundtrip:
  assumes "length m \<le> 65535"
  shows "try_read_tcp_frame (write_tcp_frame [] m @ rest) = (Some m, rest)"
proof -
  have "be_val (put_be16 (of_nat (length m))) = length m" using assms by (simp add: unat_of_nat)
  then show ?thesis by (simp add: try_read_tcp_frame_def write_tcp_frame_def Let_def)
qed

text \<open>A longer message is framed with its length modulo \<open>2 ^ 16\<close>, as a release build does.\<close>

lemma tcp_frame_truncates:
  "try_read_tcp_frame (write_tcp_frame [] m) = (Some (take (length m mod 65536) m), drop (length m mod 65536) m)"
  by (simp add: try_read_tcp_frame_def write_tcp_frame_def Let_def unat_of_nat)

lemma tcp_frame_partial:
  assumes "write_tcp_frame [] m = buf @ suf" "suf \<noteq> []" "length m \<le> 65535"
  shows "try_read_tcp_frame buf = (None, buf)"
proof (cases "length buf < 2")
  case False
  have w: "put_be16 (of_nat (length m)) @ m = buf @ suf" using assms(1) by (simp add: write_tcp_frame_def)
  have "take 2 (put_be16 (of_nat (length m)) @ m) = put_be16 (of_nat (length m))" by simp
  with w False have "take 2 buf = put_be16 (of_nat (length m))" by simp
  moreover have "2 + length m = length buf + length suf"
    using arg_cong [OF w, of length] by simp
  then have "length buf < 2 + length m" using assms(2) by simp
  ultimately show ?thesis using assms(3) False by (simp add: try_read_tcp_frame_def unat_of_nat Let_def)
qed (simp add: try_read_tcp_frame_def)


text \<open>The reader as a stream decoder: nothing read is an incomplete frame.\<close>

definition read_tcp_frame :: "bytes \<Rightarrow> (unit + bytes) \<times> bytes" where
  "read_tcp_frame buf = (case try_read_tcp_frame buf of (m, rest) \<Rightarrow> (ok_or m (), rest))"

interpretation tcp_frames: framing "\<lambda>m. Ok (write_tcp_frame [] m) :: unit + bytes" read_tcp_frame "\<lambda>m. length m \<le> 65535" "()"
  by unfold_locales (auto simp: read_tcp_frame_def tcp_frame_roundtrip tcp_frame_partial)

end
