(* ===== verification/Socks5.thy ===== *)
theory Socks5
  imports Byte_Text Endpoint Framing
begin

text \<open>
  The SOCKS5 wire codec \<^verbatim>\<open>lib/mb-proto-socks5/src/lib.rs\<close>: greeting, request, reply, UDP datagram and the
  user/password sub-negotiation. A decoder takes the receive buffer and answers its result with the buffer that
  remains; an error leaves the buffer as it was.

  The lemmas show that what one end encodes the other reads back and consumes exactly, that a stream cut anywhere is answered
  \<open>Incomplete\<close>, and where that fails: a reply with a host name of one or two bytes is never complete.
\<close>

section \<open>Types\<close>

datatype Method = MtNoAuth | MtGssApi | MtUserPass | MtUnknown u8

fun wire_code :: "Method \<Rightarrow> u8" where
  "wire_code MtNoAuth = 0"
| "wire_code MtGssApi = 1"
| "wire_code MtUserPass = 2"
| "wire_code (MtUnknown code) = code"

datatype Reply =
    RpSucceeded | RpGeneralFailure | RpConnectionNotAllowed | RpNetworkUnreachable | RpHostUnreachable
  | RpConnectionRefused | RpTtlExpired | RpCommandNotSupported | RpAddressTypeNotSupported

fun reply_code :: "Reply \<Rightarrow> u8" where
  "reply_code RpSucceeded = 0"
| "reply_code RpGeneralFailure = 1"
| "reply_code RpConnectionNotAllowed = 2"
| "reply_code RpNetworkUnreachable = 3"
| "reply_code RpHostUnreachable = 4"
| "reply_code RpConnectionRefused = 5"
| "reply_code RpTtlExpired = 6"
| "reply_code RpCommandNotSupported = 7"
| "reply_code RpAddressTypeNotSupported = 8"

definition reply_from_wire :: "u8 \<Rightarrow> Reply" where
  "reply_from_wire code =
     (if code = 0 then RpSucceeded else if code = 2 then RpConnectionNotAllowed else if code = 3 then RpNetworkUnreachable
      else if code = 4 then RpHostUnreachable else if code = 5 then RpConnectionRefused else if code = 6 then RpTtlExpired
      else if code = 7 then RpCommandNotSupported else if code = 8 then RpAddressTypeNotSupported else RpGeneralFailure)"

datatype Command = CmConnect | CmBind | CmUdpAssociate

fun command_code :: "Command \<Rightarrow> u8" where
  "command_code CmConnect = 1"
| "command_code CmBind = 2"
| "command_code CmUdpAssociate = 3"

record Greeting =
  gr_methods :: "Method list"

record Request =
  rq_command :: Command
  rq_endpoint :: Endpoint

record ReplyFrame =
  rf_reply :: Reply
  rf_endpoint :: "Endpoint option"

record UdpDatagram =
  ud_target :: Endpoint
  ud_payload :: bytes

record UserPassRequest =
  up_username :: bytes
  up_password :: bytes

definition USER_PASS_VERSION :: u8 where
  "USER_PASS_VERSION = 1"

datatype CodecError =
    ScIncomplete | ScUnsupportedVersion u8 | ScInvalidAtyp u8 | ScUnsupportedCommand u8 | ScUnsupportedFragment u8
  | ScReservedNotZero u8 | ScInvalidHost | ScEndpoint string | ScUnsupportedAuthVersion u8 | ScInvalidAuthLen

type_synonym 'a reading = "(CodecError + 'a) \<times> bytes"

section \<open>Greeting\<close>

definition encode_greeting :: "Method list \<Rightarrow> bytes" where
  "encode_greeting methods = 5 # of_nat (length methods) # map wire_code methods"

definition method_from_wire :: "u8 \<Rightarrow> Method" where
  "method_from_wire b = (if b = 0 then MtNoAuth else if b = 1 then MtGssApi else if b = 2 then MtUserPass else MtUnknown b)"

definition decode_greeting :: "bytes \<Rightarrow> Greeting reading" where
  "decode_greeting buf =
     (if length buf < 2 then (Err ScIncomplete, buf)
      else if buf ! 0 \<noteq> 5 then (Err (ScUnsupportedVersion (buf ! 0)), buf)
      else let n = unat (buf ! 1)
      in if length buf < 2 + n then (Err ScIncomplete, buf)
         else (Ok \<lparr> gr_methods = map method_from_wire (slice buf 2 n) \<rparr>, drop (2 + n) buf))"

section \<open>Endpoints and requests\<close>

definition encode_endpoint :: "Endpoint \<Rightarrow> bytes \<Rightarrow> bytes" where
  "encode_endpoint target out =
     (case parse_ipv4 (ep_host target) of
        Some ip4 \<Rightarrow> out @ 1 # be_bytes 4 (unat ip4)
      | None \<Rightarrow>
          (case parse_ipv6 (ep_host target) of
             Some ip6 \<Rightarrow> out @ 4 # be_bytes 16 (unat ip6)
           | None \<Rightarrow> out @ 3 # of_nat (length (ep_host target)) # str_bytes (ep_host target)))
     @ put_be16 (ep_port target)"

definition encode_request :: "Command \<Rightarrow> Endpoint \<Rightarrow> bytes" where
  "encode_request command target = encode_endpoint target [5, command_code command, 0]"

definition encode_connect_request :: "Endpoint \<Rightarrow> bytes" where
  "encode_connect_request target = encode_request CmConnect target"

definition encode_udp_associate_request :: "Endpoint \<Rightarrow> bytes" where
  "encode_udp_associate_request bind = encode_request CmUdpAssociate bind"

text \<open>The host at an offset, as text, and where it ends.\<close>

definition decode_host_at :: "bytes \<Rightarrow> nat \<Rightarrow> CodecError + string \<times> nat" where
  "decode_host_at buf offset =
     (let atyp = buf ! offset in
      if atyp = 1 then
        if length buf < offset + 1 + 4 + 2 then Err ScIncomplete
        else Ok (ipv4_display (of_nat (be_val (slice buf (offset + 1) 4))), offset + 1 + 4)
      else if atyp = 3 then
        if length buf < offset + 2 then Err ScIncomplete
        else let len = unat (buf ! (offset + 1))
        in if length buf < offset + 2 + len + 2 then Err ScIncomplete
           else if \<not> utf8_valid (slice buf (offset + 2) len) then Err ScInvalidHost
           else Ok (bytes_str (slice buf (offset + 2) len), offset + 2 + len)
      else if atyp = 4 then
        if length buf < offset + 1 + 16 + 2 then Err ScIncomplete
        else Ok (ipv6_display (of_nat (be_val (slice buf (offset + 1) 16))), offset + 1 + 16)
      else Err (ScInvalidAtyp atyp))"

definition decode_endpoint_at :: "bytes \<Rightarrow> nat \<Rightarrow> CodecError + Endpoint \<times> nat" where
  "decode_endpoint_at buf offset =
     (if length buf \<le> offset then Err ScIncomplete
      else res_bind (decode_host_at buf offset) (\<lambda>(host, host_end).
        let port = of_nat (be_val (slice buf host_end 2))
        in case endpoint_new host port of
             Inl e \<Rightarrow> Err (ScEndpoint (parse_error_text e))
           | Inr ep \<Rightarrow> Ok (ep, host_end + 2)))"

definition decode_request :: "bytes \<Rightarrow> Request reading" where
  "decode_request buf =
     (if length buf < 7 then (Err ScIncomplete, buf)
      else if buf ! 0 \<noteq> 5 then (Err (ScUnsupportedVersion (buf ! 0)), buf)
      else case (if buf ! 1 = 1 then Some CmConnect else if buf ! 1 = 2 then Some CmBind
                 else if buf ! 1 = 3 then Some CmUdpAssociate else None) of
          None \<Rightarrow> (Err (ScUnsupportedCommand (buf ! 1)), buf)
        | Some command \<Rightarrow>
            if buf ! 2 \<noteq> 0 then (Err (ScReservedNotZero (buf ! 2)), buf)
            else case decode_endpoint_at buf 3 of
                Inl e \<Rightarrow> (Err e, buf)
              | Inr (ep, tot) \<Rightarrow> (Ok \<lparr> rq_command = command, rq_endpoint = ep \<rparr>, drop tot buf))"

definition decode_connect_request :: "bytes \<Rightarrow> Endpoint reading" where
  "decode_connect_request buf =
     (case decode_request buf of
        (Inl e, buf') \<Rightarrow> (Err e, buf')
      | (Inr request, buf') \<Rightarrow>
          (if rq_command request \<noteq> CmConnect then Err (ScUnsupportedCommand (command_code (rq_command request)))
           else Ok (rq_endpoint request), buf'))"

section \<open>Replies\<close>

definition encode_reply :: "Reply \<Rightarrow> bytes" where
  "encode_reply reply = [5, reply_code reply, 0, 1, 127, 0, 0, 1, 0, 0]"

definition encode_reply_with_endpoint :: "Reply \<Rightarrow> Endpoint \<Rightarrow> bytes" where
  "encode_reply_with_endpoint reply bind = encode_endpoint bind [5, reply_code reply, 0]"

definition endpoint_total_at :: "bytes \<Rightarrow> nat \<Rightarrow> CodecError + nat" where
  "endpoint_total_at buf offset =
     (if length buf \<le> offset then Err ScIncomplete
      else res_bind
        (let atyp = buf ! offset in
         if atyp = 1 then Ok (offset + 1 + 4 + 2)
         else if atyp = 3 then
           if length buf < offset + 2 then Err ScIncomplete else Ok (offset + 2 + unat (buf ! (offset + 1)) + 2)
         else if atyp = 4 then Ok (offset + 1 + 16 + 2)
         else Err (ScInvalidAtyp atyp))
        (\<lambda>tot. if length buf < tot then Err ScIncomplete else Ok tot))"

definition decode_reply :: "bytes \<Rightarrow> Reply reading" where
  "decode_reply buf =
     (if length buf < 10 then (Err ScIncomplete, buf)
      else if buf ! 0 \<noteq> 5 then (Err (ScUnsupportedVersion (buf ! 0)), buf)
      else if buf ! 2 \<noteq> 0 then (Err (ScReservedNotZero (buf ! 2)), buf)
      else case endpoint_total_at buf 3 of
          Inl e \<Rightarrow> (Err e, buf)
        | Inr tot \<Rightarrow> (Ok (reply_from_wire (buf ! 1)), drop tot buf))"

definition decode_reply_frame :: "bytes \<Rightarrow> ReplyFrame reading" where
  "decode_reply_frame buf =
     (if length buf < 10 then (Err ScIncomplete, buf)
      else if buf ! 0 \<noteq> 5 then (Err (ScUnsupportedVersion (buf ! 0)), buf)
      else if buf ! 2 \<noteq> 0 then (Err (ScReservedNotZero (buf ! 2)), buf)
      else case endpoint_total_at buf 3 of
          Inl e \<Rightarrow> (Err e, buf)
        | Inr tot \<Rightarrow>
            (Ok \<lparr> rf_reply = reply_from_wire (buf ! 1), rf_endpoint = map_option fst (ok (decode_endpoint_at buf 3)) \<rparr>,
             drop tot buf))"

definition reply_frame_total_len :: "bytes \<Rightarrow> CodecError + nat" where
  "reply_frame_total_len buf =
     (if length buf < 4 then Err ScIncomplete
      else let atyp = buf ! 3 in
        if atyp = 1 then Ok (4 + 4 + 2)
        else if atyp = 4 then Ok (4 + 16 + 2)
        else if atyp = 3 then if length buf < 5 then Err ScIncomplete else Ok (4 + 1 + unat (buf ! 4) + 2)
        else Err (ScInvalidAtyp atyp))"

section \<open>Datagrams and authentication\<close>

definition encode_udp_datagram :: "Endpoint \<Rightarrow> bytes \<Rightarrow> bytes" where
  "encode_udp_datagram target payload = encode_endpoint target [0, 0, 0] @ payload"

definition decode_udp_datagram :: "bytes \<Rightarrow> UdpDatagram reading" where
  "decode_udp_datagram buf =
     (if length buf < 7 then (Err ScIncomplete, buf)
      else if buf ! 0 \<noteq> 0 \<or> buf ! 1 \<noteq> 0 then (Err (ScUnsupportedVersion (buf ! 0)), buf)
      else if buf ! 2 \<noteq> 0 then (Err (ScUnsupportedFragment (buf ! 2)), buf)
      else case decode_endpoint_at buf 3 of
          Inl e \<Rightarrow> (Err e, buf)
        | Inr (target, payload_start) \<Rightarrow> (Ok \<lparr> ud_target = target, ud_payload = drop payload_start buf \<rparr>, []))"

definition encode_user_pass_request :: "bytes \<Rightarrow> bytes \<Rightarrow> CodecError + bytes" where
  "encode_user_pass_request username password =
     (if username = [] \<or> 255 < length username then Err ScInvalidAuthLen
      else if password = [] \<or> 255 < length password then Err ScInvalidAuthLen
      else Ok ([USER_PASS_VERSION, of_nat (length username)] @ username @ of_nat (length password) # password))"

definition decode_user_pass_request :: "bytes \<Rightarrow> UserPassRequest reading" where
  "decode_user_pass_request buf =
     (if length buf < 2 then (Err ScIncomplete, buf)
      else if buf ! 0 \<noteq> USER_PASS_VERSION then (Err (ScUnsupportedAuthVersion (buf ! 0)), buf)
      else let ulen = unat (buf ! 1)
      in if ulen = 0 then (Err ScInvalidAuthLen, buf)
      else if length buf < 2 + ulen + 1 then (Err ScIncomplete, buf)
      else let plen = unat (buf ! (2 + ulen))
      in if plen = 0 then (Err ScInvalidAuthLen, buf)
      else let tot = 2 + ulen + 1 + plen
      in if length buf < tot then (Err ScIncomplete, buf)
         else (Ok \<lparr> up_username = slice buf 2 ulen, up_password = slice buf (2 + ulen + 1) plen \<rparr>, drop tot buf))"

definition encode_user_pass_reply :: "u8 \<Rightarrow> bytes" where
  "encode_user_pass_reply status = [USER_PASS_VERSION, status]"

definition decode_user_pass_reply :: "bytes \<Rightarrow> u8 reading" where
  "decode_user_pass_reply buf =
     (if length buf < 2 then (Err ScIncomplete, buf)
      else if buf ! 0 \<noteq> USER_PASS_VERSION then (Err (ScUnsupportedAuthVersion (buf ! 0)), buf)
      else (Ok (buf ! 1), drop 2 buf))"

section \<open>Addresses as text\<close>

text \<open>The parser of IPv4 addresses only accepts their canonical text.\<close>

lemma read_digits_split:
  "read_digits 10 maxd maxv acc n s = Some (v, m, r) \<Longrightarrow>
     \<exists>ds. s = ds @ r \<and> m = n + length ds \<and> digits_val acc ds = Some v"
proof (induction "10 :: nat" maxd maxv acc n s rule: read_digits.induct)
  case (2 maxd maxv acc n c cs)
  show ?case
  proof (cases "digit_val c")
    case None
    with 2(2) show ?thesis by (simp add: radix_val_def)
  next
    case (Some d)
    with 2 obtain ds where "cs = ds @ r" "m = n + 1 + length ds" "digits_val (acc * 10 + d) ds = Some v"
      by (auto simp: radix_val_def split: if_splits)
    with Some have "c # cs = (c # ds) @ r \<and> m = n + length (c # ds) \<and> digits_val acc (c # ds) = Some v"
      by (simp add: mult.commute)
    then show ?thesis by blast
  qed
qed simp

lemma digit_val_inverse: "digit_val c = Some d \<Longrightarrow> d < 10 \<and> digit_char d = c"
  by (auto simp: digit_val_def digit_char_def Let_def split: if_splits)

lemma digits_show_nat:
  "digits_val 0 ds = Some v \<Longrightarrow> ds \<noteq> [] \<Longrightarrow> hd ds \<noteq> CHR ''0'' \<or> length ds = 1 \<Longrightarrow> ds = show_nat v"
proof (induction ds arbitrary: v rule: rev_induct)
  case (snoc c es)
  from snoc.prems(1) obtain e d where e: "digits_val 0 es = Some e" and d: "digit_val c = Some d" "v = 10 * e + d"
    by (auto simp: digits_val_append split: option.splits)
  note dc = digit_val_inverse [OF d(1)]
  show ?case
  proof (cases "es = []")
    case True
    with e d dc show ?thesis by (subst show_nat.simps) simp
  next
    case False
    with snoc.prems(3) have "hd es \<noteq> CHR ''0''" by (cases es) auto
    with snoc.IH [OF e False] have es: "es = show_nat e" by simp
    have "e \<noteq> 0"
    proof
      assume "e = 0"
      moreover have "digit_char 0 = CHR ''0''"
        by (rule digit_val_inverse [THEN conjunct2]) (simp add: digit_val_def)
      ultimately have "es = ''0''" using es by (simp add: show_nat.simps)
      with \<open>hd es \<noteq> CHR ''0''\<close> show False by simp
    qed
    with d dc es show ?thesis by (subst show_nat.simps) simp
  qed
qed simp

lemma read_number_decimal:
  assumes "read_number 10 maxd maxv False s = Some (v, r)"
  shows "s = show_nat v @ r \<and> v \<le> maxv"
proof -
  from assms obtain n where n: "read_digits 10 maxd maxv 0 0 s = Some (v, n, r)" "n \<noteq> 0"
    "\<not> (hd s = CHR ''0'' \<and> n > 1)"
    by (auto simp: read_number_def split: option.splits if_splits)
  from read_digits_split [OF n(1)] obtain ds where ds: "s = ds @ r" "n = length ds" "digits_val 0 ds = Some v" by auto
  with n(2,3) have "ds \<noteq> []" "hd ds \<noteq> CHR ''0'' \<or> length ds = 1"
    by (auto simp: hd_append Suc_less_eq2 dest: Suc_lessI [OF length_greater_0_conv [THEN iffD2]])
  with ds digits_show_nat [OF ds(3)] read_number_bound [OF assms] show ?thesis by simp
qed

lemma read_octet_first:
  "read_octets (Suc k) 0 s = Some (os, r) \<Longrightarrow> \<exists>a t os'. os = a # os' \<and> s = show_nat a @ t \<and> a \<le> 255 \<and> read_octets k 1 t = Some (os', r)"
  by (auto simp: read_separator_def split: option.splits dest: read_number_decimal)

lemma read_octet_next:
  "read_octets (Suc k) (Suc i) s = Some (os, r) \<Longrightarrow>
     \<exists>a t os'. os = a # os' \<and> s = ''.'' @ show_nat a @ t \<and> a \<le> 255 \<and> read_octets k (Suc (Suc i)) t = Some (os', r)"
  by (auto simp: read_separator_def read_given_char_def split: option.splits list.splits if_splits dest!: read_number_decimal)

lemma ipv4_octets_groups:
  assumes "a \<le> 255" "b \<le> 255" "c \<le> 255" "d \<le> 255"
  shows "ipv4_octets (of_nat (of_groups 256 [a, b, c, d])) = [a, b, c, d]"
proof -
  let ?n = "((a * 256 + b) * 256 + c) * 256 + d"
  have "unat (of_nat ?n :: u32) = ?n" using assms by (intro of_nat_inverse [OF refl]) simp
  moreover have m: "(x * 256 + y) mod 256 = y" "(x * 256 + y) div 256 = x" if "y \<le> 255" for x y :: nat
    using that by simp_all
  moreover have "?n div 256 ^ 2 = a * 256 + b" "?n div 256 ^ 3 = a"
    by (simp_all only: power2_eq_square power3_eq_cube div_mult2_eq m assms)
  ultimately show ?thesis using assms by (simp add: ipv4_octets_def of_groups_def m [OF assms(4)] del: distrib_right_numeral)
qed

lemma parse_ipv4_canonical:
  assumes "parse_ipv4 s = Some ip"
  shows "ipv4_display ip = s"
proof -
  from assms obtain os where os: "read_octets 4 0 s = Some (os, [])" "ip = of_nat (of_groups 256 os)"
    by (auto simp: parse_ipv4_def read_ipv4_addr_def split: option.splits list.splits)
  from os(1) obtain a b c d t1 t2 t3 where "os = [a, b, c, d]" "a \<le> 255" "b \<le> 255" "c \<le> 255" "d \<le> 255"
    "s = show_nat a @ ''.'' @ show_nat b @ ''.'' @ show_nat c @ ''.'' @ show_nat d"
    by (fastforce simp: eval_nat_numeral simp del: read_octets.simps(2) dest!: read_octet_first read_octet_next)
  with os(2) ipv4_octets_groups [of a b c d] show ?thesis by (simp add: ipv4_display_def)
qed


lemma hex_length: "n < 16 ^ Suc k \<Longrightarrow> length (show_hex n) \<le> Suc k \<and> show_hex n \<noteq> []"
proof (induction k arbitrary: n)
  case 0
  then show ?case by (subst (1 2) show_hex.simps) simp
next
  case (Suc k)
  from Suc.prems have "n div 16 < 16 ^ Suc k" by (simp add: less_mult_imp_div_less)
  with Suc.IH [of "n div 16"] show ?case by (subst (1 2) show_hex.simps) auto
qed

lemma show_nat_octet: "n < 256 \<Longrightarrow> length (show_nat n) \<le> 3"
  by (subst show_nat.simps, subst show_nat.simps, subst show_nat.simps) auto

lemma join_with_length:
  "(\<forall>x \<in> set xs. length x \<le> k) \<Longrightarrow> length (join_with [c] xs) \<le> length xs * (k + 1)"
  by (induction "[c]" xs rule: join_with.induct) auto

lemma join_with_nonempty: "xs \<noteq> [] \<Longrightarrow> \<forall>x \<in> set xs. x \<noteq> [] \<Longrightarrow> join_with sep xs \<noteq> []"
  by (induction sep xs rule: join_with.induct) auto

lemma ipv4_display_size: "ipv4_display a \<noteq> [] \<and> length (ipv4_display a) \<le> 16"
proof -
  have "\<forall>x \<in> set (map show_nat (ipv4_octets a)). length x \<le> 3 \<and> x \<noteq> []"
    by (auto simp: ipv4_octets_def intro: show_nat_octet)
  with join_with_length [of "map show_nat (ipv4_octets a)" 3 "CHR ''.''"]
    join_with_nonempty [of "map show_nat (ipv4_octets a)" "''.''"]
  show ?thesis by (simp add: ipv4_display_def ipv4_octets_def)
qed

lemma ipv6_display_size: "ipv6_display a \<noteq> [] \<and> length (ipv6_display a) \<le> 82"
proof -
  let ?gs = "ipv6_segments a"
  have len: "length ?gs = 8" by (simp add: ipv6_segments_def)
  have "\<forall>g \<in> set ?gs. g < 16 ^ Suc 3" by (auto simp: ipv6_segments_def)
  then have hex: "\<forall>x \<in> set (map show_hex ?gs). length x \<le> 4 \<and> x \<noteq> []" using hex_length [of _ 3] by auto
  have part: "length (join_with '':'' (map show_hex hs)) \<le> 40" if "set hs \<subseteq> set ?gs" "length hs \<le> 8" for hs
  proof -
    have "\<forall>x \<in> set (map show_hex hs). length x \<le> 4" using hex that(1) by auto
    from join_with_length [OF this, of "CHR '':''"] that(2) show ?thesis by simp
  qed
  have "length (join_with '':'' (map show_hex (take i ?gs))) \<le> 40" "length (join_with '':'' (map show_hex (drop i ?gs))) \<le> 40"
    "length (join_with '':'' (map show_hex ?gs)) \<le> 40" for i
    by (rule part, use len in \<open>auto dest: in_set_takeD in_set_dropD\<close>)+
  moreover have "join_with '':'' (map show_hex ?gs) \<noteq> []" using hex len by (intro join_with_nonempty) auto
  moreover have "length (ipv4_display b) \<le> 75" for b using ipv4_display_size [of b] by simp
  ultimately show ?thesis
    by (auto simp: ipv6_display_def Let_def add_le_mono [of _ 40 _ 40, simplified] split: prod.split)
qed

section \<open>What one end writes the other reads\<close>

definition ep_bytes :: "Endpoint \<Rightarrow> bytes" where
  "ep_bytes ep =
     (case parse_ipv4 (ep_host ep) of
        Some ip4 \<Rightarrow> 1 # be_bytes 4 (unat ip4)
      | None \<Rightarrow> (case parse_ipv6 (ep_host ep) of
          Some ip6 \<Rightarrow> 4 # be_bytes 16 (unat ip6)
        | None \<Rightarrow> 3 # of_nat (length (ep_host ep)) # str_bytes (ep_host ep)))
     @ put_be16 (ep_port ep)"

lemma encode_endpoint_bytes: "encode_endpoint ep out = out @ ep_bytes ep"
  by (simp add: encode_endpoint_def ep_bytes_def split: option.split)

text \<open>The endpoint the other end sees: an IPv6 address comes back in its canonical text.\<close>

definition wire_view :: "Endpoint \<Rightarrow> Endpoint" where
  "wire_view ep =
     (case parse_ipv4 (ep_host ep) of
        Some _ \<Rightarrow> ep
      | None \<Rightarrow> (case parse_ipv6 (ep_host ep) of Some ip6 \<Rightarrow> ep \<lparr> ep_host := ipv6_display ip6 \<rparr> | None \<Rightarrow> ep))"

text \<open>An endpoint of the program: well formed, its host a valid string.\<close>

definition good_endpoint :: "Endpoint \<Rightarrow> bool" where
  "good_endpoint ep \<longleftrightarrow> wf_endpoint ep \<and> utf8_valid (str_bytes (ep_host ep))"

lemma wire_view_wf: "wf_endpoint ep \<Longrightarrow> wf_endpoint (wire_view ep)"
proof -
  have "length (ipv6_display a) \<le> 255" for a using ipv6_display_size [of a] by simp
  moreover assume "wf_endpoint ep"
  ultimately show ?thesis using ipv6_display_size by (auto simp: wire_view_def wf_endpoint_def split: option.split)
qed

lemma slice_port: "slice (pre @ put_be16 w @ post) (length pre) 2 = put_be16 w"
  by (simp add: slice_def)


lemma decode_endpoint_at_bytes:
  assumes "good_endpoint ep" "k = length pre"
  shows "decode_endpoint_at (pre @ ep_bytes ep @ rest) k = Ok (wire_view ep, k + length (ep_bytes ep))"
proof -
  let ?port = "put_be16 (ep_port ep)" and ?h = "ep_host ep"
  from assms have wf: "wf_endpoint ep" "utf8_valid (str_bytes ?h)" and h: "length ?h \<le> 255"
    by (simp_all add: good_endpoint_def wf_endpoint_def)
  have view: "endpoint_new (ep_host (wire_view ep)) (ep_port ep) = Ok (wire_view ep)"
    using endpoint_new_wf [OF wire_view_wf [OF wf(1)]]
    by (simp add: wire_view_def split: option.splits)
  have port: "slice (pre @ b # xs @ ?port @ rest) (Suc (length pre + length xs)) 2 = ?port" for b xs
    using slice_port [of "pre @ b # xs" "ep_port ep" rest] by simp
  consider (v4) ip where "parse_ipv4 ?h = Some ip"
    | (v6) ip where "parse_ipv4 ?h = None" "parse_ipv6 ?h = Some ip"
    | (name) "parse_ipv4 ?h = None" "parse_ipv6 ?h = None"
    by (cases "parse_ipv4 ?h"; cases "parse_ipv6 ?h") auto
  then show ?thesis
  proof cases
    case v4
    have "slice (pre @ 1 # be_bytes 4 (unat ip) @ ?port @ rest) (Suc (length pre)) 4 = be_bytes 4 (unat ip)"
      by (simp add: slice_def)
    moreover have "of_nat (be_val (be_bytes 4 (unat ip))) = ip" by (rule word_of_be_bytes) simp
    ultimately have "decode_host_at (pre @ ep_bytes ep @ rest) (length pre) = Ok (?h, Suc (length pre + 4))"
      using v4 parse_ipv4_canonical [OF v4] by (simp add: decode_host_at_def ep_bytes_def)
    with v4 view port [of 1 "be_bytes 4 (unat ip)"] show ?thesis
      by (simp add: decode_endpoint_at_def ep_bytes_def wire_view_def assms(2) del: endpoint_new_Ok)
  next
    case v6
    have "slice (pre @ 4 # be_bytes 16 (unat ip) @ ?port @ rest) (Suc (length pre)) 16 = be_bytes 16 (unat ip)"
      by (simp add: slice_def)
    moreover have "of_nat (be_val (be_bytes 16 (unat ip))) = ip" by (rule word_of_be_bytes) simp
    ultimately have "decode_host_at (pre @ ep_bytes ep @ rest) (length pre) = Ok (ipv6_display ip, Suc (length pre + 16))"
      using v6 by (simp add: decode_host_at_def ep_bytes_def)
    with v6 view port [of 4 "be_bytes 16 (unat ip)"] show ?thesis
      by (simp add: decode_endpoint_at_def ep_bytes_def wire_view_def assms(2) del: endpoint_new_Ok)
  next
    case name
    have len: "unat (of_nat (length ?h) :: u8) = length ?h" using h by (simp add: unat_of_nat)
    have at: "(pre @ 3 # of_nat (length ?h) # str_bytes ?h @ ?port @ rest) ! Suc (length pre) = of_nat (length ?h)"
      by (simp add: nth_append)
    have "slice (pre @ 3 # of_nat (length ?h) # str_bytes ?h @ ?port @ rest) (Suc (Suc (length pre))) (length ?h) = str_bytes ?h"
      by (simp add: slice_def)
    with len at wf(2) name have "decode_host_at (pre @ ep_bytes ep @ rest) (length pre) = Ok (?h, Suc (Suc (length pre + length ?h)))"
      by (simp add: decode_host_at_def ep_bytes_def)
    with name view port [of 3 "of_nat (length ?h) # str_bytes ?h"] show ?thesis
      by (simp add: decode_endpoint_at_def ep_bytes_def wire_view_def assms(2) del: endpoint_new_Ok)
  qed
qed


lemma ep_bytes_length: "4 \<le> length (ep_bytes ep)"
  by (simp add: ep_bytes_def split: option.split)

lemma ep_bytes_length_name: "wf_endpoint ep \<Longrightarrow> 5 \<le> length (ep_bytes ep)"
  by (cases "ep_host ep") (auto simp: ep_bytes_def wf_endpoint_def split: option.split)

text \<open>An endpoint that is cut short.\<close>

lemma decode_endpoint_at_short:
  assumes "pre @ ep_bytes ep = buf @ suf" "suf \<noteq> []" "length pre < length buf" "wf_endpoint ep"
  shows "decode_endpoint_at buf (length pre) = Err ScIncomplete"
proof -
  have len: "length buf < length pre + length (ep_bytes ep)"
    using arg_cong [OF assms(1), of length] assms(2) by simp
  have at: "buf ! i = (pre @ ep_bytes ep) ! i" if "i < length buf" for i
    using that unfolding assms(1) by (simp add: nth_append)
  have h: "unat (of_nat (length (ep_host ep)) :: u8) = length (ep_host ep)"
    using assms(4) by (simp add: wf_endpoint_def unat_of_nat)
  have first: "buf ! length pre = hd (ep_bytes ep)"
    using at [OF assms(3)] by (simp add: nth_append hd_conv_nth ep_bytes_def split: option.split)
  have second: "buf ! Suc (length pre) = ep_bytes ep ! 1" if "Suc (length pre) < length buf"
    using at [OF that] by (simp add: nth_append)
  show ?thesis
  proof (cases "parse_ipv4 (ep_host ep) = None \<and> parse_ipv6 (ep_host ep) = None")
    case True
    then have b: "ep_bytes ep = 3 # of_nat (length (ep_host ep)) # str_bytes (ep_host ep) @ put_be16 (ep_port ep)"
      by (simp add: ep_bytes_def)
    with len first second h assms(3) show ?thesis
      by (auto simp: decode_endpoint_at_def decode_host_at_def Let_def)
  next
    case False
    with len first assms(3) show ?thesis
      by (auto simp: decode_endpoint_at_def decode_host_at_def Let_def ep_bytes_def split: option.splits)
  qed
qed

definition request_bytes :: "Request \<Rightarrow> bytes" where
  "request_bytes r = encode_request (rq_command r) (rq_endpoint r)"

lemma request_bytes_eq: "request_bytes r = [5, command_code (rq_command r), 0] @ ep_bytes (rq_endpoint r)"
  by (simp add: request_bytes_def encode_request_def encode_endpoint_bytes)

lemma decode_request_bytes:
  assumes "good_endpoint (rq_endpoint r)"
  shows "decode_request (request_bytes r @ rest) = (Ok (r \<lparr> rq_endpoint := wire_view (rq_endpoint r) \<rparr>), rest)"
proof -
  let ?b = "request_bytes r @ rest"
  have e: "decode_endpoint_at ?b 3 = Ok (wire_view (rq_endpoint r), 3 + length (ep_bytes (rq_endpoint r)))"
    using decode_endpoint_at_bytes [OF assms, of 3 "[5, command_code (rq_command r), 0]" rest]
    by (simp add: request_bytes_eq)
  have "\<not> length ?b < 7" using ep_bytes_length [of "rq_endpoint r"] by (simp add: request_bytes_eq)
  moreover have "?b ! 0 = 5" "?b ! 1 = command_code (rq_command r)" "?b ! 2 = 0"
    by (simp_all add: request_bytes_eq numeral_2_eq_2)
  moreover have "drop (3 + length (ep_bytes (rq_endpoint r))) ?b = rest"
    by (simp add: request_bytes_eq numeral_3_eq_3)
  ultimately show ?thesis unfolding decode_request_def e by (cases "rq_command r") (simp_all)
qed

lemma decode_request_short:
  assumes "wf_endpoint (rq_endpoint r)" "request_bytes r = buf @ suf" "suf \<noteq> []"
  shows "decode_request buf = (Err ScIncomplete, buf)"
proof (cases "length buf < 7")
  case False
  have at: "buf ! i = request_bytes r ! i" if "i < length buf" for i
    using that unfolding assms(2) by (simp add: nth_append)
  have "buf ! 0 = 5" "buf ! 1 = command_code (rq_command r)" "buf ! 2 = 0"
    using at [of 0] at [of 1] at [of 2] False by (cases buf, auto simp: request_bytes_eq numeral_2_eq_2)
  moreover have "decode_endpoint_at buf 3 = Err ScIncomplete"
    using decode_endpoint_at_short [of "[5, command_code (rq_command r), 0]" "rq_endpoint r" buf suf] assms False
    by (simp add: request_bytes_eq numeral_3_eq_3)
  ultimately show ?thesis using False by (cases "rq_command r") (simp_all add: decode_request_def)
qed (simp add: decode_request_def)


section \<open>Streams\<close>

definition good_request :: "Request \<Rightarrow> bool" where
  "good_request r \<longleftrightarrow> good_endpoint (rq_endpoint r) \<and> wire_view (rq_endpoint r) = rq_endpoint r"

interpretation requests: framing "\<lambda>r :: Request. Ok (request_bytes r) :: CodecError + bytes" decode_request good_request ScIncomplete
proof
  fix x :: Request and b rest buf suf
  assume good: "good_request x"
  then have wf: "wf_endpoint (rq_endpoint x)" by (simp add: good_request_def good_endpoint_def)
  show "\<exists>b. Ok (request_bytes x) = (Ok b :: CodecError + bytes)" by simp
  show "decode_request (b @ rest) = (Ok x, rest)" if "Ok (request_bytes x) = (Ok b :: CodecError + bytes)"
    using that good decode_request_bytes [of x rest] by (simp add: good_request_def)
  show "decode_request buf = (Err ScIncomplete, buf)"
    if "Ok (request_bytes x) = (Ok (buf @ suf) :: CodecError + bytes)" "suf \<noteq> []"
    using that by (intro decode_request_short [OF wf]) simp_all
qed

definition good_greeting :: "Greeting \<Rightarrow> bool" where
  "good_greeting g \<longleftrightarrow> length (gr_methods g) \<le> 255
     \<and> list_all (\<lambda>m. case m of MtUnknown c \<Rightarrow> c \<notin> {0, 1, 2} | _ \<Rightarrow> True) (gr_methods g)"

lemma method_from_wire_code:
  "(case m of MtUnknown c \<Rightarrow> c \<notin> {0, 1, 2} | _ \<Rightarrow> True) \<Longrightarrow> method_from_wire (wire_code m) = m"
  by (cases m) (auto simp: method_from_wire_def)

interpretation greetings:
  framing "\<lambda>g :: Greeting. Ok (encode_greeting (gr_methods g)) :: CodecError + bytes" decode_greeting good_greeting ScIncomplete
proof
  fix x :: Greeting and b rest buf suf
  assume good: "good_greeting x"
  let ?ms = "gr_methods x"
  have n: "unat (of_nat (length ?ms) :: u8) = length ?ms" using good by (simp add: good_greeting_def unat_of_nat)
  have inv: "map (method_from_wire \<circ> wire_code) ?ms = ?ms"
    using good by (auto simp: good_greeting_def list_all_iff intro!: map_idI method_from_wire_code)
  show "\<exists>b. Ok (encode_greeting ?ms) = (Ok b :: CodecError + bytes)" by simp
  show "decode_greeting (b @ rest) = (Ok x, rest)" if "Ok (encode_greeting ?ms) = (Ok b :: CodecError + bytes)"
  proof -
    have "slice (b @ rest) 2 (length ?ms) = map wire_code ?ms"
      using that by (auto simp: encode_greeting_def slice_def)
    with that n inv show ?thesis by (auto simp: decode_greeting_def encode_greeting_def)
  qed
  show "decode_greeting buf = (Err ScIncomplete, buf)"
    if e: "Ok (encode_greeting ?ms) = (Ok (buf @ suf) :: CodecError + bytes)" and "suf \<noteq> []"
  proof (cases "length buf < 2")
    case False
    have e': "encode_greeting ?ms = buf @ suf" using e by simp
    have at: "buf ! i = encode_greeting ?ms ! i" if "i < length buf" for i
      using that unfolding e' by (simp add: nth_append)
    have "length buf < 2 + length ?ms" using arg_cong [OF e', of length] \<open>suf \<noteq> []\<close> by (simp add: encode_greeting_def)
    moreover have "buf ! 0 = 5" "buf ! 1 = of_nat (length ?ms)"
      using at [of 0] at [of 1] False by (cases buf, auto simp: encode_greeting_def)
    ultimately show ?thesis using n False by (simp add: decode_greeting_def)
  qed (simp add: decode_greeting_def)
qed

lemma decode_user_pass_bytes:
  assumes "u \<noteq> []" "length u \<le> 255" "p \<noteq> []" "length p \<le> 255"
  shows "decode_user_pass_request ([USER_PASS_VERSION, of_nat (length u)] @ u @ (of_nat (length p) # p) @ rest)
       = (Ok \<lparr> up_username = u, up_password = p \<rparr>, rest)"
proof -
  have "unat (of_nat (length u) :: u8) = length u" "unat (of_nat (length p) :: u8) = length p"
    using assms by (simp_all add: unat_of_nat)
  with assms show ?thesis by (simp add: decode_user_pass_request_def slice_def nth_append)
qed

definition good_user_pass :: "UserPassRequest \<Rightarrow> bool" where
  "good_user_pass r \<longleftrightarrow> up_username r \<noteq> [] \<and> length (up_username r) \<le> 255 \<and> up_password r \<noteq> [] \<and> length (up_password r) \<le> 255"

interpretation user_pass: framing "\<lambda>r :: UserPassRequest. encode_user_pass_request (up_username r) (up_password r)"
    decode_user_pass_request good_user_pass ScIncomplete
proof
  fix x :: UserPassRequest and b rest buf suf
  assume good: "good_user_pass x"
  let ?u = "up_username x" and ?p = "up_password x"
  let ?b = "[USER_PASS_VERSION, of_nat (length ?u)] @ ?u @ of_nat (length ?p) # ?p"
  from good have enc: "encode_user_pass_request ?u ?p = Ok ?b"
    by (auto simp: good_user_pass_def encode_user_pass_request_def)
  then show "\<exists>b. encode_user_pass_request ?u ?p = Ok b" by simp
  show "decode_user_pass_request (b @ rest) = (Ok x, rest)" if "encode_user_pass_request ?u ?p = Ok b"
    using that enc good decode_user_pass_bytes [of ?u ?p rest] by (auto simp: good_user_pass_def)
  show "decode_user_pass_request buf = (Err ScIncomplete, buf)"
    if e: "encode_user_pass_request ?u ?p = Ok (buf @ suf)" and "suf \<noteq> []"
  proof (cases "length buf < 2")
    case False
    have e': "?b = buf @ suf" using e enc by simp
    have at: "buf ! i = ?b ! i" if "i < length buf" for i using that unfolding e' by (simp add: nth_append)
    have n: "unat (of_nat (length ?u) :: u8) = length ?u" "unat (of_nat (length ?p) :: u8) = length ?p"
      using good by (simp_all add: good_user_pass_def unat_of_nat)
    have "length buf < 3 + length ?u + length ?p" using arg_cong [OF e', of length] \<open>suf \<noteq> []\<close> by (cases suf) simp_all
    moreover have "buf ! 0 = USER_PASS_VERSION" "buf ! 1 = of_nat (length ?u)"
      using at [of 0] at [of 1] False by (cases buf, auto)
    moreover have "buf ! Suc (Suc (length ?u)) = of_nat (length ?p)" if "Suc (Suc (length ?u)) < length buf"
      using at [OF that] by (simp add: nth_append)
    ultimately show ?thesis using n False good by (auto simp: decode_user_pass_request_def Let_def good_user_pass_def)
  qed (simp add: decode_user_pass_request_def)
qed


section \<open>Properties\<close>

text \<open>C29: For every endpoint of the program, a peer that receives the encoded SOCKS5 request reads back the command and the endpoint,
  an IPv6 address in canonical text, and consumes exactly those bytes; as long as only a part has arrived it asks for
  more and keeps the buffer.\<close>
theorem socks5_request_roundtrip:
  assumes "good_endpoint ep"
  shows "decode_request (encode_request c ep @ rest) = (Ok \<lparr> rq_command = c, rq_endpoint = wire_view ep \<rparr>, rest)
       \<and> (\<forall>buf suf. encode_request c ep = buf @ suf \<and> suf \<noteq> [] \<longrightarrow> decode_request buf = (Err ScIncomplete, buf))"
  using decode_request_bytes [of "\<lparr> rq_command = c, rq_endpoint = ep \<rparr>" rest]
    decode_request_short [of "\<lparr> rq_command = c, rq_endpoint = ep \<rparr>"] assms
  by (auto simp: request_bytes_def good_endpoint_def)

definition sample_endpoint :: Endpoint where
  "sample_endpoint = \<lparr> ep_host = ''a.example'', ep_port = 443 \<rparr>"

lemma sample_endpoint_good: "good_endpoint sample_endpoint"
  by code_simp

theorem socks5_request_roundtrip_witness:
  "good_endpoint sample_endpoint
   \<and> decode_request (encode_request CmConnect sample_endpoint @ [1]) = (Ok \<lparr> rq_command = CmConnect, rq_endpoint = wire_view sample_endpoint \<rparr>, [1])"
  using socks5_request_roundtrip [OF sample_endpoint_good, of CmConnect "[1]"] sample_endpoint_good by blast

lemma reply_code_inverse: "reply_from_wire (reply_code r) = r"
  by (cases r) (simp_all add: reply_from_wire_def)

text \<open>The endpoint of the reply is a host name.\<close>

definition is_name :: "Endpoint \<Rightarrow> bool" where
  "is_name ep \<longleftrightarrow> parse_ipv4 (ep_host ep) = None \<and> parse_ipv6 (ep_host ep) = None"

lemma endpoint_total_bytes:
  assumes "wf_endpoint ep"
  shows "endpoint_total_at ([v, r, 0] @ ep_bytes ep @ rest) 3 = Ok (3 + length (ep_bytes ep))"
proof -
  have "unat (of_nat (length (ep_host ep)) :: u8) = length (ep_host ep)"
    using assms by (simp add: wf_endpoint_def unat_of_nat)
  then show ?thesis by (simp add: endpoint_total_at_def ep_bytes_def split: option.split)
qed

lemma reply_total_bytes:
  assumes "wf_endpoint ep"
  shows "reply_frame_total_len ([v, r, 0] @ ep_bytes ep) = Ok (3 + length (ep_bytes ep))"
proof -
  have "unat (of_nat (length (ep_host ep)) :: u8) = length (ep_host ep)"
    using assms by (simp add: wf_endpoint_def unat_of_nat)
  then show ?thesis by (simp add: reply_frame_total_len_def ep_bytes_def numeral_3_eq_3 split: option.split)
qed

lemma reply_frame_size:
  "wf_endpoint ep \<Longrightarrow> 3 + length (ep_bytes ep) < 10 \<longleftrightarrow> is_name ep \<and> length (ep_host ep) \<le> 2"
  by (auto simp: ep_bytes_def is_name_def split: option.split)

text \<open>C30: A complete reply is read back with its endpoint, except one whose endpoint is a host name of one or two bytes: it is
  answered \<open>Incomplete\<close> although \<open>reply_frame_total_len\<close> says that all its bytes are there.\<close>
theorem socks5_short_reply_incomplete:
  assumes "good_endpoint ep"
  shows "reply_frame_total_len (encode_reply_with_endpoint r ep) = Ok (length (encode_reply_with_endpoint r ep))
       \<and> decode_reply_frame (encode_reply_with_endpoint r ep)
         = (if is_name ep \<and> length (ep_host ep) \<le> 2 then (Err ScIncomplete, encode_reply_with_endpoint r ep)
            else (Ok \<lparr> rf_reply = r, rf_endpoint = Some (wire_view ep) \<rparr>, []))"
proof -
  let ?b = "[5, reply_code r, 0] @ ep_bytes ep"
  from assms have wf: "wf_endpoint ep" by (simp add: good_endpoint_def)
  have b: "encode_reply_with_endpoint r ep = ?b"
    by (simp add: encode_reply_with_endpoint_def encode_endpoint_bytes)
  have e: "decode_endpoint_at ?b 3 = Ok (wire_view ep, 3 + length (ep_bytes ep))"
    using decode_endpoint_at_bytes [OF assms, of 3 "[5, reply_code r, 0]" "[]"] by simp
  have t: "endpoint_total_at ?b 3 = Ok (3 + length (ep_bytes ep))"
    using endpoint_total_bytes [OF wf, of 5 "reply_code r" "[]"] by simp
  have d: "drop (3 + length (ep_bytes ep)) ?b = []" by simp
  have "decode_reply_frame ?b = (if is_name ep \<and> length (ep_host ep) \<le> 2 then (Err ScIncomplete, ?b)
      else (Ok \<lparr> rf_reply = r, rf_endpoint = Some (wire_view ep) \<rparr>, []))"
    unfolding decode_reply_frame_def e t sum.case d using reply_frame_size [OF wf] reply_code_inverse [of r]
    by (simp add: numeral_2_eq_2)
  moreover have "reply_frame_total_len ?b = Ok (length ?b)"
    using reply_total_bytes [OF wf, of 5 "reply_code r"] by simp
  ultimately show ?thesis by (simp only: b)
qed

definition short_endpoint :: Endpoint where
  "short_endpoint = \<lparr> ep_host = ''s1'', ep_port = 5432 \<rparr>"

lemma short_endpoint_good: "good_endpoint short_endpoint"
  by code_simp

lemma short_endpoint_name: "is_name short_endpoint"
proof -
  have n: "read_number 10 3 255 False ''s1'' = None" "read_number 16 4 65535 True ''s1'' = None"
    by (simp_all add: read_number_def radix_val_def hex_val_def digit_val_def Let_def)
  then have "read_octets (Suc 3) 0 ''s1'' = None" by (simp only: read_octets.simps read_separator_def) simp
  then have v4: "read_ipv4_addr ''s1'' = None" by (simp add: read_ipv4_addr_def)
  with n have "read_groups 8 0 ''s1'' = ([], False, ''s1'')" by (subst read_groups.simps) (simp add: read_separator_def)
  with v4 show ?thesis
    by (simp add: is_name_def short_endpoint_def parse_ipv4_def parse_ipv6_def read_ipv6_addr_def read_given_char_def)
qed

theorem socks5_short_reply_incomplete_witness:
  "good_endpoint short_endpoint
   \<and> decode_reply_frame (encode_reply_with_endpoint RpSucceeded short_endpoint)
     = (Err ScIncomplete, encode_reply_with_endpoint RpSucceeded short_endpoint)"
  using socks5_short_reply_incomplete [OF short_endpoint_good, of RpSucceeded] short_endpoint_good short_endpoint_name
  by (simp add: short_endpoint_def)

text \<open>A datagram carries its target and payload through the relay.\<close>

lemma udp_datagram_roundtrip:
  assumes "good_endpoint ep"
  shows "decode_udp_datagram (encode_udp_datagram ep payload) = (Ok \<lparr> ud_target = wire_view ep, ud_payload = payload \<rparr>, [])"
proof -
  let ?b = "[0, 0, 0] @ ep_bytes ep @ payload"
  have b: "encode_udp_datagram ep payload = ?b" by (simp add: encode_udp_datagram_def encode_endpoint_bytes)
  have e: "decode_endpoint_at ?b 3 = Ok (wire_view ep, 3 + length (ep_bytes ep))"
    using decode_endpoint_at_bytes [OF assms, of 3 "[0, 0, 0]" payload] by simp
  have "\<not> length ?b < 7" using ep_bytes_length [of ep] by simp
  then show ?thesis unfolding b decode_udp_datagram_def e by (simp add: numeral_2_eq_2 numeral_3_eq_3)
qed

end
