(* ===== verification/Http_Proxy.thy ===== *)
theory Http_Proxy
  imports Byte_Text Endpoint
begin

text \<open>
  The HTTP/1.1 proxy request-head codec \<^verbatim>\<open>lib/mb-proto-http-proxy/src/lib.rs\<close>: it looks for the end of the head, reads the
  request line and the headers, and answers the target of a CONNECT request or the rewritten head of a forwarded one.

  The lemmas show that the answer depends on the head alone and not on what was read after it, and that the rewritten head reads
  back as the same request with one Host header and without the headers meant for the proxy.
\<close>

section \<open>Types\<close>

datatype RequestKind = RkConnect | RkForwardHttp (fw_method: string) (fw_origin_form: string)

record RequestHead =
  rh_kind :: RequestKind
  rh_target :: Endpoint
  rh_consumed :: nat
  rh_forwarded_head :: string
  rh_proxy_authorization :: "string option"

datatype HttpProxyError =
    HpIncomplete | HpHeaderTooLarge | HpInvalidUtf8 | HpMalformedRequestLine | HpUnsupportedVersion string
  | HpInvalidConnectTarget string | HpUnsupportedMethod string | HpUnsupportedScheme string | HpMalformedAbsoluteForm
  | HpMalformedHeader | HpEndpoint string

record AbsoluteTarget =
  at_host :: string
  at_port :: u16
  at_authority :: string
  at_origin_form :: string

section \<open>Reading the head\<close>

definition find_header_end :: "bytes \<Rightarrow> nat option" where
  "find_header_end input = map_option (\<lambda>i. i + 4) (find (\<lambda>i. slice input i 4 = [13, 10, 13, 10]) [0..<length input - 3])"

abbreviation CR :: char where "CR \<equiv> CHR 0x0d"
abbreviation LF :: char where "LF \<equiv> CHR 0x0a"

text \<open>\<^verbatim>\<open>split("\r\n")\<close>.\<close>

fun split_crlf :: "string \<Rightarrow> string list" where
  "split_crlf [] = [[]]"
| "split_crlf [c] = [[c]]"
| "split_crlf (c # d # s) =
     (if c = CR \<and> d = LF then [] # split_crlf s
      else case split_crlf (d # s) of [] \<Rightarrow> [[c]] | p # ps \<Rightarrow> (c # p) # ps)"

definition parse_request_line :: "string \<Rightarrow> HttpProxyError + string \<times> string \<times> string" where
  "parse_request_line line =
     (case split_on CHR '' '' line of
        method # target # version # extra \<Rightarrow>
          if extra \<noteq> [] \<or> method = [] \<or> target = [] \<or> version = [] then Err HpMalformedRequestLine
          else Ok (method, target, version)
      | _ \<Rightarrow> Err HpMalformedRequestLine)"

definition bad_name_byte :: "char \<Rightarrow> bool" where
  "bad_name_byte c \<longleftrightarrow> (of_char c :: nat) \<le> 0x20 \<or> c = CHR '':''"

fun parse_headers :: "string list \<Rightarrow> HttpProxyError + (string \<times> string) list" where
  "parse_headers [] = Ok []"
| "parse_headers (line # lines) =
     (if line = [] then parse_headers lines
      else case split_once CHR '':'' line of
          None \<Rightarrow> Err HpMalformedHeader
        | Some (name, value) \<Rightarrow>
            if name = [] \<or> list_ex bad_name_byte name then Err HpMalformedHeader
            else res_bind (parse_headers lines) (\<lambda>hs. Ok ((name, trim value) # hs)))"

definition header_value :: "(string \<times> string) list \<Rightarrow> string \<Rightarrow> string option" where
  "header_value headers name = map_option snd (find (\<lambda>(h, _). eq_ignore_ascii_case h name) headers)"

definition endpoint_error :: "ParseError \<Rightarrow> HttpProxyError" where
  "endpoint_error err = HpEndpoint (parse_error_text err)"

definition endpoint_result :: "ParseError + Endpoint \<Rightarrow> HttpProxyError + Endpoint" where
  "endpoint_result r = (case r of Inl e \<Rightarrow> Inl (endpoint_error e) | Inr ep \<Rightarrow> Inr ep)"

definition parse_endpoint :: "string \<Rightarrow> HttpProxyError + Endpoint" where
  "parse_endpoint input = endpoint_result (endpoint_parse input)"

section \<open>Absolute targets\<close>

definition authority_to_endpoint :: "string \<Rightarrow> u16 \<Rightarrow> HttpProxyError + Endpoint \<times> string" where
  "authority_to_endpoint authority default_port =
     (case strip_prefix ''['' authority of
        Some rest \<Rightarrow>
          res_bind (ok_or (split_first CHR '']'' rest) HpMalformedAbsoluteForm) (\<lambda>(host, after).
            if after = [] then
              res_bind (endpoint_result (endpoint_new host default_port)) (\<lambda>ep. Ok (ep, ''['' @ host @ '']''))
            else if starts_with '':'' after then
              res_bind (endpoint_result (endpoint_parse authority)) (\<lambda>ep. Ok (ep, authority))
            else Err HpMalformedAbsoluteForm)
      | None \<Rightarrow>
          (case split_last CHR '':'' authority of
             Some (host, port) \<Rightarrow>
               if host = [] \<or> port = [] then Err HpMalformedAbsoluteForm
               else res_bind (endpoint_result (endpoint_parse authority)) (\<lambda>ep. Ok (ep, authority))
           | None \<Rightarrow> res_bind (endpoint_result (endpoint_new authority default_port)) (\<lambda>ep. Ok (ep, authority))))"

definition parse_http_absolute_form :: "string \<Rightarrow> HttpProxyError + AbsoluteTarget" where
  "parse_http_absolute_form input =
     (case strip_prefix ''http://'' input of
        None \<Rightarrow> Err (HpUnsupportedScheme (case split_once CHR '':'' input of None \<Rightarrow> [] | Some (scheme, _) \<Rightarrow> scheme))
      | Some rest \<Rightarrow>
          let authority_end = (case position (\<lambda>c. c = CHR ''/'' \<or> c = CHR ''?'') rest of None \<Rightarrow> length rest | Some i \<Rightarrow> i)
          in if authority_end = 0 then Err HpMalformedAbsoluteForm
             else let suffix = drop authority_end rest in
             res_bind (authority_to_endpoint (take authority_end rest) 80) (\<lambda>(ep, authority).
               Ok \<lparr> at_host = ep_host ep, at_port = ep_port ep, at_authority = authority,
                    at_origin_form = (if suffix = [] then ''/'' else if starts_with ''?'' suffix then ''/'' @ suffix else suffix) \<rparr>))"

text \<open>The headers that are not forwarded.\<close>

definition dropped_header :: "string \<Rightarrow> bool" where
  "dropped_header name \<longleftrightarrow> eq_ignore_ascii_case name ''host'' \<or> eq_ignore_ascii_case name ''proxy-authorization''
     \<or> eq_ignore_ascii_case name ''proxy-connection''"

definition rewrite_forward_head :: "string \<Rightarrow> string \<Rightarrow> AbsoluteTarget \<Rightarrow> (string \<times> string) list \<Rightarrow> string" where
  "rewrite_forward_head method version target headers =
     method @ '' '' @ at_origin_form target @ '' '' @ version @ [CR, LF] @ ''Host: '' @ at_authority target @ [CR, LF]
     @ concat (map (\<lambda>(name, value). name @ '': '' @ value @ [CR, LF]) (filter (\<lambda>(name, _). \<not> dropped_header name) headers))
     @ [CR, LF]"

section \<open>The request head\<close>

definition forward_methods :: "string list" where
  "forward_methods = [''GET'', ''HEAD'', ''POST'', ''PUT'']"

definition parse_head :: "bytes \<Rightarrow> nat \<Rightarrow> HttpProxyError + RequestHead" where
  "parse_head input hend =
     (if \<not> utf8_valid (take hend input) then Err HpInvalidUtf8
      else let lines = split_crlf (bytes_str (take hend input)) in
      res_bind (parse_request_line (hd lines)) (\<lambda>(method, target, version).
        if version \<noteq> ''HTTP/1.1'' then Err (HpUnsupportedVersion version)
        else res_bind (parse_headers (tl lines)) (\<lambda>headers.
          let proxy_authorization = header_value headers ''proxy-authorization'' in
          if method = ''CONNECT'' then
            if starts_with ''/'' target \<or> contains_sub ''://'' target then Err (HpInvalidConnectTarget target)
            else res_bind (parse_endpoint target) (\<lambda>ep.
              Ok \<lparr> rh_kind = RkConnect, rh_target = ep, rh_consumed = hend, rh_forwarded_head = [],
                   rh_proxy_authorization = proxy_authorization \<rparr>)
          else if method \<notin> set forward_methods then Err (HpUnsupportedMethod method)
          else res_bind (parse_http_absolute_form target) (\<lambda>absolute.
            res_bind (endpoint_result (endpoint_new (at_host absolute) (at_port absolute))) (\<lambda>ep.
              Ok \<lparr> rh_kind = RkForwardHttp method (at_origin_form absolute), rh_target = ep, rh_consumed = hend,
                   rh_forwarded_head = rewrite_forward_head method version absolute headers,
                   rh_proxy_authorization = proxy_authorization \<rparr>)))))"

definition parse_request_head :: "bytes \<Rightarrow> nat \<Rightarrow> HttpProxyError + RequestHead option" where
  "parse_request_head input max_header_bytes =
     (case find_header_end input of
        None \<Rightarrow> if max_header_bytes < length input then Err HpHeaderTooLarge else Ok None
      | Some hend \<Rightarrow>
          if max_header_bytes < hend then Err HpHeaderTooLarge
          else res_bind (parse_head input hend) (\<lambda>h. Ok (Some h)))"

section \<open>Trimming and lines\<close>

lemma strip_while_split: "\<exists>pre. s = pre @ strip_while ws s"
proof (induction ws s rule: strip_while.induct)
  case (1 ws s)
  show ?case
  proof (cases "find (\<lambda>w. w \<noteq> [] \<and> starts_with w s) ws")
    case None
    then show ?thesis by (simp add: strip_while.simps [of ws s])
  next
    case (Some w)
    with 1 obtain pre where "drop (length w) s = pre @ strip_while ws (drop (length w) s)" by blast
    then have "s = (take (length w) s @ pre) @ strip_while ws (drop (length w) s)"
      by (metis append_assoc append_take_drop_id)
    moreover have "strip_while ws s = strip_while ws (drop (length w) s)"
      by (subst strip_while.simps) (simp add: Some)
    ultimately show ?thesis by metis
  qed
qed

text \<open>Nothing left to strip.\<close>

definition stripped :: "string list \<Rightarrow> string \<Rightarrow> bool" where
  "stripped ws s \<longleftrightarrow> (\<forall>w \<in> set ws. w \<noteq> [] \<longrightarrow> \<not> starts_with w s)"

lemma stripped_id: "stripped ws s \<Longrightarrow> strip_while ws s = s"
proof -
  assume "stripped ws s"
  then have "find (\<lambda>w. w \<noteq> [] \<and> starts_with w s) ws = None" by (auto simp: stripped_def find_None_iff)
  then show ?thesis by (subst strip_while.simps) simp
qed

lemma stripped_strip: "stripped ws (strip_while ws s)"
proof (induction ws s rule: strip_while.induct)
  case (1 ws s)
  show ?case
  proof (cases "find (\<lambda>w. w \<noteq> [] \<and> starts_with w s) ws")
    case None
    then have "strip_while ws s = s" "stripped ws s" by (simp_all add: strip_while.simps [of ws s]) (auto simp: stripped_def find_None_iff)
    then show ?thesis by simp
  next
    case (Some w)
    with 1 [OF Some] show ?thesis by (subst strip_while.simps) simp
  qed
qed

lemma stripped_prefix: "stripped ws (p @ q) \<Longrightarrow> stripped ws p"
  by (auto simp: stripped_def starts_with_def strip_prefix_Some)

lemma trim_substring: "\<exists>a b. s = a @ trim s @ b"
proof -
  obtain a where a: "s = a @ trim_start s" using strip_while_split unfolding trim_start_def by blast
  obtain b where "rev (trim_start s) = b @ strip_while (map rev white_space) (rev (trim_start s))"
    using strip_while_split by blast
  then have "trim_start s = trim s @ rev b"
    unfolding trim_def trim_end_def by (metis rev_append rev_rev_ident)
  with a show ?thesis by metis
qed

lemma trim_trim: "trim (trim s) = trim s"
proof -
  let ?t = "trim_start s" and ?e = "map rev white_space"
  obtain b where "rev ?t = b @ strip_while ?e (rev ?t)" using strip_while_split by blast
  then have t: "?t = trim s @ rev b" unfolding trim_def trim_end_def by (metis rev_append rev_rev_ident)
  have "stripped white_space ?t" unfolding trim_start_def by (rule stripped_strip)
  then have "stripped white_space (trim s)" using t stripped_prefix by metis
  then have start: "trim_start (trim s) = trim s" by (simp add: trim_start_def stripped_id)
  have "stripped ?e (rev (trim s))" unfolding trim_def trim_end_def by (simp add: stripped_strip)
  then show ?thesis unfolding trim_def [of "trim s"] start by (simp add: trim_end_def stripped_id)
qed

lemma trim_leading_space: "trim ('' '' @ s) = trim s"
proof -
  have "find (\<lambda>w. w \<noteq> [] \<and> starts_with w (CHR '' '' # s)) white_space = Some '' ''"
    by (simp add: white_space_def starts_with_def upt_rec char_of_eq_iff)
  then have "strip_while white_space (CHR '' '' # s) = strip_while white_space s"
    by (subst strip_while.simps) simp
  then show ?thesis by (simp add: trim_def trim_start_def)
qed

definition crlf_free :: "string \<Rightarrow> bool" where
  "crlf_free s \<longleftrightarrow> \<not> contains_sub [CR, LF] s"

lemma crlf_free_substring: "crlf_free (a @ s @ b) \<Longrightarrow> crlf_free s"
  unfolding crlf_free_def contains_sub_iff by (metis append.assoc)

lemma crlf_free_Cons: "crlf_free (c # s) \<longleftrightarrow> \<not> (c = CR \<and> (\<exists>t. s = LF # t)) \<and> crlf_free s"
proof
  assume "crlf_free (c # s)"
  then show "\<not> (c = CR \<and> (\<exists>t. s = LF # t)) \<and> crlf_free s"
    using crlf_free_substring [of "[c]" s "[]"] by (auto simp: crlf_free_def contains_sub_iff)
next
  assume "\<not> (c = CR \<and> (\<exists>t. s = LF # t)) \<and> crlf_free s"
  then show "crlf_free (c # s)"
    by (auto simp: crlf_free_def contains_sub_iff Cons_eq_append_conv)
qed

lemma split_crlf_nonempty: "split_crlf s \<noteq> []"
  by (cases s rule: split_crlf.cases) (auto split: list.split)

lemma split_crlf_append: "crlf_free a \<Longrightarrow> split_crlf (a @ [CR, LF] @ s) = a # split_crlf s"
proof (induction a)
  case (Cons c a)
  then have "crlf_free a" and nc: "\<not> (c = CR \<and> (\<exists>t. a = LF # t))" by (simp_all add: crlf_free_Cons)
  with Cons.IH have ih: "split_crlf (a @ [CR, LF] @ s) = a # split_crlf s" by simp
  show ?case
  proof (cases a)
    case Nil
    with ih show ?thesis by simp
  next
    case (Cons d b)
    with ih nc show ?thesis by auto
  qed
qed simp

lemma split_crlf_pieces: "p \<in> set (split_crlf s) \<Longrightarrow> crlf_free p"
proof (induction s arbitrary: p rule: split_crlf.induct)
  case 1
  then show ?case by (simp add: crlf_free_def contains_sub_iff)
next
  case (2 c)
  then show ?case by (simp add: crlf_free_Cons, simp add: crlf_free_def contains_sub_iff)
next
  case (3 c d s)
  show ?case
  proof (cases "c = CR \<and> d = LF")
    case True
    with 3 show ?thesis by (auto simp: crlf_free_def contains_sub_iff)
  next
    case False
    obtain q ps where q: "split_crlf (d # s) = q # ps" using split_crlf_nonempty by (meson neq_Nil_conv)
    with 3(2) [OF False] have "crlf_free q" "\<And>p. p \<in> set ps \<Longrightarrow> crlf_free p" by auto
    moreover have "q = [] \<or> hd q = d"
      using q by (cases s) (auto split: if_splits list.splits)
    ultimately show ?thesis using 3(3) False q by (auto simp: crlf_free_Cons)
  qed
qed


lemma endpoint_result_Ok [simp]: "endpoint_result r = Inr ep \<longleftrightarrow> r = Inr ep"
  by (cases r) (simp_all add: endpoint_result_def)

section \<open>Incremental reading\<close>

lemma find_upt: "find P [0..<n] = Some i \<longleftrightarrow> i < n \<and> P i \<and> (\<forall>j < i. \<not> P j)"
  by (auto simp: find_Some_iff)

lemma find_upt_None: "find P [0..<n] = None \<longleftrightarrow> (\<forall>j < n. \<not> P j)"
  by (auto simp: find_None_iff)

text \<open>The position of the first blank line.\<close>

lemma find_header_end_iff:
  "find_header_end input = Some e \<longleftrightarrow>
     4 \<le> e \<and> e \<le> length input \<and> slice input (e - 4) 4 = [13, 10, 13, 10]
     \<and> (\<forall>j. j + 4 < e \<longrightarrow> slice input j 4 \<noteq> [13, 10, 13, 10])"
proof -
  have "find_header_end input = Some e \<longleftrightarrow> (\<exists>i. e = i + 4 \<and> i < length input - 3
      \<and> slice input i 4 = [13, 10, 13, 10] \<and> (\<forall>j < i. slice input j 4 \<noteq> [13, 10, 13, 10]))"
    by (auto simp: find_header_end_def find_upt)
  also have "\<dots> \<longleftrightarrow> 4 \<le> e \<and> e \<le> length input \<and> slice input (e - 4) 4 = [13, 10, 13, 10]
     \<and> (\<forall>j. j + 4 < e \<longrightarrow> slice input j 4 \<noteq> [13, 10, 13, 10])"
    by (auto simp: le_iff_add [of 4 e] add.commute)
  finally show ?thesis .
qed

lemma slice_append_left: "i + k \<le> length xs \<Longrightarrow> slice (xs @ ys) i k = slice xs i k"
  by (simp add: slice_def)

lemma slice_take: "i + k \<le> n \<Longrightarrow> slice (take n xs) i k = slice xs i k"
  by (simp add: slice_def drop_take take_take min_absorb1)

lemma find_header_end_append: "find_header_end input = Some e \<Longrightarrow> find_header_end (input @ extra) = Some e"
  unfolding find_header_end_iff by (auto simp: slice_append_left)

lemma find_header_end_cut:
  assumes "find_header_end input = Some e" "k < e"
  shows "find_header_end (take k input) = None"
proof (rule ccontr)
  assume "find_header_end (take k input) \<noteq> None"
  then obtain e' where "find_header_end (take k input) = Some e'" by blast
  then have e': "4 \<le> e'" "e' \<le> k" "slice (take k input) (e' - 4) 4 = [13, 10, 13, 10]"
    unfolding find_header_end_iff by auto
  then have "slice input (e' - 4) 4 = [13, 10, 13, 10]" by (simp add: slice_take)
  moreover have "e' - 4 + 4 < e" using e' assms(2) by simp
  ultimately show False using assms(1) unfolding find_header_end_iff by blast
qed

lemma parse_head_local: "take e input = take e input' \<Longrightarrow> parse_head input e = parse_head input' e"
  by (simp add: parse_head_def)

lemma parse_head_consumed: "parse_head input e = Ok h \<Longrightarrow> rh_consumed h = e"
  unfolding parse_head_def Let_def by (auto simp: result_simps split: if_splits)

section \<open>Properties\<close>

text \<open>C31: The head that is answered depends on its own bytes alone: it lies within the limit, what was read after it does not
  matter, and as long as its last byte is missing the reader is told to wait, never given an error.\<close>
theorem http_head_incremental:
  assumes "parse_request_head input limit = Ok (Some h)"
  shows "rh_consumed h \<le> limit \<and> rh_consumed h \<le> length input
       \<and> (\<forall>extra. parse_request_head (input @ extra) limit = Ok (Some h))
       \<and> (\<forall>k < rh_consumed h. parse_request_head (take k input) limit = Ok None)"
proof -
  from assms obtain e where e: "find_header_end input = Some e" "\<not> limit < e" and h: "parse_head input e = Ok h"
    by (auto simp: parse_request_head_def result_simps split: option.splits if_splits)
  note c = parse_head_consumed [OF h]
  have "e \<le> length input" using e(1) by (simp add: find_header_end_iff)
  then have "parse_head (input @ extra) e = Ok h" for extra
    using parse_head_local [of e input "input @ extra"] h by simp
  moreover have "parse_request_head (take k input) limit = Ok None" if "k < e" for k
    using find_header_end_cut [OF e(1) that] e(2) that by (simp add: parse_request_head_def)
  ultimately show ?thesis using e c \<open>e \<le> length input\<close>
    by (simp add: parse_request_head_def find_header_end_append)
qed

lemma split_once_name: "CHR '':'' \<notin> set n \<Longrightarrow> split_once CHR '':'' (n @ '':'' @ v) = Some (n, v)"
  by (simp add: split_once_Some)

lemma parse_headers_Cons:
  assumes "n \<noteq> []" "\<not> list_ex bad_name_byte n" "parse_headers ls = Ok hs"
  shows "parse_headers ((n @ '': '' @ v) # ls) = Ok ((n, trim v) # hs)"
proof -
  have "CHR '':'' \<notin> set n" using assms(2) by (auto simp: list_ex_iff bad_name_byte_def)
  then have "split_once CHR '':'' (n @ '': '' @ v) = Some (n, '' '' @ v)"
    using split_once_name [of n "'' '' @ v"] by simp
  with assms trim_leading_space [of v] show ?thesis by (simp del: append_Cons)
qed

text \<open>The headers a parse yields: clean names and trimmed values without line breaks.\<close>

definition good_header :: "string \<times> string \<Rightarrow> bool" where
  "good_header h \<longleftrightarrow> fst h \<noteq> [] \<and> \<not> list_ex bad_name_byte (fst h) \<and> trim (snd h) = snd h
     \<and> crlf_free (fst h) \<and> crlf_free (snd h)"

lemma parse_headers_good:
  "parse_headers ls = Ok hs \<Longrightarrow> list_all crlf_free ls \<Longrightarrow> list_all good_header hs"
proof (induction ls arbitrary: hs)
  case (Cons l ls)
  show ?case
  proof (cases "l = []")
    case False
    with Cons.prems obtain n v ts where s: "split_once CHR '':'' l = Some (n, v)" and n: "n \<noteq> []" "\<not> list_ex bad_name_byte n"
      and ts: "parse_headers ls = Ok ts" "hs = (n, trim v) # ts"
      by (auto simp: result_simps split: option.splits if_splits)
    from s have l: "l = n @ '':'' @ v" by (simp add: split_once_Some)
    obtain a b where v: "v = a @ trim v @ b" using trim_substring by blast
    have "crlf_free (n @ '':'' @ v)" using Cons.prems(2) l by simp
    then have "crlf_free n" "crlf_free v"
      using crlf_free_substring [of "[]" n "'':'' @ v"] crlf_free_substring [of "n @ '':''" v "[]"] by simp_all
    moreover from this have "crlf_free (trim v)" using v crlf_free_substring by metis
    ultimately show ?thesis using Cons ts n by (simp add: good_header_def trim_trim)
  qed (use Cons in simp)
qed simp


lemma split_on_join: "c \<notin> set a \<Longrightarrow> split_on c (a @ c # b) = a # split_on c b"
  by (induction a) (auto split: list.split)

lemma split_on_single: "c \<notin> set a \<Longrightarrow> split_on c a = [a]"
  by (induction a) (auto split: list.split)

lemma split_on_parts: "p \<in> set (split_on c s) \<Longrightarrow> c \<notin> set p \<and> (\<exists>a b. s = a @ p @ b)"
proof (induction s arbitrary: p)
  case (Cons x s)
  obtain q qs where q: "split_on c s = q # qs" by (cases "split_on c s") auto
  have head: "\<exists>b. s = q @ b" using q
  proof (induction s arbitrary: q qs)
    case (Cons y s)
    then show ?case by (cases "split_on c s") (auto split: if_splits)
  qed simp
  show ?case
  proof (cases "p \<in> set (split_on c s)")
    case True
    with Cons.IH obtain a b where "c \<notin> set p" "s = a @ p @ b" by blast
    then have "x # s = (x # a) @ p @ b" by simp
    with \<open>c \<notin> set p\<close> show ?thesis by blast
  next
    case False
    with Cons.prems q consider "x = c" "p = []" | "x \<noteq> c" "p = x # q" by (auto split: if_splits)
    then show ?thesis
    proof cases
      case 1
      then show ?thesis by (auto intro: exI [of _ "[]"])
    next
      case 2
      with Cons.IH [of q] q head show ?thesis by (auto intro: exI [of _ "[]"])
    qed
  qed
qed simp

lemma parse_request_line_parts:
  assumes "parse_request_line line = Ok (m, t, v)"
  shows "CHR '' '' \<notin> set m \<and> CHR '' '' \<notin> set t \<and> CHR '' '' \<notin> set v" "m \<noteq> []" "t \<noteq> []" "\<exists>a b. line = a @ t @ b"
proof -
  from assms have s: "split_on CHR '' '' line = [m, t, v]" "m \<noteq> []" "t \<noteq> []"
    by (auto simp: parse_request_line_def split: list.splits if_splits)
  then have "m \<in> set (split_on CHR '' '' line)" "t \<in> set (split_on CHR '' '' line)" "v \<in> set (split_on CHR '' '' line)" by simp_all
  from this [THEN split_on_parts] s
  show "CHR '' '' \<notin> set m \<and> CHR '' '' \<notin> set t \<and> CHR '' '' \<notin> set v" "m \<noteq> []" "t \<noteq> []" "\<exists>a b. line = a @ t @ b" by blast+
qed

lemma parse_request_line_join:
  assumes "CHR '' '' \<notin> set m" "CHR '' '' \<notin> set t" "CHR '' '' \<notin> set v" "m \<noteq> []" "t \<noteq> []" "v \<noteq> []"
  shows "parse_request_line (m @ '' '' @ t @ '' '' @ v) = Ok (m, t, v)"
  using assms split_on_join [of "CHR '' ''" m "t @ '' '' @ v"] split_on_join [of "CHR '' ''" t v] split_on_single [of "CHR '' ''" v]
  by (simp add: parse_request_line_def)

text \<open>The parts of an absolute target: the authority is a part of it, up to the brackets the code puts back.\<close>

lemma split_first_parts: "split_first c s = Some (a, b) \<Longrightarrow> s = a @ c # b"
  by (auto simp: split_first_def id_take_nth_drop dest!: position_Some split: option.splits)

lemma authority_text:
  assumes "authority_to_endpoint a p = Ok (ep, t)"
  shows "t = a"
proof (cases "strip_prefix ''['' a")
  case None
  with assms show ?thesis
    by (auto simp: authority_to_endpoint_def result_simps split: option.splits if_splits)
next
  case (Some rest)
  then have a: "a = ''['' @ rest" by (simp add: strip_prefix_Some)
  from assms Some obtain host after where s: "split_first CHR '']'' rest = Some (host, after)"
    and t: "after = [] \<and> t = ''['' @ host @ '']'' \<or> t = a"
    by (auto simp: authority_to_endpoint_def result_simps split: if_splits)
  from split_first_parts [OF s] a t show ?thesis by auto
qed

lemma absolute_parts:
  assumes "parse_http_absolute_form t = Ok ab"
  shows "\<exists>pre suffix. t = pre @ at_authority ab @ suffix
       \<and> (at_origin_form ab = (if suffix = [] then ''/'' else if starts_with ''?'' suffix then ''/'' @ suffix else suffix))
       \<and> authority_to_endpoint (at_authority ab) 80 = Ok (\<lparr> ep_host = at_host ab, ep_port = at_port ab \<rparr>, at_authority ab)"
proof -
  from assms obtain rest where rest: "strip_prefix ''http://'' t = Some rest"
    by (cases "strip_prefix ''http://'' t") (simp_all add: parse_http_absolute_form_def)
  define k where "k = (case position (\<lambda>c. c = CHR ''/'' \<or> c = CHR ''?'') rest of None \<Rightarrow> length rest | Some i \<Rightarrow> i)"
  let ?org = "\<lambda>suffix. if suffix = [] then ''/'' else if starts_with ''?'' suffix then ''/'' @ suffix else suffix"
  have "parse_http_absolute_form t = (if k = 0 then Err HpMalformedAbsoluteForm
      else res_bind (authority_to_endpoint (take k rest) 80) (\<lambda>(ep, authority).
        Ok \<lparr> at_host = ep_host ep, at_port = ep_port ep, at_authority = authority, at_origin_form = ?org (drop k rest) \<rparr>))"
    by (simp add: parse_http_absolute_form_def rest k_def Let_def)
  with assms obtain ep where auth: "authority_to_endpoint (take k rest) 80 = Ok (ep, at_authority ab)"
    and ep: "at_host ab = ep_host ep" "at_port ab = ep_port ep" and o: "at_origin_form ab = ?org (drop k rest)"
    by (auto simp: result_simps simp del: drop_eq_Nil split: if_split_asm)
  from rest have "t = ''http://'' @ rest" by (simp add: strip_prefix_Some)
  with authority_text [OF auth] have "t = ''http://'' @ at_authority ab @ drop k rest" by simp
  moreover have "ep = \<lparr> ep_host = at_host ab, ep_port = at_port ab \<rparr>" using ep by (cases ep) simp
  ultimately show ?thesis using o auth authority_text [OF auth] by metis
qed


lemma crlf_free_sep:
  assumes "crlf_free a" "crlf_free b" "c \<noteq> CR" "c \<noteq> LF"
  shows "crlf_free (a @ c # b)"
  using assms(1)
proof (induction a)
  case Nil
  with assms show ?case by (simp add: crlf_free_Cons)
next
  case (Cons x a)
  then show ?case using assms(4) by (cases a) (auto simp: crlf_free_Cons)
qed

definition header_line :: "string \<times> string \<Rightarrow> string" where
  "header_line h = fst h @ '': '' @ snd h"

lemma header_line_free: "good_header h \<Longrightarrow> crlf_free (header_line h)"
proof -
  assume "good_header h"
  then have "crlf_free (fst h)" "crlf_free (CHR '' '' # snd h)" by (simp_all add: good_header_def crlf_free_Cons)
  from crlf_free_sep [OF this, of "CHR '':''"] show ?thesis by (simp add: header_line_def)
qed

lemma split_header_lines:
  "list_all good_header hs \<Longrightarrow>
     split_crlf (concat (map (\<lambda>h. header_line h @ [CR, LF]) hs) @ [CR, LF]) = map header_line hs @ [[], []]"
proof (induction hs)
  case (Cons h hs)
  with split_crlf_append [OF header_line_free [of h], of "concat (map (\<lambda>h. header_line h @ [CR, LF]) hs) @ [CR, LF]"]
  show ?case by simp
qed simp

lemma parse_header_lines: "list_all good_header hs \<Longrightarrow> parse_headers (map header_line hs @ [[], []]) = Ok hs"
proof (induction hs)
  case (Cons h hs)
  then have "parse_headers ((fst h @ '': '' @ snd h) # (map header_line hs @ [[], []])) = Ok ((fst h, trim (snd h)) # hs)"
    by (intro parse_headers_Cons) (simp_all add: good_header_def)
  moreover have "(fst h, trim (snd h)) = h" using Cons.prems by (simp add: good_header_def)
  ultimately show ?case by (simp only: header_line_def [of h] list.map append_Cons)
qed simp

text \<open>What was read to produce a forwarded head.\<close>

lemma forwarded_parts:
  assumes "parse_request_head input limit = Ok (Some h)" "rh_kind h = RkForwardHttp m org"
  obtains line lines t headers ab where
    "split_crlf (bytes_str (take (rh_consumed h) input)) = line # lines" "parse_request_line line = Ok (m, t, ''HTTP/1.1'')"
    "parse_headers lines = Ok headers" "parse_http_absolute_form t = Ok ab" "org = at_origin_form ab"
    "rh_forwarded_head h = rewrite_forward_head m ''HTTP/1.1'' ab headers"
    "rh_target h = \<lparr> ep_host = at_host ab, ep_port = at_port ab \<rparr>"
proof -
  from assms(1) obtain e where h: "parse_head input e = Ok h"
    by (auto simp: parse_request_head_def result_simps split: option.splits if_splits)
  then have e: "rh_consumed h = e" by (rule parse_head_consumed)
  let ?ls = "split_crlf (bytes_str (take e input))"
  from h assms(2) obtain t headers ab where "parse_request_line (hd ?ls) = Ok (m, t, ''HTTP/1.1'')"
    "parse_headers (tl ?ls) = Ok headers" "parse_http_absolute_form t = Ok ab" "org = at_origin_form ab"
    "rh_forwarded_head h = rewrite_forward_head m ''HTTP/1.1'' ab headers"
    "rh_target h = \<lparr> ep_host = at_host ab, ep_port = at_port ab \<rparr>"
    unfolding parse_head_def Let_def
    by (auto simp: result_simps split: if_splits)
  moreover have "?ls = hd ?ls # tl ?ls" using split_crlf_nonempty by simp
  ultimately show ?thesis using that [of "hd ?ls" "tl ?ls"] by (simp add: e)
qed

lemma rewritten_lines:
  assumes "crlf_free m" "crlf_free (at_origin_form ab)" "crlf_free (at_authority ab)" "list_all good_header hs"
  shows "split_crlf (rewrite_forward_head m ''HTTP/1.1'' ab hs)
       = (m @ '' '' @ at_origin_form ab @ '' '' @ ''HTTP/1.1'') # (''Host: '' @ at_authority ab)
         # map header_line (filter (\<lambda>(n, _). \<not> dropped_header n) hs) @ [[], []]"
proof -
  let ?kept = "filter (\<lambda>(n, _). \<not> dropped_header n) hs"
  let ?req = "m @ '' '' @ at_origin_form ab @ '' '' @ ''HTTP/1.1''"
  have kept: "list_all good_header ?kept" using assms(4) by (simp add: list_all_iff)
  have http: "crlf_free ''HTTP/1.1''" "crlf_free ''''" by (simp_all add: crlf_free_Cons) (simp_all add: crlf_free_def contains_sub_iff)
  have req: "crlf_free ?req"
    using crlf_free_sep [OF assms(1) crlf_free_sep [OF assms(2) http(1)], of "CHR '' ''" "CHR '' ''"] by simp
  have host: "crlf_free (''Host: '' @ at_authority ab)" using assms(3) by (simp add: crlf_free_Cons)
  have "rewrite_forward_head m ''HTTP/1.1'' ab hs
      = ?req @ [CR, LF] @ (''Host: '' @ at_authority ab) @ [CR, LF] @ concat (map (\<lambda>h. header_line h @ [CR, LF]) ?kept) @ [CR, LF]"
    by (simp add: rewrite_forward_head_def header_line_def case_prod_unfold)
  with split_crlf_append [OF req] split_crlf_append [OF host] split_header_lines [OF kept] show ?thesis by simp
qed

text \<open>C32: The head that is forwarded for a proxied request reads back as the same method and origin form with one Host header, naming
  the target the connection goes to, followed by exactly the client's other headers: what the client sent for
  the proxy, its credentials above all, is not forwarded.\<close>
theorem http_forward_head_clean:
  assumes "parse_request_head input limit = Ok (Some h)" "rh_kind h = RkForwardHttp m org"
  shows "\<exists>headers auth lines.
      parse_headers (tl (split_crlf (bytes_str (take (rh_consumed h) input)))) = Ok headers
      \<and> authority_to_endpoint auth 80 = Ok (rh_target h, auth)
      \<and> split_crlf (rh_forwarded_head h) = (m @ '' '' @ org @ '' '' @ ''HTTP/1.1'') # lines
      \<and> parse_request_line (m @ '' '' @ org @ '' '' @ ''HTTP/1.1'') = Ok (m, org, ''HTTP/1.1'')
      \<and> parse_headers lines = Ok ((''Host'', trim auth) # filter (\<lambda>(n, _). \<not> dropped_header n) headers)"
proof (rule forwarded_parts [OF assms])
  fix line lines t headers ab
  assume ls: "split_crlf (bytes_str (take (rh_consumed h) input)) = line # lines" and line: "parse_request_line line = Ok (m, t, ''HTTP/1.1'')"
    and hs: "parse_headers lines = Ok headers" and ab: "parse_http_absolute_form t = Ok ab" and org: "org = at_origin_form ab"
    and fwd: "rh_forwarded_head h = rewrite_forward_head m ''HTTP/1.1'' ab headers"
    and target: "rh_target h = \<lparr> ep_host = at_host ab, ep_port = at_port ab \<rparr>"
  have free: "crlf_free line" "list_all crlf_free lines"
    using split_crlf_pieces [of _ "bytes_str (take (rh_consumed h) input)"] by (simp_all add: ls list_all_iff)
  note parts = parse_request_line_parts [OF line]
  have good: "list_all good_header headers" by (rule parse_headers_good [OF hs free(2)])
  obtain pre suffix where t: "t = pre @ at_authority ab @ suffix"
    and o: "at_origin_form ab = (if suffix = [] then ''/'' else if starts_with ''?'' suffix then ''/'' @ suffix else suffix)"
    and auth: "authority_to_endpoint (at_authority ab) 80 = Ok (\<lparr> ep_host = at_host ab, ep_port = at_port ab \<rparr>, at_authority ab)"
    using absolute_parts [OF ab] by blast
  have "m \<in> set (split_on CHR '' '' line)" using line by (auto simp: parse_request_line_def split: list.splits if_splits)
  then have m: "crlf_free m" using split_on_parts free(1) crlf_free_substring by metis
  have "crlf_free t" using parts(4) free(1) crlf_free_substring by metis
  then have a: "crlf_free (at_authority ab)" "crlf_free suffix"
    using t crlf_free_substring [of pre "at_authority ab" suffix] crlf_free_substring [of "pre @ at_authority ab" suffix "[]"] by simp_all
  then have oo: "crlf_free org" unfolding org o by (auto simp: crlf_free_Cons)
  have sp: "CHR '' '' \<notin> set org" "org \<noteq> []" unfolding org o using parts(1) t by auto
  let ?kept = "filter (\<lambda>(n, _). \<not> dropped_header n) headers"
  have "list_all good_header ?kept" using good by (simp add: list_all_iff)
  from parse_header_lines [OF this]
  have "parse_headers ((''Host'' @ '': '' @ at_authority ab) # map header_line ?kept @ [[], []]) = Ok ((''Host'', trim (at_authority ab)) # ?kept)"
    by (intro parse_headers_Cons) (simp_all add: bad_name_byte_def)
  moreover have "parse_request_line (m @ '' '' @ org @ '' '' @ ''HTTP/1.1'') = Ok (m, org, ''HTTP/1.1'')"
    using parts sp by (intro parse_request_line_join) auto
  moreover have "split_crlf (rh_forwarded_head h) = (m @ '' '' @ org @ '' '' @ ''HTTP/1.1'') # (''Host: '' @ at_authority ab)
      # map header_line ?kept @ [[], []]"
    using rewritten_lines [OF m _ a(1) good] oo fwd org by simp
  ultimately show ?thesis using hs ls auth target by auto
qed


definition sample_head :: string where
  "sample_head = ''GET http://a/ HTTP/1.1'' @ [CR, LF] @ ''X: 1'' @ [CR, LF] @ ''Proxy-Authorization: k'' @ [CR, LF, CR, LF]"

definition sample_request :: RequestHead where
  "sample_request = \<lparr> rh_kind = RkForwardHttp ''GET'' ''/'', rh_target = \<lparr> ep_host = ''a'', ep_port = 80 \<rparr>, rh_consumed = 56,
     rh_forwarded_head = ''GET / HTTP/1.1'' @ [CR, LF] @ ''Host: a'' @ [CR, LF] @ ''X: 1'' @ [CR, LF, CR, LF],
     rh_proxy_authorization = Some ''k'' \<rparr>"

lemma sample_head_parses: "parse_request_head (str_bytes sample_head) 100 = Ok (Some sample_request)"
  by code_simp


theorem http_head_incremental_witness:
  "parse_request_head (str_bytes sample_head) 100 = Ok (Some sample_request)
   \<and> parse_request_head (str_bytes sample_head @ [0]) 100 = Ok (Some sample_request)
   \<and> parse_request_head (take 55 (str_bytes sample_head)) 100 = Ok None"
  using http_head_incremental [OF sample_head_parses] sample_head_parses by (simp add: sample_request_def)

theorem http_forward_head_clean_witness:
  "\<exists>headers auth lines.
      parse_headers (tl (split_crlf (bytes_str (take (rh_consumed sample_request) (str_bytes sample_head))))) = Ok headers
      \<and> authority_to_endpoint auth 80 = Ok (rh_target sample_request, auth)
      \<and> split_crlf (rh_forwarded_head sample_request) = (''GET'' @ '' '' @ ''/'' @ '' '' @ ''HTTP/1.1'') # lines
      \<and> parse_request_line (''GET'' @ '' '' @ ''/'' @ '' '' @ ''HTTP/1.1'') = Ok (''GET'', ''/'', ''HTTP/1.1'')
      \<and> parse_headers lines = Ok ((''Host'', trim auth) # filter (\<lambda>(n, _). \<not> dropped_header n) headers)"
  by (rule http_forward_head_clean [OF sample_head_parses]) (simp add: sample_request_def)

text \<open>Lines are split at CR LF only, and a value may hold a bare LF: a header hidden behind one stays in the forwarded head, where a
  server that ends lines at LF finds it.\<close>

definition smuggled_head :: string where
  "smuggled_head = ''GET http://a/ HTTP/1.1'' @ [CR, LF] @ ''X: 1'' @ [LF] @ ''Proxy-Authorization: k'' @ [CR, LF, CR, LF]"

lemma bare_lf_header_forwarded:
  "map_option (text_lines \<circ> rh_forwarded_head) (projr (parse_request_head (str_bytes smuggled_head) 100))
     = Some [''GET / HTTP/1.1'', ''Host: a'', ''X: 1'', ''Proxy-Authorization: k'', []]"
  by code_simp

end
