(* ===== verification/Quic_Packet.thy ===== *)
theory Quic_Packet
  imports Byte_Text
begin

text \<open>
  Packet framing of the QUIC engine (\<^verbatim>\<open>lib/mb-quic/src/packet.rs\<close>, \<^verbatim>\<open>lib.rs\<close>): variable-length integers, connection
  identifiers, truncated packet numbers, long and short headers. A \<^verbatim>\<open>u64\<close> is a natural number; the bit operations on it
  stay below 64 bits and are written as they are in the code.
\<close>

unbundle bit_operations_syntax

section \<open>Versions and errors\<close>

datatype QuicVersion = V1

definition to_u32 :: "QuicVersion \<Rightarrow> u32" where
  "to_u32 v = (case v of V1 \<Rightarrow> 1)"

definition version_from_u32 :: "u32 \<Rightarrow> QuicVersion option" where
  "version_from_u32 v = (if v = 1 then Some V1 else None)"

datatype QuicError =
    QShortBuffer
  | QMalformed string
  | QUnsupportedVersion u32
  | QCrypto string
  | QTls string
  | QTransport string

section \<open>Variable-length integers\<close>

definition VARINT_MAX :: nat where
  "VARINT_MAX = 2 ^ 62 - 1"

definition encode_varint :: "nat \<Rightarrow> bytes" where
  "encode_varint value =
     (if value < 2 ^ 6 then [of_nat value]
      else if value < 2 ^ 14 then be_bytes 2 (unat ((of_nat value :: u16) OR 0x4000))
      else if value < 2 ^ 30 then be_bytes 4 (unat ((of_nat value :: u32) OR 0x80000000))
      else be_bytes 8 (unat ((of_nat value :: 64 word) OR 0xc000000000000000)))"

definition varint_len :: "nat \<Rightarrow> nat" where
  "varint_len value =
     (if value < 2 ^ 6 then 1 else if value < 2 ^ 14 then 2 else if value < 2 ^ 30 then 4 else 8)"

text \<open>The loop over the bytes of a big-endian number, \<^verbatim>\<open>value = (value << 8) | b\<close>.\<close>

definition shift_in :: "bytes \<Rightarrow> nat \<Rightarrow> nat" where
  "shift_in bs v = fold (\<lambda>b v. push_bit 8 v OR unat b) bs v"

definition decode_varint :: "bytes \<Rightarrow> QuicError + nat \<times> nat" where
  "decode_varint buf =
     (case buf of
        [] \<Rightarrow> Err QShortBuffer
      | first # _ \<Rightarrow>
          let len = push_bit (unat (drop_bit 6 first)) 1
          in if length buf < len then Err QShortBuffer
             else Ok (shift_in (take (len - 1) (drop 1 buf)) (unat (first AND 0x3f)), len))"

text \<open>The idiom \<^verbatim>\<open>let (v, n) = decode_varint(&buf[off..])?; off += n\<close>.\<close>

definition read_varint :: "bytes \<Rightarrow> nat \<Rightarrow> QuicError + nat \<times> nat" where
  "read_varint buf off = res_bind (decode_varint (drop off buf)) (\<lambda>(v, n). Ok (v, off + n))"

section \<open>Connection identifiers\<close>

record ConnectionId =
  cid_bytes :: bytes
  cid_len :: nat

definition cid_new :: "bytes \<Rightarrow> QuicError + ConnectionId" where
  "cid_new src =
     (if length src > 20 then Err (QMalformed ''connection id > 20 bytes'')
      else Ok \<lparr>cid_bytes = src @ replicate (20 - length src) 0, cid_len = length src\<rparr>)"

text \<open>\<open>rnd\<close> stands for the bytes that the random generator writes into the buffer.\<close>

definition cid_random :: "(nat \<Rightarrow> bytes) \<Rightarrow> nat \<Rightarrow> ConnectionId" where
  "cid_random rnd len =
     (let len = min len 20 in \<lparr>cid_bytes = rnd len @ replicate (20 - len) 0, cid_len = len\<rparr>)"

definition cid_slice :: "ConnectionId \<Rightarrow> bytes" where
  "cid_slice c = take (cid_len c) (cid_bytes c)"

definition cid_default :: ConnectionId where
  "cid_default = \<lparr>cid_bytes = replicate 20 0, cid_len = 0\<rparr>"

text \<open>What the constructors establish: twenty bytes, zero behind the active ones.\<close>

definition cid_wf :: "ConnectionId \<Rightarrow> bool" where
  "cid_wf c \<longleftrightarrow> cid_len c \<le> 20 \<and> length (cid_bytes c) = 20 \<and> drop (cid_len c) (cid_bytes c) = replicate (20 - cid_len c) 0"

section \<open>Headers\<close>

datatype LongType = TInitial | THandshake | TZeroRtt | TRetry

definition type_bits :: "LongType \<Rightarrow> u8" where
  "type_bits t = (case t of TInitial \<Rightarrow> 0 | TZeroRtt \<Rightarrow> 1 | THandshake \<Rightarrow> 2 | TRetry \<Rightarrow> 3)"

definition from_bits :: "u8 \<Rightarrow> LongType" where
  "from_bits b =
     (let t = b AND 3 in if t = 0 then TInitial else if t = 1 then TZeroRtt else if t = 2 then THandshake else TRetry)"

record LongHeader =
  lh_ty :: LongType
  lh_version :: u32
  lh_dcid :: ConnectionId
  lh_scid :: ConnectionId
  lh_token :: bytes

definition write_long_header :: "LongHeader \<Rightarrow> u8 \<Rightarrow> bytes" where
  "write_long_header h first_byte_low =
     [0xc0 OR push_bit 4 (type_bits (lh_ty h)) OR (first_byte_low AND 0x0f)] @
     put_be32 (lh_version h) @
     [of_nat (cid_len (lh_dcid h))] @ cid_slice (lh_dcid h) @
     [of_nat (cid_len (lh_scid h))] @ cid_slice (lh_scid h) @
     (if lh_ty h = TInitial then encode_varint (length (lh_token h)) @ lh_token h else [])"

definition parse_long_header :: "bytes \<Rightarrow> QuicError + LongHeader \<times> u8 \<times> nat" where
  "parse_long_header buf =
     (case buf of
        [] \<Rightarrow> Err QShortBuffer
      | first # _ \<Rightarrow>
          if first AND 0x80 = 0 then Err (QMalformed ''not a long header'')
          else if length buf < 7 then Err QShortBuffer
          else
            let ty = from_bits (drop_bit 4 first);
                version = of_nat (be_val (slice buf 1 4));
                dcid_len = unat (buf ! 5)
            in if length buf < 6 + dcid_len + 1 then Err QShortBuffer
               else res_bind (cid_new (slice buf 6 dcid_len)) (\<lambda>dcid.
                 let off = 6 + dcid_len;
                     scid_len = unat (buf ! off);
                     off = off + 1
                 in if length buf < off + scid_len then Err QShortBuffer
                    else res_bind (cid_new (slice buf off scid_len)) (\<lambda>scid.
                      let off = off + scid_len
                      in if ty = TInitial then
                           res_bind (read_varint buf off) (\<lambda>(tlen, off).
                             if length buf < off + tlen then Err QShortBuffer
                             else Ok (\<lparr>lh_ty = ty, lh_version = version, lh_dcid = dcid, lh_scid = scid,
                                       lh_token = slice buf off tlen\<rparr>, first AND 0x0f, off + tlen))
                         else Ok (\<lparr>lh_ty = ty, lh_version = version, lh_dcid = dcid, lh_scid = scid, lh_token = []\<rparr>,
                                  first AND 0x0f, off))))"

definition parse_short_header_dcid :: "bytes \<Rightarrow> nat \<Rightarrow> QuicError + ConnectionId \<times> nat" where
  "parse_short_header_dcid buf dcid_len =
     (case buf of
        [] \<Rightarrow> Err QShortBuffer
      | first # _ \<Rightarrow>
          if first AND 0x80 \<noteq> 0 then Err (QMalformed ''not a short header'')
          else if length buf < 1 + dcid_len then Err QShortBuffer
          else res_bind (cid_new (slice buf 1 dcid_len)) (\<lambda>dcid. Ok (dcid, 1 + dcid_len)))"

section \<open>Packet numbers\<close>

definition encode_packet_number :: "nat \<Rightarrow> nat \<Rightarrow> bytes" where
  "encode_packet_number pn nbytes = drop (8 - nbytes) (be_bytes 8 pn)"

definition packet_number_len :: "nat \<Rightarrow> nat option \<Rightarrow> nat" where
  "packet_number_len pn largest_acked =
     (let range = (case largest_acked of Some acked \<Rightarrow> (pn - acked) * 2 + 1 | None \<Rightarrow> pn + 1)
      in if range < 2 ^ 8 then 1 else if range < 2 ^ 16 then 2 else if range < 2 ^ 24 then 3 else 4)"

text \<open>The mask \<^verbatim>\<open>expected & !pn_mask\<close> clears the low \<open>pn_nbits\<close> bits.\<close>

definition decode_packet_number :: "nat \<Rightarrow> nat \<Rightarrow> nat \<Rightarrow> nat" where
  "decode_packet_number largest_pn truncated pn_nbits =
     (let pn_win = 2 ^ pn_nbits;
          pn_hwin = pn_win div 2;
          expected = largest_pn + 1;
          candidate = push_bit pn_nbits (drop_bit pn_nbits expected) OR truncated
      in if candidate + pn_hwin \<le> expected \<and> candidate + pn_win < 2 ^ 62 then candidate + pn_win
         else if candidate > expected + pn_hwin \<and> candidate \<ge> pn_win then candidate - pn_win
         else candidate)"

section \<open>Facts on integers and bytes\<close>

lemma push_bit_or_nat: "m < 2 ^ k \<Longrightarrow> push_bit k n OR m = n * 2 ^ k + (m :: nat)"
proof -
  assume "m < 2 ^ k"
  then have "push_bit k n AND m = 0"
    by (metis take_bit_push_bit push_bit_of_0 cancel_comm_monoid_add_class.diff_cancel take_bit_0
        take_bit_nat_eq_self and.commute bit.conj_zero_right take_bit_eq_mask and.assoc)
  then show ?thesis by (metis disjunctive_add_eq_or push_bit_eq_mult)
qed

lemma le_val_append: "le_val (xs @ ys) = le_val xs + 256 ^ length xs * le_val ys"
  by (induction xs) (simp_all add: algebra_simps)

lemma be_val_Cons: "be_val (b # bs) = unat b * 256 ^ length bs + be_val bs"
  by (simp add: be_val_def le_val_append)

lemma le_bytes_snoc: "le_bytes (Suc k) x = le_bytes k x @ [of_nat (x div 256 ^ k)]"
  by (induction k arbitrary: x) (simp_all add: div_mult2_eq)

lemma be_bytes_Suc: "be_bytes (Suc k) x = of_nat (x div 256 ^ k) # be_bytes k x"
  by (simp only: be_bytes_def le_bytes_snoc) simp

lemma drop_be_bytes: "n \<le> k \<Longrightarrow> drop (k - n) (be_bytes k x) = be_bytes n x"
proof (induction k)
  case (Suc k)
  then show ?case by (cases "n = Suc k") (simp_all add: be_bytes_Suc Suc_diff_le)
qed simp

lemma shift_in_eq: "shift_in bs v = v * 256 ^ length bs + be_val bs"
proof (induction bs arbitrary: v)
  case Nil
  then show ?case by (simp add: shift_in_def be_val_def)
next
  case (Cons b bs)
  with push_bit_or_nat [of "unat b" 8 v] unat_u8_less [of b] show ?case
    by (simp add: shift_in_def be_val_Cons algebra_simps)
qed

lemma digits_less: "a < k \<Longrightarrow> b < p \<Longrightarrow> a * p + b < k * (p :: nat)"
proof -
  assume "a < k" "b < p"
  then have "a * p + b < Suc a * p" "Suc a * p \<le> k * p" by (simp, intro mult_le_mono1) simp
  then show ?thesis by linarith
qed

lemma decode_tagged:
  assumes "w = t * (64 * 256 ^ k) + v" "v < 64 * 256 ^ k" "t < 4" "2 ^ t = Suc k"
  shows "decode_varint (be_bytes (Suc k) w @ rest) = Ok (v, Suc k)"
proof -
  let ?f = "w div 256 ^ k"
  have "?f = t * 64 + v div 256 ^ k" by (simp add: assms(1) flip: mult.assoc)
  moreover have "v div 256 ^ k < 64" using assms(2) by (simp add: less_mult_imp_div_less)
  ultimately have f: "?f div 64 = t" "?f mod 64 = v div 256 ^ k" "?f < 256" using assms(3) by simp_all
  then have uf: "unat (of_nat ?f :: u8) = ?f" by (simp only: unat_u8_of_nat mod_less)
  have hi: "unat (drop_bit 6 (of_nat ?f :: u8)) = t"
    by (simp only: unat_drop_bit_eq uf) (simp add: f drop_bit_eq_div)
  have lo: "unat ((of_nat ?f :: u8) AND 0x3f) = v div 256 ^ k"
  proof -
    have "unat ((of_nat ?f :: u8) AND 0x3f) = ?f AND mask 6"
      by (simp only: unsigned_and_eq uf) (simp add: mask_eq_exp_minus_1)
    then show ?thesis by (simp only: take_bit_eq_mask [symmetric] take_bit_eq_mod) (simp add: f)
  qed
  have "w mod 256 ^ k = v mod 256 ^ k" by (simp add: assms(1) mod_mult_self3 flip: mult.assoc)
  moreover have "v div 256 ^ k * 256 ^ k + v mod 256 ^ k = v" by (rule div_mult_mod_eq)
  ultimately show ?thesis
    by (simp add: decode_varint_def be_bytes_Suc hi lo Let_def push_bit_eq_mult assms(4) shift_in_eq)
qed

lemma unat_or_tag:
  assumes "v < 2 ^ n" "n + 2 = LENGTH('a :: len)" "t < 4"
  shows "unat ((of_nat v :: 'a word) OR of_nat (t * 2 ^ n)) = t * 2 ^ n + v"
proof -
  have "(2 :: nat) ^ LENGTH('a) = 4 * 2 ^ n" using assms(2) [symmetric] by (simp add: power_add)
  moreover have "t * 2 ^ n \<le> 3 * 2 ^ n" using assms(3) by simp
  ultimately have "v < 2 ^ LENGTH('a)" "t * 2 ^ n < 2 ^ LENGTH('a)" using assms(1) by linarith+
  then have "unat (of_nat v :: 'a word) = v" "unat (of_nat (t * 2 ^ n) :: 'a word) = t * 2 ^ n"
    by (simp_all only: of_nat_inverse [OF refl])
  then have "unat ((of_nat v :: 'a word) OR of_nat (t * 2 ^ n)) = v OR t * 2 ^ n"
    by (simp only: unsigned_or_eq)
  also have "\<dots> = push_bit n t OR v" by (simp add: push_bit_eq_mult or.commute)
  finally show ?thesis using push_bit_or_nat [OF assms(1)] by simp
qed

section \<open>Round trips of integers and identifiers\<close>

lemma length_encode_varint: "length (encode_varint v) = varint_len v"
  by (simp add: encode_varint_def varint_len_def)

lemma decode_encode_varint:
  assumes "v \<le> VARINT_MAX"
  shows "decode_varint (encode_varint v @ rest) = Ok (v, length (encode_varint v))"
proof -
  consider "v < 2 ^ 6" | "2 ^ 6 \<le> v" "v < 2 ^ 14" | "2 ^ 14 \<le> v" "v < 2 ^ 30" | "2 ^ 30 \<le> v" "v < 2 ^ 62"
    using assms by (auto simp: VARINT_MAX_def) linarith
  then show ?thesis
  proof cases
    case 1
    with decode_tagged [of v 0 0 v rest] show ?thesis by (simp add: encode_varint_def be_bytes_def)
  next
    case 2
    with unat_or_tag [where 'a = 16, of v 14 1] decode_tagged [of "16384 + v" 1 1 v rest] show ?thesis
      by (simp add: encode_varint_def flip: numeral_2_eq_2)
  next
    case 3
    with unat_or_tag [where 'a = 32, of v 30 2] decode_tagged [of "2147483648 + v" 2 3 v rest] show ?thesis
      by (simp add: encode_varint_def)
  next
    case 4
    with unat_or_tag [where 'a = 64, of v 62 3] decode_tagged [of "13835058055282163712 + v" 3 7 v rest] show ?thesis
      by (simp add: encode_varint_def)
  qed
qed

lemma decode_varint_parts:
  assumes "decode_varint buf = Ok (v, n)"
  shows "0 < n" "n \<le> length buf" "n \<le> 8" "v \<le> VARINT_MAX"
proof -
  from assms obtain f r where buf: "buf = f # r" by (auto simp: decode_varint_def split: list.splits)
  let ?t = "unat (drop_bit 6 f)"
  have n: "n = 2 ^ ?t" "n \<le> length buf" and v: "v = shift_in (take (n - 1) r) (unat (f AND 0x3f))"
    using assms by (auto simp: decode_varint_def buf Let_def push_bit_eq_mult split: if_splits)
  have "?t = unat f div 64" by (simp only: unat_drop_bit_eq) (simp add: drop_bit_eq_div)
  then have "?t < 4" using unat_u8_less [of f] by (simp add: less_mult_imp_div_less)
  then have t: "?t \<in> {0, 1, 2, 3}" by auto
  show "0 < n" "n \<le> length buf" using n by simp_all
  show "n \<le> 8" using t n by auto
  have "unat (f AND 0x3f) = unat f AND mask 6" by (simp add: unsigned_and_eq mask_eq_exp_minus_1)
  then have "unat (f AND 0x3f) < 64" by (simp only: take_bit_eq_mask [symmetric] take_bit_eq_mod) simp
  moreover have "length (take (n - 1) r) = n - 1" using n buf by simp
  ultimately have "v < 64 * 256 ^ (n - 1)"
    using be_val_bound [of "take (n - 1) r"] unfolding v shift_in_eq by (simp only: digits_less)
  also have "\<dots> \<le> 64 * 256 ^ 7" using \<open>n \<le> 8\<close> by (intro mult_le_mono2 power_increasing) simp_all
  finally show "v \<le> VARINT_MAX" by (simp add: VARINT_MAX_def)
qed

interpretation varint: positional_codec encode_varint read_varint "\<lambda>v. v \<le> VARINT_MAX"
  by unfold_locales (simp add: read_varint_def decode_encode_varint)

lemma read_varint_at:
  "buf = pre @ encode_varint v @ post \<Longrightarrow> v \<le> VARINT_MAX \<Longrightarrow> p = length pre \<Longrightarrow>
     read_varint buf p = Ok (v, p + length (encode_varint v))"
  by (simp add: varint.dec_enc)

lemma read_varint_bounds:
  assumes "read_varint buf off = Ok (v, off')"
  shows "off < off'" "off' \<le> length buf" "off' \<le> off + 8" "v \<le> VARINT_MAX"
  using assms decode_varint_parts [of "drop off buf" v "off' - off"]
  by (auto simp: read_varint_def result_simps)

lemma read_varint_moves:
  "read_varint buf off = Ok (v, off') \<Longrightarrow> off < off' \<and> off' \<le> length buf \<and> v \<le> VARINT_MAX"
  using read_varint_bounds by blast

lemma cid_new_wf: "cid_new src = Ok c \<Longrightarrow> cid_wf c \<and> cid_slice c = src \<and> cid_len c = length src"
  by (auto simp: cid_new_def cid_wf_def cid_slice_def split: if_splits)

lemma cid_new_slice: "cid_wf c \<Longrightarrow> cid_new (cid_slice c) = Ok (c :: ConnectionId)"
proof -
  assume wf: "cid_wf c"
  then have "length (cid_slice c) = cid_len c" by (simp add: cid_wf_def cid_slice_def)
  moreover have "cid_slice c @ replicate (20 - cid_len c) 0 = cid_bytes c"
    using wf by (metis append_take_drop_id cid_slice_def cid_wf_def)
  ultimately show ?thesis using wf by (simp add: cid_new_def cid_wf_def)
qed

lemma length_cid_slice: "cid_wf c \<Longrightarrow> length (cid_slice c) = cid_len c"
  by (simp add: cid_wf_def cid_slice_def)

lemma cid_default_wf: "cid_wf cid_default"
  by (simp add: cid_wf_def cid_default_def)

lemma cid_random_wf: "length (rnd (min n 20)) = min n 20 \<Longrightarrow> cid_wf (cid_random rnd n)"
  by (simp add: cid_wf_def cid_random_def Let_def)

section \<open>Packet numbers survive truncation\<close>

lemma encode_packet_number_eq: "n \<le> 8 \<Longrightarrow> encode_packet_number pn n = be_bytes n pn"
  by (simp add: encode_packet_number_def drop_be_bytes)

lemma window_unique:
  fixes A Q H e t W :: nat
  assumes "W = 2 * H" "t < W" "A \<le> e" "e < A + W" "e < Q + t + H" "Q + t \<le> e + H"
    and "Q = A \<or> Q = A + W \<or> Q + W = A \<or> A + 2 * W \<le> Q \<or> Q + 2 * W \<le> A"
    and "Q + t < M"
  shows "(if A + t + H \<le> e \<and> A + t + W < M then A + t + W
        else if A + t > e + H \<and> A + t \<ge> W then A + t - W else A + t) = Q + t"
proof -
  from assms(7) consider "Q = A" | "Q = A + W" | "Q + W = A"
    using assms(1-6) by (elim disjE) linarith+
  then show ?thesis
  proof cases
    case 1
    then show ?thesis using assms(1-6,8) by simp
  next
    case 2
    then show ?thesis using assms(1-6,8) by simp
  next
    case 3
    then have "\<not> A + t + H \<le> e" "A + t > e + H" "A + t \<ge> W" using assms(1-6) by linarith+
    then show ?thesis using 3 by (simp add: if_P)
  qed
qed

lemma multiples_apart:
  "q * W = a * W \<or> q * W = a * W + W \<or> q * W + W = a * W \<or> a * W + 2 * W \<le> q * W \<or> q * W + 2 * W \<le> a * (W :: nat)"
proof -
  consider "q = a" | "q = Suc a" | "a = Suc q" | "a + 2 \<le> q" | "q + 2 \<le> a" by linarith
  then show ?thesis
  proof cases
    case 4
    then show ?thesis using mult_le_mono1 [of "a + 2" q W] by (simp add: algebra_simps)
  next
    case 5
    then show ?thesis using mult_le_mono1 [of "q + 2" a W] by (simp add: algebra_simps)
  qed simp_all
qed

lemma decode_packet_number_window:
  assumes "0 < n" "largest + 1 < pn + 2 ^ (n - 1)" "pn \<le> largest + 1 + 2 ^ (n - 1)" "pn < 2 ^ 62"
  shows "decode_packet_number largest (pn mod 2 ^ n) n = pn"
proof -
  define W :: nat where "W = 2 ^ n"
  define H :: nat where "H = 2 ^ (n - 1)"
  define e where "e = largest + 1"
  define t where "t = pn mod W"
  have W: "W = 2 * H" "0 < H" using assms(1) by (simp_all add: W_def H_def flip: power_Suc)
  have t: "t < W" using W by (simp add: t_def)
  have cand: "push_bit n (drop_bit n e) OR t = e div W * W + t"
    using t by (simp add: push_bit_or_nat W_def drop_bit_eq_div)
  have pn: "pn div W * W + t = pn" by (simp add: t_def)
  have e: "e div W * W \<le> e" "e < e div W * W + W" using div_mult_mod_eq [of e W] mod_less_divisor [of W e] W by linarith+
  have "e < pn div W * W + t + H" "pn div W * W + t \<le> e + H" using assms by (simp_all only: pn) (simp_all add: e_def H_def)
  from window_unique [OF W(1) t e this multiples_apart, of "2 ^ 62"] have
    "(if e div W * W + t + H \<le> e \<and> e div W * W + t + W < 2 ^ 62 then e div W * W + t + W
      else if e div W * W + t > e + H \<and> e div W * W + t \<ge> W then e div W * W + t - W else e div W * W + t) = pn"
    unfolding pn using assms(4) by blast
  moreover have "W div 2 = H" using W by simp
  ultimately show ?thesis
    unfolding decode_packet_number_def Let_def by (simp only: W_def [symmetric] e_def [symmetric] t_def [symmetric] cand)
qed

lemma decode_packet_number_first_window:
  assumes "0 < n" "pn < 2 ^ n" "largest + 1 < pn + 2 ^ (n - 1)"
  shows "decode_packet_number largest pn n = pn"
proof -
  define W :: nat where "W = 2 ^ n"
  define H :: nat where "H = 2 ^ (n - 1)"
  define e where "e = largest + 1"
  have W: "W = 2 * H" "0 < H" using assms(1) by (simp_all add: W_def H_def flip: power_Suc)
  then have H: "W div 2 = H" by simp
  have pn: "pn < W" "e < pn + H" using assms(2,3) by (simp_all add: W_def e_def H_def)
  have cand: "push_bit n (drop_bit n e) OR pn = e div W * W + pn"
    using assms(2) by (simp add: push_bit_or_nat W_def drop_bit_eq_div)
  have "e < 2 * W" using pn W by linarith
  then have "e div W < 2" by (rule less_mult_imp_div_less)
  then consider "e div W = 0" | "e div W = 1" by linarith
  then have "decode_packet_number largest pn n =
      (if e div W * W + pn + H \<le> e \<and> e div W * W + pn + W < 2 ^ 62 then e div W * W + pn + W
       else if e div W * W + pn > e + H \<and> e div W * W + pn \<ge> W then e div W * W + pn - W else e div W * W + pn)"
    unfolding decode_packet_number_def Let_def
    by (simp only: W_def [symmetric] e_def [symmetric] cand H)
  also have "\<dots> = pn"
    using \<open>e div W < 2\<close> pn W by (cases "e div W = 0") (simp_all add: less_2_cases_iff)
  finally show ?thesis .
qed

text \<open>The length that \<^verbatim>\<open>protect\<close> uses leaves the receiver no choice, as long as the packet is not older than half a
  window.\<close>

lemma packet_number_recovered:
  assumes "k = max (packet_number_len pn None) 2" "largest + 1 < pn + 2 ^ 15" "pn \<le> largest + 1 + 2 ^ 31" "pn < 2 ^ 62"
  shows "decode_packet_number largest (be_val (encode_packet_number pn k)) (k * 8) = pn"
proof -
  have k: "2 \<le> k" "k \<le> 4" using assms(1) by (simp_all add: packet_number_len_def Let_def)
  then have val: "be_val (encode_packet_number pn k) = pn mod 2 ^ (k * 8)"
    using power_mult [of "2 :: nat" 8 k] by (simp add: encode_packet_number_eq mult.commute)
  have "(2 :: nat) ^ 15 \<le> 2 ^ (k * 8 - 1)" using k by (intro power_increasing) simp_all
  then have lo: "largest + 1 < pn + 2 ^ (k * 8 - 1)" using assms(2) by linarith
  show ?thesis
  proof (cases "k = 4")
    case True
    then show ?thesis unfolding val using decode_packet_number_window [of "k * 8" largest pn] lo assms(3,4) by simp
  next
    case False
    then have "pn < 2 ^ (k * 8)"
      using assms(1) k by (auto simp: packet_number_len_def Let_def split: if_splits)
    then show ?thesis using decode_packet_number_first_window [of "k * 8" pn largest] lo k by (simp add: val)
  qed
qed

section \<open>Headers are read back\<close>

definition header_good :: "LongHeader \<Rightarrow> bool" where
  "header_good h \<longleftrightarrow> cid_wf (lh_dcid h) \<and> cid_wf (lh_scid h) \<and> length (lh_token h) \<le> VARINT_MAX
     \<and> (lh_ty h = TInitial \<or> lh_token h = [])"

lemma first_byte_bits:
  defines "b t low \<equiv> 0xc0 OR push_bit 4 (type_bits t) OR (low AND 0x0f)"
  shows "b t low AND 0x80 = 0x80" "b t low AND 0x40 = 0x40" "from_bits (drop_bit 4 (b t low)) = t" "b t low AND 0x0f = low AND 0x0f"
proof -
  have z: "drop_bit 4 (low AND (0x0f :: u8)) = 0" by (simp only: drop_bit_and) simp
  show "b t low AND 0x80 = 0x80" "b t low AND 0x40 = 0x40" "b t low AND 0x0f = low AND 0x0f"
    by (cases t; simp add: b_def type_bits_def bit.conj_disj_distrib2 and.assoc)+
  show "from_bits (drop_bit 4 (b t low)) = t"
    by (cases t; simp add: b_def type_bits_def from_bits_def Let_def drop_bit_or z)
qed

lemma nth_at: "buf = pre @ x # post \<Longrightarrow> p = length pre \<Longrightarrow> buf ! p = x"
  by simp

lemma slice_position: "buf = pre @ xs @ post \<Longrightarrow> p = length pre \<Longrightarrow> k = length xs \<Longrightarrow> slice buf p k = xs"
  by simp

lemma unat_cid_len: "cid_wf c \<Longrightarrow> unat (of_nat (cid_len c) :: u8) = length (cid_slice c)"
  by (simp add: cid_wf_def cid_slice_def unat_u8_of_nat)

lemma read_token:
  assumes "buf = pre @ (encode_varint (length tok) @ tok) @ rest" "length tok \<le> VARINT_MAX" "p = length pre"
    and "q = length pre + length (encode_varint (length tok))"
  shows "read_varint buf p = Ok (length tok, q)" "slice buf q (length tok) = tok" "q + length tok \<le> length buf"
  using assms slice_position [of buf "pre @ encode_varint (length tok)" tok rest q "length tok"]
    read_varint_at [of buf pre "length tok" "tok @ rest" p] by simp_all

lemma parse_write_long_header:
  assumes "header_good h"
  shows "parse_long_header (write_long_header h low @ rest) = Ok (h, low AND 0x0f, length (write_long_header h low))"
proof -
  define f where "f = 0xc0 OR push_bit 4 (type_bits (lh_ty h)) OR (low AND 0x0f)"
  let ?d = "cid_slice (lh_dcid h)" and ?s = "cid_slice (lh_scid h)" and ?v = "put_be32 (lh_version h)"
  let ?ld = "of_nat (cid_len (lh_dcid h)) :: u8" and ?ls = "of_nat (cid_len (lh_scid h)) :: u8"
  define tok where "tok = (if lh_ty h = TInitial then encode_varint (length (lh_token h)) @ lh_token h else [])"
  define buf where "buf = write_long_header h low @ rest"
  have out: "write_long_header h low = f # ?v @ ?ld # ?d @ ?ls # ?s @ tok" by (simp add: write_long_header_def f_def tok_def)
  then have buf: "buf = f # ?v @ ?ld # ?d @ ?ls # ?s @ tok @ rest" by (simp add: buf_def)
  have wf: "cid_wf (lh_dcid h)" "cid_wf (lh_scid h)" using assms by (simp_all add: header_good_def)
  have ver: "slice buf (Suc 0) 4 = ?v" by (rule slice_position [of buf "[f]" ?v]) (simp_all add: buf)
  have "buf ! 5 = ?ld" by (rule nth_at [of buf "f # ?v" ?ld]) (simp_all add: buf)
  then have ld: "unat (buf ! 5) = length ?d" by (simp only: unat_cid_len wf)
  have d: "slice buf 6 (length ?d) = ?d" by (rule slice_position [of buf "f # ?v @ [?ld]" ?d]) (simp_all add: buf)
  have "buf ! (6 + length ?d) = ?ls" by (rule nth_at [of buf "f # ?v @ ?ld # ?d" ?ls]) (simp_all add: buf)
  then have ls: "unat (buf ! (6 + length ?d)) = length ?s" by (simp only: unat_cid_len wf)
  have s: "slice buf (7 + length ?d) (length ?s) = ?s"
    by (rule slice_position [of buf "f # ?v @ ?ld # ?d @ [?ls]" ?s]) (simp_all add: buf)
  have len: "length buf = 7 + length ?d + length ?s + length tok + length rest" by (simp add: buf)
  have hd: "(case buf of [] \<Rightarrow> X | first # _ \<Rightarrow> Y first) = Y f" for X and Y :: "u8 \<Rightarrow> 'z" by (simp add: buf)
  have bits: "f AND 0x80 = 0x80" "from_bits (drop_bit 4 f) = lh_ty h" "f AND 0x0f = low AND 0x0f"
    unfolding f_def by (rule first_byte_bits)+
  note rules = bits ver ld d ls s cid_new_slice [OF wf(1)] cid_new_slice [OF wf(2)] Let_def
  show ?thesis
  proof (cases "lh_ty h = TInitial")
    case True
    let ?q = "7 + length ?d + length ?s + length (encode_varint (length (lh_token h)))"
    have "buf = (f # ?v @ ?ld # ?d @ ?ls # ?s) @ (encode_varint (length (lh_token h)) @ lh_token h) @ rest"
      using True by (simp add: buf tok_def)
    from read_token [OF this, of "7 + length ?d + length ?s" ?q] assms
    have "read_varint buf (7 + length ?d + length ?s) = Ok (length (lh_token h), ?q)"
      "slice buf ?q (length (lh_token h)) = lh_token h" "?q + length (lh_token h) \<le> length buf"
      by (simp_all add: header_good_def)
    with True show ?thesis
      unfolding buf_def [symmetric] parse_long_header_def hd by (simp add: rules len out tok_def)
  next
    case False
    with assms show ?thesis
      unfolding buf_def [symmetric] parse_long_header_def hd by (simp add: rules len out tok_def header_good_def)
  qed
qed

lemma parse_long_header_bounds:
  assumes "parse_long_header buf = Ok (h, low, off)"
  shows "7 \<le> off" "off \<le> length buf" "cid_wf (lh_dcid h)" "cid_wf (lh_scid h)"
proof -
  have "7 \<le> off \<and> off \<le> length buf \<and> cid_wf (lh_dcid h) \<and> cid_wf (lh_scid h)"
    using assms
    by (auto simp: parse_long_header_def Let_def result_simps dest!: cid_new_wf read_varint_bounds(1)
        split: list.splits if_splits)
  then show "7 \<le> off" "off \<le> length buf" "cid_wf (lh_dcid h)" "cid_wf (lh_scid h)" by simp_all
qed

lemma parse_short_header_parts:
  "parse_short_header_dcid buf n = Ok (c, off) \<Longrightarrow> off = 1 + n \<and> off \<le> length buf \<and> cid_wf c"
  by (auto simp: parse_short_header_dcid_def result_simps dest!: cid_new_wf split: list.splits if_splits)

end
