(* ===== verification/Quic_Crypto.thy ===== *)
theory Quic_Crypto
  imports Quic_Packet
begin

text \<open>
  Packet protection of the QUIC engine (\<^verbatim>\<open>lib/mb-quic/src/crypto.rs\<close> and the cryptographic parts of
  \<^verbatim>\<open>lib/mb-quic/src/conn.rs\<close>): the derivation of the Initial keys, nonces, sealing with header protection and its removal. The
  primitives of \<^verbatim>\<open>ring\<close> and \<^verbatim>\<open>rustls\<close> are the fields of the record \<open>Primitives\<close>; what the engine relies on is
  \<open>primitives_ok\<close>. A protected packet is opened to the number and the payload that were sealed.
\<close>

section \<open>The primitives\<close>

text \<open>\<^verbatim>\<open>hkdf\<close> extraction and expansion, the AEAD of \<^verbatim>\<open>ring\<close> and its header mask, and the directional keys of
  \<^verbatim>\<open>rustls\<close> with the same three operations. \<open>None\<close> is the error result.\<close>

record 'k Primitives =
  hkdf_extract :: "bytes \<Rightarrow> bytes \<Rightarrow> bytes"
  hkdf_expand :: "bytes \<Rightarrow> bytes \<Rightarrow> nat \<Rightarrow> bytes"
  aead_seal :: "bytes \<Rightarrow> bytes \<Rightarrow> bytes \<Rightarrow> bytes \<Rightarrow> bytes option"
  aead_open :: "bytes \<Rightarrow> bytes \<Rightarrow> bytes \<Rightarrow> bytes \<Rightarrow> bytes option"
  hp_mask :: "bytes \<Rightarrow> bytes \<Rightarrow> bytes option"
  rustls_seal :: "'k \<Rightarrow> nat \<Rightarrow> bytes \<Rightarrow> bytes \<Rightarrow> bytes option"
  rustls_open :: "'k \<Rightarrow> nat \<Rightarrow> bytes \<Rightarrow> bytes \<Rightarrow> bytes option"
  rustls_mask :: "'k \<Rightarrow> bytes \<Rightarrow> bytes option"

definition AEAD_TAG_LEN :: nat where
  "AEAD_TAG_LEN = 16"

text \<open>What their documentation promises: opening inverts sealing, the tag has sixteen bytes, a sample of sixteen bytes
  gives a mask of five.\<close>

definition primitives_ok :: "'k Primitives \<Rightarrow> bool" where
  "primitives_ok X \<longleftrightarrow>
     (\<forall>k n a p c. aead_seal X k n a p = Some c \<longrightarrow> length c = length p + AEAD_TAG_LEN \<and> aead_open X k n a c = Some p) \<and>
     (\<forall>k n a p c. rustls_seal X k n a p = Some c \<longrightarrow> length c = length p + AEAD_TAG_LEN \<and> rustls_open X k n a c = Some p) \<and>
     (\<forall>k s m. hp_mask X k s = Some m \<longrightarrow> length m = 5) \<and> (\<forall>k s m. rustls_mask X k s = Some m \<longrightarrow> length m = 5)"

section \<open>Initial keys\<close>

definition INITIAL_SALT_V1 :: bytes where
  "INITIAL_SALT_V1 =
     [0x38, 0x76, 0x2c, 0xf7, 0xf5, 0x59, 0x34, 0xb3, 0x4d, 0x17, 0x9a, 0xe6, 0xa4, 0xc8, 0x0c, 0xad,
      0xcc, 0xbb, 0x7f, 0x0a]"

definition hkdf_label_info :: "string \<Rightarrow> nat \<Rightarrow> bytes" where
  "hkdf_label_info label out_len =
     put_be16 (of_nat out_len) @ [of_nat (6 + length label)] @ str_bytes ''tls13 '' @ str_bytes label @ [0]"

definition hkdf_expand_label :: "'k Primitives \<Rightarrow> bytes \<Rightarrow> string \<Rightarrow> nat \<Rightarrow> bytes" where
  "hkdf_expand_label X prk label out_len = hkdf_expand X prk (hkdf_label_info label out_len) out_len"

definition initial_secret :: "'k Primitives \<Rightarrow> bytes \<Rightarrow> bool \<Rightarrow> QuicVersion \<Rightarrow> bytes" where
  "initial_secret X dcid is_client version =
     (let salt = (case version of V1 \<Rightarrow> INITIAL_SALT_V1);
          prk = hkdf_extract X salt dcid;
          label = (if is_client then ''client in'' else ''server in'')
      in hkdf_expand_label X prk label 32)"

record PacketKeys =
  pk_aead :: bytes
  pk_iv :: bytes
  pk_hp :: bytes

definition from_initial_secret :: "'k Primitives \<Rightarrow> bytes \<Rightarrow> PacketKeys" where
  "from_initial_secret X secret =
     \<lparr>pk_aead = hkdf_expand_label X secret ''quic key'' 16,
      pk_iv = hkdf_expand_label X secret ''quic iv'' 12,
      pk_hp = hkdf_expand_label X secret ''quic hp'' 16\<rparr>"

definition quic_nonce :: "PacketKeys \<Rightarrow> nat \<Rightarrow> bytes" where
  "quic_nonce k pn = take 4 (pk_iv k) @ map2 (XOR) (drop 4 (pk_iv k)) (be_bytes 8 pn)"

section \<open>Keys of one direction\<close>

datatype 'k PktCrypto = NativeKeys PacketKeys | RustlsKeys 'k

definition pkt_seal :: "'k Primitives \<Rightarrow> 'k PktCrypto \<Rightarrow> nat \<Rightarrow> bytes \<Rightarrow> bytes \<Rightarrow> QuicError + bytes" where
  "pkt_seal X c pn header payload =
     (case c of
        NativeKeys k \<Rightarrow> ok_or (aead_seal X (pk_aead k) (quic_nonce k pn) header payload) (QCrypto ''aead seal'')
      | RustlsKeys k \<Rightarrow> ok_or (rustls_seal X k pn header payload) (QCrypto ''rustls aead seal''))"

definition pkt_open :: "'k Primitives \<Rightarrow> 'k PktCrypto \<Rightarrow> nat \<Rightarrow> bytes \<Rightarrow> bytes \<Rightarrow> QuicError + bytes" where
  "pkt_open X c pn header payload =
     (case c of
        NativeKeys k \<Rightarrow> ok_or (aead_open X (pk_aead k) (quic_nonce k pn) header payload) (QCrypto ''aead open'')
      | RustlsKeys k \<Rightarrow> ok_or (rustls_open X k pn header payload) (QCrypto ''rustls aead open''))"

definition header_mask :: "'k Primitives \<Rightarrow> 'k PktCrypto \<Rightarrow> bytes \<Rightarrow> QuicError + bytes" where
  "header_mask X c sample =
     (case c of
        NativeKeys k \<Rightarrow>
          if length sample < 16 then Err (QCrypto ''hp sample too short'')
          else ok_or (hp_mask X (pk_hp k) (take 16 sample)) (QCrypto ''hp mask'')
      | RustlsKeys k \<Rightarrow> ok_or (rustls_mask X k sample) (QCrypto ''rustls hp mask''))"

section \<open>Protecting and opening a packet\<close>

text \<open>The loop \<^verbatim>\<open>for i in 0..n { buf[off + i] ^= mask[i] }\<close>.\<close>

definition xor_at :: "nat \<Rightarrow> bytes \<Rightarrow> bytes \<Rightarrow> bytes" where
  "xor_at off ms buf = take off buf @ map2 (XOR) (slice buf off (length ms)) ms @ drop (off + length ms) buf"

definition form_mask :: "u8 \<Rightarrow> u8" where
  "form_mask first = (if first AND 0x80 \<noteq> 0 then 0x0f else 0x1f)"

text \<open>The end of \<^verbatim>\<open>protect\<close>: \<open>out\<close> is the header up to the packet number. \<open>None\<close> is a panic: the two calls of
  \<^verbatim>\<open>expect\<close>, and a packet that is too short for the sample.\<close>

definition seal_packet :: "'k Primitives \<Rightarrow> 'k PktCrypto \<Rightarrow> bytes \<Rightarrow> nat \<Rightarrow> nat \<Rightarrow> bytes \<Rightarrow> bytes option" where
  "seal_packet X tx out pn pn_len body =
     (let pn_off = length out;
          header = out @ encode_packet_number pn pn_len
      in case pkt_seal X tx pn header body of
           Inl _ \<Rightarrow> None
         | Inr sealed \<Rightarrow>
             let out = header @ sealed;
                 sample_off = pn_off + 4
             in if sample_off + 16 > length out then None
                else case header_mask X tx (slice out sample_off 16) of
                       Inl _ \<Rightarrow> None
                     | Inr msk \<Rightarrow>
                         let out = out[0 := (out ! 0) XOR (msk ! 0 AND form_mask (out ! 0))]
                         in Some (xor_at pn_off (slice msk 1 pn_len) out))"

text \<open>The first half of \<^verbatim>\<open>decrypt_and_handle\<close>, up to the decrypted payload.\<close>

definition open_packet :: "'k Primitives \<Rightarrow> 'k PktCrypto \<Rightarrow> nat option \<Rightarrow> bytes \<Rightarrow> nat \<Rightarrow> QuicError + nat \<times> bytes" where
  "open_packet X rx largest_recv pkt pn_off =
     (let sample_off = pn_off + 4
      in if sample_off + 16 > length pkt then Err QShortBuffer
         else res_bind (header_mask X rx (slice pkt sample_off 16)) (\<lambda>msk.
           let pkt = pkt[0 := (pkt ! 0) XOR (msk ! 0 AND form_mask (pkt ! 0))];
               pn_len = unat (pkt ! 0 AND 0x03) + 1;
               pkt = xor_at pn_off (slice msk 1 pn_len) pkt;
               truncated = shift_in (slice pkt pn_off pn_len) 0;
               largest = (case largest_recv of None \<Rightarrow> 0 | Some l \<Rightarrow> l);
               pn = decode_packet_number largest truncated (pn_len * 8);
               header = take (pn_off + pn_len) pkt;
               payload = drop (pn_off + pn_len) pkt
           in res_bind (pkt_open X rx pn header payload) (\<lambda>pt. Ok (pn, pt))))"

section \<open>Nonces\<close>

lemma map2_xor_twice: "length ms \<le> length xs \<Longrightarrow> length xs \<le> length ms \<Longrightarrow> map2 (XOR) (map2 (XOR) xs ms) ms = (xs :: bytes)"
proof (induction xs arbitrary: ms)
  case (Cons x xs)
  then show ?case by (cases ms) (simp_all add: xor.assoc)
qed simp

lemma map2_xor_commute: "map2 (XOR) xs ys = map2 (XOR) ys (xs :: bytes)"
  by (induction xs ys rule: list_induct2') (simp_all add: xor.commute)

lemma map2_xor_inj:
  assumes "length xs = length ys" "length xs = length zs" "map2 (XOR) xs ys = map2 (XOR) xs zs"
  shows "ys = (zs :: bytes)"
proof -
  have "ys = map2 (XOR) (map2 (XOR) ys xs) xs" using assms by (simp add: map2_xor_twice)
  also have "map2 (XOR) ys xs = map2 (XOR) zs xs" using assms(3) by (simp add: map2_xor_commute [of _ xs])
  also have "map2 (XOR) (map2 (XOR) zs xs) xs = zs" using assms by (simp add: map2_xor_twice)
  finally show ?thesis .
qed

text \<open>No nonce is used twice under one key: packet numbers below \<open>2 ^ 64\<close> give different nonces.\<close>

lemma quic_nonce_inj:
  assumes "length (pk_iv k) = 12" "pn < 2 ^ 64" "pn' < 2 ^ 64" "quic_nonce k pn = quic_nonce k pn'"
  shows "pn = pn'"
proof -
  have "map2 (XOR) (drop 4 (pk_iv k)) (be_bytes 8 pn) = map2 (XOR) (drop 4 (pk_iv k)) (be_bytes 8 pn')"
    using assms(1,4) by (simp add: quic_nonce_def)
  then have "be_bytes 8 pn = be_bytes 8 pn'" using assms(1) map2_xor_inj [of "drop 4 (pk_iv k)"] by simp
  then have "be_val (be_bytes 8 pn) = be_val (be_bytes 8 pn')" by simp
  with assms(2,3) show ?thesis by simp
qed

section \<open>A protected packet is opened\<close>

lemma xor_at_append:
  "length ms = length xs \<Longrightarrow> p = length pre \<Longrightarrow> xor_at p ms (pre @ xs @ post) = pre @ map2 (XOR) xs ms @ post"
  by (simp add: xor_at_def slice_def)

lemma byte_cases: "(n :: nat) < 8 \<Longrightarrow> n = 0 \<or> n = 1 \<or> n = 2 \<or> n = 3 \<or> n = 4 \<or> n = 5 \<or> n = 6 \<or> n = 7"
  by linarith

lemma form_mask_xor: "form_mask (f XOR (m AND form_mask f)) = form_mask f"
proof -
  have "(f XOR (m AND c)) AND 0x80 = f AND 0x80" if "c AND 0x80 = 0" for c
    using that by (simp add: bit.conj_xor_distrib2 and.assoc)
  then show ?thesis by (simp add: form_mask_def)
qed

lemma xor_mask_twice: "(f XOR (m AND form_mask f)) XOR (m AND form_mask f) = (f :: u8)"
  by (simp add: xor.assoc)

lemma mask_length:
  "primitives_ok X \<Longrightarrow> header_mask X k s = Ok m \<Longrightarrow> length m = 5"
  by (cases k) (auto simp: header_mask_def result_simps primitives_ok_def split: if_splits)

lemma seal_open:
  "primitives_ok X \<Longrightarrow> pkt_seal X k pn h p = Ok c \<Longrightarrow> length c = length p + AEAD_TAG_LEN \<and> pkt_open X k pn h c = Ok p"
  by (cases k) (auto simp: pkt_seal_def pkt_open_def result_simps primitives_ok_def)

lemma seal_packet_parts:
  assumes "primitives_ok X" "seal_packet X k (f # o1) pn n body = Some pkt" "1 \<le> n" "n \<le> 4"
  obtains c m where "pkt_seal X k pn (f # o1 @ be_bytes n pn) body = Ok c" "length c = length body + 16"
    "pkt_open X k pn (f # o1 @ be_bytes n pn) c = Ok body"
    "header_mask X k (slice (f # o1 @ be_bytes n pn @ c) (5 + length o1) 16) = Ok m" "length m = 5"
    "pkt = (f XOR (m ! 0 AND form_mask f)) # o1 @ map2 (XOR) (be_bytes n pn) (slice m 1 n) @ c"
    "4 \<le> n + length body"
proof -
  have enc: "encode_packet_number pn n = be_bytes n pn" using assms(4) by (simp add: encode_packet_number_eq)
  obtain c where c: "pkt_seal X k pn (f # o1 @ be_bytes n pn) body = Ok c"
    using assms(2) by (auto simp: seal_packet_def Let_def enc split: sum.splits)
  note co = seal_open [OF assms(1) c]
  obtain m where m: "header_mask X k (slice (f # o1 @ be_bytes n pn @ c) (5 + length o1) 16) = Ok m"
    and pkt: "pkt = xor_at (Suc (length o1)) (slice m 1 n) ((f XOR (m ! 0 AND form_mask f)) # o1 @ be_bytes n pn @ c)"
    and long: "\<not> Suc (length o1) + 20 > length (f # o1 @ be_bytes n pn @ c)"
    using assms(2) c by (auto simp: seal_packet_def Let_def enc eval_nat_numeral(2,3) split: sum.splits if_splits)
  have ml: "length m = 5" using mask_length [OF assms(1) m] .
  then have "length (slice m 1 n) = n" using assms(4) by (simp add: slice_def)
  then have "pkt = (f XOR (m ! 0 AND form_mask f)) # o1 @ map2 (XOR) (be_bytes n pn) (slice m 1 n) @ c"
    unfolding pkt by (subst xor_at_append [of _ "be_bytes n pn" _ "(f XOR (m ! 0 AND form_mask f)) # o1" c, simplified]) simp_all
  moreover have "4 \<le> n + length body" using long co by (simp add: AEAD_TAG_LEN_def)
  ultimately show thesis using that c co m ml by (simp add: AEAD_TAG_LEN_def)
qed

lemma drop_header: "length p \<le> 4 \<Longrightarrow> drop (5 + length o1) (x # o1 @ p @ c) = drop (4 - length p) c"
proof -
  assume "length p \<le> 4"
  moreover have "5 + length o1 = Suc (length o1 + 4)" by simp
  ultimately show ?thesis by (simp only: drop_Suc_Cons drop_append) simp
qed

lemma open_seal_packet:
  assumes "primitives_ok X" "seal_packet X k (f # o1) pn n body = Some pkt" "unat (f AND 0x03) + 1 = n" "n \<le> 4"
    and "decode_packet_number (case largest of None \<Rightarrow> 0 | Some l \<Rightarrow> l) (be_val (encode_packet_number pn n)) (n * 8) = pn"
  shows "open_packet X k largest pkt (Suc (length o1)) = Ok (pn, body)"
proof -
  have n: "1 \<le> n" using assms(3) by simp
  from seal_packet_parts [OF assms(1,2) n assms(4)] obtain c m where
    p: "length c = length body + 16" "pkt_open X k pn (f # o1 @ be_bytes n pn) c = Ok body"
      "header_mask X k (slice (f # o1 @ be_bytes n pn @ c) (5 + length o1) 16) = Ok m" "length m = 5"
      "pkt = (f XOR (m ! 0 AND form_mask f)) # o1 @ map2 (XOR) (be_bytes n pn) (slice m 1 n) @ c" "4 \<le> n + length body"
    by metis
  let ?P = "be_bytes n pn" and ?o = "length o1"
  define M where "M = slice m 1 n"
  define buf where "buf = f # o1 @ map2 (XOR) ?P M @ c"
  have M: "length M = n" using p(4) assms(4) by (simp add: slice_def M_def)
  have pkt: "pkt = (f XOR (m ! 0 AND form_mask f)) # o1 @ map2 (XOR) ?P M @ c" using p(5) by (simp add: M_def)
  have sample: "slice pkt (Suc ?o + 4) 16 = slice (f # o1 @ ?P @ c) (5 + ?o) 16"
    using assms(4) M by (simp only: pkt slice_def add.commute [of _ 4]) (simp add: drop_header)
  have len: "\<not> Suc ?o + 4 + 16 > length pkt" using p(1,6) M by (simp add: pkt)
  have f0: "pkt[0 := pkt ! 0 XOR (m ! 0 AND form_mask (pkt ! 0))] = buf"
    by (simp add: pkt buf_def form_mask_xor xor_mask_twice)
  have pl: "unat (buf ! 0 AND 0x03) + 1 = n" using assms(3) by (simp add: buf_def)
  have again: "xor_at (Suc ?o) M buf = f # o1 @ ?P @ c"
    using xor_at_append [of M "map2 (XOR) ?P M" "Suc ?o" "f # o1" c] M by (simp add: map2_xor_twice buf_def)
  have sl: "slice (f # o1 @ ?P @ c) (Suc ?o) n = ?P" by (rule slice_position [of _ "f # o1" ?P c]) simp_all
  have cut: "take (Suc ?o + n) (f # o1 @ ?P @ c) = f # o1 @ ?P" "drop (Suc ?o + n) (f # o1 @ ?P @ c) = c" by simp_all
  have "shift_in ?P 0 = be_val (encode_packet_number pn n)"
    using assms(4) by (simp only: shift_in_eq) (simp add: encode_packet_number_eq)
  then show ?thesis
    unfolding open_packet_def Let_def
    by (simp only: len if_False sample p(3) res_bind_simps f0 pl M_def [symmetric] again sl cut assms(5) p(2))
qed

lemma protected_first_byte:
  "(0xc0 OR push_bit 4 (type_bits t) OR (low AND 0x0f)) XOR (m AND 0x0f)
   = 0xc0 OR push_bit 4 (type_bits t) OR ((low XOR m) AND 0x0f)"
proof (rule bit_word_eqI)
  fix n assume "n < LENGTH(8)"
  then have "n = 0 \<or> n = 1 \<or> n = 2 \<or> n = 3 \<or> n = 4 \<or> n = 5 \<or> n = 6 \<or> n = 7" using byte_cases [of n] by simp
  then show "bit ((0xc0 OR push_bit 4 (type_bits t) OR (low AND 0x0f)) XOR (m AND 0x0f)) n
      = bit (0xc0 OR push_bit 4 (type_bits t) OR ((low XOR m) AND 0x0f)) n"
    by (elim disjE; cases t; simp add: bit_simps type_bits_def)
qed

end
