(* ===== verification/Quic_Frame.thy ===== *)
theory Quic_Frame
  imports Quic_Packet
begin

text \<open>
  Frames and transport parameters of the QUIC engine (\<^verbatim>\<open>lib/mb-quic/src/frame.rs\<close>,
  \<^verbatim>\<open>lib/mb-quic/src/transport_params.rs\<close>): the eighteen frames with their encoder and decoder, the loop over the payload of a
  packet, and the parameter list of the TLS extension. The payload of a packet is read back exactly, up to
  the coalescing of runs of padding; every successful read moves forward and stays inside the payload.
\<close>

section \<open>Frames\<close>

definition MAX_FRAME_PAYLOAD :: nat where
  "MAX_FRAME_PAYLOAD = 2 ^ 20"

record AckRange =
  gap :: nat
  ack_range :: nat

text \<open>The fields are in the order of the source.\<close>

datatype Frame =
    Padding nat
  | Ping
  | Ack nat nat nat "AckRange list"
  | ResetStream nat nat nat
  | StopSending nat nat
  | Crypto nat bytes
  | StreamF nat nat bool bytes
  | MaxData nat
  | MaxStreamData nat nat
  | MaxStreams bool nat
  | DataBlocked nat
  | StreamDataBlocked nat nat
  | StreamsBlocked bool nat
  | ConnectionClose bool nat bytes
  | HandshakeDone
  | DatagramF bytes

definition encode_range :: "AckRange \<Rightarrow> bytes" where
  "encode_range r = encode_varint (gap r) @ encode_varint (ack_range r)"

definition stream_type :: "nat \<Rightarrow> bool \<Rightarrow> u8" where
  "stream_type offset fin =
     (let ty = 0x08 OR 0x02;
          ty = (if offset \<noteq> 0 then ty OR 0x04 else ty)
      in if fin then ty OR 0x01 else ty)"

fun frame_encode :: "Frame \<Rightarrow> bytes" where
  "frame_encode (Padding n) = replicate n 0x00"
| "frame_encode Ping = [0x01]"
| "frame_encode (Ack largest delay first_range ranges) =
     0x02 # encode_varint largest @ encode_varint delay @ encode_varint (length ranges) @ encode_varint first_range @
     concat (map encode_range ranges)"
| "frame_encode (ResetStream stream_id error_code final_size) =
     0x04 # encode_varint stream_id @ encode_varint error_code @ encode_varint final_size"
| "frame_encode (StopSending stream_id error_code) = 0x05 # encode_varint stream_id @ encode_varint error_code"
| "frame_encode (Crypto offset data) = 0x06 # encode_varint offset @ encode_varint (length data) @ data"
| "frame_encode (StreamF sid offset fin data) =
     stream_type offset fin # encode_varint sid @ (if offset \<noteq> 0 then encode_varint offset else []) @
     encode_varint (length data) @ data"
| "frame_encode (MaxData m) = 0x10 # encode_varint m"
| "frame_encode (MaxStreamData stream_id m) = 0x11 # encode_varint stream_id @ encode_varint m"
| "frame_encode (MaxStreams bidi m) = (if bidi then 0x12 else 0x13) # encode_varint m"
| "frame_encode (DataBlocked limit) = 0x14 # encode_varint limit"
| "frame_encode (StreamDataBlocked stream_id limit) = 0x15 # encode_varint stream_id @ encode_varint limit"
| "frame_encode (StreamsBlocked bidi limit) = (if bidi then 0x16 else 0x17) # encode_varint limit"
| "frame_encode (DatagramF data) = 0x31 # encode_varint (length data) @ data"
| "frame_encode (ConnectionClose application error_code reason) =
     (if application then 0x1d else 0x1c) # encode_varint error_code @
     (if \<not> application then encode_varint 0 else []) @ encode_varint (length reason) @ reason"
| "frame_encode HandshakeDone = [0x1e]"

text \<open>The length check and the copy \<^verbatim>\<open>buf[off..off + len].to_vec()\<close> of the payload of a frame.\<close>

definition read_payload :: "bytes \<Rightarrow> nat \<Rightarrow> nat \<Rightarrow> QuicError + bytes \<times> nat" where
  "read_payload buf len off =
     (if len > MAX_FRAME_PAYLOAD then Err (QMalformed ''frame payload exceeds MAX_FRAME_PAYLOAD'')
      else if off + len > length buf then Err QShortBuffer
      else Ok (slice buf off len, off + len))"

definition read_range :: "bytes \<Rightarrow> nat \<Rightarrow> QuicError + AckRange \<times> nat" where
  "read_range buf off =
     res_bind (read_varint buf off) (\<lambda>(g, off). res_bind (read_varint buf off) (\<lambda>(r, off). Ok (\<lparr>gap = g, ack_range = r\<rparr>, off)))"

definition decode_ack :: "bytes \<Rightarrow> bool \<Rightarrow> QuicError + Frame \<times> nat" where
  "decode_ack buf ecn =
     res_bind (read_varint buf 1) (\<lambda>(largest, off).
     res_bind (read_varint buf off) (\<lambda>(delay, off).
     res_bind (read_varint buf off) (\<lambda>(count, off).
     res_bind (read_varint buf off) (\<lambda>(first_range, off).
     res_bind (decode_many (read_range buf) count off) (\<lambda>(ranges, off).
     res_bind (if ecn then decode_many (read_varint buf) 3 off else Ok ([], off)) (\<lambda>(_, off).
       Ok (Ack largest delay first_range ranges, off)))))))"

definition decode_stream :: "bytes \<Rightarrow> u8 \<Rightarrow> QuicError + Frame \<times> nat" where
  "decode_stream buf ty =
     res_bind (read_varint buf 1) (\<lambda>(sid, off).
     res_bind (if ty AND 0x04 \<noteq> 0 then read_varint buf off else Ok (0, off)) (\<lambda>(offset, off).
     res_bind (if ty AND 0x02 \<noteq> 0 then read_varint buf off else Ok (length buf - off, off)) (\<lambda>(dlen, off).
     res_bind (read_payload buf dlen off) (\<lambda>(data, off).
       Ok (StreamF sid offset (ty AND 0x01 \<noteq> 0) data, off)))))"

definition decode_close :: "bytes \<Rightarrow> bool \<Rightarrow> QuicError + Frame \<times> nat" where
  "decode_close buf application =
     res_bind (read_varint buf 1) (\<lambda>(error_code, off).
     res_bind (if \<not> application then read_varint buf off else Ok (0, off)) (\<lambda>(_, off).
     res_bind (read_varint buf off) (\<lambda>(rlen, off).
     res_bind (read_payload buf rlen off) (\<lambda>(reason, off).
       Ok (ConnectionClose application error_code reason, off)))))"

definition decode1 :: "bytes \<Rightarrow> (nat \<Rightarrow> Frame) \<Rightarrow> QuicError + Frame \<times> nat" where
  "decode1 buf mk = res_bind (read_varint buf 1) (\<lambda>(a, off). Ok (mk a, off))"

definition decode2 :: "bytes \<Rightarrow> (nat \<Rightarrow> nat \<Rightarrow> Frame) \<Rightarrow> QuicError + Frame \<times> nat" where
  "decode2 buf mk =
     res_bind (read_varint buf 1) (\<lambda>(a, off). res_bind (read_varint buf off) (\<lambda>(b, off). Ok (mk a b, off)))"

definition frame_decode :: "bytes \<Rightarrow> QuicError + Frame \<times> nat" where
  "frame_decode buf =
     (case buf of
        [] \<Rightarrow> Err QShortBuffer
      | ty # rest \<Rightarrow>
          if ty = 0x00 then let n = length (takeWhile (\<lambda>b. b = 0x00) buf) in Ok (Padding n, n)
          else if ty = 0x01 then Ok (Ping, 1)
          else if ty = 0x02 \<or> ty = 0x03 then decode_ack buf (ty = 0x03)
          else if ty = 0x04 then
            res_bind (read_varint buf 1) (\<lambda>(stream_id, off). res_bind (read_varint buf off) (\<lambda>(error_code, off).
            res_bind (read_varint buf off) (\<lambda>(final_size, off). Ok (ResetStream stream_id error_code final_size, off))))
          else if ty = 0x05 then decode2 buf StopSending
          else if ty = 0x06 then
            res_bind (read_varint buf 1) (\<lambda>(offset, off). res_bind (read_varint buf off) (\<lambda>(len, off).
            res_bind (read_payload buf len off) (\<lambda>(data, off). Ok (Crypto offset data, off))))
          else if 0x08 \<le> ty \<and> ty \<le> 0x0f then decode_stream buf ty
          else if ty = 0x10 then decode1 buf MaxData
          else if ty = 0x11 then decode2 buf MaxStreamData
          else if ty = 0x12 \<or> ty = 0x13 then decode1 buf (MaxStreams (ty = 0x12))
          else if ty = 0x14 then decode1 buf DataBlocked
          else if ty = 0x15 then decode2 buf StreamDataBlocked
          else if ty = 0x16 \<or> ty = 0x17 then decode1 buf (StreamsBlocked (ty = 0x16))
          else if ty = 0x1c \<or> ty = 0x1d then decode_close buf (ty = 0x1d)
          else if ty = 0x1e then Ok (HandshakeDone, 1)
          else if ty = 0x30 then Ok (DatagramF rest, length buf)
          else if ty = 0x31 then
            res_bind (read_varint buf 1) (\<lambda>(len, off). res_bind (read_payload buf len off) (\<lambda>(data, off). Ok (DatagramF data, off)))
          else Err (QMalformed ''unsupported frame type''))"

function decode_all :: "bytes \<Rightarrow> QuicError + Frame list" where
  "decode_all buf =
     (if buf = [] then Ok []
      else case frame_decode buf of
          Inl e \<Rightarrow> Err e
        | Inr (f, n) \<Rightarrow> if n = 0 then Ok [] else res_bind (decode_all (drop n buf)) (\<lambda>fs. Ok (f # fs)))"
  by pat_completeness auto
termination by (relation "measure length") auto

declare decode_all.simps [simp del]

section \<open>One frame is read back\<close>

definition frame_good :: "Frame \<Rightarrow> bool" where
  "frame_good f =
     (case f of
        Padding n \<Rightarrow> True
      | Ping \<Rightarrow> True
      | Ack l d r rs \<Rightarrow> l \<le> VARINT_MAX \<and> d \<le> VARINT_MAX \<and> r \<le> VARINT_MAX \<and> length rs \<le> VARINT_MAX
          \<and> list_all (\<lambda>x. gap x \<le> VARINT_MAX \<and> ack_range x \<le> VARINT_MAX) rs
      | ResetStream a b c \<Rightarrow> a \<le> VARINT_MAX \<and> b \<le> VARINT_MAX \<and> c \<le> VARINT_MAX
      | StopSending a b \<Rightarrow> a \<le> VARINT_MAX \<and> b \<le> VARINT_MAX
      | Crypto a d \<Rightarrow> a \<le> VARINT_MAX \<and> length d \<le> MAX_FRAME_PAYLOAD
      | StreamF a b _ d \<Rightarrow> a \<le> VARINT_MAX \<and> b \<le> VARINT_MAX \<and> length d \<le> MAX_FRAME_PAYLOAD
      | MaxData a \<Rightarrow> a \<le> VARINT_MAX
      | MaxStreamData a b \<Rightarrow> a \<le> VARINT_MAX \<and> b \<le> VARINT_MAX
      | MaxStreams _ a \<Rightarrow> a \<le> VARINT_MAX
      | DataBlocked a \<Rightarrow> a \<le> VARINT_MAX
      | StreamDataBlocked a b \<Rightarrow> a \<le> VARINT_MAX \<and> b \<le> VARINT_MAX
      | StreamsBlocked _ a \<Rightarrow> a \<le> VARINT_MAX
      | ConnectionClose _ a d \<Rightarrow> a \<le> VARINT_MAX \<and> length d \<le> MAX_FRAME_PAYLOAD
      | HandshakeDone \<Rightarrow> True
      | DatagramF d \<Rightarrow> length d \<le> MAX_FRAME_PAYLOAD)"

definition is_padding :: "Frame \<Rightarrow> bool" where
  "is_padding f = (case f of Padding _ \<Rightarrow> True | _ \<Rightarrow> False)"

lemma payload_varint: "n \<le> MAX_FRAME_PAYLOAD \<Longrightarrow> n \<le> VARINT_MAX"
  by (simp add: MAX_FRAME_PAYLOAD_def VARINT_MAX_def)

lemma varint_zero: "0 \<le> VARINT_MAX" "(3 :: nat) \<le> VARINT_MAX"
  by (simp_all add: VARINT_MAX_def)

interpretation ack_ranges: positional_codec encode_range read_range
  "\<lambda>x. gap x \<le> VARINT_MAX \<and> ack_range x \<le> VARINT_MAX"
  by unfold_locales (simp add: read_range_def encode_range_def read_varint_def decode_encode_varint)

text \<open>A cursor behind the type byte and the fields already read, seen from the bytes that remain.\<close>

lemmas cursor_simps = read_varint_def decode_encode_varint read_payload_def slice_def payload_varint varint_zero

lemma decode_ack_encoded:
  assumes "frame_good (Ack largest delay first_range ranges)"
  shows "decode_ack (frame_encode (Ack largest delay first_range ranges) @ rest) False
    = Ok (Ack largest delay first_range ranges, length (frame_encode (Ack largest delay first_range ranges)))"
proof -
  let ?pre = "0x02 # encode_varint largest @ encode_varint delay @ encode_varint (length ranges) @ encode_varint first_range"
  let ?buf = "frame_encode (Ack largest delay first_range ranges) @ rest"
  have "decode_many (read_range ?buf) (length ranges) (length ?pre)
      = Ok (ranges, length (frame_encode (Ack largest delay first_range ranges)))"
    using assms by (intro ack_ranges.decode_many_at [of _ ?pre]) (simp_all add: frame_good_def list_all_iff)
  with assms show ?thesis by (simp add: decode_ack_def frame_good_def cursor_simps add.assoc)
qed

lemma decode_stream_encoded:
  assumes "frame_good (StreamF sid offset fin data)"
  shows "frame_decode (frame_encode (StreamF sid offset fin data) @ rest)
    = Ok (StreamF sid offset fin data, length (frame_encode (StreamF sid offset fin data)))"
  using assms
  by (cases "offset = 0"; cases fin) (simp_all add: frame_decode_def decode_stream_def stream_type_def frame_good_def cursor_simps)

lemma decode_close_encoded:
  assumes "frame_good (ConnectionClose application code reason)"
  shows "frame_decode (frame_encode (ConnectionClose application code reason) @ rest)
    = Ok (ConnectionClose application code reason, length (frame_encode (ConnectionClose application code reason)))"
  using assms
  by (cases application) (simp_all add: frame_decode_def decode_close_def frame_good_def cursor_simps)

lemma frame_decode_encoded:
  assumes "frame_good f" "\<not> is_padding f"
  shows "frame_decode (frame_encode f @ rest) = Ok (f, length (frame_encode f))"
proof (cases f)
  case (Ack l d r rs)
  with decode_ack_encoded [of l d r rs rest] assms show ?thesis by (simp add: frame_decode_def)
next
  case (StreamF a b c d)
  with decode_stream_encoded assms show ?thesis by blast
next
  case (ConnectionClose a b c)
  with decode_close_encoded assms show ?thesis by blast
qed (use assms in \<open>auto simp: frame_decode_def decode1_def decode2_def frame_good_def is_padding_def cursor_simps\<close>)

section \<open>The payload of a packet is read back\<close>

text \<open>Runs of padding merge into one frame, which is what the decoder of padding is for; nothing else changes.\<close>

definition add_padding :: "nat \<Rightarrow> Frame list \<Rightarrow> Frame list" where
  "add_padding n fs =
     (if n = 0 then fs
      else case fs of
          Padding m # r \<Rightarrow> Padding (n + m) # r
        | _ \<Rightarrow> Padding n # fs)"

fun merge_padding :: "Frame list \<Rightarrow> Frame list" where
  "merge_padding [] = []"
| "merge_padding (f # fs) = (case f of Padding n \<Rightarrow> add_padding n (merge_padding fs) | _ \<Rightarrow> f # merge_padding fs)"

definition starts_padding :: "Frame list \<Rightarrow> bool" where
  "starts_padding fs = (case fs of [] \<Rightarrow> False | f # _ \<Rightarrow> is_padding f)"

lemma add_padding_fresh: "\<not> starts_padding fs \<Longrightarrow> n \<noteq> 0 \<Longrightarrow> add_padding n fs = Padding n # fs"
proof (cases fs)
  case (Cons f r)
  assume "\<not> starts_padding fs" "n \<noteq> 0"
  with Cons show ?thesis by (cases f) (simp_all add: add_padding_def starts_padding_def is_padding_def)
qed (simp add: add_padding_def)

lemma frame_decode_nonzero: "frame_decode (b # bs) = Ok (f, n) \<Longrightarrow> b \<noteq> 0 \<Longrightarrow> \<not> is_padding f"
  by (auto simp: frame_decode_def decode_ack_def decode_stream_def decode_close_def decode1_def decode2_def result_simps
      is_padding_def split: if_splits)

lemma decode_all_zero:
  assumes "decode_all bs = Ok fs"
  shows "decode_all (0 # bs) = Ok (add_padding 1 fs)"
proof -
  let ?m = "length (takeWhile (\<lambda>b. b = 0) bs)"
  have step: "decode_all (0 # bs) = res_bind (decode_all (drop ?m bs)) (\<lambda>fs. Ok (Padding (Suc ?m) # fs))"
    by (subst decode_all.simps) (simp add: frame_decode_def Let_def)
  consider "bs = []" | r where "bs = 0 # r" | b r where "bs = b # r" "b \<noteq> 0" by (cases bs) auto
  then show ?thesis
  proof cases
    case 1
    with assms step show ?thesis by (simp add: decode_all.simps [of "[]"] add_padding_def)
  next
    case 2
    then have "decode_all bs = res_bind (decode_all (drop ?m bs)) (\<lambda>fs. Ok (Padding ?m # fs))"
      by (subst decode_all.simps) (simp add: frame_decode_def Let_def)
    with assms show ?thesis by (auto simp: step result_simps add_padding_def)
  next
    case 3
    from assms have "\<not> starts_padding fs"
      by (subst (asm) decode_all.simps)
        (auto simp: 3 result_simps starts_padding_def dest!: frame_decode_nonzero split: sum.splits prod.splits if_splits)
    moreover have "decode_all (0 # bs) = Ok (Padding (Suc 0) # fs)" unfolding step using 3 assms by simp
    ultimately show ?thesis by (simp add: add_padding_fresh)
  qed
qed

lemma add_padding_add: "add_padding (Suc 0) (add_padding n fs) = add_padding (Suc n) fs"
  by (auto simp: add_padding_def split: list.splits Frame.splits)

lemma decode_all_zeros: "decode_all bs = Ok fs \<Longrightarrow> decode_all (replicate n 0 @ bs) = Ok (add_padding n fs)"
proof (induction n)
  case 0
  then show ?case by (simp add: add_padding_def)
next
  case (Suc n)
  then show ?case using decode_all_zero [of "replicate n 0 @ bs"] by (simp add: add_padding_add)
qed

lemma frame_encode_nonempty: "\<not> is_padding f \<Longrightarrow> frame_encode f \<noteq> []"
  by (cases f) (auto simp: is_padding_def)

lemma decode_all_frame:
  assumes "frame_good f" "\<not> is_padding f" "decode_all bs = Ok fs"
  shows "decode_all (frame_encode f @ bs) = Ok (f # fs)"
  using assms frame_encode_nonempty [OF assms(2)]
  by (subst decode_all.simps) (simp add: frame_decode_encoded)

lemma payload_read_back: "list_all frame_good fs \<Longrightarrow> decode_all (concat (map frame_encode fs)) = Ok (merge_padding fs)"
proof (induction fs)
  case Nil
  then show ?case by (simp add: decode_all.simps)
next
  case (Cons f fs)
  then show ?case
    using decode_all_zeros decode_all_frame [of f] by (cases "is_padding f") (auto simp: is_padding_def split: Frame.splits)
qed

section \<open>Every read moves forward inside the payload\<close>

lemma read_payload_bounds:
  "read_payload buf len off = Ok (d, off') \<Longrightarrow>
     off' = off + len \<and> off' \<le> length buf \<and> length d = len \<and> len \<le> MAX_FRAME_PAYLOAD"
  by (auto simp: read_payload_def slice_def split: if_splits)

lemma read_range_bounds:
  "read_range buf off = Ok (r, off') \<Longrightarrow>
     off + 2 \<le> off' \<and> off' \<le> length buf \<and> gap r \<le> VARINT_MAX \<and> ack_range r \<le> VARINT_MAX"
  by (auto simp: read_range_def result_simps dest!: read_varint_moves)

lemma decode_ack_bounds:
  assumes "decode_ack buf ecn = Ok (f, n)"
  shows "1 < n \<and> n \<le> length buf"
proof -
  from assms obtain l o1 d o2 c o3 r o4 rs o5 xs where
    o4: "read_varint buf 1 = Ok (l, o1)" "read_varint buf o1 = Ok (d, o2)" "read_varint buf o2 = Ok (c, o3)"
      "read_varint buf o3 = Ok (r, o4)"
    and o5: "decode_many (read_range buf) c o4 = Ok (rs, o5)"
    and n: "(if ecn then decode_many (read_varint buf) 3 o5 else Ok ([], o5)) = Ok (xs, n)"
    by (auto simp: decode_ack_def result_simps)
  from o4 have "1 < o4" "o4 \<le> length buf" using read_varint_moves by (meson less_trans)+
  moreover from this o5 have "o4 \<le> o5 \<and> o5 \<le> length buf"
    using decode_many_consumes [of "read_range buf" 2 "length buf" c o4 rs o5] read_range_bounds by fastforce
  moreover from this n have "o5 \<le> n \<and> n \<le> length buf"
    using decode_many_consumes [of "read_varint buf" 1 "length buf" 3 o5 xs n] read_varint_moves
    by (fastforce split: if_splits)
  ultimately show ?thesis by linarith
qed

lemma decode_stream_bounds: "decode_stream buf ty = Ok (f, n) \<Longrightarrow> 1 < n \<and> n \<le> length buf"
  by (auto simp: decode_stream_def result_simps dest!: read_varint_moves read_payload_bounds split: if_splits)

lemma decode_close_bounds: "decode_close buf app = Ok (f, n) \<Longrightarrow> 1 < n \<and> n \<le> length buf"
  by (auto simp: decode_close_def result_simps dest!: read_varint_moves read_payload_bounds split: if_splits)

lemma frame_decode_moves:
  assumes "frame_decode buf = Ok (f, n)"
  shows "0 < n" "n \<le> length buf"
proof -
  from assms obtain ty rest where buf: "buf = ty # rest" by (cases buf) (auto simp: frame_decode_def)
  have "0 < n \<and> n \<le> length buf"
    using assms length_takeWhile_le [of "\<lambda>b. b = 0" rest]
    by (auto simp: frame_decode_def decode1_def decode2_def result_simps buf Let_def less_imp_le
        dest!: read_varint_moves read_payload_bounds decode_ack_bounds decode_stream_bounds decode_close_bounds
        split: if_splits)
  then show "0 < n" "n \<le> length buf" by simp_all
qed

lemma decode_ack_good: "decode_ack buf ecn = Ok (f, n) \<Longrightarrow> frame_good f"
proof -
  assume "decode_ack buf ecn = Ok (f, n)"
  then obtain l o1 d o2 c o3 r o4 rs o5 where
    rd: "read_varint buf 1 = Ok (l, o1)" "read_varint buf o1 = Ok (d, o2)" "read_varint buf o2 = Ok (c, o3)"
      "read_varint buf o3 = Ok (r, o4)"
    and rs: "decode_many (read_range buf) c o4 = Ok (rs, o5)" and f: "f = Ack l d r rs"
    by (auto simp: decode_ack_def result_simps)
  have "gap x \<le> VARINT_MAX \<and> ack_range x \<le> VARINT_MAX" if "x \<in> set rs" for x
    using decode_many_items [OF rs that] read_range_bounds by blast
  moreover from rs have "length rs = c" by (rule decode_many_length)
  ultimately show ?thesis using rd by (auto simp: f frame_good_def list_all_iff dest!: read_varint_moves)
qed

text \<open>A decoded frame can be sent again as it is; only the datagram that runs to the end of the packet has no bound of
  its own.\<close>

lemma frame_decode_good:
  assumes "frame_decode buf = Ok (f, n)"
  shows "frame_good f \<or> (\<exists>d. f = DatagramF d \<and> length d < length buf)"
proof -
  from assms obtain ty rest where buf: "buf = ty # rest" by (cases buf) (auto simp: frame_decode_def)
  have "decode_stream buf ty = Ok (f, n) \<Longrightarrow> frame_good f" "decode_close buf app = Ok (f, n) \<Longrightarrow> frame_good f" for app
    by (auto simp: decode_stream_def decode_close_def result_simps frame_good_def varint_zero
        dest!: read_varint_moves read_payload_bounds split: if_splits)
  with assms show ?thesis
    by (auto simp: frame_decode_def decode1_def decode2_def result_simps buf Let_def frame_good_def
        dest!: read_varint_moves read_payload_bounds dest: decode_ack_good split: if_splits)
qed

lemma decode_all_step:
  "buf \<noteq> [] \<Longrightarrow> decode_all buf = res_bind (frame_decode buf) (\<lambda>(f, n). res_bind (decode_all (drop n buf)) (\<lambda>fs. Ok (f # fs)))"
  using frame_decode_moves [of buf]
  by (subst decode_all.simps) (auto simp: res_bind_def split: sum.splits)

text \<open>Two paddings are never neighbours in a decoded payload.\<close>

lemma frame_decode_zero: "frame_decode (0 # bs) = Ok (Padding (Suc (length (takeWhile (\<lambda>b. b = 0) bs))), Suc (length (takeWhile (\<lambda>b. b = 0) bs)))"
  by (simp add: frame_decode_def Let_def)

lemma hd_drop_takeWhile: "drop (length (takeWhile P xs)) xs \<noteq> [] \<Longrightarrow> \<not> P (hd (drop (length (takeWhile P xs)) xs))"
  by (induction xs) auto

lemma decode_all_padding_first:
  assumes "decode_all buf = Ok fs" "buf \<noteq> []" "hd buf \<noteq> 0"
  shows "\<exists>g gs. fs = g # gs \<and> \<not> is_padding g"
proof -
  from assms(2) obtain b r where buf: "buf = b # r" by (cases buf) auto
  with assms obtain g n gs where "frame_decode buf = Ok (g, n)" "fs = g # gs"
    by (auto simp: decode_all_step result_simps)
  with frame_decode_nonzero [of b r g n] assms(3) buf show ?thesis by auto
qed

lemma decode_all_merged: "decode_all buf = Ok fs \<Longrightarrow> merge_padding fs = fs"
proof (induction "length buf" arbitrary: buf fs rule: less_induct)
  case less
  show ?case
  proof (cases "buf = []")
    case True
    with less.prems show ?thesis by (simp add: decode_all.simps)
  next
    case False
    with less.prems obtain f n gs where f: "frame_decode buf = Ok (f, n)" and gs: "decode_all (drop n buf) = Ok gs" "fs = f # gs"
      by (auto simp: decode_all_step result_simps)
    from frame_decode_moves [OF f] False less.hyps [OF _ gs(1)] have m: "merge_padding gs = gs" by simp
    show ?thesis
    proof (cases f)
      case (Padding k)
      obtain b r where buf: "buf = b # r" using False by (cases buf) auto
      have "b = 0" using frame_decode_nonzero [of b r f n] f buf Padding by (auto simp: is_padding_def)
      with f buf Padding have kn: "k = n" "n = Suc (length (takeWhile (\<lambda>b. b = 0) r))" by (auto simp: frame_decode_zero)
      have "\<not> starts_padding gs"
      proof (cases "drop n buf = []")
        case True
        with gs(1) show ?thesis by (simp add: decode_all.simps starts_padding_def)
      next
        case ne: False
        then have "hd (drop n buf) \<noteq> 0" using hd_drop_takeWhile [of "\<lambda>b. b = 0" r] by (simp add: buf kn)
        from decode_all_padding_first [OF gs(1) ne this] show ?thesis by (auto simp: starts_padding_def)
      qed
      with kn m show ?thesis by (simp add: gs(2) Padding add_padding_fresh)
    qed (simp_all add: gs(2) m)
  qed
qed

lemma decode_all_good:
  "decode_all buf = Ok fs \<Longrightarrow> length buf \<le> MAX_FRAME_PAYLOAD \<Longrightarrow> list_all frame_good fs"
proof (induction "length buf" arbitrary: buf fs rule: less_induct)
  case less
  show ?case
  proof (cases "buf = []")
    case True
    with less.prems show ?thesis by (simp add: decode_all.simps)
  next
    case False
    with less.prems obtain f n gs where f: "frame_decode buf = Ok (f, n)" and gs: "decode_all (drop n buf) = Ok gs" "fs = f # gs"
      by (auto simp: decode_all_step result_simps)
    from frame_decode_moves [OF f] False less.hyps [OF _ gs(1)] less.prems(2) have "list_all frame_good gs" by simp
    moreover from frame_decode_good [OF f] less.prems(2) have "frame_good f" by (auto simp: frame_good_def)
    ultimately show ?thesis by (simp add: gs(2))
  qed
qed

section \<open>Transport parameters\<close>

record TransportParameters =
  original_dcid :: "ConnectionId option"
  initial_scid :: "ConnectionId option"
  max_idle_timeout_ms :: nat
  max_udp_payload_size :: nat
  initial_max_data :: nat
  initial_max_stream_data_bidi_local :: nat
  initial_max_stream_data_bidi_remote :: nat
  initial_max_stream_data_uni :: nat
  initial_max_streams_bidi :: nat
  initial_max_streams_uni :: nat
  max_datagram_frame_size :: nat

definition tp_default :: TransportParameters where
  "tp_default =
     \<lparr>original_dcid = None, initial_scid = None, max_idle_timeout_ms = 30000, max_udp_payload_size = 1452,
      initial_max_data = 2 ^ 20, initial_max_stream_data_bidi_local = 256 * 1024,
      initial_max_stream_data_bidi_remote = 256 * 1024, initial_max_stream_data_uni = 256 * 1024,
      initial_max_streams_bidi = 64, initial_max_streams_uni = 8, max_datagram_frame_size = 1200\<rparr>"

definition put_int :: "nat \<Rightarrow> nat \<Rightarrow> bytes" where
  "put_int pid v = encode_varint pid @ encode_varint (length (encode_varint v)) @ encode_varint v"

definition put_cid :: "nat \<Rightarrow> ConnectionId \<Rightarrow> bytes" where
  "put_cid pid cid = encode_varint pid @ encode_varint (cid_len cid) @ cid_slice cid"

definition tp_encode :: "TransportParameters \<Rightarrow> bytes" where
  "tp_encode tp =
     (case original_dcid tp of Some c \<Rightarrow> put_cid 0x00 c | None \<Rightarrow> []) @
     (case initial_scid tp of Some c \<Rightarrow> put_cid 0x0f c | None \<Rightarrow> []) @
     put_int 0x01 (max_idle_timeout_ms tp) @
     put_int 0x03 (max_udp_payload_size tp) @
     put_int 0x04 (initial_max_data tp) @
     put_int 0x05 (initial_max_stream_data_bidi_local tp) @
     put_int 0x06 (initial_max_stream_data_bidi_remote tp) @
     put_int 0x07 (initial_max_stream_data_uni tp) @
     put_int 0x08 (initial_max_streams_bidi tp) @
     put_int 0x09 (initial_max_streams_uni tp) @
     put_int 0x20 (max_datagram_frame_size tp)"

text \<open>One entry of the list: identifier, length and the bytes of the value.\<close>

definition tp_entry :: "bytes \<Rightarrow> nat \<Rightarrow> QuicError + (nat \<times> bytes) \<times> nat" where
  "tp_entry buf off =
     res_bind (read_varint buf off) (\<lambda>(pid, off). res_bind (read_varint buf off) (\<lambda>(len, off).
       if off + len > length buf then Err QShortBuffer else Ok ((pid, slice buf off len), off + len)))"

definition tp_apply :: "nat \<Rightarrow> bytes \<Rightarrow> TransportParameters \<Rightarrow> QuicError + TransportParameters" where
  "tp_apply pid val tp =
     (let int = (\<lambda>upd. res_bind (decode_varint val) (\<lambda>(v, _). Ok (upd v)))
      in if pid = 0x00 then res_bind (cid_new val) (\<lambda>c. Ok (tp\<lparr>original_dcid := Some c\<rparr>))
         else if pid = 0x0f then res_bind (cid_new val) (\<lambda>c. Ok (tp\<lparr>initial_scid := Some c\<rparr>))
         else if pid = 0x01 then int (\<lambda>v. tp\<lparr>max_idle_timeout_ms := v\<rparr>)
         else if pid = 0x03 then int (\<lambda>v. tp\<lparr>max_udp_payload_size := v\<rparr>)
         else if pid = 0x04 then int (\<lambda>v. tp\<lparr>initial_max_data := v\<rparr>)
         else if pid = 0x05 then int (\<lambda>v. tp\<lparr>initial_max_stream_data_bidi_local := v\<rparr>)
         else if pid = 0x06 then int (\<lambda>v. tp\<lparr>initial_max_stream_data_bidi_remote := v\<rparr>)
         else if pid = 0x07 then int (\<lambda>v. tp\<lparr>initial_max_stream_data_uni := v\<rparr>)
         else if pid = 0x08 then int (\<lambda>v. tp\<lparr>initial_max_streams_bidi := v\<rparr>)
         else if pid = 0x09 then int (\<lambda>v. tp\<lparr>initial_max_streams_uni := v\<rparr>)
         else if pid = 0x20 then int (\<lambda>v. tp\<lparr>max_datagram_frame_size := v\<rparr>)
         else Ok tp)"

lemma tp_entry_moves: "tp_entry buf off = Ok (e, off') \<Longrightarrow> off < off' \<and> off' \<le> length buf"
  by (auto simp: tp_entry_def result_simps dest!: read_varint_moves split: if_splits)

function tp_decode_from :: "bytes \<Rightarrow> nat \<Rightarrow> TransportParameters \<Rightarrow> QuicError + TransportParameters" where
  "tp_decode_from buf off tp =
     (if off < length buf then
        case tp_entry buf off of
          Inl e \<Rightarrow> Err e
        | Inr ((pid, val), off') \<Rightarrow>
            (case tp_apply pid val tp of Inl e \<Rightarrow> Err e | Inr tp' \<Rightarrow> tp_decode_from buf off' tp')
      else Ok tp)"
  by pat_completeness auto
termination
  by (relation "measure (\<lambda>(buf, off, tp). length buf - off)") (auto dest!: tp_entry_moves)

declare tp_decode_from.simps [simp del]

definition tp_unset :: TransportParameters where
  "tp_unset =
     \<lparr>original_dcid = None, initial_scid = None, max_idle_timeout_ms = 0, max_udp_payload_size = 65527,
      initial_max_data = 0, initial_max_stream_data_bidi_local = 0, initial_max_stream_data_bidi_remote = 0,
      initial_max_stream_data_uni = 0, initial_max_streams_bidi = 0, initial_max_streams_uni = 0,
      max_datagram_frame_size = 0\<rparr>"

definition tp_decode :: "bytes \<Rightarrow> QuicError + TransportParameters" where
  "tp_decode buf = tp_decode_from buf 0 tp_unset"

definition cid_opt_wf :: "ConnectionId option \<Rightarrow> bool" where
  "cid_opt_wf c = (case c of None \<Rightarrow> True | Some c \<Rightarrow> cid_wf c)"

definition tp_good :: "TransportParameters \<Rightarrow> bool" where
  "tp_good tp \<longleftrightarrow>
     cid_opt_wf (original_dcid tp) \<and> cid_opt_wf (initial_scid tp) \<and>
     list_all (\<lambda>v. v \<le> VARINT_MAX)
       [max_idle_timeout_ms tp, max_udp_payload_size tp, initial_max_data tp, initial_max_stream_data_bidi_local tp,
        initial_max_stream_data_bidi_remote tp, initial_max_stream_data_uni tp, initial_max_streams_bidi tp,
        initial_max_streams_uni tp, max_datagram_frame_size tp]"

lemma drop_past: "drop off buf = a @ r \<Longrightarrow> drop (off + length a) buf = r"
  by (metis add.commute append_eq_conv_conj drop_drop)

lemma tp_decode_entry:
  assumes "drop off buf = (encode_varint pid @ encode_varint (length val) @ val) @ rest" "pid \<le> VARINT_MAX" "length val \<le> VARINT_MAX"
    and "tp_apply pid val tp = Ok tp'"
  shows "\<exists>off'. drop off' buf = rest \<and> tp_decode_from buf off tp = tp_decode_from buf off' tp'"
proof -
  let ?a = "encode_varint pid" and ?b = "encode_varint (length val)"
  have lt: "off < length buf" using assms(1) length_encode_varint [of pid]
    by (metis append_is_Nil_conv drop_all length_0_conv linorder_not_less varint_len_def zero_neq_numeral zero_neq_one)
  have d1: "drop (off + length ?a) buf = ?b @ val @ rest" using assms(1) by (intro drop_past) simp
  then have d2: "drop (off + length ?a + length ?b) buf = val @ rest" by (rule drop_past)
  then have d3: "drop (off + length ?a + length ?b + length val) buf = rest" by (rule drop_past)
  have "length (drop off buf) = length ?a + length ?b + length val + length rest" by (simp add: assms(1))
  with lt have "off + length ?a + length ?b + length val \<le> length buf" by simp
  with assms(1-3) d1 d2 have "tp_entry buf off = Ok ((pid, val), off + length ?a + length ?b + length val)"
    by (simp add: tp_entry_def read_varint_def decode_encode_varint slice_def)
  with lt d3 assms(4) show ?thesis by (subst tp_decode_from.simps) auto
qed

lemma varint_len_le: "length (encode_varint v) \<le> 8"
  by (simp add: length_encode_varint varint_len_def)

lemma decode_varint_encoded: "v \<le> VARINT_MAX \<Longrightarrow> decode_varint (encode_varint v) = Ok (v, length (encode_varint v))"
  using decode_encode_varint [of v "[]"] by simp

definition tp_set :: "nat \<times> nat \<Rightarrow> TransportParameters \<Rightarrow> TransportParameters" where
  "tp_set e tp = projr (tp_apply (fst e) (encode_varint (snd e)) tp)"

lemma tp_set_apply: "v \<le> VARINT_MAX \<Longrightarrow> pid \<noteq> 0 \<Longrightarrow> pid \<noteq> 15 \<Longrightarrow> tp_apply pid (encode_varint v) tp = Ok (tp_set (pid, v) tp)"
  by (simp add: tp_set_def tp_apply_def Let_def decode_varint_encoded)

lemma tp_decode_ints:
  assumes "list_all (\<lambda>(pid, v). pid \<noteq> 0 \<and> pid \<noteq> 15 \<and> pid \<le> 63 \<and> v \<le> VARINT_MAX) es"
    and "drop off buf = concat (map (\<lambda>(pid, v). put_int pid v) es) @ rest"
  shows "\<exists>off'. drop off' buf = rest \<and> tp_decode_from buf off tp = tp_decode_from buf off' (fold tp_set es tp)"
  using assms
proof (induction es arbitrary: off tp)
  case (Cons e es)
  obtain pid v where e: "e = (pid, v)" by force
  from Cons.prems varint_len_le [of v] have
    "\<exists>off'. drop off' buf = concat (map (\<lambda>(pid, v). put_int pid v) es) @ rest
       \<and> tp_decode_from buf off tp = tp_decode_from buf off' (tp_set e tp)"
    by (intro tp_decode_entry [where pid = pid and val = "encode_varint v"]) (auto simp: e put_int_def VARINT_MAX_def intro: tp_set_apply)
  with Cons.IH Cons.prems(1) show ?case by fastforce
qed auto

lemma tp_apply_cid:
  assumes "cid_opt_wf c" "pid = 0x00 \<or> pid = 0x0f"
    and "drop off buf = (case c of Some c \<Rightarrow> put_cid pid c | None \<Rightarrow> []) @ rest"
    and "upd = (if pid = 0x00 then original_dcid_update else initial_scid_update)"
  shows "\<exists>off'. drop off' buf = rest \<and>
    tp_decode_from buf off tp = tp_decode_from buf off' (case c of Some c \<Rightarrow> upd (\<lambda>_. Some c) tp | None \<Rightarrow> tp)"
proof (cases c)
  case (Some x)
  with assms have wf: "cid_wf x" by (simp add: cid_opt_wf_def)
  show ?thesis
    using assms(2-4) Some wf cid_new_slice [OF wf] length_cid_slice [OF wf]
    by (intro tp_decode_entry [of off buf pid "cid_slice x"])
      (auto simp: put_cid_def VARINT_MAX_def tp_apply_def Let_def cid_wf_def)
qed (use assms in auto)

lemma tp_read_back:
  assumes "tp_good tp"
  shows "tp_decode (tp_encode tp) = Ok tp"
proof -
  let ?es = "[(0x01 :: nat, max_idle_timeout_ms tp), (0x03, max_udp_payload_size tp), (0x04, initial_max_data tp),
    (0x05, initial_max_stream_data_bidi_local tp), (0x06, initial_max_stream_data_bidi_remote tp),
    (0x07, initial_max_stream_data_uni tp), (0x08, initial_max_streams_bidi tp), (0x09, initial_max_streams_uni tp),
    (0x20, max_datagram_frame_size tp)]"
  let ?buf = "tp_encode tp" and ?ints = "concat (map (\<lambda>(pid, v). put_int pid v) ?es)"
  let ?sc = "case initial_scid tp of Some c \<Rightarrow> put_cid 0x0f c | None \<Rightarrow> []"
  define tp1 where "tp1 = (case original_dcid tp of Some c \<Rightarrow> tp_unset\<lparr>original_dcid := Some c\<rparr> | None \<Rightarrow> tp_unset)"
  define tp2 where "tp2 = (case initial_scid tp of Some c \<Rightarrow> tp1\<lparr>initial_scid := Some c\<rparr> | None \<Rightarrow> tp1)"
  have wf: "cid_opt_wf (original_dcid tp)" "cid_opt_wf (initial_scid tp)"
    "list_all (\<lambda>(pid, v). pid \<noteq> 0 \<and> pid \<noteq> 15 \<and> pid \<le> 63 \<and> v \<le> VARINT_MAX) ?es"
    using assms by (simp_all add: tp_good_def)
  obtain o1 where "drop o1 ?buf = ?sc @ ?ints" and d1: "tp_decode_from ?buf 0 tp_unset = tp_decode_from ?buf o1 tp1"
    using tp_apply_cid [OF wf(1), of 0 0 ?buf "?sc @ ?ints"] by (auto simp: tp_encode_def tp1_def)
  then obtain o2 where "drop o2 ?buf = ?ints @ []" and d2: "tp_decode_from ?buf o1 tp1 = tp_decode_from ?buf o2 tp2"
    using tp_apply_cid [OF wf(2), of 15 o1 ?buf ?ints] by (auto simp: tp2_def)
  with tp_decode_ints [OF wf(3), of o2 ?buf "[]" tp2] obtain o3 where "drop o3 ?buf = []"
    and d3: "tp_decode_from ?buf o2 tp2 = tp_decode_from ?buf o3 (fold tp_set ?es tp2)" by blast
  then have "tp_decode ?buf = Ok (fold tp_set ?es tp2)"
    by (simp only: tp_decode_def d1 d2 d3) (simp add: tp_decode_from.simps)
  also have "fold tp_set ?es tp2 = tp"
    using wf(3) by (simp add: tp_set_def tp_apply_def decode_varint_encoded tp2_def tp1_def tp_unset_def split: option.splits)
  finally show ?thesis .
qed

section \<open>Properties\<close>

text \<open>C40: The payload of a packet built from any frames whose numbers fit a varint and whose data fit the frame limit is read
  back as those frames, with adjacent runs of padding merged; and decoding any payload of at most the frame limit, encoding the result
  and decoding again gives the same frames.\<close>
theorem quic_payload_roundtrip:
  "(list_all frame_good fs \<longrightarrow> decode_all (concat (map frame_encode fs)) = Ok (merge_padding fs)) \<and>
   (decode_all buf = Ok gs \<and> length buf \<le> MAX_FRAME_PAYLOAD \<longrightarrow> decode_all (concat (map frame_encode gs)) = Ok gs)"
  using payload_read_back [of fs] payload_read_back [of gs] decode_all_good [of buf gs] decode_all_merged [of buf gs] by simp

definition sample_frames :: "Frame list" where
  "sample_frames = [Ack 70 0 3 [\<lparr>gap = 1, ack_range = 5\<rparr>], StreamF 4 100 True [1, 2], Padding 1, Padding 2, ConnectionClose False 7 [65], DatagramF [9]]"

theorem quic_payload_roundtrip_witness:
  "decode_all (concat (map frame_encode sample_frames)) =
     Ok [Ack 70 0 3 [\<lparr>gap = 1, ack_range = 5\<rparr>], StreamF 4 100 True [1, 2], Padding 3, ConnectionClose False 7 [65], DatagramF [9]]"
proof -
  have "list_all frame_good sample_frames"
    by (simp add: sample_frames_def frame_good_def VARINT_MAX_def MAX_FRAME_PAYLOAD_def)
  moreover have "merge_padding sample_frames =
     [Ack 70 0 3 [\<lparr>gap = 1, ack_range = 5\<rparr>], StreamF 4 100 True [1, 2], Padding 3, ConnectionClose False 7 [65], DatagramF [9]]"
    by (simp add: sample_frames_def add_padding_def)
  ultimately show ?thesis using quic_payload_roundtrip [of sample_frames] by simp
qed

text \<open>The datagram without a length field is the one payload the frame limit does not bound.\<close>

lemma datagram_without_length_unbounded:
  "frame_decode (0x30 # replicate n 7) = Ok (DatagramF (replicate n 7), Suc n)"
  by (simp add: frame_decode_def)

end
