(* ===== verification/Quic_Recovery.thy ===== *)
theory Quic_Recovery
  imports Quic_Frame Ordered_Map
begin

text \<open>
  Loss detection and congestion control of the QUIC engine (\<^verbatim>\<open>lib/mb-quic/src/recovery.rs\<close>): the round-trip estimator,
  the NewReno window, the three packet-number spaces with the packets in flight, acknowledgements, the loss detector
  and the timer. Times are microseconds given by the caller. The subtractions on numbers a peer
  chooses wrap at 64 bits, as they do in the release build; the sums and products of bytes sent, bytes acknowledged and measured times
  are natural numbers, because they are bounded by what this endpoint has sent and by its clock.
\<close>

section \<open>Round-trip time\<close>

definition GRANULARITY_US :: nat where "GRANULARITY_US = 1000"
definition PACKET_THRESHOLD :: nat where "PACKET_THRESHOLD = 3"
definition INITIAL_RTT_US :: nat where "INITIAL_RTT_US = 333000"
definition MAX_DATAGRAM :: nat where "MAX_DATAGRAM = 1200"
definition INITIAL_WINDOW :: nat where "INITIAL_WINDOW = 10 * MAX_DATAGRAM"
definition MIN_WINDOW :: nat where "MIN_WINDOW = 2 * MAX_DATAGRAM"

record RttEstimator =
  rtt_latest :: nat
  rtt_min :: nat
  rtt_smoothed :: nat
  rttvar :: nat
  rtt_sampled :: bool

definition rtt_default :: RttEstimator where
  "rtt_default = \<lparr>rtt_latest = INITIAL_RTT_US, rtt_min = INITIAL_RTT_US, rtt_smoothed = INITIAL_RTT_US,
     rttvar = INITIAL_RTT_US div 2, rtt_sampled = False\<rparr>"

definition abs_diff :: "nat \<Rightarrow> nat \<Rightarrow> nat" where
  "abs_diff a b = (if a \<le> b then b - a else a - b)"

definition rtt_on_sample :: "RttEstimator \<Rightarrow> nat \<Rightarrow> nat \<Rightarrow> nat \<Rightarrow> RttEstimator" where
  "rtt_on_sample e rtt ack_delay max_ack_delay =
     (let e = e\<lparr>rtt_latest := rtt\<rparr>
      in if \<not> rtt_sampled e then e\<lparr>rtt_min := rtt, rtt_smoothed := rtt, rttvar := rtt div 2, rtt_sampled := True\<rparr>
         else let e = e\<lparr>rtt_min := min (rtt_min e) rtt\<rparr>;
                  delay = min ack_delay max_ack_delay;
                  adjusted = (if rtt \<ge> rtt_min e + delay then rtt - delay else rtt);
                  var_sample = abs_diff (rtt_smoothed e) adjusted
              in e\<lparr>rttvar := (rttvar e * 3 + var_sample) div 4, rtt_smoothed := (rtt_smoothed e * 7 + adjusted) div 8\<rparr>)"

definition pto_base :: "RttEstimator \<Rightarrow> nat \<Rightarrow> nat" where
  "pto_base e max_ack_delay = rtt_smoothed e + max (4 * rttvar e) GRANULARITY_US + max_ack_delay"

section \<open>Congestion control\<close>

record SentPacket =
  sp_pn :: nat
  time_sent :: nat
  sp_size :: nat
  ack_eliciting :: bool

record Congestion =
  cwnd :: nat
  bytes_in_flight :: nat
  ssthresh :: nat
  recovery_start :: nat

definition cc_default :: Congestion where
  "cc_default = \<lparr>cwnd = INITIAL_WINDOW, bytes_in_flight = 0, ssthresh = u64_max, recovery_start = 0\<rparr>"

definition cc_available :: "Congestion \<Rightarrow> nat" where
  "cc_available cc = cwnd cc - bytes_in_flight cc"

definition cc_on_sent :: "Congestion \<Rightarrow> nat \<Rightarrow> Congestion" where
  "cc_on_sent cc sz = cc\<lparr>bytes_in_flight := bytes_in_flight cc + sz\<rparr>"

definition cc_on_acked :: "Congestion \<Rightarrow> nat \<Rightarrow> Congestion" where
  "cc_on_acked cc sz =
     (let cc = cc\<lparr>bytes_in_flight := bytes_in_flight cc - sz\<rparr>
      in if cwnd cc < ssthresh cc then cc\<lparr>cwnd := cwnd cc + sz\<rparr>
         else cc\<lparr>cwnd := cwnd cc + MAX_DATAGRAM * sz div max (cwnd cc) 1\<rparr>)"

definition cc_on_loss :: "Congestion \<Rightarrow> nat \<Rightarrow> nat \<Rightarrow> Congestion" where
  "cc_on_loss cc lost_bytes largest_lost_sent =
     (let cc = cc\<lparr>bytes_in_flight := bytes_in_flight cc - lost_bytes\<rparr>
      in if largest_lost_sent \<le> recovery_start cc then cc
         else let th = max (cwnd cc div 2) MIN_WINDOW
              in cc\<lparr>recovery_start := largest_lost_sent, ssthresh := th, cwnd := th\<rparr>)"

section \<open>Packets in flight\<close>

record SpaceRecovery =
  sent :: "(nat, SentPacket) omap"
  largest_acked :: "nat option"
  loss_time :: "nat option"
  last_ack_eliciting :: "nat option"

definition space_default :: SpaceRecovery where
  "space_default = \<lparr>sent = [], largest_acked = None, loss_time = None, last_ack_eliciting = None\<rparr>"

record LossRecovery =
  lr_spaces :: "SpaceRecovery list"
  lr_rtt :: RttEstimator
  lr_cc :: Congestion
  pto_count :: nat
  lr_max_ack_delay :: nat

definition lr_default :: LossRecovery where
  "lr_default = \<lparr>lr_spaces = replicate 3 space_default, lr_rtt = rtt_default, lr_cc = cc_default, pto_count = 0,
     lr_max_ack_delay = 25000\<rparr>"

definition on_packet_sent :: "LossRecovery \<Rightarrow> nat \<Rightarrow> SentPacket \<Rightarrow> LossRecovery" where
  "on_packet_sent lr space pkt =
     (let s = lr_spaces lr ! space;
          s = (if ack_eliciting pkt then s\<lparr>last_ack_eliciting := Some (time_sent pkt)\<rparr> else s);
          s = s\<lparr>sent := om_put (sp_pn pkt) pkt (sent s)\<rparr>
      in lr\<lparr>lr_cc := cc_on_sent (lr_cc lr) (sp_size pkt), lr_spaces := (lr_spaces lr)[space := s]\<rparr>)"

text \<open>A subtraction on \<^verbatim>\<open>u64\<close> in the release build.\<close>

definition wrapping_sub :: "nat \<Rightarrow> nat \<Rightarrow> nat" where
  "wrapping_sub a b = (if b \<le> a then a - b else a + 2 ^ 64 - b)"

fun ack_blocks :: "nat \<Rightarrow> AckRange list \<Rightarrow> (nat \<times> nat) list" where
  "ack_blocks lo [] = []"
| "ack_blocks lo (r # rs) =
     (if lo < gap r + 2 then []
      else let hi = lo - gap r - 2;
               lo' = wrapping_sub hi (ack_range r)
           in (lo', hi) # ack_blocks lo' rs)"

definition acked_numbers :: "nat \<Rightarrow> nat \<Rightarrow> AckRange list \<Rightarrow> (nat \<times> nat) list" where
  "acked_numbers largest first_range ranges =
     (let lo = wrapping_sub largest first_range in (lo, largest) # ack_blocks lo ranges)"

text \<open>The loop \<^verbatim>\<open>for pn in lo..=hi\<close> over one block.\<close>

fun remove_numbers :: "nat list \<Rightarrow> (nat, SentPacket) omap \<Rightarrow> SentPacket list \<times> (nat, SentPacket) omap" where
  "remove_numbers [] m = ([], m)"
| "remove_numbers (pn # pns) m =
     (case om_get m pn of
        Some p \<Rightarrow> (case remove_numbers pns (om_del pn m) of (ps, m') \<Rightarrow> (p # ps, m'))
      | None \<Rightarrow> remove_numbers pns m)"

fun remove_blocks :: "(nat \<times> nat) list \<Rightarrow> (nat, SentPacket) omap \<Rightarrow> SentPacket list \<times> (nat, SentPacket) omap" where
  "remove_blocks [] m = ([], m)"
| "remove_blocks ((lo, hi) # bs) m =
     (case remove_numbers [lo..<Suc hi] m of (ps, m1) \<Rightarrow> case remove_blocks bs m1 of (qs, m2) \<Rightarrow> (ps @ qs, m2))"

definition option_max :: "nat option \<Rightarrow> nat \<Rightarrow> nat option" where
  "option_max v n = Some (case v of None \<Rightarrow> n | Some v \<Rightarrow> max v n)"

text \<open>\<^verbatim>\<open>max_by_key\<close> keeps the later of two equal elements.\<close>

fun newest_of :: "SentPacket list \<Rightarrow> SentPacket option" where
  "newest_of [] = None"
| "newest_of (p # ps) = (case newest_of ps of None \<Rightarrow> Some p | Some q \<Rightarrow> if sp_pn q < sp_pn p then Some p else Some q)"

definition on_ack :: "LossRecovery \<Rightarrow> nat \<Rightarrow> nat \<Rightarrow> nat \<Rightarrow> AckRange list \<Rightarrow> nat \<Rightarrow> nat \<Rightarrow> SentPacket list \<times> LossRecovery" where
  "on_ack lr space largest first_range ranges ack_delay now =
     (let s = lr_spaces lr ! space;
          s = s\<lparr>largest_acked := option_max (largest_acked s) largest\<rparr>
      in case remove_blocks (acked_numbers largest first_range ranges) (sent s) of
           (newly, m) \<Rightarrow>
             let lr = lr\<lparr>lr_spaces := (lr_spaces lr)[space := s\<lparr>sent := m\<rparr>]\<rparr>;
                 lr = (case newest_of (filter ack_eliciting newly) of
                         Some newest \<Rightarrow>
                           if sp_pn newest = largest
                           then lr\<lparr>lr_rtt := rtt_on_sample (lr_rtt lr) (now - time_sent newest) ack_delay (lr_max_ack_delay lr)\<rparr>
                           else lr
                       | None \<Rightarrow> lr);
                 lr = lr\<lparr>lr_cc := fold (\<lambda>p cc. cc_on_acked cc (sp_size p)) newly (lr_cc lr)\<rparr>
             in (newly, if newly \<noteq> [] then lr\<lparr>pto_count := 0\<rparr> else lr))"

definition loss_threshold :: "RttEstimator \<Rightarrow> nat" where
  "loss_threshold e = max (max (rtt_latest e) (rtt_smoothed e) * 9 div 8) GRANULARITY_US"

definition option_min :: "nat option \<Rightarrow> nat \<Rightarrow> nat option" where
  "option_min v n = Some (case v of None \<Rightarrow> n | Some v \<Rightarrow> min v n)"

text \<open>The loop over the numbers in flight, in their order: the lost packets, the rest, and the earliest time at which one
  of the rest is lost.\<close>

fun detect_loop :: "nat \<Rightarrow> nat \<Rightarrow> nat \<Rightarrow> (nat, SentPacket) omap \<Rightarrow> nat option \<Rightarrow>
    SentPacket list \<times> (nat, SentPacket) omap \<times> nat option" where
  "detect_loop largest threshold now [] nlt = ([], [], nlt)"
| "detect_loop largest threshold now ((pn, p) # m) nlt =
     (if pn \<ge> largest
      then case detect_loop largest threshold now m nlt of (ls, m', t) \<Rightarrow> (ls, (pn, p) # m', t)
      else let time_lost = time_sent p + threshold
           in if largest - pn \<ge> PACKET_THRESHOLD \<or> now \<ge> time_lost
              then case detect_loop largest threshold now m nlt of (ls, m', t) \<Rightarrow> (p # ls, m', t)
              else case detect_loop largest threshold now m (option_min nlt time_lost) of (ls, m', t) \<Rightarrow> (ls, (pn, p) # m', t))"

definition detect_lost :: "LossRecovery \<Rightarrow> nat \<Rightarrow> nat \<Rightarrow> SentPacket list \<times> LossRecovery" where
  "detect_lost lr space now =
     (let s = lr_spaces lr ! space
      in case largest_acked s of
           None \<Rightarrow> ([], lr)
         | Some largest \<Rightarrow>
             (case detect_loop largest (loss_threshold (lr_rtt lr)) now (sent s) None of
                (lost, m, nlt) \<Rightarrow>
                  let lr = lr\<lparr>lr_spaces := (lr_spaces lr)[space := s\<lparr>sent := m, loss_time := nlt\<rparr>]\<rparr>
                  in (lost,
                      if lost \<noteq> []
                      then lr\<lparr>lr_cc := cc_on_loss (lr_cc lr) (sum_list (map sp_size lost)) (Max (set (map time_sent lost)))\<rparr>
                      else lr)))"

definition somes :: "'a option list \<Rightarrow> 'a list" where
  "somes xs = concat (map (\<lambda>x. case x of None \<Rightarrow> [] | Some v \<Rightarrow> [v]) xs)"

definition loss_timer :: "LossRecovery \<Rightarrow> nat option" where
  "loss_timer lr =
     (let loss = somes (map loss_time (lr_spaces lr));
          last = somes (map last_ack_eliciting (lr_spaces lr))
      in if loss \<noteq> [] then Some (Min (set loss))
         else if last = [] then None
         else let pto = wrap64 (push_bit (pto_count lr mod 64) (pto_base (lr_rtt lr) (lr_max_ack_delay lr)))
              in Some (wrap64 (Max (set last) + pto)))"

definition on_pto_expired :: "LossRecovery \<Rightarrow> LossRecovery" where
  "on_pto_expired lr = lr\<lparr>pto_count := pto_count lr + 1\<rparr>"

section \<open>Accounting of the bytes in flight\<close>

definition flight :: "(nat, SentPacket) omap \<Rightarrow> nat" where
  "flight m = sum_list (map (sp_size \<circ> snd) m)"

definition space_ok :: "SpaceRecovery \<Rightarrow> bool" where
  "space_ok s \<longleftrightarrow> om_ok (sent s) \<and> list_all (\<lambda>(pn, p). sp_pn p = pn) (sent s)"

definition lr_inv :: "LossRecovery \<Rightarrow> bool" where
  "lr_inv lr \<longleftrightarrow> length (lr_spaces lr) = 3 \<and> list_all space_ok (lr_spaces lr)
     \<and> bytes_in_flight (lr_cc lr) = sum_list (map (flight \<circ> sent) (lr_spaces lr))
     \<and> MIN_WINDOW \<le> cwnd (lr_cc lr) \<and> MIN_WINDOW \<le> ssthresh (lr_cc lr)"

lemma flight_Cons [simp]: "flight ((k, p) # m) = sp_size p + flight m" "flight [] = 0"
  by (simp_all add: flight_def)

lemma flight_put: "om_get m k = None \<Longrightarrow> flight (om_put k p m) = sp_size p + flight m"
  by (induction m) (auto split: if_splits)

lemma flight_del: "om_ok m \<Longrightarrow> om_get m k = Some p \<Longrightarrow> flight m = sp_size p + flight (om_del k m)"
proof (induction m)
  case (Cons a m)
  obtain k' p' where a: "a = (k', p')" by (cases a)
  show ?case
  proof (cases "k = k'")
    case True
    have "om_del k m = m" using Cons.prems(1) True a by (auto simp: om_del_def filter_id_conv)
    with True Cons.prems a show ?thesis by (simp add: om_del_def)
  next
    case False
    with Cons a show ?thesis by (simp add: om_del_def)
  qed
qed simp

lemma remove_numbers_parts:
  assumes "remove_numbers pns m = (ps, m')" "om_ok m" "list_all (\<lambda>(pn, p). sp_pn p = pn) m"
  shows "om_ok m' \<and> set m' \<subseteq> set m \<and> flight m = sum_list (map sp_size ps) + flight m'
    \<and> (\<forall>p \<in> set ps. (sp_pn p, p) \<in> set m \<and> sp_pn p \<in> set pns) \<and> set (om_keys m') = set (om_keys m) - set pns"
  using assms
proof (induction pns arbitrary: m ps)
  case (Cons pn pns)
  show ?case
  proof (cases "om_get m pn")
    case None
    with Cons.IH [of m ps] Cons.prems om_get_None [of m pn] show ?thesis by auto
  next
    case (Some p)
    then obtain qs where q: "remove_numbers pns (om_del pn m) = (qs, m')" "ps = p # qs"
      using Cons.prems(1) by (auto split: prod.splits)
    have in_m: "(pn, p) \<in> set m" using Some by (rule map_of_SomeD)
    have sub: "set (om_del pn m) \<subseteq> set m" by (auto simp: om_del_def)
    then have "list_all (\<lambda>(pn, p). sp_pn p = pn) (om_del pn m)" using Cons.prems(3) by (auto simp: list_all_iff)
    note ih = Cons.IH [OF q(1) om_ok_del [OF Cons.prems(2)] this]
    have "sp_pn p = pn" using in_m Cons.prems(3) by (auto simp: list_all_iff)
    with ih q(2) flight_del [OF Cons.prems(2) Some] in_m sub set_om_keys_del [of pn m] show ?thesis by auto
  qed
qed auto

lemma remove_blocks_parts:
  assumes "remove_blocks bs m = (ps, m')" "om_ok m" "list_all (\<lambda>(pn, p). sp_pn p = pn) m"
  shows "om_ok m' \<and> set m' \<subseteq> set m \<and> flight m = sum_list (map sp_size ps) + flight m'
    \<and> (\<forall>p \<in> set ps. (sp_pn p, p) \<in> set m \<and> (\<exists>(lo, hi) \<in> set bs. lo \<le> sp_pn p \<and> sp_pn p \<le> hi))
    \<and> set (om_keys m') = {k \<in> set (om_keys m). \<forall>(lo, hi) \<in> set bs. \<not> (lo \<le> k \<and> k \<le> hi)}"
  using assms
proof (induction bs arbitrary: m ps)
  case (Cons b bs)
  obtain lo hi where b: "b = (lo, hi)" by (cases b)
  with Cons.prems(1) obtain qs m1 rs where q: "remove_numbers [lo..<Suc hi] m = (qs, m1)" "remove_blocks bs m1 = (rs, m')" "ps = qs @ rs"
    by (auto split: prod.splits)
  note p = remove_numbers_parts [OF q(1) Cons.prems(2,3)]
  then have "list_all (\<lambda>(pn, p). sp_pn p = pn) m1" using Cons.prems(3) by (auto simp: list_all_iff)
  note ih = Cons.IH [OF q(2) conjunct1 [OF p] this]
  have "set (om_keys m') = {k \<in> set (om_keys m). \<forall>(lo, hi) \<in> set (b # bs). \<not> (lo \<le> k \<and> k \<le> hi)}"
    using ih p by (auto simp: b less_Suc_eq_le)
  moreover have "\<forall>p \<in> set ps. (sp_pn p, p) \<in> set m \<and> (\<exists>(lo, hi) \<in> set (b # bs). lo \<le> sp_pn p \<and> sp_pn p \<le> hi)"
    using ih p q(3) by (auto simp: b less_Suc_eq_le)
  ultimately show ?case using ih p q(3) by auto
qed auto

lemma fold_on_acked:
  "bytes_in_flight (fold (\<lambda>p cc. cc_on_acked cc (sp_size p)) ps cc) = bytes_in_flight cc - sum_list (map sp_size ps)
   \<and> cwnd cc \<le> cwnd (fold (\<lambda>p cc. cc_on_acked cc (sp_size p)) ps cc)
   \<and> ssthresh (fold (\<lambda>p cc. cc_on_acked cc (sp_size p)) ps cc) = ssthresh cc"
proof (induction ps arbitrary: cc)
  case (Cons p ps)
  have "cwnd cc \<le> cwnd (cc_on_acked cc (sp_size p))" "ssthresh (cc_on_acked cc (sp_size p)) = ssthresh cc"
    "bytes_in_flight (cc_on_acked cc (sp_size p)) = bytes_in_flight cc - sp_size p"
    by (simp_all add: cc_on_acked_def Let_def)
  with Cons [of "cc_on_acked cc (sp_size p)"] show ?case by simp
qed simp

text \<open>One space replaced: what leaves it leaves the total.\<close>

lemma flight_replace:
  assumes "i < length ss"
  shows "sum_list (map (flight \<circ> sent) (ss[i := s])) + flight (sent (ss ! i)) = sum_list (map (flight \<circ> sent) ss) + flight (sent s)"
proof -
  have "flight (sent (ss ! i)) \<le> sum_list (map (flight \<circ> sent) ss)"
    using assms member_le_sum_list [of "flight (sent (ss ! i))" "map (flight \<circ> sent) ss"] by auto
  with assms show ?thesis by (simp add: map_update sum_list_update)
qed

lemma list_all_update: "list_all P xs \<Longrightarrow> P x \<Longrightarrow> list_all P (xs[i := x])"
  using set_update_subset_insert [of xs i x] by (auto simp: list_all_iff)

lemma lr_inv_space: "lr_inv lr \<Longrightarrow> i < 3 \<Longrightarrow> space_ok (lr_spaces lr ! i)"
  by (simp add: lr_inv_def list_all_length)

lemma lr_inv_update:
  assumes "lr_inv lr" "i < 3" "space_ok s"
    and "bytes_in_flight cc + flight (sent (lr_spaces lr ! i)) = bytes_in_flight (lr_cc lr) + flight (sent s)"
    and "MIN_WINDOW \<le> cwnd cc" "MIN_WINDOW \<le> ssthresh cc"
    and "lr_spaces lr' = (lr_spaces lr)[i := s]" "lr_cc lr' = cc"
  shows "lr_inv lr'"
proof -
  have "sum_list (map (flight \<circ> sent) ((lr_spaces lr)[i := s])) + flight (sent (lr_spaces lr ! i))
      = sum_list (map (flight \<circ> sent) (lr_spaces lr)) + flight (sent s)"
    using flight_replace [of i "lr_spaces lr" s] assms(1,2) by (simp add: lr_inv_def)
  with assms show ?thesis by (simp add: lr_inv_def list_all_update)
qed

lemma flight_le:
  "lr_inv lr \<Longrightarrow> i < 3 \<Longrightarrow> flight (sent (lr_spaces lr ! i)) \<le> bytes_in_flight (lr_cc lr)"
  using member_le_sum_list [of "flight (sent (lr_spaces lr ! i))" "map (flight \<circ> sent) (lr_spaces lr)"]
  by (auto simp: lr_inv_def)

lemma on_packet_sent_inv:
  assumes "lr_inv lr" "i < 3" "om_get (sent (lr_spaces lr ! i)) (sp_pn p) = None"
  shows "lr_inv (on_packet_sent lr i p)"
proof -
  let ?s = "lr_spaces lr ! i"
  let ?s' = "(if ack_eliciting p then ?s\<lparr>last_ack_eliciting := Some (time_sent p)\<rparr> else ?s)\<lparr>sent := om_put (sp_pn p) p (sent ?s)\<rparr>"
  have "space_ok ?s'"
    using lr_inv_space [OF assms(1,2)] by (auto simp: space_ok_def list_all_iff set_om_put_fresh [OF assms(3)])
  then show ?thesis
    using assms by (intro lr_inv_update [OF assms(1,2), of ?s' "cc_on_sent (lr_cc lr) (sp_size p)"])
      (simp_all add: cc_on_sent_def flight_put on_packet_sent_def Let_def lr_inv_def)
qed

lemma on_ack_parts:
  assumes "on_ack lr i largest first_range ranges delay now = (newly, lr')"
  obtains m where "remove_blocks (acked_numbers largest first_range ranges) (sent (lr_spaces lr ! i)) = (newly, m)"
    "lr_spaces lr' = (lr_spaces lr)[i := (lr_spaces lr ! i)\<lparr>largest_acked := option_max (largest_acked (lr_spaces lr ! i)) largest, sent := m\<rparr>]"
    "lr_cc lr' = fold (\<lambda>p cc. cc_on_acked cc (sp_size p)) newly (lr_cc lr)"
    "pto_count lr' = (if newly \<noteq> [] then 0 else pto_count lr)"
  using assms that
  by (cases "remove_blocks (acked_numbers largest first_range ranges) (sent (lr_spaces lr ! i))")
    (auto simp: on_ack_def Let_def split: option.splits if_splits)

lemma on_ack_inv:
  assumes "on_ack lr i largest first_range ranges delay now = (newly, lr')" "lr_inv lr" "i < 3"
  shows "lr_inv lr'"
proof -
  from assms(1) obtain m where m: "remove_blocks (acked_numbers largest first_range ranges) (sent (lr_spaces lr ! i)) = (newly, m)"
    "lr_spaces lr' = (lr_spaces lr)[i := (lr_spaces lr ! i)\<lparr>largest_acked := option_max (largest_acked (lr_spaces lr ! i)) largest, sent := m\<rparr>]"
    "lr_cc lr' = fold (\<lambda>p cc. cc_on_acked cc (sp_size p)) newly (lr_cc lr)"
    by (rule on_ack_parts)
  have ok: "om_ok (sent (lr_spaces lr ! i))" "list_all (\<lambda>(pn, p). sp_pn p = pn) (sent (lr_spaces lr ! i))"
    using lr_inv_space [OF assms(2,3)] by (simp_all add: space_ok_def)
  note p = remove_blocks_parts [OF m(1) ok]
  then have "space_ok ((lr_spaces lr ! i)\<lparr>largest_acked := option_max (largest_acked (lr_spaces lr ! i)) largest, sent := m\<rparr>)"
    using ok by (auto simp: space_ok_def list_all_iff)
  from lr_inv_update [OF assms(2,3) this _ _ _ m(2,3)] p fold_on_acked [of newly "lr_cc lr"] flight_le [OF assms(2,3)] assms(2)
  show ?thesis by (simp add: lr_inv_def)
qed

section \<open>What the loss detector declares\<close>

definition is_lost :: "nat \<Rightarrow> nat \<Rightarrow> nat \<Rightarrow> nat \<times> SentPacket \<Rightarrow> bool" where
  "is_lost largest threshold now e \<longleftrightarrow>
     fst e < largest \<and> (largest - fst e \<ge> PACKET_THRESHOLD \<or> now \<ge> time_sent (snd e) + threshold)"

lemma detect_loop_eq:
  "detect_loop largest threshold now m nlt =
     (map snd (filter (is_lost largest threshold now) m),
      filter (\<lambda>e. \<not> is_lost largest threshold now e) m,
      fold (\<lambda>e t. option_min t (time_sent (snd e) + threshold))
        (filter (\<lambda>e. fst e < largest \<and> \<not> is_lost largest threshold now e) m) nlt)"
  by (induction largest threshold now m nlt rule: detect_loop.induct) (auto simp: is_lost_def Let_def)

lemma fold_option_min:
  "fold (\<lambda>e t. option_min t (f e)) xs nlt = Some t \<Longrightarrow>
     (nlt = Some t \<or> (\<exists>e \<in> set xs. f e = t)) \<and> (\<forall>e \<in> set xs. t \<le> f e) \<and> (\<forall>u. nlt = Some u \<longrightarrow> t \<le> u)"
proof (induction xs arbitrary: nlt)
  case (Cons x xs)
  from Cons.IH [of "option_min nlt (f x)"] Cons.prems show ?case
    by (cases nlt) (auto simp: option_min_def min_def split: if_splits)
qed simp

lemma flight_filter: "flight m = sum_list (map sp_size (map snd (filter P m))) + flight (filter (\<lambda>e. \<not> P e) m)"
  by (induction m) (auto simp: flight_def)

lemma space_ok_filter: "space_ok s \<Longrightarrow> sent s' = filter P (sent s) \<Longrightarrow> space_ok s'"
  by (auto simp: space_ok_def om_ok_def list_all_iff sorted_wrt_map sorted_wrt_filter)

lemma detect_lost_parts:
  assumes "detect_lost lr i now = (lost, lr')" "largest_acked (lr_spaces lr ! i) = Some largest" "i < length (lr_spaces lr)"
  shows "lost = map snd (filter (is_lost largest (loss_threshold (lr_rtt lr)) now) (sent (lr_spaces lr ! i)))"
    "sent (lr_spaces lr' ! i) = filter (\<lambda>e. \<not> is_lost largest (loss_threshold (lr_rtt lr)) now e) (sent (lr_spaces lr ! i))"
    "lr_spaces lr' = (lr_spaces lr)[i := lr_spaces lr' ! i]" "lr_rtt lr' = lr_rtt lr"
    "lr_cc lr' = (if lost = [] then lr_cc lr else cc_on_loss (lr_cc lr) (sum_list (map sp_size lost)) (Max (set (map time_sent lost))))"
    "loss_time (lr_spaces lr' ! i) = fold (\<lambda>e t. option_min t (time_sent (snd e) + loss_threshold (lr_rtt lr)))
        (filter (\<lambda>e. fst e < largest \<and> \<not> is_lost largest (loss_threshold (lr_rtt lr)) now e) (sent (lr_spaces lr ! i))) None"
    "largest_acked (lr_spaces lr' ! i) = Some largest"
  using assms by (auto simp: detect_lost_def Let_def detect_loop_eq image_image simp del: filter_filter split: if_splits)

lemma cc_on_loss_parts:
  "bytes_in_flight (cc_on_loss cc b t) = bytes_in_flight cc - b"
  "MIN_WINDOW \<le> cwnd cc \<Longrightarrow> MIN_WINDOW \<le> cwnd (cc_on_loss cc b t)"
  "MIN_WINDOW \<le> ssthresh cc \<Longrightarrow> MIN_WINDOW \<le> ssthresh (cc_on_loss cc b t)"
  by (simp_all add: cc_on_loss_def Let_def)

lemma detect_lost_inv:
  assumes "detect_lost lr i now = (lost, lr')" "lr_inv lr" "i < 3"
  shows "lr_inv lr'"
proof (cases "largest_acked (lr_spaces lr ! i)")
  case None
  with assms show ?thesis by (simp add: detect_lost_def Let_def)
next
  case (Some largest)
  let ?P = "is_lost largest (loss_threshold (lr_rtt lr)) now" and ?s = "lr_spaces lr ! i" and ?s' = "lr_spaces lr' ! i"
  have len: "i < length (lr_spaces lr)" using assms by (simp add: lr_inv_def)
  note p = detect_lost_parts [OF assms(1) Some len]
  have s': "space_ok ?s'" using space_ok_filter [OF lr_inv_space [OF assms(2,3)] p(2)] .
  have fl: "flight (sent ?s) = sum_list (map sp_size lost) + flight (sent ?s')"
    unfolding p(1,2) by (rule flight_filter)
  have "bytes_in_flight (lr_cc lr') + flight (sent ?s) = bytes_in_flight (lr_cc lr) + flight (sent ?s')"
    using fl flight_le [OF assms(2,3)] by (simp add: p(5) cc_on_loss_parts)
  moreover have "MIN_WINDOW \<le> cwnd (lr_cc lr')" "MIN_WINDOW \<le> ssthresh (lr_cc lr')"
    using assms(2) by (simp_all add: p(5) lr_inv_def cc_on_loss_parts)
  ultimately show ?thesis by (intro lr_inv_update [OF assms(2,3) s' _ _ _ p(3) refl])
qed

text \<open>The timer is not in the past, and when it fires the detector has something to declare.\<close>

lemma loss_time_fires:
  assumes "detect_lost lr i now = (lost, lr')" "lr_inv lr" "i < 3" "loss_time (lr_spaces lr' ! i) = Some t"
    and "largest_acked (lr_spaces lr ! i) = Some largest"
  shows "now < t" "fst (detect_lost lr' i t) \<noteq> []"
proof -
  let ?th = "loss_threshold (lr_rtt lr)"
  have len: "i < length (lr_spaces lr)" "i < length (lr_spaces lr')"
    using assms(2,3) detect_lost_inv [OF assms(1-3)] by (simp_all add: lr_inv_def)
  note p = detect_lost_parts [OF assms(1,5) len(1)]
  from fold_option_min [OF assms(4) [unfolded p(6)]] obtain e where
    e: "e \<in> set (sent (lr_spaces lr ! i))" "fst e < largest" "\<not> is_lost largest ?th now e" "time_sent (snd e) + ?th = t"
    by auto
  then show "now < t" by (auto simp: is_lost_def)
  have "e \<in> set (sent (lr_spaces lr' ! i))" using e by (simp add: p(2))
  moreover have "is_lost largest ?th t e" using e by (simp add: is_lost_def)
  moreover note p(7)
  moreover obtain l2 lr2 where d2: "detect_lost lr' i t = (l2, lr2)" by (cases "detect_lost lr' i t")
  ultimately have "snd e \<in> set (fst (detect_lost lr' i t))"
    using detect_lost_parts(1) [OF d2 _ len(2), of largest] p(4) by auto
  then show "fst (detect_lost lr' i t) \<noteq> []" by force
qed

section \<open>Runs of the recovery state\<close>

datatype RecoveryOp =
    SentOp nat SentPacket
  | AckOp nat nat nat "AckRange list" nat nat
  | DetectOp nat nat
  | PtoOp

definition recovery_step :: "LossRecovery \<Rightarrow> RecoveryOp \<Rightarrow> LossRecovery" where
  "recovery_step lr op =
     (case op of
        SentOp i p \<Rightarrow> on_packet_sent lr i p
      | AckOp i largest first_range ranges delay now \<Rightarrow> snd (on_ack lr i largest first_range ranges delay now)
      | DetectOp i now \<Rightarrow> snd (detect_lost lr i now)
      | PtoOp \<Rightarrow> on_pto_expired lr)"

text \<open>The caller names one of the three spaces and gives every packet a new number.\<close>

definition recovery_op_ok :: "LossRecovery \<Rightarrow> RecoveryOp \<Rightarrow> bool" where
  "recovery_op_ok lr op =
     (case op of
        SentOp i p \<Rightarrow> i < 3 \<and> om_get (sent (lr_spaces lr ! i)) (sp_pn p) = None
      | AckOp i _ _ _ _ _ \<Rightarrow> i < 3
      | DetectOp i _ \<Rightarrow> i < 3
      | PtoOp \<Rightarrow> True)"

fun recovery_run :: "LossRecovery \<Rightarrow> RecoveryOp list \<Rightarrow> LossRecovery option" where
  "recovery_run lr [] = Some lr"
| "recovery_run lr (op # ops) = (if recovery_op_ok lr op then recovery_run (recovery_step lr op) ops else None)"

lemma on_pto_expired_inv: "lr_inv lr \<Longrightarrow> lr_inv (on_pto_expired lr)"
  by (simp add: on_pto_expired_def lr_inv_def)

lemma recovery_step_inv: "lr_inv lr \<Longrightarrow> recovery_op_ok lr op \<Longrightarrow> lr_inv (recovery_step lr op)"
proof (cases op)
  case (AckOp i l f rs d n)
  assume "lr_inv lr" "recovery_op_ok lr op"
  with AckOp on_ack_inv [of lr i l f rs d n] show ?thesis
    by (cases "on_ack lr i l f rs d n") (simp add: recovery_step_def recovery_op_ok_def)
next
  case (DetectOp i n)
  assume "lr_inv lr" "recovery_op_ok lr op"
  with DetectOp detect_lost_inv [of lr i n] show ?thesis
    by (cases "detect_lost lr i n") (simp add: recovery_step_def recovery_op_ok_def)
qed (auto simp: recovery_step_def recovery_op_ok_def on_packet_sent_inv on_pto_expired_inv)

lemma lr_default_inv: "lr_inv lr_default"
  by (simp add: lr_inv_def lr_default_def space_default_def space_ok_def cc_default_def MIN_WINDOW_def INITIAL_WINDOW_def
      MAX_DATAGRAM_def u64_max_def numeral_3_eq_3)

lemma recovery_run_inv: "recovery_run lr ops = Some lr' \<Longrightarrow> lr_inv lr \<Longrightarrow> lr_inv lr'"
  by (induction ops arbitrary: lr) (auto split: if_splits intro: recovery_step_inv)

section \<open>The numbers an acknowledgement names\<close>

text \<open>The reader of an acknowledgement in the sense of the protocol: every range lies below the previous one with its gap.\<close>

fun ranges_ok :: "nat \<Rightarrow> AckRange list \<Rightarrow> bool" where
  "ranges_ok lo [] \<longleftrightarrow> True"
| "ranges_ok lo (r # rs) \<longleftrightarrow> gap r + 2 + ack_range r \<le> lo \<and> ranges_ok (lo - gap r - 2 - ack_range r) rs"

definition ack_ok :: "nat \<Rightarrow> nat \<Rightarrow> AckRange list \<Rightarrow> bool" where
  "ack_ok largest first_range ranges \<longleftrightarrow> first_range \<le> largest \<and> ranges_ok (largest - first_range) ranges"

lemma ack_blocks_descend:
  "ranges_ok lo rs \<Longrightarrow> length (ack_blocks lo rs) = length rs \<and> (\<forall>(a, b) \<in> set (ack_blocks lo rs). a \<le> b \<and> b + 2 \<le> lo)
     \<and> sorted_wrt (\<lambda>x y. snd y + 2 \<le> fst x) (ack_blocks lo rs)"
proof (induction rs arbitrary: lo)
  case (Cons r rs)
  let ?hi = "lo - gap r - 2"
  have "wrapping_sub ?hi (ack_range r) = ?hi - ack_range r" "\<not> lo < gap r + 2" using Cons.prems by (auto simp: wrapping_sub_def)
  with Cons.IH [of "?hi - ack_range r"] Cons.prems show ?case by (fastforce simp: Let_def)
qed simp

lemma acked_numbers_descend:
  assumes "ack_ok largest first_range ranges"
  shows "length (acked_numbers largest first_range ranges) = Suc (length ranges)"
    "\<forall>(a, b) \<in> set (acked_numbers largest first_range ranges). a \<le> b \<and> b \<le> largest"
    "sorted_wrt (\<lambda>x y. snd y + 2 \<le> fst x) (acked_numbers largest first_range ranges)"
  using assms ack_blocks_descend [of "largest - first_range" ranges]
  by (fastforce simp: acked_numbers_def ack_ok_def wrapping_sub_def Let_def)+

text \<open>Nothing checks an acknowledgement before it is used: a first range above the largest number wraps, and the
  number of steps of the loop is chosen by the peer, whatever was sent.\<close>

lemma acked_numbers_wraps: "acked_numbers 0 1 [] = [(2 ^ 64 - 1, 0)]"
  by (simp add: acked_numbers_def wrapping_sub_def)

lemma ack_loop_length: "f \<le> l \<Longrightarrow> length [wrapping_sub l f..<Suc l] = Suc f"
  by (simp add: wrapping_sub_def)

text \<open>The numbers never sent are accepted too: everything in flight then counts as lost.\<close>

lemma unsent_ack_loses_all:
  assumes "i < length (lr_spaces lr)" "largest_acked (lr_spaces lr ! i) = Some largest"
    and "\<forall>e \<in> set (sent (lr_spaces lr ! i)). fst e + PACKET_THRESHOLD \<le> largest"
  shows "fst (detect_lost lr i now) = map snd (sent (lr_spaces lr ! i))"
proof (cases "detect_lost lr i now")
  case (Pair lost lr')
  have "filter (is_lost largest (loss_threshold (lr_rtt lr)) now) (sent (lr_spaces lr ! i)) = sent (lr_spaces lr ! i)"
    using assms(3) by (auto simp: filter_id_conv is_lost_def PACKET_THRESHOLD_def)
  with detect_lost_parts(1) [OF Pair assms(2,1)] Pair show ?thesis by simp
qed

section \<open>What leaves the table of packets in flight\<close>

lemma remove_numbers_keys:
  "remove_numbers pns m = (ps, m') \<Longrightarrow> om_ok m \<Longrightarrow> list_all (\<lambda>(pn, p). sp_pn p = pn) m \<Longrightarrow>
     set (om_keys m) = set (om_keys m') \<union> sp_pn ` set ps"
proof (induction pns arbitrary: m ps)
  case (Cons pn pns)
  show ?case
  proof (cases "om_get m pn")
    case None
    with Cons show ?thesis by simp
  next
    case (Some p)
    then obtain qs where q: "remove_numbers pns (om_del pn m) = (qs, m')" "ps = p # qs"
      using Cons.prems(1) by (auto split: prod.splits)
    have in_m: "(pn, p) \<in> set m" using Some by (rule map_of_SomeD)
    have "list_all (\<lambda>(pn, p). sp_pn p = pn) (om_del pn m)" using Cons.prems(3) by (auto simp: list_all_iff om_del_def)
    from Cons.IH [OF q(1) om_ok_del [OF Cons.prems(2)] this]
    have "set (om_keys m) - {pn} = set (om_keys m') \<union> sp_pn ` set qs" by (simp only: set_om_keys_del)
    moreover have "sp_pn p = pn" using in_m Cons.prems(3) by (auto simp: list_all_iff)
    moreover have "pn \<in> set (om_keys m)" using Some om_get_Some [of m pn] by simp
    ultimately show ?thesis unfolding q(2) list.set image_insert by blast
  qed
qed simp

lemma remove_blocks_keys:
  "remove_blocks bs m = (ps, m') \<Longrightarrow> om_ok m \<Longrightarrow> list_all (\<lambda>(pn, p). sp_pn p = pn) m \<Longrightarrow>
     set (om_keys m) = set (om_keys m') \<union> sp_pn ` set ps"
proof (induction bs arbitrary: m ps)
  case (Cons b bs)
  then obtain lo hi qs m1 rs where q: "remove_numbers [lo..<Suc hi] m = (qs, m1)" "remove_blocks bs m1 = (rs, m')" "ps = qs @ rs"
    by (cases b) (auto split: prod.splits)
  note p = remove_numbers_parts [OF q(1) Cons.prems(2,3)]
  then have "list_all (\<lambda>(pn, p). sp_pn p = pn) m1" using Cons.prems(3) by (auto simp: list_all_iff)
  with Cons.IH [OF q(2) conjunct1 [OF p]] remove_numbers_keys [OF q(1) Cons.prems(2,3)] q(3) show ?case by auto
qed simp

lemma on_ack_keys:
  assumes "on_ack lr i largest first_range ranges delay now = (newly, lr')" "lr_inv lr" "i < 3"
  shows "j < 3 \<Longrightarrow> set (om_keys (sent (lr_spaces lr ! j))) =
    set (om_keys (sent (lr_spaces lr' ! j))) \<union> (if j = i then sp_pn ` set newly else {})"
proof -
  assume "j < 3"
  from assms(1) obtain m where m: "remove_blocks (acked_numbers largest first_range ranges) (sent (lr_spaces lr ! i)) = (newly, m)"
    "lr_spaces lr' = (lr_spaces lr)[i := (lr_spaces lr ! i)\<lparr>largest_acked := option_max (largest_acked (lr_spaces lr ! i)) largest, sent := m\<rparr>]"
    by (rule on_ack_parts)
  have "om_ok (sent (lr_spaces lr ! i))" "list_all (\<lambda>(pn, p). sp_pn p = pn) (sent (lr_spaces lr ! i))"
    using lr_inv_space [OF assms(2,3)] by (simp_all add: space_ok_def)
  from remove_blocks_keys [OF m(1) this] m(2) assms(2,3) show ?thesis by (simp add: lr_inv_def nth_list_update)
qed

lemma detect_lost_keys:
  assumes "detect_lost lr i now = (lost, lr')" "lr_inv lr" "i < 3"
  shows "j < 3 \<Longrightarrow> set (om_keys (sent (lr_spaces lr ! j))) =
    set (om_keys (sent (lr_spaces lr' ! j))) \<union> (if j = i then sp_pn ` set lost else {})"
proof (cases "largest_acked (lr_spaces lr ! i)")
  case None
  assume "j < 3"
  with None assms show ?thesis by (simp add: detect_lost_def Let_def)
next
  case (Some largest)
  assume j: "j < 3"
  have len: "i < length (lr_spaces lr)" using assms(2,3) by (simp add: lr_inv_def)
  note p = detect_lost_parts [OF assms(1) Some len]
  have k: "list_all (\<lambda>(pn, p). sp_pn p = pn) (sent (lr_spaces lr ! i))"
    using lr_inv_space [OF assms(2,3)] by (simp add: space_ok_def)
  show ?thesis
  proof (cases "j = i")
    case True
    show ?thesis unfolding True if_P [OF refl] p(1,2) using k by (force simp: list_all_iff)
  next
    case False
    have "lr_spaces lr' ! j = lr_spaces lr ! j" by (subst p(3)) (simp add: False [symmetric])
    with False show ?thesis by simp
  qed
qed

lemma on_packet_sent_keys:
  "lr_inv lr \<Longrightarrow> i < 3 \<Longrightarrow> j < 3 \<Longrightarrow> set (om_keys (sent (lr_spaces (on_packet_sent lr i p) ! j))) =
     (if j = i then insert (sp_pn p) (set (om_keys (sent (lr_spaces lr ! j)))) else set (om_keys (sent (lr_spaces lr ! j))))"
  by (simp add: on_packet_sent_def Let_def lr_inv_def nth_list_update set_om_keys_put del: set_map)

section \<open>Properties\<close>

text \<open>After any sequence of transmissions with fresh packet numbers, acknowledgements (with any numbers a
  peer may put in them), loss detections and timer expirations, the bytes in flight are exactly the sizes of the packets in
  the tables of the three spaces, and the congestion window and the slow-start threshold never fall below two datagrams.\<close>

lemma quic_bytes_in_flight_exact:
  assumes "recovery_run lr_default ops = Some lr"
  shows "bytes_in_flight (lr_cc lr) = sum_list (map (\<lambda>s. sum_list (map (sp_size \<circ> snd) (sent s))) (lr_spaces lr))
    \<and> MIN_WINDOW \<le> cwnd (lr_cc lr) \<and> MIN_WINDOW \<le> ssthresh (lr_cc lr)"
  using recovery_run_inv [OF assms lr_default_inv] by (simp add: lr_inv_def flight_def comp_def)

definition sample_recovery :: "RecoveryOp list" where
  "sample_recovery =
     [SentOp 2 \<lparr>sp_pn = 0, time_sent = 10, sp_size = 100, ack_eliciting = True\<rparr>,
      SentOp 2 \<lparr>sp_pn = 1, time_sent = 20, sp_size = 200, ack_eliciting = True\<rparr>,
      SentOp 2 \<lparr>sp_pn = 2, time_sent = 30, sp_size = 300, ack_eliciting = True\<rparr>,
      AckOp 2 1 0 [] 0 1000]"

lemmas recovery_eval = recovery_step_def recovery_op_ok_def lr_default_def space_default_def cc_default_def rtt_default_def
  u64_max_def on_packet_sent_def on_ack_def acked_numbers_def wrapping_sub_def option_max_def rtt_on_sample_def cc_on_sent_def
  cc_on_acked_def om_del_def INITIAL_WINDOW_def MAX_DATAGRAM_def Let_def numeral_3_eq_3 numeral_2_eq_2

lemma sample_recovery_run:
  "map_option (\<lambda>lr. (bytes_in_flight (lr_cc lr), map (om_keys \<circ> sent) (lr_spaces lr))) (recovery_run lr_default sample_recovery)
     = Some (400, [[], [], [0, 2]])"
  by (simp add: sample_recovery_def recovery_eval)

lemma quic_bytes_in_flight_exact_example:
  "map_option (\<lambda>lr. bytes_in_flight (lr_cc lr) = sum_list (map (\<lambda>s. sum_list (map (sp_size \<circ> snd) (sent s))) (lr_spaces lr))
     \<and> MIN_WINDOW \<le> cwnd (lr_cc lr)) (recovery_run lr_default sample_recovery) = Some True"
proof -
  obtain lr where "recovery_run lr_default sample_recovery = Some lr"
    using sample_recovery_run by (cases "recovery_run lr_default sample_recovery") auto
  with quic_bytes_in_flight_exact [OF this] show ?thesis by simp
qed

text \<open>The loss timer makes progress. The detector declares lost exactly the packets below the largest acknowledged number that
  are three numbers behind it or older than the threshold; if it leaves a deadline, that lies in the future, and at the
  deadline it has at least one more packet to declare.\<close>

lemma quic_loss_timer_fires:
  assumes "recovery_run lr_default ops = Some lr" "i < 3" "largest_acked (lr_spaces lr ! i) = Some largest"
    and "detect_lost lr i now = (lost, lr')"
  shows "lost = map snd (filter (is_lost largest (loss_threshold (lr_rtt lr)) now) (sent (lr_spaces lr ! i)))
    \<and> (loss_time (lr_spaces lr' ! i) = Some t \<longrightarrow> now < t \<and> fst (detect_lost lr' i t) \<noteq> [])"
proof -
  from recovery_run_inv [OF assms(1) lr_default_inv] have inv: "lr_inv lr" .
  then have "i < length (lr_spaces lr)" using assms(2) by (simp add: lr_inv_def)
  from detect_lost_parts(1) [OF assms(4,3) this] loss_time_fires [OF assms(4) inv assms(2) _ assms(3)] show ?thesis by blast
qed

lemma quic_loss_timer_fires_example:
  "map_option (\<lambda>lr. let (lost, lr') = detect_lost lr 2 1000 in
      lost = [] \<and> (case loss_time (lr_spaces lr' ! 2) of None \<Rightarrow> False | Some t \<Rightarrow> 1000 < t \<and> fst (detect_lost lr' 2 t) \<noteq> []))
    (recovery_run lr_default sample_recovery) = Some True"
proof -
  have facts: "map_option (\<lambda>lr. (largest_acked (lr_spaces lr ! 2), fst (detect_lost lr 2 1000),
      loss_time (lr_spaces (snd (detect_lost lr 2 1000)) ! 2))) (recovery_run lr_default sample_recovery) = Some (Some 1, [], Some 1112)"
    by (simp add: sample_recovery_def recovery_eval detect_lost_def loss_threshold_def option_min_def PACKET_THRESHOLD_def
        GRANULARITY_US_def)
  then obtain lr where lr: "recovery_run lr_default sample_recovery = Some lr"
    by (cases "recovery_run lr_default sample_recovery") auto
  obtain lost lr' where d: "detect_lost lr 2 1000 = (lost, lr')" by (cases "detect_lost lr 2 1000")
  have "largest_acked (lr_spaces lr ! 2) = Some 1" "lost = []" "loss_time (lr_spaces lr' ! 2) = Some 1112"
    using facts lr d by simp_all
  with quic_loss_timer_fires [OF lr _ _ d, of 1 1112] lr d show ?thesis by simp
qed

end
