(* ===== verification/Quic_Stream.thy ===== *)
theory Quic_Stream
  imports Quic_Packet Ordered_Map "HOL-Library.Multiset"
begin

text \<open>
  Streams, flow control and datagrams of the QUIC engine (\<^verbatim>\<open>lib/mb-quic/src/stream.rs\<close>,
  \<^verbatim>\<open>lib/mb-quic/src/flow_control.rs\<close>, \<^verbatim>\<open>lib/mb-quic/src/datagram.rs\<close>): the receive reassembler, the send buffer, the table of
  streams, the credit windows and the datagram queues. Whatever the network drops, repeats or reorders, the bytes a
  reader gets are a prefix of the bytes the writer wrote.
\<close>

datatype Side = Client | Server

section \<open>Stream identifiers\<close>

definition sid_initiator :: "nat \<Rightarrow> Side" where
  "sid_initiator i = (if i AND 0x1 = 0 then Client else Server)"

definition sid_is_bidi :: "nat \<Rightarrow> bool" where
  "sid_is_bidi i \<longleftrightarrow> i AND 0x2 = 0"

definition sid_is_locally_initiated :: "nat \<Rightarrow> Side \<Rightarrow> bool" where
  "sid_is_locally_initiated i side \<longleftrightarrow> sid_initiator i = side"

definition sid_nth :: "Side \<Rightarrow> bool \<Rightarrow> nat \<Rightarrow> nat" where
  "sid_nth side bidi idx =
     (let v = push_bit 2 idx;
          v = (if side = Server then v OR 0x1 else v)
      in if \<not> bidi then v OR 0x2 else v)"

section \<open>The receive reassembler\<close>

record RecvStream =
  chunks :: "(nat, bytes) omap"
  read_off :: nat
  final_size :: "nat option"
  stopped :: bool

definition recv_default :: RecvStream where
  "recv_default = \<lparr>chunks = [], read_off = 0, final_size = None, stopped = False\<rparr>"

definition recv_ingest :: "RecvStream \<Rightarrow> nat \<Rightarrow> bytes \<Rightarrow> bool \<Rightarrow> RecvStream" where
  "recv_ingest r offset data fin =
     (let r = (if fin then r\<lparr>final_size := Some (offset + length data)\<rparr> else r);
          hend = offset + length data
      in if hend \<le> read_off r \<or> data = [] then r
         else let start = max offset (read_off r)
              in case om_get (chunks r) start of
                   Some _ \<Rightarrow> r
                 | None \<Rightarrow> r\<lparr>chunks := om_put start (drop (start - offset) data) (chunks r)\<rparr>)"

text \<open>The loop of \<^verbatim>\<open>read\<close>, which the CRYPTO stream of the connection repeats: take chunks off the front of the map while
  they do not leave a gap.\<close>

fun drain_chunks :: "(nat, bytes) omap \<Rightarrow> nat \<Rightarrow> bytes \<times> (nat, bytes) omap \<times> nat" where
  "drain_chunks [] pos = ([], [], pos)"
| "drain_chunks ((off, data) # m) pos =
     (if off > pos then ([], (off, data) # m, pos)
      else let skip = pos - off
           in if skip < length data
              then case drain_chunks m (pos + (length data - skip)) of (out, m', pos') \<Rightarrow> (drop skip data @ out, m', pos')
              else drain_chunks m pos)"

definition recv_read :: "RecvStream \<Rightarrow> bytes \<times> RecvStream" where
  "recv_read r = (case drain_chunks (chunks r) (read_off r) of (out, m, pos) \<Rightarrow> (out, r\<lparr>chunks := m, read_off := pos\<rparr>))"

definition recv_is_finished :: "RecvStream \<Rightarrow> bool" where
  "recv_is_finished r = (case final_size r of Some fs \<Rightarrow> fs \<le> read_off r | None \<Rightarrow> False)"

definition recv_stop :: "RecvStream \<Rightarrow> RecvStream" where
  "recv_stop r = r\<lparr>stopped := True\<rparr>"

definition recv_has_readable :: "RecvStream \<Rightarrow> bool" where
  "recv_has_readable r =
     ((case chunks r of [] \<Rightarrow> False | (off, _) # _ \<Rightarrow> off \<le> read_off r) \<or>
      (case final_size r of Some fs \<Rightarrow> read_off r < fs | None \<Rightarrow> False))"

section \<open>The send buffer\<close>

record SendStream =
  queued :: bytes
  send_off :: nat
  send_fin :: bool
  fin_sent :: bool

definition send_default :: SendStream where
  "send_default = \<lparr>queued = [], send_off = 0, send_fin = False, fin_sent = False\<rparr>"

definition send_write :: "SendStream \<Rightarrow> bytes \<Rightarrow> bool \<Rightarrow> SendStream" where
  "send_write s data fin =
     (let s = s\<lparr>queued := queued s @ data\<rparr> in if fin then s\<lparr>send_fin := True\<rparr> else s)"

definition has_pending :: "SendStream \<Rightarrow> bool" where
  "has_pending s \<longleftrightarrow> queued s \<noteq> [] \<or> (send_fin s \<and> \<not> fin_sent s)"

definition send_take :: "SendStream \<Rightarrow> nat \<Rightarrow> (nat \<times> bytes \<times> bool) option \<times> SendStream" where
  "send_take s mx =
     (if \<not> has_pending s then (None, s)
      else let n = min (length (queued s)) mx;
               chunk = take n (queued s);
               off = send_off s;
               s = s\<lparr>queued := drop n (queued s), send_off := off + n\<rparr>;
               fin = (send_fin s \<and> queued s = []);
               s = (if fin then s\<lparr>fin_sent := True\<rparr> else s)
           in (Some (off, chunk, fin), s))"

section \<open>The table of streams\<close>

text \<open>The program never looks at the order of its \<^verbatim>\<open>HashMap\<close>: the two iterations sort their result. The table is
  therefore an ordered map.\<close>

record Stream =
  stream_send :: SendStream
  stream_recv :: RecvStream

definition stream_default :: Stream where
  "stream_default = \<lparr>stream_send = send_default, stream_recv = recv_default\<rparr>"

definition MAX_CONCURRENT_STREAMS :: nat where
  "MAX_CONCURRENT_STREAMS = 256"

record StreamMap =
  sm_side :: Side
  sm_streams :: "(nat, Stream) omap"
  next_bidi :: nat
  next_uni :: nat
  peer_max_bidi :: nat
  peer_max_uni :: nat

definition sm_new :: "Side \<Rightarrow> nat \<Rightarrow> nat \<Rightarrow> StreamMap" where
  "sm_new side mb mu =
     \<lparr>sm_side = side, sm_streams = [], next_bidi = 0, next_uni = 0, peer_max_bidi = mb, peer_max_uni = mu\<rparr>"

definition sm_set_peer_max :: "StreamMap \<Rightarrow> bool \<Rightarrow> nat \<Rightarrow> StreamMap" where
  "sm_set_peer_max m bidi v =
     (if bidi then (if v > peer_max_bidi m then m\<lparr>peer_max_bidi := v\<rparr> else m)
      else (if v > peer_max_uni m then m\<lparr>peer_max_uni := v\<rparr> else m))"

definition sm_open :: "StreamMap \<Rightarrow> bool \<Rightarrow> nat option \<times> StreamMap" where
  "sm_open m bidi =
     (let idx = (if bidi then next_bidi m else next_uni m);
          limit = (if bidi then peer_max_bidi m else peer_max_uni m)
      in if idx \<ge> limit then (None, m)
         else let m = (if bidi then m\<lparr>next_bidi := idx + 1\<rparr> else m\<lparr>next_uni := idx + 1\<rparr>);
                  i = sid_nth (sm_side m) bidi idx
              in (Some i, m\<lparr>sm_streams := om_put i stream_default (sm_streams m)\<rparr>))"

text \<open>\<^verbatim>\<open>entry\<close> hands out a mutable reference: the caller reads the stream and stores it back changed.\<close>

definition sm_entry :: "StreamMap \<Rightarrow> nat \<Rightarrow> Stream" where
  "sm_entry m i = (case om_get (sm_streams m) i of Some s \<Rightarrow> s | None \<Rightarrow> stream_default)"

definition sm_update :: "StreamMap \<Rightarrow> nat \<Rightarrow> (Stream \<Rightarrow> Stream) \<Rightarrow> StreamMap" where
  "sm_update m i f = m\<lparr>sm_streams := om_put i (f (sm_entry m i)) (sm_streams m)\<rparr>"

definition would_exceed_cap :: "StreamMap \<Rightarrow> nat \<Rightarrow> bool" where
  "would_exceed_cap m i \<longleftrightarrow> om_get (sm_streams m) i = None \<and> length (sm_streams m) \<ge> MAX_CONCURRENT_STREAMS"

definition sm_sendable :: "StreamMap \<Rightarrow> nat list" where
  "sm_sendable m = map fst (filter (\<lambda>(_, s). has_pending (stream_send s)) (sm_streams m))"

definition sm_readable :: "StreamMap \<Rightarrow> nat list" where
  "sm_readable m = map fst (filter (\<lambda>(_, s). recv_has_readable (stream_recv s)) (sm_streams m))"

section \<open>Flow control\<close>

record FlowController =
  limit :: nat
  used :: nat

definition fc_new :: "nat \<Rightarrow> FlowController" where
  "fc_new l = \<lparr>limit = l, used = 0\<rparr>"

definition fc_available :: "FlowController \<Rightarrow> nat" where
  "fc_available fc = limit fc - used fc"

definition fc_consume :: "FlowController \<Rightarrow> nat \<Rightarrow> bool \<times> FlowController" where
  "fc_consume fc n = (if n > fc_available fc then (False, fc) else (True, fc\<lparr>used := used fc + n\<rparr>))"

definition fc_set_limit :: "FlowController \<Rightarrow> nat \<Rightarrow> FlowController" where
  "fc_set_limit fc l = (if l > limit fc then fc\<lparr>limit := l\<rparr> else fc)"

definition fc_maybe_extend :: "FlowController \<Rightarrow> nat \<Rightarrow> nat option \<times> FlowController" where
  "fc_maybe_extend fc window =
     (if (limit fc - used fc) * 2 \<le> window
      then (Some (used fc + window), fc\<lparr>limit := used fc + window\<rparr>)
      else (None, fc))"

section \<open>Datagrams\<close>

record DatagramQueue =
  outgoing :: "bytes list"
  incoming :: "bytes list"
  max_queued :: nat
  max_recv :: nat

definition dq_new :: "nat \<Rightarrow> DatagramQueue" where
  "dq_new depth = \<lparr>outgoing = [], incoming = [], max_queued = depth, max_recv = depth\<rparr>"

definition dq_queue_outgoing :: "DatagramQueue \<Rightarrow> bytes \<Rightarrow> bool \<times> DatagramQueue" where
  "dq_queue_outgoing q d =
     (if length (outgoing q) \<ge> max_queued q then (False, q) else (True, q\<lparr>outgoing := outgoing q @ [d]\<rparr>))"

fun take_fitting :: "bytes list \<Rightarrow> nat \<Rightarrow> bytes option \<times> bytes list" where
  "take_fitting [] mx = (None, [])"
| "take_fitting (d # ds) mx = (if length d \<le> mx then (Some d, ds) else take_fitting ds mx)"

definition dq_take_outgoing :: "DatagramQueue \<Rightarrow> nat \<Rightarrow> bytes option \<times> DatagramQueue" where
  "dq_take_outgoing q mx = (case take_fitting (outgoing q) mx of (d, ds) \<Rightarrow> (d, q\<lparr>outgoing := ds\<rparr>))"

definition dq_ingest :: "DatagramQueue \<Rightarrow> bytes \<Rightarrow> DatagramQueue" where
  "dq_ingest q d =
     (let inc = (if length (incoming q) \<ge> max_recv q then drop 1 (incoming q) else incoming q)
      in q\<lparr>incoming := inc @ [d]\<rparr>)"

definition dq_recv :: "DatagramQueue \<Rightarrow> bytes option \<times> DatagramQueue" where
  "dq_recv q = (case incoming q of [] \<Rightarrow> (None, q) | d # ds \<Rightarrow> (Some d, q\<lparr>incoming := ds\<rparr>))"

section \<open>Identifiers\<close>

lemma sid_nth_eq: "sid_nth side bidi i = 4 * i + (if side = Server then 1 else 0) + (if bidi then 0 else 2)"
proof -
  have "(1 :: nat) OR 2 = 3" by simp
  then show ?thesis
    using push_bit_or_nat [of 0 2 i] push_bit_or_nat [of 1 2 i] push_bit_or_nat [of 2 2 i] push_bit_or_nat [of 3 2 i]
    by (cases side; cases bidi) (simp_all add: sid_nth_def Let_def or.assoc)
qed

lemma sid_initiator_eq: "sid_initiator i = (if i mod 2 = 0 then Client else Server)"
  by (simp add: sid_initiator_def and_one_eq)

section \<open>Pieces of a byte sequence\<close>

definition fits :: "bytes \<Rightarrow> nat \<Rightarrow> bytes \<Rightarrow> bool" where
  "fits T off d \<longleftrightarrow> off + length d \<le> length T \<and> d = slice T off (length d)"

lemma slice_split: "slice T p (a + b) = slice T p a @ slice T (p + a) b"
  by (simp add: slice_def take_add add.commute)

lemma fits_drop: "fits T off d \<Longrightarrow> k \<le> length d \<Longrightarrow> fits T (off + k) (drop k d)"
proof -
  assume f: "fits T off d" and k: "k \<le> length d"
  have "slice T (off + k) (length d - k) = drop k (slice T off (length d))" by (simp add: slice_def drop_take add.commute)
  then show ?thesis using f k unfolding fits_def by simp
qed

lemma fits_append: "fits (P @ d @ Q) (length P) d"
  by (simp add: fits_def slice_def)

lemma drain_chunks_fits:
  assumes "drain_chunks m pos = (out, m', pos')" "\<forall>(off, d) \<in> set m. fits T off d" "pos \<le> length T"
  shows "pos \<le> pos' \<and> pos' \<le> length T \<and> out = slice T pos (pos' - pos) \<and> set m' \<subseteq> set m"
  using assms
proof (induction m pos arbitrary: out rule: drain_chunks.induct)
  case (1 pos)
  then show ?case by (simp add: slice_def)
next
  case (2 off data m pos)
  consider "off > pos" | "off \<le> pos" "length data \<le> pos - off" | "off \<le> pos" "pos - off < length data" by linarith
  then show ?case
  proof cases
    case 1
    with 2 show ?thesis by (auto simp: slice_def)
  next
    case c: 2
    with 2 show ?thesis by fastforce
  next
    case 3
    let ?skip = "pos - off" and ?pos = "pos + (length data - (pos - off))"
    from 3 "2.prems"(1) obtain out' where d: "drain_chunks m ?pos = (out', m', pos')" "out = drop ?skip data @ out'"
      by (auto split: prod.splits)
    have f: "fits T pos (drop ?skip data)" using fits_drop [of T off data ?skip] "2.prems"(2) 3 by simp
    then have "?pos \<le> length T" using 3 by (simp add: fits_def)
    with "2.IH"(1) [of ?skip out'] 3 d "2.prems"(2) have
      ih: "?pos \<le> pos'" "pos' \<le> length T" "out' = slice T ?pos (pos' - ?pos)" "set m' \<subseteq> set m" by auto
    have "slice T pos (pos' - pos) = slice T pos (length data - ?skip) @ slice T ?pos (pos' - ?pos)"
      using ih(1) by (simp flip: slice_split)
    moreover have "drop ?skip data = slice T pos (length data - ?skip)" using f by (simp add: fits_def)
    ultimately show ?thesis using ih d(2) by auto
  qed
qed

lemma drain_chunks_suffix: "drain_chunks m pos = (out, m', pos') \<Longrightarrow> \<exists>pre. m = pre @ m'"
proof (induction m pos arbitrary: out rule: drain_chunks.induct)
  case (2 off data m pos)
  then show ?case by (auto simp: Let_def split: if_splits prod.splits) (metis append_Cons)+
qed simp

lemma om_ok_append: "om_ok (a @ b) \<Longrightarrow> om_ok b"
  by (simp add: om_ok_def sorted_wrt_append)

text \<open>Nothing that a chunk reaches stays behind: the cursor passes every byte covered without a gap.\<close>

lemma drain_chunks_covers:
  assumes "drain_chunks m pos = (out, m', pos')" "om_ok m"
    and "\<forall>p. pos \<le> p \<and> p < N \<longrightarrow> (\<exists>(off, d) \<in> set m. off \<le> p \<and> p < off + length d)"
  shows "N \<le> pos'"
  using assms
proof (induction m pos arbitrary: out rule: drain_chunks.induct)
  case (1 pos)
  then show ?case by (cases "N \<le> pos") (auto dest: spec [of _ pos])
next
  case (2 off data m pos)
  show ?case
  proof (cases "off > pos")
    case True
    have "N \<le> pos"
    proof (rule ccontr)
      assume "\<not> N \<le> pos"
      with "2.prems"(3) [rule_format, of pos] have "\<exists>k d. (k, d) \<in> set ((off, data) # m) \<and> k \<le> pos" by auto
      then obtain k d where "(k, d) \<in> set ((off, data) # m)" "k \<le> pos" by blast
      with "2.prems"(2) True show False by force
    qed
    with True "2.prems"(1) show ?thesis by simp
  next
    case False
    define pos2 where "pos2 = (if pos - off < length data then pos + (length data - (pos - off)) else pos)"
    have cover: "\<exists>(k, d) \<in> set m. k \<le> p \<and> p < k + length d" if "pos2 \<le> p" "p < N" for p
    proof -
      have "pos \<le> p" "\<not> p < off + length data" using that False by (auto simp: pos2_def split: if_splits)
      with "2.prems"(3) [rule_format, of p] that(2) show ?thesis by auto
    qed
    obtain out' where "drain_chunks m pos2 = (out', m', pos')"
      using "2.prems"(1) False by (auto simp: pos2_def Let_def split: if_splits prod.splits)
    with "2.IH"(1) [OF _ refl, of out'] "2.IH"(2) [OF _ refl, of out'] False "2.prems"(2) cover show ?thesis
      unfolding pos2_def by (cases "pos - off < length data") simp_all
  qed
qed

section \<open>Delivery over a network that drops, repeats and reorders\<close>

text \<open>The writer's side: application writes and frames taken for the wire, in any order. The reader's side: frames that
  arrive and reads of the application.\<close>

datatype SendOp = WriteOp bytes bool | TakeOp nat

datatype RecvOp = Deliver nat bytes bool | ReadOp

fun send_run :: "SendStream \<Rightarrow> SendOp list \<Rightarrow> (nat \<times> bytes \<times> bool) list \<times> SendStream" where
  "send_run s [] = ([], s)"
| "send_run s (WriteOp d fin # ops) = send_run (send_write s d fin) ops"
| "send_run s (TakeOp mx # ops) =
     (case send_take s mx of
        (None, s') \<Rightarrow> send_run s' ops
      | (Some f, s') \<Rightarrow> (case send_run s' ops of (fs, s'') \<Rightarrow> (f # fs, s'')))"

fun recv_run :: "RecvStream \<Rightarrow> RecvOp list \<Rightarrow> bytes \<times> RecvStream" where
  "recv_run r [] = ([], r)"
| "recv_run r (Deliver off d fin # ops) = recv_run (recv_ingest r off d fin) ops"
| "recv_run r (ReadOp # ops) =
     (case recv_read r of (out, r') \<Rightarrow> case recv_run r' ops of (outs, r'') \<Rightarrow> (out @ outs, r''))"

fun written :: "SendOp list \<Rightarrow> bytes" where
  "written [] = []"
| "written (WriteOp d _ # ops) = d @ written ops"
| "written (TakeOp _ # ops) = written ops"

definition delivers :: "(nat \<times> bytes \<times> bool) set \<Rightarrow> RecvOp list \<Rightarrow> bool" where
  "delivers F ops \<longleftrightarrow> list_all (\<lambda>r. case r of Deliver off d fin \<Rightarrow> (off, d, fin) \<in> F | ReadOp \<Rightarrow> True) ops"

lemma send_take_parts:
  assumes "send_take s mx = (Some (off, d, fin), s')"
  shows "off = send_off s" "queued s = d @ queued s'" "send_off s' = send_off s + length d"
    "send_fin s' = send_fin s" "fin \<longleftrightarrow> send_fin s \<and> queued s' = []"
  using assms by (auto simp: send_take_def Let_def split: if_splits)

lemma send_take_none: "send_take s mx = (None, s') \<Longrightarrow> s' = s \<and> queued s = []"
  by (auto simp: send_take_def Let_def has_pending_def split: if_splits)

lemma send_write_parts [simp]:
  "queued (send_write s d fin) = queued s @ d" "send_off (send_write s d fin) = send_off s"
  "send_fin (send_write s d fin) \<longleftrightarrow> send_fin s \<or> fin"
  by (simp_all add: send_write_def Let_def)

lemma send_run_TakeE:
  assumes "send_run s (TakeOp mx # ops) = (fs, s')"
  obtains "send_run s ops = (fs, s')"
  | off d fin s1 gs where "send_take s mx = (Some (off, d, fin), s1)" "send_run s1 ops = (gs, s')" "fs = (off, d, fin) # gs"
proof (cases "send_take s mx")
  case (Pair f s1)
  show ?thesis
  proof (cases f)
    case None
    with Pair assms send_take_none [of s mx s1] that(1) show ?thesis by simp
  next
    case (Some x)
    with Pair assms that(2) show ?thesis by (cases x) (auto split: prod.splits)
  qed
qed

text \<open>The frames of a writer cut the written bytes into consecutive pieces.\<close>

lemma send_run_cuts:
  "send_run s ops = (fs, s') \<Longrightarrow>
     concat (map (fst \<circ> snd) fs) @ queued s' = queued s @ written ops
     \<and> send_off s' = send_off s + length (concat (map (fst \<circ> snd) fs))"
proof (induction ops arbitrary: s fs)
  case (Cons op ops)
  show ?case
  proof (cases op)
    case (WriteOp d fin)
    with Cons.IH [of "send_write s d fin"] Cons.prems show ?thesis by simp
  next
    case (TakeOp mx)
    with Cons.prems have "send_run s (TakeOp mx # ops) = (fs, s')" by simp
    then show ?thesis
    proof (cases rule: send_run_TakeE)
      case 1
      with Cons.IH show ?thesis by (simp add: TakeOp)
    next
      case (2 off d fin s1 gs)
      with Cons.IH [of s1 gs] send_take_parts [OF 2(1)] show ?thesis by (simp add: TakeOp)
    qed
  qed
qed simp

fun consecutive :: "nat \<Rightarrow> (nat \<times> bytes \<times> bool) list \<Rightarrow> bool" where
  "consecutive p [] \<longleftrightarrow> True"
| "consecutive p ((off, d, _) # fs) \<longleftrightarrow> off = p \<and> consecutive (p + length d) fs"

lemma send_run_consecutive: "send_run s ops = (fs, s') \<Longrightarrow> consecutive (send_off s) fs"
proof (induction ops arbitrary: s fs)
  case (Cons op ops)
  show ?case
  proof (cases op)
    case (WriteOp d fin)
    with Cons.IH [of "send_write s d fin"] Cons.prems show ?thesis by simp
  next
    case (TakeOp mx)
    with Cons.prems have "send_run s (TakeOp mx # ops) = (fs, s')" by simp
    then show ?thesis
    proof (cases rule: send_run_TakeE)
      case 1
      with Cons.IH show ?thesis by simp
    next
      case (2 off d fin s1 gs)
      with Cons.IH [of s1 gs] send_take_parts [OF 2(1)] show ?thesis by simp
    qed
  qed
qed simp

lemma consecutive_fits:
  "consecutive (length P) fs \<Longrightarrow> (off, d, fin) \<in> set fs \<Longrightarrow> fits (P @ concat (map (fst \<circ> snd) fs) @ Q) off d"
proof (induction fs arbitrary: P)
  case (Cons f fs)
  obtain o1 d1 b where f: "f = (o1, d1, b)" by (cases f)
  show ?case
  proof (cases "(off, d, fin) = f")
    case True
    with Cons.prems f show ?thesis using fits_append [of P d1] by simp
  next
    case False
    with Cons.prems(2) have "(off, d, fin) \<in> set fs" by auto
    with Cons.prems(1) Cons.IH [of "P @ d1"] f show ?thesis by simp
  qed
qed simp

lemma consecutive_bounds: "consecutive p fs \<Longrightarrow> (off, d, fin) \<in> set fs \<Longrightarrow> p \<le> off"
  by (induction fs arbitrary: p) (force dest: add_leD1)+

lemma consecutive_disjoint:
  assumes "consecutive p fs" "(o1, d1, f1) \<in> set fs" "(o2, d2, f2) \<in> set fs"
    and "o1 \<le> q" "q < o1 + length d1" "o2 \<le> q" "q < o2 + length d2"
  shows "o1 + length d1 = o2 + length d2"
  using assms
proof (induction fs arbitrary: p)
  case (Cons f fs)
  obtain o3 d3 b where f: "f = (o3, d3, b)" by (cases f)
  have "\<And>off d fin. (off, d, fin) \<in> set fs \<Longrightarrow> o3 + length d3 \<le> off"
    using Cons.prems(1) consecutive_bounds [of "o3 + length d3" fs] f by auto
  with Cons.IH [of "o3 + length d3"] Cons.prems f show ?case by fastforce
qed simp

lemma consecutive_covers:
  "consecutive p fs \<Longrightarrow> p \<le> q \<Longrightarrow> q < p + length (concat (map (fst \<circ> snd) fs)) \<Longrightarrow>
     \<exists>(off, d, fin) \<in> set fs. off \<le> q \<and> q < off + length d"
proof (induction fs arbitrary: p)
  case (Cons f fs)
  obtain o3 d3 b where f: "f = (o3, d3, b)" by (cases f)
  show ?case
  proof (cases "q < p + length d3")
    case True
    with Cons.prems f show ?thesis by auto
  next
    case False
    with Cons.IH [of "p + length d3"] Cons.prems f show ?thesis by auto
  qed
qed simp

text \<open>The state of the reader: every chunk is a piece of the stream that ends where one of the frames ends.\<close>

definition good_chunk :: "bytes \<Rightarrow> (nat \<times> bytes \<times> bool) set \<Rightarrow> nat \<Rightarrow> bytes \<Rightarrow> bool" where
  "good_chunk T F k ch \<longleftrightarrow>
     fits T k ch \<and> ch \<noteq> [] \<and> (\<exists>off d fin. (off, d, fin) \<in> F \<and> off \<le> k \<and> k + length ch = off + length d)"

definition recv_inv :: "bytes \<Rightarrow> (nat \<times> bytes \<times> bool) set \<Rightarrow> RecvStream \<Rightarrow> bool" where
  "recv_inv T F r \<longleftrightarrow> om_ok (chunks r) \<and> read_off r \<le> length T \<and>
     (\<forall>(k, ch) \<in> set (chunks r). good_chunk T F k ch)"

text \<open>Frames that share a byte end at the same place.\<close>

definition apart :: "(nat \<times> bytes \<times> bool) set \<Rightarrow> bool" where
  "apart F \<longleftrightarrow> (\<forall>o1 d1 f1 o2 d2 f2 q. (o1, d1, f1) \<in> F \<longrightarrow> (o2, d2, f2) \<in> F \<longrightarrow> o1 \<le> q \<longrightarrow> q < o1 + length d1 \<longrightarrow>
     o2 \<le> q \<longrightarrow> q < o2 + length d2 \<longrightarrow> o1 + length d1 = o2 + length d2)"

definition byte_covered :: "RecvStream \<Rightarrow> nat \<Rightarrow> bool" where
  "byte_covered r p \<longleftrightarrow> p < read_off r \<or> (\<exists>(k, ch) \<in> set (chunks r). k \<le> p \<and> p < k + length ch)"

lemma recv_ingest_read_off [simp]: "read_off (recv_ingest r off d fin) = read_off r"
  by (simp add: recv_ingest_def Let_def split: option.splits)

lemma recv_ingest_chunks:
  "chunks (recv_ingest r off d fin) =
     (if off + length d \<le> read_off r \<or> d = [] then chunks r
      else let start = max off (read_off r)
           in case om_get (chunks r) start of
                Some _ \<Rightarrow> chunks r
              | None \<Rightarrow> om_put start (drop (start - off) d) (chunks r))"
  by (simp add: recv_ingest_def Let_def split: option.splits)

lemma recv_ingest_inv:
  assumes "recv_inv T F r" "(off, d, fin) \<in> F" "fits T off d"
  shows "recv_inv T F (recv_ingest r off d fin)"
proof (cases "off + length d \<le> read_off r \<or> d = [] \<or> om_get (chunks r) (max off (read_off r)) \<noteq> None")
  case True
  then have "chunks (recv_ingest r off d fin) = chunks r" by (auto simp: recv_ingest_chunks Let_def)
  with assms(1) show ?thesis by (simp add: recv_inv_def)
next
  case False
  define start where "start = max off (read_off r)"
  have st: "off \<le> start" "start < off + length d" using False by (auto simp: start_def)
  from False have ch: "chunks (recv_ingest r off d fin) = om_put start (drop (start - off) d) (chunks r)"
    and fresh: "om_get (chunks r) start = None" by (auto simp: recv_ingest_chunks Let_def start_def)
  have "fits T start (drop (start - off) d)" using fits_drop [OF assms(3), of "start - off"] st by simp
  moreover have "drop (start - off) d \<noteq> []" "start + length (drop (start - off) d) = off + length d" using st by auto
  ultimately have "good_chunk T F start (drop (start - off) d)" unfolding good_chunk_def using assms(2) st(1) by blast
  with assms(1) show ?thesis by (auto simp: recv_inv_def ch set_om_put_fresh [OF fresh])
qed

lemma recv_ingest_covers_old: "byte_covered r p \<Longrightarrow> byte_covered (recv_ingest r off d fin) p"
  by (auto simp: byte_covered_def recv_ingest_chunks Let_def set_om_put_fresh split: option.splits)

lemma recv_ingest_covers_new:
  assumes "recv_inv T F r" "(off, d, fin) \<in> F" "off \<le> p" "p < off + length d"
    and "apart F"
  shows "byte_covered (recv_ingest r off d fin) p"
proof (cases "p < read_off r")
  case True
  then show ?thesis by (simp add: byte_covered_def)
next
  case False
  define start where "start = max off (read_off r)"
  have st: "off \<le> start" "start \<le> p" "start < off + length d" "\<not> off + length d \<le> read_off r" "d \<noteq> []"
    using False assms(3,4) by (auto simp: start_def)
  show ?thesis
  proof (cases "om_get (chunks r) start")
    case None
    with st have "(start, drop (start - off) d) \<in> set (chunks (recv_ingest r off d fin))"
      by (simp add: recv_ingest_chunks Let_def set_om_put_fresh flip: start_def)
    moreover have "p < start + length (drop (start - off) d)" using st assms(4) by simp
    ultimately show ?thesis using st(2) unfolding byte_covered_def by blast
  next
    case (Some ch)
    then have ch: "(start, ch) \<in> set (chunks r)" by (rule map_of_SomeD)
    with assms(1) have "good_chunk T F start ch" by (auto simp: recv_inv_def)
    then obtain o2 d2 f2 where "(o2, d2, f2) \<in> F" "o2 \<le> start" "start + length ch = o2 + length d2" "ch \<noteq> []"
      unfolding good_chunk_def by blast
    then have "off + length d = start + length ch"
      using assms(5) [unfolded apart_def, rule_format, OF assms(2), of o2 d2 f2 start] st by (cases ch) simp_all
    moreover have "chunks (recv_ingest r off d fin) = chunks r" using Some by (simp add: recv_ingest_chunks Let_def flip: start_def)
    ultimately show ?thesis using ch st assms(4) by (auto simp: byte_covered_def)
  qed
qed

lemma drain_chunks_drops:
  "drain_chunks m pos = (out, m', pos') \<Longrightarrow> (k, ch) \<in> set m \<Longrightarrow> (k, ch) \<notin> set m' \<Longrightarrow> k + length ch \<le> pos' \<and> pos \<le> pos'"
proof (induction m pos arbitrary: out rule: drain_chunks.induct)
  case (2 off data m pos)
  have mono: "drain_chunks m a = (b, c, e) \<Longrightarrow> a \<le> e" for a b c e
    by (induction m a arbitrary: b rule: drain_chunks.induct) (fastforce simp: Let_def split: if_splits prod.splits)+
  show ?case
  proof (cases "off > pos")
    case True
    with 2 show ?thesis by simp
  next
    case False
    show ?thesis
    proof (cases "pos - off < length data")
      case True
      with False "2.prems"(1) obtain o2 where "drain_chunks m (pos + (length data - (pos - off))) = (o2, m', pos')"
        by (auto simp: Let_def split: prod.splits)
      with "2.IH"(1) [OF False refl True, of o2] "2.prems"(2,3) False True mono [OF this] show ?thesis by auto
    next
      case f: False
      with False "2.prems"(1) have "drain_chunks m pos = (out, m', pos')" by simp
      with "2.IH"(2) [OF False refl f, of out] "2.prems"(2,3) False f mono [OF this] show ?thesis by auto
    qed
  qed
qed simp

lemma recv_read_parts:
  assumes "recv_read r = (out, r')" "recv_inv T F r"
  shows "out = slice T (read_off r) (read_off r' - read_off r)" "read_off r \<le> read_off r'" "recv_inv T F r'"
    "final_size r' = final_size r" "byte_covered r p \<Longrightarrow> byte_covered r' p"
    "(\<And>p. p < N \<Longrightarrow> byte_covered r p) \<Longrightarrow> N \<le> read_off r'"
proof -
  obtain m pos where d: "drain_chunks (chunks r) (read_off r) = (out, m, pos)" and r': "r' = r\<lparr>chunks := m, read_off := pos\<rparr>"
    using assms(1) by (auto simp: recv_read_def split: prod.splits)
  have "\<forall>(off, d) \<in> set (chunks r). fits T off d" "read_off r \<le> length T"
    using assms(2) by (auto simp: recv_inv_def good_chunk_def)
  note f = drain_chunks_fits [OF d this]
  then show "out = slice T (read_off r) (read_off r' - read_off r)" "read_off r \<le> read_off r'" by (simp_all add: r')
  obtain pre where "chunks r = pre @ m" using drain_chunks_suffix [OF d] by blast
  then have "om_ok m" using assms(2) om_ok_append [of pre m] by (simp add: recv_inv_def)
  with f assms(2) show "recv_inv T F r'" by (auto simp: recv_inv_def r')
  show "final_size r' = final_size r" by (simp add: r')
  show "byte_covered r' p" if "byte_covered r p"
    using that drain_chunks_drops [OF d] f by (fastforce simp: byte_covered_def r')
  show "N \<le> read_off r'" if "\<And>p. p < N \<Longrightarrow> byte_covered r p"
    using drain_chunks_covers [OF d, of N] that assms(2) by (simp add: recv_inv_def r') (fastforce simp: byte_covered_def)
qed

locale stream_frames =
  fixes T :: bytes and F :: "(nat \<times> bytes \<times> bool) set"
  assumes pieces: "(off, d, fin) \<in> F \<Longrightarrow> fits T off d"
    and disjoint: "apart F"
begin

lemma run_safe:
  assumes "recv_run r ops = (out, r')" "delivers F ops" "recv_inv T F r"
  shows "recv_inv T F r' \<and> read_off r \<le> read_off r' \<and> out = slice T (read_off r) (read_off r' - read_off r)"
  using assms
proof (induction ops arbitrary: r out)
  case Nil
  then show ?case by (simp add: slice_def)
next
  case (Cons op ops)
  show ?case
  proof (cases op)
    case (Deliver off d fin)
    with Cons.prems have "(off, d, fin) \<in> F" by (simp add: delivers_def)
    with recv_ingest_inv [OF Cons.prems(3)] pieces Cons.IH [of "recv_ingest r off d fin" out] Cons.prems Deliver
    show ?thesis by (simp add: delivers_def)
  next
    case ReadOp
    then obtain o1 r1 o2 where r1: "recv_read r = (o1, r1)" and "recv_run r1 ops = (o2, r')" "out = o1 @ o2"
      using Cons.prems(1) by (auto split: prod.splits)
    with recv_read_parts [OF r1 Cons.prems(3)] Cons.IH [of r1 o2] Cons.prems(2) ReadOp
      slice_split [of T "read_off r" "read_off r1 - read_off r" "read_off r' - read_off r1"]
    show ?thesis by (auto simp: delivers_def)
  qed
qed

lemma run_covers:
  assumes "recv_run r ops = (out, r')" "delivers F ops" "recv_inv T F r"
    and "byte_covered r p \<or> (\<exists>off d fin. Deliver off d fin \<in> set ops \<and> off \<le> p \<and> p < off + length d)"
  shows "byte_covered r' p"
  using assms
proof (induction ops arbitrary: r out)
  case (Cons op ops)
  show ?case
  proof (cases op)
    case (Deliver off d fin)
    with Cons.prems have F: "(off, d, fin) \<in> F" by (simp add: delivers_def)
    then have "recv_inv T F (recv_ingest r off d fin)" using recv_ingest_inv Cons.prems(3) pieces by blast
    moreover have "byte_covered (recv_ingest r off d fin) p"
      if "byte_covered r p \<or> (off \<le> p \<and> p < off + length d)"
      using that recv_ingest_covers_old recv_ingest_covers_new [OF Cons.prems(3) F _ _ disjoint] by blast
    ultimately show ?thesis using Cons.IH [of "recv_ingest r off d fin" out] Cons.prems Deliver by (auto simp: delivers_def)
  next
    case ReadOp
    then obtain o1 r1 o2 where r1: "recv_read r = (o1, r1)" and "recv_run r1 ops = (o2, r')"
      using Cons.prems(1) by (auto split: prod.splits)
    with recv_read_parts [OF r1 Cons.prems(3)] Cons.IH [of r1 o2] Cons.prems(2,4) ReadOp
    show ?thesis by (auto simp: delivers_def)
  qed
qed simp

end

text \<open>The bytes a writer has put on the wire.\<close>

definition wire_bytes :: "SendOp list \<Rightarrow> bytes" where
  "wire_bytes sops = concat (map (fst \<circ> snd) (fst (send_run send_default sops)))"

lemma wire_bytes_prefix: "send_run send_default sops = (fs, s) \<Longrightarrow> wire_bytes sops = take (send_off s) (written sops)"
  using send_run_cuts [of send_default sops fs s] by (simp add: wire_bytes_def send_default_def append_eq_conv_conj)

lemma sent_frames_fit:
  assumes "(off, d, fin) \<in> set (fst (send_run send_default sops))"
  shows "fits (wire_bytes sops) off d"
proof (cases "send_run send_default sops")
  case (Pair fs s)
  with consecutive_fits [of "[]" fs off d fin "[]"] send_run_consecutive [OF Pair] assms show ?thesis
    by (simp add: send_default_def wire_bytes_def)
qed

lemma sent_frames_apart: "apart (set (fst (send_run send_default sops)))"
proof (cases "send_run send_default sops")
  case (Pair fs s)
  then have "consecutive 0 fs" using send_run_consecutive [OF Pair] by (simp add: send_default_def)
  from consecutive_disjoint [OF this] show ?thesis unfolding apart_def Pair fst_conv by blast
qed

interpretation sent: stream_frames "wire_bytes sops" "set (fst (send_run send_default sops))" for sops
  by unfold_locales (rule sent_frames_fit, assumption, rule sent_frames_apart)

lemma recv_default_inv: "recv_inv T F recv_default"
  by (simp add: recv_inv_def recv_default_def)

lemma stream_prefix:
  assumes "delivers (set (fst (send_run send_default sops))) rops" "recv_run recv_default rops = (out, r)"
  shows "out = take (read_off r) (wire_bytes sops)" "read_off r \<le> length (wire_bytes sops)"
  using sent.run_safe [OF assms(2,1) recv_default_inv] by (simp_all add: recv_default_def slice_def recv_inv_def)

lemma recv_run_append:
  "recv_run r (a @ b) = (case recv_run r a of (o1, r1) \<Rightarrow> case recv_run r1 b of (o2, r2) \<Rightarrow> (o1 @ o2, r2))"
proof (induction a arbitrary: r)
  case (Cons op a)
  then show ?case by (cases op) (auto split: prod.splits)
qed (auto split: prod.splits)

lemma stream_complete:
  assumes run: "send_run send_default sops = (fs, s)" and del: "delivers (set fs) rops"
    and all: "\<forall>(off, d, fin) \<in> set fs. Deliver off d fin \<in> set rops"
    and out: "recv_run recv_default (rops @ [ReadOp]) = (out, r)"
  shows "out = wire_bytes sops"
proof -
  from out obtain o1 r1 o2 where r1: "recv_run recv_default rops = (o1, r1)" and r: "recv_read r1 = (o2, r)"
    by (auto simp: recv_run_append split: prod.splits)
  have del': "delivers (set (fst (send_run send_default sops))) rops" using run del by simp
  have cons: "consecutive 0 fs" using send_run_consecutive [OF run] by (simp add: send_default_def)
  have "byte_covered r1 p" if "p < length (wire_bytes sops)" for p
  proof (rule sent.run_covers [OF r1 del' recv_default_inv])
    have "\<exists>(off, d, fin) \<in> set fs. off \<le> p \<and> p < off + length d"
      using consecutive_covers [OF cons, of p] that by (simp add: wire_bytes_def run)
    with all show "byte_covered recv_default p \<or> (\<exists>off d fin. Deliver off d fin \<in> set rops \<and> off \<le> p \<and> p < off + length d)" by fast
  qed
  with recv_read_parts(6) [OF r] sent.run_safe [OF r1 del' recv_default_inv]
  have "length (wire_bytes sops) \<le> read_off r" by blast
  moreover have "delivers (set (fst (send_run send_default sops))) (rops @ [ReadOp])" using del' by (simp add: delivers_def)
  ultimately show ?thesis using stream_prefix [OF _ out] by simp
qed

section \<open>The end of a stream\<close>

text \<open>No bytes are written after the write that finishes the stream.\<close>

fun fin_closes :: "bool \<Rightarrow> SendOp list \<Rightarrow> bool" where
  "fin_closes c [] \<longleftrightarrow> True"
| "fin_closes c (WriteOp d fin # ops) \<longleftrightarrow> (c \<longrightarrow> d = []) \<and> fin_closes (c \<or> fin) ops"
| "fin_closes c (TakeOp _ # ops) \<longleftrightarrow> fin_closes c ops"

lemma fin_closes_written: "fin_closes True ops \<Longrightarrow> written ops = []"
proof (induction ops)
  case (Cons op ops)
  then show ?case by (cases op) auto
qed simp

lemma send_run_fin:
  assumes "send_run s ops = (fs, s')" "fin_closes (send_fin s) ops" "(off, d, True) \<in> set fs"
  shows "off + length d = send_off s + length (queued s) + length (written ops)"
  using assms
proof (induction ops arbitrary: s fs)
  case (Cons op ops)
  show ?case
  proof (cases op)
    case (WriteOp d fin)
    with Cons.IH [of "send_write s d fin"] Cons.prems show ?thesis by simp
  next
    case (TakeOp mx)
    with Cons.prems have "send_run s (TakeOp mx # ops) = (fs, s')" by simp
    then show ?thesis
    proof (cases rule: send_run_TakeE)
      case 1
      with Cons.IH Cons.prems show ?thesis by (simp add: TakeOp)
    next
      case (2 o1 d1 f1 s1 gs)
      note parts = send_take_parts [OF 2(1)]
      show ?thesis
      proof (cases "(off, d, True) = (o1, d1, f1)")
        case True
        then have "send_fin s" "queued s1 = []" using parts(5) by auto
        with Cons.prems(2) TakeOp fin_closes_written have "written ops = []" by simp
        with True parts \<open>queued s1 = []\<close> TakeOp show ?thesis by simp
      next
        case False
        with 2 Cons.prems(3) have "(off, d, True) \<in> set gs" by auto
        with Cons.IH [OF 2(2)] Cons.prems(2) parts TakeOp show ?thesis by simp
      qed
    qed
  qed
qed simp

lemma recv_run_final_size:
  assumes "recv_run r ops = (out, r')" "delivers F ops" "\<And>off d. (off, d, True) \<in> F \<Longrightarrow> off + length d = N"
    and "final_size r = None \<or> final_size r = Some N"
  shows "final_size r' = None \<or> final_size r' = Some N"
  using assms(1,2,4)
proof (induction ops arbitrary: r out)
  case (Cons op ops)
  show ?case
  proof (cases op)
    case (Deliver off d fin)
    with Cons.prems assms(3) [of off d] have "final_size (recv_ingest r off d fin) = None \<or> final_size (recv_ingest r off d fin) = Some N"
      by (cases fin) (auto simp: recv_ingest_def Let_def delivers_def split: option.splits)
    with Cons.IH [of "recv_ingest r off d fin"] Cons.prems Deliver show ?thesis by (simp add: delivers_def)
  next
    case ReadOp
    then obtain o1 r1 o2 where "recv_read r = (o1, r1)" "recv_run r1 ops = (o2, r')"
      using Cons.prems(1) by (auto split: prod.splits)
    with Cons.IH [of r1 o2] Cons.prems ReadOp show ?thesis by (auto simp: recv_read_def delivers_def split: prod.splits)
  qed
qed simp

lemma stream_finished_whole:
  assumes "fin_closes False sops" "delivers (set (fst (send_run send_default sops))) rops"
    and "recv_run recv_default rops = (out, r)" "recv_is_finished r"
  shows "out = written sops"
proof -
  obtain fs s where run: "send_run send_default sops = (fs, s)" by (cases "send_run send_default sops")
  have "off + length d = length (written sops)" if "(off, d, True) \<in> set fs" for off d
    using send_run_fin [OF run _ that] assms(1) by (simp add: send_default_def)
  with recv_run_final_size [OF assms(3,2), of "length (written sops)"] assms(4) run
  have "length (written sops) \<le> read_off r" by (auto simp: recv_is_finished_def recv_default_def)
  moreover have "length (wire_bytes sops) \<le> length (written sops)"
    unfolding wire_bytes_prefix [OF run] by simp
  ultimately show ?thesis
    using stream_prefix [OF assms(2,3)] wire_bytes_prefix [OF run] by (simp add: min_def split: if_splits)
qed

text \<open>A longer chunk that starts where a buffered one starts is dropped: its tail is acknowledged and never delivered.\<close>

lemma ingest_drops_longer_chunk:
  "fst (recv_read (recv_ingest (recv_ingest recv_default 0 [1] False) 0 [1, 2] True)) = [1]"
  "\<not> recv_is_finished (snd (recv_read (recv_ingest (recv_ingest recv_default 0 [1] False) 0 [1, 2] True)))"
  by (simp_all add: recv_ingest_def recv_read_def recv_default_def recv_is_finished_def Let_def)

section \<open>Identifiers are never reused\<close>

lemma sid_nth_inj: "sid_nth s b i = sid_nth s' b' i' \<longleftrightarrow> s = s' \<and> b = b' \<and> i = i'"
proof -
  have "4 * i + x = 4 * i' + y \<longleftrightarrow> i = i' \<and> x = y" if "x < 4" "y < 4" for x y :: nat
    using that by presburger
  then show ?thesis by (cases s; cases s'; cases b; cases b'; simp add: sid_nth_eq; presburger)
qed

lemma sid_nth_side: "sid_initiator (sid_nth s b i) = s"
  by (cases s; cases b; simp add: sid_initiator_eq sid_nth_eq; presburger)

lemma sid_nth_bidi: "sid_is_bidi (sid_nth s b i) \<longleftrightarrow> b"
proof -
  have two: "n AND 2 = 0 \<longleftrightarrow> n div 2 mod 2 = 0" for n :: nat
    using and_exp_eq_0_iff_not_bit [of n 1] by (simp add: bit_iff_odd even_iff_mod_2_eq_zero)
  show ?thesis by (cases s; cases b; simp add: sid_is_bidi_def two sid_nth_eq; presburger)
qed

fun open_many :: "StreamMap \<Rightarrow> bool list \<Rightarrow> nat list \<times> StreamMap" where
  "open_many m [] = ([], m)"
| "open_many m (b # bs) =
     (case sm_open m b of (i, m') \<Rightarrow> case open_many m' bs of (is, m'') \<Rightarrow> ((case i of Some i \<Rightarrow> i # is | None \<Rightarrow> is), m''))"

lemma sm_open_parts:
  assumes "sm_open m b = (r, m')"
  shows "sm_side m' = sm_side m" "peer_max_bidi m' = peer_max_bidi m" "peer_max_uni m' = peer_max_uni m"
    "next_bidi m \<le> next_bidi m'" "next_uni m \<le> next_uni m'"
    "r = Some i \<Longrightarrow> (\<exists>k. i = sid_nth (sm_side m) b k \<and> k = (if b then next_bidi m else next_uni m)
       \<and> k < (if b then peer_max_bidi m else peer_max_uni m) \<and> k < (if b then next_bidi m' else next_uni m'))"
  using assms by (auto simp: sm_open_def Let_def split: if_splits)

lemma open_many_ids:
  assumes "open_many m bs = (is, m')"
  shows "distinct is"
    "i \<in> set is \<Longrightarrow> (\<exists>b k. i = sid_nth (sm_side m) b k \<and> (if b then next_bidi m else next_uni m) \<le> k
       \<and> k < (if b then peer_max_bidi m else peer_max_uni m))"
  using assms
proof (induction bs arbitrary: m "is" i)
  case (Cons b bs)
  case 1
  then obtain r m1 js where o: "sm_open m b = (r, m1)" "open_many m1 bs = (js, m')" "is = (case r of Some i \<Rightarrow> i # js | None \<Rightarrow> js)"
    by (auto split: prod.splits)
  have "x \<notin> set js" if "r = Some x" for x
  proof
    assume "x \<in> set js"
    from Cons.IH(2) [OF this o(2)] obtain b2 k2 where "x = sid_nth (sm_side m1) b2 k2" "(if b2 then next_bidi m1 else next_uni m1) \<le> k2" by blast
    with sm_open_parts(1) [OF o(1)] sm_open_parts(6) [OF o(1) that] show False by (auto simp: sid_nth_inj split: if_splits)
  qed
  with Cons.IH(1) [OF o(2)] o(3) show ?case by (auto split: option.splits)
next
  case (Cons b bs)
  case 2
  then obtain r m1 js where o: "sm_open m b = (r, m1)" "open_many m1 bs = (js, m')" "is = (case r of Some i \<Rightarrow> i # js | None \<Rightarrow> js)"
    by (auto split: prod.splits)
  show ?case
  proof (cases "i \<in> set js")
    case True
    from Cons.IH(2) [OF this o(2)] sm_open_parts(1-5) [OF o(1)] show ?thesis by (fastforce split: if_splits)
  next
    case False
    with 2(1) o(3) have "r = Some i" by (auto split: option.splits)
    from sm_open_parts(6) [OF o(1) this] show ?thesis by auto
  qed
qed auto

section \<open>Credit\<close>

definition fc_ok :: "FlowController \<Rightarrow> bool" where
  "fc_ok fc \<longleftrightarrow> used fc \<le> limit fc"

lemma fc_consume_parts:
  "fc_consume fc n = (b, fc') \<Longrightarrow> fc_ok fc \<Longrightarrow>
     fc_ok fc' \<and> limit fc' = limit fc \<and> (b \<longleftrightarrow> used fc + n \<le> limit fc) \<and> used fc' = (if b then used fc + n else used fc)"
  by (auto simp: fc_consume_def fc_available_def fc_ok_def split: if_splits)

lemma fc_set_limit_parts: "fc_ok fc \<Longrightarrow> fc_ok (fc_set_limit fc l) \<and> limit fc \<le> limit (fc_set_limit fc l) \<and> used (fc_set_limit fc l) = used fc"
  by (auto simp: fc_set_limit_def fc_ok_def)

lemma fc_maybe_extend_parts:
  "fc_maybe_extend fc w = (r, fc') \<Longrightarrow> fc_ok fc \<Longrightarrow>
     fc_ok fc' \<and> limit fc \<le> limit fc' \<and> used fc' = used fc \<and> (\<forall>m. r = Some m \<longrightarrow> m = limit fc' \<and> fc_available fc' = w)"
  by (auto simp: fc_maybe_extend_def fc_ok_def fc_available_def split: if_splits)

section \<open>Datagram queues\<close>

definition dq_ok :: "DatagramQueue \<Rightarrow> bool" where
  "dq_ok q \<longleftrightarrow> 0 < max_recv q \<and> length (outgoing q) \<le> max_queued q \<and> length (incoming q) \<le> max_recv q"

lemma take_fitting_parts:
  "take_fitting ds mx = (r, ds') \<Longrightarrow>
     length ds' \<le> length ds \<and> (\<forall>d. r = Some d \<longrightarrow> length d \<le> mx \<and> length ds' < length ds) \<and> (r = None \<longrightarrow> ds' = [])"
  by (induction ds) (auto split: if_splits)

lemma dq_ops_ok:
  assumes "dq_ok q"
  shows "dq_ok (snd (dq_queue_outgoing q d))" "dq_ok (snd (dq_take_outgoing q mx))" "dq_ok (dq_ingest q d)" "dq_ok (snd (dq_recv q))"
proof -
  show "dq_ok (snd (dq_take_outgoing q mx))"
    using assms take_fitting_parts [of "outgoing q" mx]
    by (cases "take_fitting (outgoing q) mx") (auto simp: dq_ok_def dq_take_outgoing_def)
qed (use assms in \<open>auto simp: dq_ok_def dq_queue_outgoing_def dq_ingest_def dq_recv_def Let_def split: list.splits\<close>)

section \<open>Credit between the two ends\<close>

text \<open>A sender and a receiver with one credit window between them: stream bytes travel in frames that may be late or out
  of order but arrive at most once, announcements of a new limit may be lost, late or repeated.\<close>

record Credit =
  c_send :: FlowController
  c_recv :: FlowController
  c_flying :: "nat multiset"
  c_limits :: "nat set"

inductive credit_step :: "nat \<Rightarrow> Credit \<Rightarrow> Credit \<Rightarrow> bool" for window where
  Send: "fc_consume (c_send s) n = (True, fc) \<Longrightarrow>
     credit_step window s (s\<lparr>c_send := fc, c_flying := add_mset n (c_flying s)\<rparr>)"
| Arrive: "n \<in># c_flying s \<Longrightarrow> fc_consume (c_recv s) n = (b, fc) \<Longrightarrow>
     credit_step window s (s\<lparr>c_recv := fc, c_flying := c_flying s - {#n#}\<rparr>)"
| Extend: "fc_maybe_extend (c_recv s) window = (Some m, fc) \<Longrightarrow>
     credit_step window s (s\<lparr>c_recv := fc, c_limits := insert m (c_limits s)\<rparr>)"
| Announce: "m \<in> c_limits s \<Longrightarrow> credit_step window s (s\<lparr>c_send := fc_set_limit (c_send s) m\<rparr>)"

definition credit_init :: "nat \<Rightarrow> Credit" where
  "credit_init l = \<lparr>c_send = fc_new l, c_recv = fc_new l, c_flying = {#}, c_limits = {}\<rparr>"

definition credit_inv :: "Credit \<Rightarrow> bool" where
  "credit_inv s \<longleftrightarrow> fc_ok (c_send s) \<and> fc_ok (c_recv s) \<and> limit (c_send s) \<le> limit (c_recv s)
     \<and> (\<forall>m \<in> c_limits s. m \<le> limit (c_recv s)) \<and> used (c_send s) = used (c_recv s) + sum_mset (c_flying s)"

lemma credit_init_inv: "credit_inv (credit_init l)"
  by (simp add: credit_inv_def credit_init_def fc_new_def fc_ok_def)

lemma credit_arrive_fits:
  assumes "credit_inv s" "n \<in># c_flying s"
  shows "used (c_recv s) + n \<le> limit (c_recv s)"
proof -
  have "sum_mset (c_flying s) = n + sum_mset (c_flying s - {#n#})" using assms(2) by (simp add: sum_mset.remove)
  with assms(1) show ?thesis by (simp add: credit_inv_def fc_ok_def)
qed

lemma credit_step_inv: "credit_step window s s' \<Longrightarrow> credit_inv s \<Longrightarrow> credit_inv s'"
proof (induction rule: credit_step.induct)
  case (Send s n fc)
  then show ?case using fc_consume_parts [OF Send(1)] by (auto simp: credit_inv_def)
next
  case (Arrive n s b fc)
  have "sum_mset (c_flying s) = n + sum_mset (c_flying s - {#n#})" using Arrive(1) by (simp add: sum_mset.remove)
  with Arrive credit_arrive_fits [OF Arrive(3,1)] fc_consume_parts [OF Arrive(2)] show ?case
    by (auto simp: credit_inv_def)
next
  case (Extend s m fc)
  then show ?case using fc_maybe_extend_parts [OF Extend(1)] by (force simp: credit_inv_def)
next
  case (Announce m s)
  then show ?case by (auto simp: credit_inv_def fc_set_limit_def fc_ok_def)
qed

lemma credit_reachable_inv: "(credit_step window)\<^sup>*\<^sup>* (credit_init l) s \<Longrightarrow> credit_inv s"
  by (induction rule: rtranclp_induct) (auto intro: credit_init_inv credit_step_inv)

section \<open>Properties\<close>

text \<open>C38: Whatever the network drops, repeats or reorders of the frames a send stream has cut from what the application
  wrote, and whenever the reader reads: what the reader has got is a prefix of what was written, and once the
  stream counts as finished it is all of it, provided nothing was written after the finishing write.\<close>
theorem quic_stream_delivery:
  assumes "delivers (set (fst (send_run send_default sops))) rops" "recv_run recv_default rops = (out, r)"
  shows "out = take (read_off r) (written sops) \<and> (fin_closes False sops \<and> recv_is_finished r \<longrightarrow> out = written sops)"
proof -
  obtain fs s where run: "send_run send_default sops = (fs, s)" by (cases "send_run send_default sops")
  have "read_off r \<le> send_off s" using stream_prefix(2) [OF assms] by (simp add: wire_bytes_prefix [OF run])
  then have "out = take (read_off r) (written sops)"
    using stream_prefix(1) [OF assms] by (simp add: wire_bytes_prefix [OF run])
  with stream_finished_whole [OF _ assms] show ?thesis by blast
qed

definition sample_sends :: "SendOp list" where
  "sample_sends = [WriteOp [1, 2, 3] False, TakeOp 2, WriteOp [4] True, TakeOp 1, TakeOp 5]"

definition sample_receipts :: "RecvOp list" where
  "sample_receipts = [Deliver 3 [4] True, ReadOp, Deliver 0 [1, 2] False, Deliver 0 [1, 2] False, ReadOp, Deliver 2 [3] False]"

lemma sample_sends_run:
  "send_run send_default sample_sends =
     ([(0, [1, 2], False), (2, [3], False), (3, [4], True)], \<lparr>queued = [], send_off = 4, send_fin = True, fin_sent = True\<rparr>)"
  by (simp add: sample_sends_def send_default_def send_take_def send_write_def has_pending_def Let_def)

lemma sample_receipts_deliver: "delivers (set (fst (send_run send_default sample_sends))) sample_receipts"
  by (simp add: sample_sends_run sample_receipts_def delivers_def)

theorem quic_stream_delivery_witness:
  "fst (recv_run recv_default (sample_receipts @ [ReadOp])) = written sample_sends"
proof -
  obtain out r where run: "recv_run recv_default (sample_receipts @ [ReadOp]) = (out, r)"
    by (cases "recv_run recv_default (sample_receipts @ [ReadOp])")
  have "delivers (set (fst (send_run send_default sample_sends))) (sample_receipts @ [ReadOp])"
    using sample_receipts_deliver by (simp add: delivers_def)
  from quic_stream_delivery [OF this run] have "fin_closes False sample_sends \<and> recv_is_finished r \<longrightarrow> out = written sample_sends" by blast
  moreover have "fin_closes False sample_sends" by (simp add: sample_sends_def)
  moreover have "recv_is_finished r"
    using run by (auto simp: sample_receipts_def recv_default_def recv_ingest_def recv_read_def recv_is_finished_def Let_def)
  ultimately show ?thesis using run by simp
qed

text \<open>C39: Once every frame the send stream emitted has arrived at least once, in any order and with any duplicates and
  reads in between, the next read completes what was sent: nothing stays behind in the reassembler.\<close>
theorem quic_stream_complete:
  assumes "send_run send_default sops = (fs, s)" "delivers (set fs) rops"
    and "list_all (\<lambda>(off, d, fin). Deliver off d fin \<in> set rops) fs"
    and "recv_run recv_default (rops @ [ReadOp]) = (out, r)"
  shows "out = take (send_off s) (written sops) \<and> (queued s = [] \<longrightarrow> out = written sops)"
proof -
  have "out = take (send_off s) (written sops)"
    using stream_complete [OF assms(1,2) _ assms(4)] assms(3) wire_bytes_prefix [OF assms(1)] by (auto simp: list_all_iff)
  moreover have "send_off s = length (written sops)" if "queued s = []"
    using send_run_cuts [OF assms(1)] that by (simp add: send_default_def)
  ultimately show ?thesis by auto
qed

theorem quic_stream_complete_witness:
  "fst (recv_run recv_default (sample_receipts @ [ReadOp])) = [1, 2, 3, 4]"
proof -
  obtain out r where run: "recv_run recv_default (sample_receipts @ [ReadOp]) = (out, r)"
    by (cases "recv_run recv_default (sample_receipts @ [ReadOp])")
  have "list_all (\<lambda>(off, d, fin). Deliver off d fin \<in> set sample_receipts) [(0, [1, 2], False), (2, [3], False), (3, [4], True)]"
    by (simp add: sample_receipts_def)
  moreover have "delivers (set [(0, [1, 2], False), (2, [3], False), (3, [4], True)]) sample_receipts"
    using sample_receipts_deliver by (simp only: sample_sends_run fst_conv)
  ultimately have "out = take 4 (written sample_sends)"
    using quic_stream_complete [OF sample_sends_run _ _ run] by simp
  then show ?thesis using run by (simp add: sample_sends_def)
qed

text \<open>Between a sender and a receiver that start with the same limit, where frames are late or reordered but arrive at most
  once and announcements of new limits may be lost, late or repeated, the sender never exceeds what the receiver has allowed and the receiver
  never refuses a frame that arrives.\<close>

lemma quic_credit_never_refused:
  assumes "(credit_step window)\<^sup>*\<^sup>* (credit_init l) s"
  shows "used (c_send s) \<le> limit (c_recv s) \<and> (n \<in># c_flying s \<longrightarrow> fst (fc_consume (c_recv s) n))"
proof -
  from credit_reachable_inv [OF assms] have inv: "credit_inv s" .
  then have "used (c_send s) \<le> limit (c_recv s)" by (simp add: credit_inv_def fc_ok_def)
  moreover have "fst (fc_consume (c_recv s) n)" if "n \<in># c_flying s"
    using credit_arrive_fits [OF inv that] by (simp add: fc_consume_def fc_available_def)
  ultimately show ?thesis by blast
qed

definition sample_credit :: Credit where
  "sample_credit = \<lparr>c_send = \<lparr>limit = 10, used = 8\<rparr>, c_recv = \<lparr>limit = 10, used = 0\<rparr>, c_flying = {#8#}, c_limits = {}\<rparr>"

lemma quic_credit_never_refused_example:
  "used (c_send sample_credit) \<le> limit (c_recv sample_credit) \<and> fst (fc_consume (c_recv sample_credit) 8)"
proof -
  have "fc_consume (c_send (credit_init 10)) 8 = (True, \<lparr>limit = 10, used = 8\<rparr>)"
    by (simp add: credit_init_def fc_new_def fc_consume_def fc_available_def)
  from credit_step.Send [OF this, of 4] have "(credit_step 4)\<^sup>*\<^sup>* (credit_init 10) sample_credit"
    by (simp add: credit_init_def fc_new_def sample_credit_def)
  from quic_credit_never_refused [OF this, of 8] show ?thesis by (simp add: sample_credit_def)
qed

end
