(* ===== verification/Quic_Conn.thy ===== *)
theory Quic_Conn
  imports Quic_Crypto Quic_Recovery Quic_Stream
begin

text \<open>
  The QUIC connection (\<^verbatim>\<open>lib/mb-quic/src/conn.rs\<close>): the three packet-number spaces with their CRYPTO streams, reception of
  datagrams with coalesced packets, frames, timers, and the construction of packets. The TLS session is a
  parameter (\<open>TlsOps\<close>), like the primitives. An operation that can fail returns its result and the state it leaves,
  since an error in the middle of a datagram keeps what was done before it. The outer \<open>None\<close> of the
  operations that drive TLS or build packets is a loop that never returns or a panic.
\<close>

section \<open>State\<close>

datatype Level = LInitial | LHandshake | LData

definition level_idx :: "Level \<Rightarrow> nat" where
  "level_idx l = (case l of LInitial \<Rightarrow> 0 | LHandshake \<Rightarrow> 1 | LData \<Rightarrow> 2)"

definition APP_FRAME_BUDGET :: nat where "APP_FRAME_BUDGET = 1100"
definition MAX_PACKETS_PER_DATAGRAM :: nat where "MAX_PACKETS_PER_DATAGRAM = 64"
definition MAX_STREAM_RX_BYTES :: nat where "MAX_STREAM_RX_BYTES = 8 * 2 ^ 20"

record CryptoStream =
  cs_tx :: bytes
  cs_tx_off :: nat
  cs_rx_next :: nat
  cs_rx_buf :: "(nat, bytes) omap"

definition cs_default :: CryptoStream where
  "cs_default = \<lparr>cs_tx = [], cs_tx_off = 0, cs_rx_next = 0, cs_rx_buf = []\<rparr>"

definition cs_push_tx :: "CryptoStream \<Rightarrow> bytes \<Rightarrow> CryptoStream" where
  "cs_push_tx c data = c\<lparr>cs_tx := cs_tx c @ data\<rparr>"

definition cs_take_tx :: "CryptoStream \<Rightarrow> nat \<Rightarrow> (nat \<times> bytes) option \<times> CryptoStream" where
  "cs_take_tx c mx =
     (if cs_tx c = [] then (None, c)
      else let n = min (length (cs_tx c)) mx
           in (Some (cs_tx_off c, take n (cs_tx c)), c\<lparr>cs_tx := drop n (cs_tx c), cs_tx_off := cs_tx_off c + n\<rparr>))"

definition cs_recv :: "CryptoStream \<Rightarrow> nat \<Rightarrow> bytes \<Rightarrow> CryptoStream" where
  "cs_recv c off data =
     (if off + length data \<le> cs_rx_next c then c
      else let buffered = sum_list (map (length \<circ> snd) (cs_rx_buf c))
           in if buffered + length data > MAX_STREAM_RX_BYTES then c
              else c\<lparr>cs_rx_buf := om_put off data (cs_rx_buf c)\<rparr>)"

definition cs_read_in_order :: "CryptoStream \<Rightarrow> bytes \<times> CryptoStream" where
  "cs_read_in_order c =
     (case drain_chunks (cs_rx_buf c) (cs_rx_next c) of (out, m, pos) \<Rightarrow> (out, c\<lparr>cs_rx_buf := m, cs_rx_next := pos\<rparr>))"

record Space =
  next_pn :: nat
  largest_recv :: "nat option"
  recv_count :: nat
  ack_pending :: bool
  space_crypto :: CryptoStream

definition space_new :: Space where
  "space_new = \<lparr>next_pn = 0, largest_recv = None, recv_count = 0, ack_pending = False, space_crypto = cs_default\<rparr>"

datatype 'k KeyChange = HandshakeKeys 'k 'k | OneRttKeys 'k 'k

text \<open>The TLS session: a message in, handshake bytes and possibly new keys out, the peer's parameters, and whether the
  handshake still runs.\<close>

record ('k, 't) TlsOps =
  tls_read_hs :: "'t \<Rightarrow> bytes \<Rightarrow> string + 't"
  tls_write_hs :: "'t \<Rightarrow> bytes \<times> 'k KeyChange option \<times> 't"
  tls_peer_params :: "'t \<Rightarrow> bytes option"
  tls_is_handshaking :: "'t \<Rightarrow> bool"
  tls_initial_suite :: bool

record ('k, 't) Conn =
  side :: Side
  version :: QuicVersion
  dcid :: ConnectionId
  scid :: ConnectionId
  tls :: 't
  write_level :: Level
  spaces :: "Space list"
  tx_keys :: "'k PktCrypto option list"
  rx_keys :: "'k PktCrypto option list"
  initial_sent :: bool
  handshake_confirmed :: bool
  send_handshake_done :: bool
  closed :: bool
  peer_params :: "bytes option"
  streams :: StreamMap
  datagrams :: DatagramQueue
  recovery :: LossRecovery
  send_fc :: FlowController
  recv_fc :: FlowController
  recv_window :: nat
  peer_stream_data :: nat
  sent_frames :: "nat \<times> nat \<rightharpoonup> Frame list"
  retransmit :: "Frame list"
  close_pending :: "(bool \<times> nat \<times> bytes) option"
  now :: nat
  last_activity :: nat
  idle_timeout_us :: nat

definition conn_new :: "Side \<Rightarrow> QuicVersion \<Rightarrow> ConnectionId \<Rightarrow> ConnectionId \<Rightarrow> 't \<Rightarrow> ('k, 't) Conn" where
  "conn_new sd ver dc sc t =
     (let local = tp_default
      in \<lparr>side = sd, version = ver, dcid = dc, scid = sc, tls = t, write_level = LInitial,
          spaces = replicate 3 space_new, tx_keys = [None, None, None], rx_keys = [None, None, None],
          initial_sent = False, handshake_confirmed = False, send_handshake_done = False, closed = False,
          peer_params = None, streams = sm_new sd 0 0, datagrams = dq_new 64, recovery = lr_default,
          send_fc = fc_new 0, recv_fc = fc_new (initial_max_data local), recv_window = initial_max_data local,
          peer_stream_data = 0, sent_frames = Map.empty, retransmit = [], close_pending = None, now = 0,
          last_activity = 0, idle_timeout_us = sat_mul64 (max_idle_timeout_ms local) 1000\<rparr>)"

definition install_initial_keys :: "'k Primitives \<Rightarrow> ('k, 't) TlsOps \<Rightarrow> ('k, 't) Conn \<Rightarrow> bytes \<Rightarrow> (QuicError + unit) \<times> ('k, 't) Conn" where
  "install_initial_keys X T c client_dcid =
     (if \<not> tls_initial_suite T then (Err (QCrypto ''no QUIC initial cipher suite''), c)
      else let cs = initial_secret X client_dcid True (version c);
               ss = initial_secret X client_dcid False (version c);
               (tx, rx) = (case side c of Client \<Rightarrow> (cs, ss) | Server \<Rightarrow> (ss, cs))
           in (Ok (), c\<lparr>tx_keys := (tx_keys c)[0 := Some (NativeKeys (from_initial_secret X tx))],
                        rx_keys := (rx_keys c)[0 := Some (NativeKeys (from_initial_secret X rx))]\<rparr>))"

text \<open>\<open>dc\<close> and \<open>sc\<close> are the two identifiers drawn at random, \<open>t\<close> the outcome of setting the TLS session up.\<close>

definition conn_client :: "'k Primitives \<Rightarrow> ('k, 't) TlsOps \<Rightarrow> QuicVersion \<Rightarrow> ConnectionId \<Rightarrow> ConnectionId \<Rightarrow> QuicError + 't \<Rightarrow> QuicError + ('k, 't) Conn" where
  "conn_client X T ver dc sc t =
     res_bind t (\<lambda>t. case install_initial_keys X T (conn_new Client ver dc sc t) (cid_slice dc) of (r, c) \<Rightarrow> res_bind r (\<lambda>_. Ok c))"

definition conn_server :: "QuicVersion \<Rightarrow> ConnectionId \<Rightarrow> QuicError + 't \<Rightarrow> QuicError + ('k, 't) Conn" where
  "conn_server ver sc t = res_bind t (\<lambda>t. Ok (conn_new Server ver cid_default sc t))"

definition adopt_peer_params :: "('k, 't) Conn \<Rightarrow> bytes \<Rightarrow> ('k, 't) Conn" where
  "adopt_peer_params c raw =
     (case tp_decode raw of
        Inl _ \<Rightarrow> c
      | Inr peer \<Rightarrow>
          let c = c\<lparr>send_fc := fc_set_limit (send_fc c) (initial_max_data peer),
                    peer_stream_data := max (initial_max_stream_data_bidi_remote peer) (initial_max_stream_data_uni peer),
                    streams := sm_set_peer_max (sm_set_peer_max (streams c) True (initial_max_streams_bidi peer))
                      False (initial_max_streams_uni peer)\<rparr>;
              l = idle_timeout_us c;
              p = sat_mul64 (max_idle_timeout_ms peer) 1000
          in c\<lparr>idle_timeout_us := (if l = 0 then p else if p = 0 then l else min l p)\<rparr>)"

definition key_at :: "'k PktCrypto option list \<Rightarrow> Level \<Rightarrow> 'k PktCrypto option" where
  "key_at ks l = ks ! level_idx l"

definition is_established :: "('k, 't) TlsOps \<Rightarrow> ('k, 't) Conn \<Rightarrow> bool" where
  "is_established T c \<longleftrightarrow> \<not> tls_is_handshaking T (tls c) \<and> key_at (tx_keys c) LData \<noteq> None \<and> key_at (rx_keys c) LData \<noteq> None"

definition set_now :: "('k, 't) Conn \<Rightarrow> nat \<Rightarrow> ('k, 't) Conn" where
  "set_now c t = (let c = c\<lparr>now := t\<rparr> in if last_activity c = 0 then c\<lparr>last_activity := t\<rparr> else c)"

section \<open>Timers and the interface of the application\<close>

definition poll_timeout :: "('k, 't) Conn \<Rightarrow> nat option" where
  "poll_timeout c =
     (if closed c then None
      else let loss = loss_timer (recovery c);
               idle = (if idle_timeout_us c > 0 then Some (wrap64 (last_activity c + idle_timeout_us c)) else None)
           in case (loss, idle) of
                (Some a, Some b) \<Rightarrow> Some (min a b)
              | (Some a, None) \<Rightarrow> Some a
              | (None, b) \<Rightarrow> b)"

definition retransmittable :: "Frame \<Rightarrow> bool" where
  "retransmittable f = (case f of Crypto _ _ \<Rightarrow> True | StreamF _ _ _ _ \<Rightarrow> True | _ \<Rightarrow> False)"

fun requeue_lost :: "('k, 't) Conn \<Rightarrow> nat \<Rightarrow> SentPacket list \<Rightarrow> ('k, 't) Conn" where
  "requeue_lost c space [] = c"
| "requeue_lost c space (p # ps) =
     requeue_lost
       (case sent_frames c (space, sp_pn p) of
          None \<Rightarrow> c
        | Some fs \<Rightarrow> c\<lparr>sent_frames := (sent_frames c)((space, sp_pn p) := None),
                      retransmit := retransmit c @ filter retransmittable fs\<rparr>)
       space ps"

fun detect_spaces :: "nat list \<Rightarrow> ('k, 't) Conn \<Rightarrow> nat \<Rightarrow> bool \<times> ('k, 't) Conn" where
  "detect_spaces [] c t = (False, c)"
| "detect_spaces (i # is) c t =
     (case detect_lost (recovery c) i t of
        (lost, lr) \<Rightarrow>
          let c = c\<lparr>recovery := lr\<rparr>;
              c = (if lost \<noteq> [] then requeue_lost c i lost else c)
          in case detect_spaces is c t of (b, c) \<Rightarrow> (lost \<noteq> [] \<or> b, c))"

definition on_timeout :: "('k, 't) Conn \<Rightarrow> nat \<Rightarrow> ('k, 't) Conn" where
  "on_timeout c t =
     (let c = c\<lparr>now := t\<rparr>
      in if idle_timeout_us c > 0 \<and> t \<ge> wrap64 (last_activity c + idle_timeout_us c) then c\<lparr>closed := True\<rparr>
         else case detect_spaces [0, 1, 2] c t of
                (any_lost, c) \<Rightarrow>
                  if any_lost then c
                  else case loss_timer (recovery c) of
                         Some deadline \<Rightarrow> if t \<ge> deadline then c\<lparr>recovery := on_pto_expired (recovery c)\<rparr> else c
                       | None \<Rightarrow> c)"

definition open_stream :: "('k, 't) Conn \<Rightarrow> bool \<Rightarrow> nat option \<times> ('k, 't) Conn" where
  "open_stream c bidi = (case sm_open (streams c) bidi of (i, m) \<Rightarrow> (i, c\<lparr>streams := m\<rparr>))"

definition write_stream :: "('k, 't) Conn \<Rightarrow> nat \<Rightarrow> bytes \<Rightarrow> bool \<Rightarrow> ('k, 't) Conn" where
  "write_stream c i data fin =
     c\<lparr>streams := sm_update (streams c) i (\<lambda>s. s\<lparr>stream_send := send_write (stream_send s) data fin\<rparr>)\<rparr>"

definition read_stream :: "('k, 't) Conn \<Rightarrow> nat \<Rightarrow> bytes \<times> ('k, 't) Conn" where
  "read_stream c i =
     (let s = sm_entry (streams c) i
      in case recv_read (stream_recv s) of
           (out, r) \<Rightarrow> (out, c\<lparr>streams := sm_update (streams c) i (\<lambda>s. s\<lparr>stream_recv := r\<rparr>)\<rparr>))"

definition stream_finished :: "('k, 't) Conn \<Rightarrow> nat \<Rightarrow> bool" where
  "stream_finished c i = (case om_get (sm_streams (streams c)) i of Some s \<Rightarrow> recv_is_finished (stream_recv s) | None \<Rightarrow> False)"

definition readable_streams :: "('k, 't) Conn \<Rightarrow> nat list" where
  "readable_streams c = sm_readable (streams c)"

definition send_datagram :: "('k, 't) Conn \<Rightarrow> bytes \<Rightarrow> bool \<times> ('k, 't) Conn" where
  "send_datagram c d = (case dq_queue_outgoing (datagrams c) d of (b, q) \<Rightarrow> (b, c\<lparr>datagrams := q\<rparr>))"

definition recv_datagram :: "('k, 't) Conn \<Rightarrow> bytes option \<times> ('k, 't) Conn" where
  "recv_datagram c = (case dq_recv (datagrams c) of (d, q) \<Rightarrow> (d, c\<lparr>datagrams := q\<rparr>))"

definition conn_close :: "('k, 't) Conn \<Rightarrow> bool \<Rightarrow> nat \<Rightarrow> bytes \<Rightarrow> ('k, 't) Conn" where
  "conn_close c application error_code reason =
     (if close_pending c = None \<and> \<not> closed c then c\<lparr>close_pending := Some (application, error_code, reason)\<rparr> else c)"

section \<open>Reception\<close>

text \<open>Cutting a datagram into packets.\<close>

definition packet_len :: "bytes \<Rightarrow> QuicError + nat" where
  "packet_len buf =
     (if hd buf AND 0x80 = 0 then Ok (length buf)
      else res_bind (parse_long_header buf) (\<lambda>(hdr, _, hdr_end).
        if lh_ty hdr = TRetry then Ok (length buf)
        else res_bind (decode_varint (drop hdr_end buf)) (\<lambda>(len, n). Ok (hdr_end + n + len))))"

function split_from :: "bytes \<Rightarrow> nat \<Rightarrow> bytes list \<Rightarrow> QuicError + bytes list" where
  "split_from datagram off out =
     (if off < length datagram then
        let buf = drop off datagram
        in if hd buf AND 0x40 = 0 then Ok out
           else case packet_len buf of
                  Inl e \<Rightarrow> Err e
                | Inr plen \<Rightarrow>
                    if plen = 0 \<or> off + plen > length datagram then Err QShortBuffer
                    else if length out \<ge> MAX_PACKETS_PER_DATAGRAM then Err (QMalformed ''too many coalesced packets'')
                    else split_from datagram (off + plen) (out @ [take plen buf])
      else Ok out)"
  by pat_completeness auto
termination by (relation "measure (\<lambda>(d, off, _). length d - off)") auto

declare split_from.simps [simp del]

definition split_packets :: "bytes \<Rightarrow> QuicError + bytes list" where
  "split_packets datagram = split_from datagram 0 []"

definition handle_frame :: "('k, 't) Conn \<Rightarrow> Level \<Rightarrow> Frame \<Rightarrow> (QuicError + unit) \<times> ('k, 't) Conn" where
  "handle_frame c level frame =
     (case frame of
        Ack largest delay first_range ranges \<Rightarrow>
          let space = level_idx level
          in (case on_ack (recovery c) space largest first_range ranges delay (now c) of
                (acked, lr) \<Rightarrow>
                  let c = c\<lparr>recovery := lr, sent_frames := (\<lambda>k. if k \<in> (\<lambda>p. (space, sp_pn p)) ` set acked then None else sent_frames c k)\<rparr>
                  in case detect_lost (recovery c) space (now c) of
                       (lost, lr) \<Rightarrow> (Ok (), requeue_lost (c\<lparr>recovery := lr\<rparr>) space lost))
      | Crypto offset data \<Rightarrow>
          let i = level_idx level; s = spaces c ! i
          in (Ok (), c\<lparr>spaces := (spaces c)[i := s\<lparr>space_crypto := cs_recv (space_crypto s) offset data\<rparr>]\<rparr>)
      | ResetStream stream_id _ _ \<Rightarrow>
          (Ok (), c\<lparr>streams := sm_update (streams c) stream_id (\<lambda>s. s\<lparr>stream_recv := recv_stop (stream_recv s)\<rparr>)\<rparr>)
      | StreamF i offset fin data \<Rightarrow>
          (case fc_consume (recv_fc c) (length data) of
             (False, _) \<Rightarrow> (Err (QTransport ''connection flow control exceeded''), c)
           | (True, fc) \<Rightarrow>
               let c = c\<lparr>recv_fc := fc\<rparr>
               in if would_exceed_cap (streams c) i then (Err (QTransport ''stream count cap''), c)
                  else (Ok (), c\<lparr>streams := sm_update (streams c) i
                          (\<lambda>s. s\<lparr>stream_recv := recv_ingest (stream_recv s) offset data fin\<rparr>)\<rparr>))
      | MaxData m \<Rightarrow> (Ok (), c\<lparr>send_fc := fc_set_limit (send_fc c) m\<rparr>)
      | MaxStreamData _ m \<Rightarrow> (Ok (), if m > peer_stream_data c then c\<lparr>peer_stream_data := m\<rparr> else c)
      | MaxStreams bidi m \<Rightarrow> (Ok (), c\<lparr>streams := sm_set_peer_max (streams c) bidi m\<rparr>)
      | ConnectionClose _ _ _ \<Rightarrow> (Ok (), c\<lparr>closed := True\<rparr>)
      | HandshakeDone \<Rightarrow> (Ok (), if side c = Client then c\<lparr>handshake_confirmed := True\<rparr> else c)
      | DatagramF data \<Rightarrow> (Ok (), c\<lparr>datagrams := dq_ingest (datagrams c) data\<rparr>)
      | _ \<Rightarrow> (Ok (), c))"

fun handle_frames :: "('k, 't) Conn \<Rightarrow> Level \<Rightarrow> Frame list \<Rightarrow> (QuicError + unit) \<times> ('k, 't) Conn" where
  "handle_frames c level [] = (Ok (), c)"
| "handle_frames c level (f # fs) =
     (case handle_frame c level f of (Inl e, c) \<Rightarrow> (Err e, c) | (Inr _, c) \<Rightarrow> handle_frames c level fs)"

definition decrypt_and_handle :: "'k Primitives \<Rightarrow> ('k, 't) Conn \<Rightarrow> Level \<Rightarrow> bytes \<Rightarrow> nat \<Rightarrow> nat \<Rightarrow> (QuicError + unit) \<times> ('k, 't) Conn" where
  "decrypt_and_handle X c level buf pn_off pkt_end =
     (let idx = level_idx level
      in case rx_keys c ! idx of
           None \<Rightarrow> (Err (QCrypto ''no rx keys for level''), c)
         | Some rx \<Rightarrow>
             (case open_packet X rx (largest_recv (spaces c ! idx)) (take pkt_end buf) pn_off of
                Inl e \<Rightarrow> (Err e, c)
              | Inr (pn, payload) \<Rightarrow>
                  let s = spaces c ! idx;
                      s = s\<lparr>largest_recv := option_max (largest_recv s) pn, recv_count := recv_count s + 1, ack_pending := True\<rparr>;
                      c = c\<lparr>spaces := (spaces c)[idx := s]\<rparr>
                  in case decode_all payload of
                       Inl e \<Rightarrow> (Err e, c)
                     | Inr fs \<Rightarrow> handle_frames c level fs))"

definition recv_long :: "'k Primitives \<Rightarrow> ('k, 't) TlsOps \<Rightarrow> ('k, 't) Conn \<Rightarrow> bytes \<Rightarrow> (QuicError + unit) \<times> ('k, 't) Conn" where
  "recv_long X T c buf =
     (case parse_long_header buf of
        Inl e \<Rightarrow> (Err e, c)
      | Inr (hdr, _, hdr_end) \<Rightarrow>
          if lh_version hdr \<noteq> to_u32 (version c) then (Err (QUnsupportedVersion (lh_version hdr)), c)
          else if lh_ty hdr \<noteq> TInitial \<and> lh_ty hdr \<noteq> THandshake then (Err (QTransport ''unsupported long packet''), c)
          else
            let level = (if lh_ty hdr = TInitial then LInitial else LHandshake);
                (r, c) = (if side c = Server \<and> level = LInitial \<and> rx_keys c ! 0 = None
                          then install_initial_keys X T (c\<lparr>dcid := lh_scid hdr\<rparr>) (cid_slice (lh_dcid hdr))
                          else (Ok (), c))
            in case r of
                 Inl e \<Rightarrow> (Err e, c)
               | Inr _ \<Rightarrow>
                   (case decode_varint (drop hdr_end buf) of
                      Inl e \<Rightarrow> (Err e, c)
                    | Inr (len, n) \<Rightarrow>
                        let len_off = hdr_end + n;
                            pkt_end = len_off + len
                        in if pkt_end > length buf then (Err QShortBuffer, c)
                           else decrypt_and_handle X c level buf len_off pkt_end))"

definition recv_short :: "'k Primitives \<Rightarrow> ('k, 't) Conn \<Rightarrow> bytes \<Rightarrow> (QuicError + unit) \<times> ('k, 't) Conn" where
  "recv_short X c buf =
     (case parse_short_header_dcid buf (cid_len (scid c)) of
        Inl e \<Rightarrow> (Err e, c)
      | Inr (_, pn_off) \<Rightarrow> decrypt_and_handle X c LData buf pn_off (length buf))"

definition recv_one :: "'k Primitives \<Rightarrow> ('k, 't) TlsOps \<Rightarrow> ('k, 't) Conn \<Rightarrow> bytes \<Rightarrow> (QuicError + unit) \<times> ('k, 't) Conn" where
  "recv_one X T c buf =
     (case buf of
        [] \<Rightarrow> (Err QShortBuffer, c)
      | first # _ \<Rightarrow> if first AND 0x80 \<noteq> 0 then recv_long X T c buf else recv_short X c buf)"

section \<open>The TLS session\<close>

fun feed_tls :: "('k, 't) TlsOps \<Rightarrow> ('k, 't) Conn \<Rightarrow> Level list \<Rightarrow> (QuicError + unit) \<times> ('k, 't) Conn" where
  "feed_tls T c [] = (Ok (), c)"
| "feed_tls T c (l # ls) =
     (let i = level_idx l; s = spaces c ! i
      in case cs_read_in_order (space_crypto s) of
           (pending, cs) \<Rightarrow>
             let c = c\<lparr>spaces := (spaces c)[i := s\<lparr>space_crypto := cs\<rparr>]\<rparr>
             in if pending = [] then feed_tls T c ls
                else case tls_read_hs T (tls c) pending of
                       Inl e \<Rightarrow> (Err (QTls e), c)
                     | Inr t \<Rightarrow> feed_tls T (c\<lparr>tls := t\<rparr>) ls)"

text \<open>One turn of the loop around \<^verbatim>\<open>write_handshake\<close>; \<open>True\<close> while it goes on.\<close>

definition drive_tls :: "('k, 't) TlsOps \<Rightarrow> ('k, 't) Conn \<Rightarrow> bool \<times> ('k, 't) Conn" where
  "drive_tls T c =
     (case tls_write_hs T (tls c) of
        (buf, change, t) \<Rightarrow>
          let c = c\<lparr>tls := t\<rparr>;
              i = level_idx (write_level c);
              s = spaces c ! i;
              c = (if buf \<noteq> [] then c\<lparr>spaces := (spaces c)[i := s\<lparr>space_crypto := cs_push_tx (space_crypto s) buf\<rparr>]\<rparr> else c)
          in case change of
               Some (HandshakeKeys l r) \<Rightarrow>
                 (True, c\<lparr>tx_keys := (tx_keys c)[1 := Some (RustlsKeys l)], rx_keys := (rx_keys c)[1 := Some (RustlsKeys r)],
                          write_level := LHandshake\<rparr>)
             | Some (OneRttKeys l r) \<Rightarrow>
                 (True, c\<lparr>tx_keys := (tx_keys c)[2 := Some (RustlsKeys l)], rx_keys := (rx_keys c)[2 := Some (RustlsKeys r)],
                          write_level := LData\<rparr>)
             | None \<Rightarrow> (False, c))"

partial_function (option) drive_loop :: "('k, 't) TlsOps \<Rightarrow> ('k, 't) Conn \<Rightarrow> ('k, 't) Conn option" where
  "drive_loop T c = (case drive_tls T c of (go, c) \<Rightarrow> if go then drive_loop T c else Some c)"

definition pump_tls :: "('k, 't) TlsOps \<Rightarrow> ('k, 't) Conn \<Rightarrow> ((QuicError + unit) \<times> ('k, 't) Conn) option" where
  "pump_tls T c =
     (case feed_tls T c [LInitial, LHandshake, LData] of
        (Inl e, c) \<Rightarrow> Some (Err e, c)
      | (Inr _, c) \<Rightarrow>
          (case drive_loop T c of
             None \<Rightarrow> None
           | Some c \<Rightarrow>
               let c = (if peer_params c = None
                        then case tls_peer_params T (tls c) of
                               Some raw \<Rightarrow> (adopt_peer_params c raw)\<lparr>peer_params := Some raw\<rparr>
                             | None \<Rightarrow> c
                        else c);
                   c = (if side c = Server \<and> \<not> tls_is_handshaking T (tls c) \<and> \<not> handshake_confirmed c
                        then c\<lparr>handshake_confirmed := True, send_handshake_done := True\<rparr> else c)
               in Some (Ok (), c)))"

text \<open>One pass over the queued packets: those without keys are kept for the next pass.\<close>

fun recv_pass :: "'k Primitives \<Rightarrow> ('k, 't) TlsOps \<Rightarrow> ('k, 't) Conn \<Rightarrow> bytes list \<Rightarrow> (QuicError + bytes list \<times> bool) \<times> ('k, 't) Conn" where
  "recv_pass X T c [] = (Ok ([], False), c)"
| "recv_pass X T c (p # ps) =
     (case recv_one X T c p of
        (Inr _, c) \<Rightarrow> (case recv_pass X T c ps of
                        (Inl e, c) \<Rightarrow> (Err e, c)
                      | (Inr (ds, _), c) \<Rightarrow> (Ok (ds, True), c))
      | (Inl e, c) \<Rightarrow>
          if e = QCrypto ''no rx keys for level''
          then case recv_pass X T c ps of
                 (Inl e, c) \<Rightarrow> (Err e, c)
               | (Inr (ds, b), c) \<Rightarrow> (Ok (p # ds, b), c)
          else (Err e, c))"

lemma recv_pass_deferred:
  "recv_pass X T c ps = (Inr (ds, b), c') \<Longrightarrow> length ds \<le> length ps \<and> (b \<longrightarrow> length ds < length ps)"
proof (induction ps arbitrary: c ds b)
  case (Cons p ps)
  then show ?case by (fastforce split: prod.splits sum.splits if_splits)
qed simp

function recv_loop :: "'k Primitives \<Rightarrow> ('k, 't) TlsOps \<Rightarrow> ('k, 't) Conn \<Rightarrow> bytes list \<Rightarrow> ((QuicError + unit) \<times> ('k, 't) Conn) option" where
  "recv_loop X T c queue =
     (case recv_pass X T c queue of
        (Inl e, c) \<Rightarrow> Some (Err e, c)
      | (Inr (deferred, progressed), c) \<Rightarrow>
          (case pump_tls T c of
             None \<Rightarrow> None
           | Some (Inl e, c) \<Rightarrow> Some (Err e, c)
           | Some (Inr _, c) \<Rightarrow> if deferred = [] \<or> \<not> progressed then Some (Ok (), c) else recv_loop X T c deferred))"
  by pat_completeness auto
termination
  by (relation "measure (\<lambda>(X, T, c, queue). length queue)") (auto dest!: recv_pass_deferred [OF sym])

declare recv_loop.simps [simp del]

definition conn_recv :: "'k Primitives \<Rightarrow> ('k, 't) TlsOps \<Rightarrow> ('k, 't) Conn \<Rightarrow> bytes \<Rightarrow> ((QuicError + unit) \<times> ('k, 't) Conn) option" where
  "conn_recv X T c datagram =
     (case split_packets datagram of
        Inl e \<Rightarrow> Some (Err e, c)
      | Inr queue \<Rightarrow> recv_loop X T c queue)"

section \<open>Transmission\<close>

lemma send_take_progress:
  "send_take s mx = (Some (off, d, fin), s') \<Longrightarrow> 0 < mx \<Longrightarrow> \<not> fin \<Longrightarrow> d \<noteq> []"
  by (auto simp: send_take_def has_pending_def Let_def min_def split: if_splits)

text \<open>The inner loop of \<^verbatim>\<open>collect_stream_frames\<close> for one stream.\<close>

function stream_frames_of :: "nat \<Rightarrow> StreamMap \<Rightarrow> FlowController \<Rightarrow> nat \<Rightarrow> Frame list \<times> StreamMap \<times> FlowController \<times> nat" where
  "stream_frames_of i m fc remaining =
     (if remaining > 0 then
        case send_take (stream_send (sm_entry m i)) (min remaining APP_FRAME_BUDGET) of
          (None, s) \<Rightarrow> ([], sm_update m i (\<lambda>x. x\<lparr>stream_send := s\<rparr>), fc, remaining)
        | (Some (offset, data, fin), s) \<Rightarrow>
            let n = length data;
                m = sm_update m i (\<lambda>x. x\<lparr>stream_send := s\<rparr>);
                fc = snd (fc_consume fc n);
                f = StreamF i offset fin data
            in if fin then ([f], m, fc, remaining - n)
               else case stream_frames_of i m fc (remaining - n) of (fs, r) \<Rightarrow> (f # fs, r)
      else ([], m, fc, remaining))"
  by pat_completeness auto
termination
  by (relation "measure (\<lambda>(i, m, fc, r). r)") (auto dest!: send_take_progress [OF sym] simp: APP_FRAME_BUDGET_def)

declare stream_frames_of.simps [simp del]

fun stream_frames_all :: "nat list \<Rightarrow> StreamMap \<Rightarrow> FlowController \<Rightarrow> nat \<Rightarrow> Frame list \<times> StreamMap \<times> FlowController" where
  "stream_frames_all [] m fc remaining = ([], m, fc)"
| "stream_frames_all (i # is) m fc remaining =
     (case stream_frames_of i m fc remaining of
        (fs, m, fc, remaining) \<Rightarrow> (case stream_frames_all is m fc remaining of (gs, r) \<Rightarrow> (fs @ gs, r)))"

definition collect_stream_frames :: "('k, 't) Conn \<Rightarrow> Frame list \<times> ('k, 't) Conn" where
  "collect_stream_frames c =
     (let remaining = min (fc_available (send_fc c)) (cc_available (lr_cc (recovery c)))
      in case stream_frames_all (sm_sendable (streams c)) (streams c) (send_fc c) remaining of
           (fs, m, fc) \<Rightarrow> (fs, c\<lparr>streams := m, send_fc := fc\<rparr>))"

lemma dq_take_outgoing_shrinks:
  "dq_take_outgoing q mx = (r, q') \<Longrightarrow> outgoing q \<noteq> [] \<Longrightarrow> length (outgoing q') < length (outgoing q)"
  using take_fitting_parts [of "outgoing q" mx] by (cases r) (auto simp: dq_take_outgoing_def split: prod.splits)

function drain_datagrams :: "DatagramQueue \<Rightarrow> Frame list \<times> DatagramQueue" where
  "drain_datagrams q =
     (if outgoing q = [] then ([], q)
      else case dq_take_outgoing q APP_FRAME_BUDGET of
          (Some d, q) \<Rightarrow> (case drain_datagrams q of (fs, q) \<Rightarrow> (DatagramF d # fs, q))
        | (None, q) \<Rightarrow> ([], q))"
  by pat_completeness auto
termination
  by (relation "measure (\<lambda>q. length (outgoing q))") (auto dest!: dq_take_outgoing_shrinks [OF sym])

declare drain_datagrams.simps [simp del]

lemma cs_take_tx_shrinks: "cs_take_tx c mx = (Some x, c') \<Longrightarrow> 0 < mx \<Longrightarrow> length (cs_tx c') < length (cs_tx c)"
  by (auto simp: cs_take_tx_def Let_def min_def split: if_splits)

function drain_crypto :: "CryptoStream \<Rightarrow> Frame list \<times> CryptoStream" where
  "drain_crypto c =
     (case cs_take_tx c APP_FRAME_BUDGET of
        (None, c) \<Rightarrow> ([], c)
      | (Some (offset, data), c) \<Rightarrow> (case drain_crypto c of (fs, c) \<Rightarrow> (Crypto offset data # fs, c)))"
  by pat_completeness auto
termination
  by (relation "measure (\<lambda>c. length (cs_tx c))") (auto dest!: cs_take_tx_shrinks [OF sym] simp: APP_FRAME_BUDGET_def)

declare drain_crypto.simps [simp del]

text \<open>The start of \<^verbatim>\<open>protect\<close>: the number, its length and the header up to it.\<close>

definition packet_header :: "('k, 't) Conn \<Rightarrow> Level \<Rightarrow> nat \<Rightarrow> nat \<Rightarrow> bytes" where
  "packet_header c level pn_len body_len =
     (if level = LData then [0x40 OR of_nat (pn_len - 1)] @ cid_slice (dcid c)
      else let ty = (if level = LInitial then TInitial else THandshake);
               hdr = \<lparr>lh_ty = ty, lh_version = to_u32 (version c), lh_dcid = dcid c, lh_scid = scid c, lh_token = []\<rparr>
           in write_long_header hdr (of_nat (pn_len - 1)) @ encode_varint (pn_len + body_len + AEAD_TAG_LEN))"

definition protect :: "'k Primitives \<Rightarrow> ('k, 't) Conn \<Rightarrow> Level \<Rightarrow> bytes \<Rightarrow> (bytes \<times> ('k, 't) Conn) option" where
  "protect X c level body =
     (let idx = level_idx level;
          s = spaces c ! idx;
          pn = next_pn s;
          c = c\<lparr>spaces := (spaces c)[idx := s\<lparr>next_pn := pn + 1\<rparr>]\<rparr>;
          pn_len = max (packet_number_len pn None) 2
      in case tx_keys c ! idx of
           None \<Rightarrow> None
         | Some tx \<Rightarrow>
             (case seal_packet X tx (packet_header c level pn_len (length body)) pn pn_len body of
                None \<Rightarrow> None
              | Some out \<Rightarrow> Some (out, c)))"

text \<open>The frames of the next packet of a level, in the order \<^verbatim>\<open>build_packet\<close> collects them: the acknowledgement, the
  data of the application level and whether the packet closes the connection, then CRYPTO and HANDSHAKE_DONE.\<close>

definition ack_frames :: "('k, 't) Conn \<Rightarrow> Level \<Rightarrow> Frame list \<times> ('k, 't) Conn" where
  "ack_frames c level =
     (let idx = level_idx level;
          s = spaces c ! idx
      in case (ack_pending s, largest_recv s) of
           (True, Some largest) \<Rightarrow> ([Ack largest 0 largest []], c\<lparr>spaces := (spaces c)[idx := s\<lparr>ack_pending := False\<rparr>]\<rparr>)
         | _ \<Rightarrow> ([], c))"

definition data_frames :: "('k, 't) Conn \<Rightarrow> Level \<Rightarrow> Frame list \<times> bool \<times> ('k, 't) Conn" where
  "data_frames c level =
     (if level = LData then
        case close_pending c of
          Some (application, error_code, reason) \<Rightarrow>
            ([ConnectionClose application error_code reason], True, c\<lparr>close_pending := None\<rparr>)
        | None \<Rightarrow>
            let (ext, fc) = fc_maybe_extend (recv_fc c) (recv_window c);
                limits = (case ext of Some m \<Rightarrow> [MaxData m] | None \<Rightarrow> []);
                lost = retransmit c;
                c = c\<lparr>recv_fc := fc, retransmit := []\<rparr>;
                (fs, c) = collect_stream_frames c;
                (ds, q) = drain_datagrams (datagrams c)
            in (limits @ lost @ fs @ ds, False, c\<lparr>datagrams := q\<rparr>)
      else ([], False, c))"

definition crypto_frames :: "('k, 't) Conn \<Rightarrow> Level \<Rightarrow> Frame list \<times> ('k, 't) Conn" where
  "crypto_frames c level =
     (let idx = level_idx level;
          s = spaces c ! idx;
          (cr, cs) = drain_crypto (space_crypto s);
          c = c\<lparr>spaces := (spaces c)[idx := s\<lparr>space_crypto := cs\<rparr>]\<rparr>
      in if level = LData \<and> side c = Server \<and> send_handshake_done c
         then (cr @ [HandshakeDone], c\<lparr>send_handshake_done := False\<rparr>)
         else (cr, c))"

definition collect_frames :: "('k, 't) Conn \<Rightarrow> Level \<Rightarrow> Frame list \<times> bool \<times> ('k, 't) Conn" where
  "collect_frames c level =
     (let (ack, c) = ack_frames c level;
          (data, closing, c) = data_frames c level;
          (rest, c) = (if closing then ([], c) else crypto_frames c level)
      in (ack @ data @ rest, closing, c))"

definition eliciting :: "Frame \<Rightarrow> bool" where
  "eliciting f = (case f of Padding _ \<Rightarrow> False | Ack _ _ _ _ \<Rightarrow> False | ConnectionClose _ _ _ \<Rightarrow> False | _ \<Rightarrow> True)"

definition build_packet :: "'k Primitives \<Rightarrow> ('k, 't) Conn \<Rightarrow> Level \<Rightarrow> (bytes option \<times> ('k, 't) Conn) option" where
  "build_packet X c level =
     (let idx = level_idx level
      in if tx_keys c ! idx = None then Some (None, c)
         else case collect_frames c level of
                (frames, closing, c) \<Rightarrow>
                  if frames = [] then Some (None, c)
                  else
                    let body = concat (map frame_encode frames);
                        elicits = list_ex eliciting frames;
                        pn = next_pn (spaces c ! idx)
                    in case protect X c level body of
                         None \<Rightarrow> None
                       | Some (pkt, c) \<Rightarrow>
                           let c = c\<lparr>recovery := on_packet_sent (recovery c) idx
                                     \<lparr>sp_pn = pn, time_sent = now c, sp_size = length pkt, ack_eliciting = elicits\<rparr>\<rparr>;
                               keep = filter retransmittable frames;
                               c = (if keep \<noteq> [] then c\<lparr>sent_frames := (sent_frames c)((idx, pn) \<mapsto> keep)\<rparr> else c);
                               c = (if elicits then c\<lparr>last_activity := now c\<rparr> else c);
                               c = (if closing then c\<lparr>closed := True\<rparr> else c)
                           in Some (Some pkt, c))"

fun build_levels :: "'k Primitives \<Rightarrow> ('k, 't) Conn \<Rightarrow> Level list \<Rightarrow> (bytes \<times> ('k, 't) Conn) option" where
  "build_levels X c [] = Some ([], c)"
| "build_levels X c (l # ls) =
     (case build_packet X c l of
        None \<Rightarrow> None
      | Some (p, c) \<Rightarrow>
          (case build_levels X c ls of
             None \<Rightarrow> None
           | Some (ps, c) \<Rightarrow> Some ((case p of Some p \<Rightarrow> p @ ps | None \<Rightarrow> ps), c)))"

definition poll_transmit :: "'k Primitives \<Rightarrow> ('k, 't) TlsOps \<Rightarrow> ('k, 't) Conn \<Rightarrow> (bytes option \<times> ('k, 't) Conn) option" where
  "poll_transmit X T c =
     (if closed c then Some (None, c)
      else case (if side c = Client \<and> \<not> initial_sent c then map_option snd (pump_tls T c) else Some c) of
             None \<Rightarrow> None
           | Some c \<Rightarrow>
               (case build_levels X c [LInitial, LHandshake, LData] of
                  None \<Rightarrow> None
                | Some (datagram, c) \<Rightarrow>
                    if datagram = [] then Some (None, c)
                    else if side c = Client \<and> \<not> initial_sent c
                    then Some (Some (if length datagram < 1200 then datagram @ replicate (1200 - length datagram) 0 else datagram),
                               c\<lparr>initial_sent := True\<rparr>)
                    else Some (Some datagram, c)))"

section \<open>A packet reaches the other end\<close>

lemma pn_len_range: "2 \<le> max (packet_number_len pn None) 2 \<and> max (packet_number_len pn None) 2 \<le> 4"
  by (simp add: packet_number_len_def Let_def)

lemma pn_len_bits:
  assumes "2 \<le> n" "n \<le> 4"
  shows "unat ((0x40 OR of_nat (n - 1) :: u8) AND 0x03) + 1 = n" "(0x40 OR of_nat (n - 1) :: u8) AND 0x80 = 0"
    "(0x40 OR of_nat (n - 1) :: u8) AND 0x40 = 0x40" "unat ((of_nat (n - 1) AND 0x0f :: u8) AND 0x03) + 1 = n"
proof -
  consider "n = 2" | "n = 3" | "n = 4" using assms by linarith
  then show "unat ((0x40 OR of_nat (n - 1) :: u8) AND 0x03) + 1 = n" "(0x40 OR of_nat (n - 1) :: u8) AND 0x80 = 0"
    "(0x40 OR of_nat (n - 1) :: u8) AND 0x40 = 0x40" "unat ((of_nat (n - 1) AND 0x0f :: u8) AND 0x03) + 1 = n"
    by (cases; simp)+
qed

text \<open>The packet number is close enough to those the receiver has seen.\<close>

definition pn_in_window :: "nat option \<Rightarrow> nat \<Rightarrow> bool" where
  "pn_in_window largest pn \<longleftrightarrow>
     (let l = (case largest of None \<Rightarrow> 0 | Some l \<Rightarrow> l) in l + 1 < pn + 2 ^ 15 \<and> pn \<le> l + 1 + 2 ^ 31 \<and> pn < 2 ^ 62)"

lemma pn_in_window_decodes:
  "pn_in_window largest pn \<Longrightarrow> n = max (packet_number_len pn None) 2 \<Longrightarrow>
     decode_packet_number (case largest of None \<Rightarrow> 0 | Some l \<Rightarrow> l) (be_val (encode_packet_number pn n)) (n * 8) = pn"
  by (rule packet_number_recovered) (simp_all add: pn_in_window_def Let_def)

text \<open>What the receiver does with the payload of an authentic packet.\<close>

definition accept_payload :: "('k, 't) Conn \<Rightarrow> Level \<Rightarrow> nat \<Rightarrow> bytes \<Rightarrow> (QuicError + unit) \<times> ('k, 't) Conn" where
  "accept_payload c level pn payload =
     (let idx = level_idx level;
          s = spaces c ! idx;
          s = s\<lparr>largest_recv := option_max (largest_recv s) pn, recv_count := recv_count s + 1, ack_pending := True\<rparr>;
          c = c\<lparr>spaces := (spaces c)[idx := s]\<rparr>
      in case decode_all payload of Inl e \<Rightarrow> (Err e, c) | Inr fs \<Rightarrow> handle_frames c level fs)"

lemma decrypt_and_handle_accept:
  assumes "rx_keys c ! level_idx level = Some k" "open_packet X k (largest_recv (spaces c ! level_idx level)) (take e buf) pn_off = Ok (pn, body)"
  shows "decrypt_and_handle X c level buf pn_off e = accept_payload c level pn body"
  using assms by (simp add: decrypt_and_handle_def accept_payload_def Let_def)

lemma protect_parts:
  assumes "protect X c level body = Some (pkt, c')"
  obtains k where "tx_keys c ! level_idx level = Some k"
    "seal_packet X k (packet_header c level (max (packet_number_len (next_pn (spaces c ! level_idx level)) None) 2) (length body))
       (next_pn (spaces c ! level_idx level)) (max (packet_number_len (next_pn (spaces c ! level_idx level)) None) 2) body = Some pkt"
    "c' = c\<lparr>spaces := (spaces c)[level_idx level := (spaces c ! level_idx level)\<lparr>next_pn := next_pn (spaces c ! level_idx level) + 1\<rparr>]\<rparr>"
proof -
  have "packet_header (c\<lparr>spaces := x\<rparr>) level n l = packet_header c level n l" for x n l
    by (simp add: packet_header_def Let_def)
  with assms that show thesis by (auto simp: protect_def Let_def split: option.splits)
qed

lemma short_packet_received:
  assumes "primitives_ok X" "protect X c LData body = Some (pkt, c')" "tx_keys c ! 2 = rx_keys r ! 2"
    and "cid_wf (dcid c)" "scid r = dcid c" "pn_in_window (largest_recv (spaces r ! 2)) (next_pn (spaces c ! 2))"
  shows "recv_one X T r pkt = accept_payload r LData (next_pn (spaces c ! 2)) body" "hd pkt AND 0x40 = 0x40"
    "packet_len pkt = Ok (length pkt)" "pkt \<noteq> []"
proof -
  define pn where "pn = next_pn (spaces c ! 2)"
  define n where "n = max (packet_number_len pn None) 2"
  define f where "f = (0x40 OR of_nat (n - 1) :: u8)"
  let ?d = "cid_slice (dcid c)"
  have n: "2 \<le> n" "n \<le> 4" using pn_len_range by (simp_all add: n_def)
  from assms(2) obtain k where k: "tx_keys c ! 2 = Some k" and seal: "seal_packet X k (f # ?d) pn n body = Some pkt"
    by (rule protect_parts) (simp add: level_idx_def packet_header_def f_def n_def pn_def)
  have "unat (f AND 0x03) + 1 = n" unfolding f_def by (rule pn_len_bits(1) [OF n])
  note op = open_seal_packet [OF assms(1) seal this n(2) pn_in_window_decodes [OF assms(6) [folded pn_def] n_def]]
  have "1 \<le> n" using n by simp
  note sp = seal_packet_parts [OF assms(1) seal this n(2)]
  obtain m rest where pkt: "pkt = (f XOR (m AND form_mask f)) # ?d @ rest" by (rule sp) blast
  have fb: "f AND 0x80 = 0" "f AND 0x40 = 0x40" unfolding f_def by (rule pn_len_bits(2,3) [OF n])+
  then have fm: "form_mask f = 0x1f" by (simp add: form_mask_def)
  have b: "(f XOR (m AND 0x1f)) AND 0x80 = 0" "(f XOR (m AND 0x1f)) AND 0x40 = 0x40"
    using fb by (simp_all add: bit.conj_xor_distrib2 and.assoc)
  then show "hd pkt AND 0x40 = 0x40" "packet_len pkt = Ok (length pkt)" "pkt \<noteq> []"
    by (simp_all add: pkt fm packet_len_def)
  have len: "cid_len (scid r) = length ?d" using assms(4,5) length_cid_slice by simp
  have "length ?d \<le> 20" using assms(4) length_cid_slice by (simp add: cid_wf_def)
  then have "\<exists>x. cid_new (slice pkt 1 (length ?d)) = Ok x" by (simp add: cid_new_def slice_def pkt)
  then have "\<exists>x. parse_short_header_dcid pkt (cid_len (scid r)) = Ok (x, Suc (length ?d))"
    by (auto simp: parse_short_header_dcid_def pkt fm b len)
  then obtain x where "parse_short_header_dcid pkt (cid_len (scid r)) = Ok (x, Suc (length ?d))" by blast
  then have "recv_short X r pkt = accept_payload r LData pn body"
    using decrypt_and_handle_accept [of r LData k X "length pkt" pkt "Suc (length ?d)" pn body] op k assms(3)
    by (simp add: recv_short_def level_idx_def)
  then show "recv_one X T r pkt = accept_payload r LData (next_pn (spaces c ! 2)) body"
    using b by (simp add: recv_one_def pkt fm pn_def)
qed

lemma long_packet_received:
  assumes "primitives_ok X" "protect X c level body = Some (pkt, c')" "level \<noteq> LData" "tx_keys c ! level_idx level = rx_keys r ! level_idx level"
    and "cid_wf (dcid c)" "cid_wf (scid c)" "version r = version c" "length body \<le> 2 ^ 60"
    and "pn_in_window (largest_recv (spaces r ! level_idx level)) (next_pn (spaces c ! level_idx level))"
    and "level = LInitial \<Longrightarrow> side r = Client \<or> rx_keys r ! 0 \<noteq> None"
  shows "recv_one X T r pkt = accept_payload r level (next_pn (spaces c ! level_idx level)) body" "hd pkt AND 0x40 = 0x40"
    "packet_len (pkt @ rst) = Ok (length pkt)" "pkt \<noteq> []"
proof -
  let ?i = "level_idx level"
  define pn where "pn = next_pn (spaces c ! ?i)"
  define n where "n = max (packet_number_len pn None) 2"
  define ty where "ty = (if level = LInitial then TInitial else THandshake)"
  define hdr where "hdr = \<lparr>lh_ty = ty, lh_version = to_u32 (version c), lh_dcid = dcid c, lh_scid = scid c, lh_token = []\<rparr>"
  define L where "L = n + length body + AEAD_TAG_LEN"
  define low where "low = (of_nat (n - 1) :: u8)"
  define f where "f = 0xc0 OR push_bit 4 (type_bits ty) OR (low AND 0x0f)"
  define tlw where "tlw = tl (write_long_header hdr low)"
  define o1 where "o1 = tlw @ encode_varint L"
  have n: "2 \<le> n" "n \<le> 4" using pn_len_range by (simp_all add: n_def)
  have wl: "write_long_header hdr l = (0xc0 OR push_bit 4 (type_bits ty) OR (l AND 0x0f)) # tlw" for l
    by (simp add: write_long_header_def hdr_def tlw_def)
  have "write_long_header hdr low @ encode_varint L = f # o1" by (simp only: wl) (simp add: f_def o1_def)
  then have "packet_header c level n (length body) = f # o1"
    using assms(3) by (simp only: packet_header_def hdr_def ty_def L_def Let_def low_def if_False)
  with assms(2) obtain k where k: "tx_keys c ! ?i = Some k" and seal: "seal_packet X k (f # o1) pn n body = Some pkt"
    by (auto elim!: protect_parts simp: pn_def n_def)
  have "f AND 0x0f = low AND 0x0f" unfolding f_def by (rule first_byte_bits(4))
  moreover have "f AND 0x03 = (f AND 0x0f) AND 0x03" by (simp add: and.assoc)
  ultimately have "unat (f AND 0x03) + 1 = n" using pn_len_bits(4) [OF n, folded low_def] by simp
  note op = open_seal_packet [OF assms(1) seal this n(2) pn_in_window_decodes [OF assms(9) [folded pn_def] n_def]]
  have fm: "form_mask f = 0x0f" using first_byte_bits(1) [of ty low] by (simp add: form_mask_def f_def)
  have "1 \<le> n" using n by simp
  note sp = seal_packet_parts [OF assms(1) seal this n(2)]
  obtain m ct where ct: "length ct = length body + 16"
    "pkt = (f XOR (m ! 0 AND form_mask f)) # o1 @ map2 (XOR) (be_bytes n pn) (slice m 1 n) @ ct" "length m = 5"
    by (rule sp) blast
  define w where "w = write_long_header hdr (low XOR m ! 0)"
  define pay where "pay = map2 (XOR) (be_bytes n pn) (slice m 1 n) @ ct"
  have pay: "length pay = L" using n ct(1,3) by (simp add: pay_def L_def AEAD_TAG_LEN_def slice_def)
  have w1: "w = (0xc0 OR push_bit 4 (type_bits ty) OR ((low XOR m ! 0) AND 0x0f)) # tlw" unfolding w_def by (rule wl)
  have pf: "f XOR (m ! 0 AND 0x0f) = 0xc0 OR push_bit 4 (type_bits ty) OR ((low XOR m ! 0) AND 0x0f)"
    unfolding f_def by (rule protected_first_byte)
  have pkt: "pkt = w @ encode_varint L @ pay" by (simp add: ct(2) fm pf o1_def pay_def w1)
  have hg: "header_good hdr" using assms(5,6) by (simp add: header_good_def hdr_def VARINT_MAX_def)
  have lm: "L \<le> VARINT_MAX" using n assms(8) by (simp add: L_def AEAD_TAG_LEN_def VARINT_MAX_def)
  have ph: "\<exists>l. parse_long_header (pkt @ z) = Ok (hdr, l, length w)" for z
    using parse_write_long_header [OF hg, of "low XOR m ! 0" "encode_varint L @ pay @ z"] by (simp add: pkt w_def)
  have dv: "decode_varint (drop (length w) (pkt @ z)) = Ok (L, length (encode_varint L))" for z
    using decode_encode_varint [OF lm, of "pay @ z"] by (simp add: pkt)
  have len: "length w + length (encode_varint L) + L = length pkt" by (simp add: pkt pay)
  have bits: "hd pkt AND 0x80 = 0x80" "hd pkt AND 0x40 = 0x40" "pkt \<noteq> []"
    using first_byte_bits(1,2) [of ty "low XOR m ! 0"] by (simp_all add: pkt w1)
  then show "hd pkt AND 0x40 = 0x40" "pkt \<noteq> []" by simp_all
  have tyr: "lh_ty hdr = ty" "ty \<noteq> TRetry" by (simp_all add: hdr_def ty_def)
  show "packet_len (pkt @ rst) = Ok (length pkt)"
    using ph [of rst] bits dv [of rst] by (auto simp: packet_len_def tyr len simp del: drop_append)
  have off: "length w + length (encode_varint L) = Suc (length o1)" by (simp add: w1 o1_def)
  from ph [of "[]"] obtain l where ph0: "parse_long_header pkt = Ok (hdr, l, length w)" by auto
  have "recv_long X T r pkt = accept_payload r level pn body"
    using decrypt_and_handle_accept [of r level k X "length pkt" pkt "Suc (length o1)" pn body] op k assms(3,4,7,10) dv [of "[]"] len off
    by (cases level) (auto simp: recv_long_def ph0 hdr_def ty_def Let_def)
  then show "recv_one X T r pkt = accept_payload r level (next_pn (spaces c ! level_idx level)) body"
    using bits by (cases pkt) (simp_all add: recv_one_def pn_def)
qed

end
