(* ===== verification/Quic_Reach.thy ===== *)
theory Quic_Reach
  imports Quic_Conn
begin

text \<open>
  The states a QUIC connection of \<^verbatim>\<open>lib/mb-quic/src/conn.rs\<close> can reach through its public operations, and what holds in all of them:
  the table of packets in flight, the frames kept for retransmission and the packet numbers agree, numbers are never
  used twice, and a frame that must be repeated is held until its packet is acknowledged.
\<close>

section \<open>The invariant\<close>

definition in_flight :: "('k, 't) Conn \<Rightarrow> nat \<Rightarrow> nat set" where
  "in_flight c i = set (om_keys (sent (lr_spaces (recovery c) ! i)))"

text \<open>The frames the connection will send again unless they are acknowledged.\<close>

definition held :: "('k, 't) Conn \<Rightarrow> Frame set" where
  "held c = set (retransmit c) \<union> {f. \<exists>k fs. sent_frames c k = Some fs \<and> f \<in> set fs}"

definition kept_ok :: "('k, 't) Conn \<Rightarrow> bool" where
  "kept_ok c \<longleftrightarrow> list_all retransmittable (retransmit c) \<and>
     (\<forall>i pn fs. sent_frames c (i, pn) = Some fs \<longrightarrow> i < 3 \<and> pn \<in> in_flight c i \<and> list_all retransmittable fs)"

definition conn_inv :: "('k, 't) Conn \<Rightarrow> bool" where
  "conn_inv c \<longleftrightarrow> length (spaces c) = 3 \<and> lr_inv (recovery c) \<and> kept_ok c
     \<and> (\<forall>i < 3. \<forall>pn \<in> in_flight c i. pn < next_pn (spaces c ! i))
     \<and> fc_ok (send_fc c) \<and> fc_ok (recv_fc c) \<and> dq_ok (datagrams c)"

text \<open>What an operation keeps: the invariant, and no packet number is taken back.\<close>

definition keeps :: "('k, 't) Conn \<Rightarrow> ('k, 't) Conn \<Rightarrow> bool" where
  "keeps c c' \<longleftrightarrow> (conn_inv c \<longrightarrow> conn_inv c' \<and> (\<forall>i < 3. next_pn (spaces c ! i) \<le> next_pn (spaces c' ! i)))"

lemma keeps_refl [simp, intro]: "keeps c c"
  by (simp add: keeps_def)

lemma keeps_trans [trans]: "keeps a b \<Longrightarrow> keeps b c \<Longrightarrow> keeps a c"
  unfolding keeps_def by (meson order_trans)

lemma level_idx_less [simp]: "level_idx l < 3"
  by (cases l) (simp_all add: level_idx_def)

lemma level_idx_inj [simp]: "level_idx l = level_idx m \<longleftrightarrow> l = m"
  by (cases l; cases m) (simp_all add: level_idx_def)

text \<open>An update that touches none of the fields the invariant reads, or a space without its next number.\<close>

lemma keeps_frame:
  assumes "spaces c' = spaces c" "recovery c' = recovery c" "retransmit c' = retransmit c" "sent_frames c' = sent_frames c"
    and "fc_ok (send_fc c) \<Longrightarrow> fc_ok (send_fc c')" "fc_ok (recv_fc c) \<Longrightarrow> fc_ok (recv_fc c')"
    and "dq_ok (datagrams c) \<Longrightarrow> dq_ok (datagrams c')"
  shows "keeps c c'"
  using assms by (simp add: keeps_def conn_inv_def kept_ok_def in_flight_def)

lemma keeps_space:
  assumes "next_pn s = next_pn (spaces c ! i)"
  shows "keeps c (c\<lparr>spaces := (spaces c)[i := s]\<rparr>)"
proof -
  have "next_pn ((spaces c)[i := s] ! j) = next_pn (spaces c ! j)" for j
    using assms by (cases "i < length (spaces c)") (auto simp: nth_list_update list_update_beyond)
  then show ?thesis by (simp add: keeps_def conn_inv_def kept_ok_def in_flight_def)
qed

section \<open>Acknowledged and lost packets\<close>

lemma requeue_lost_parts:
  "\<exists>xs. requeue_lost c i ps = c\<lparr>sent_frames := (\<lambda>k. if k \<in> (\<lambda>p. (i, sp_pn p)) ` set ps then None else sent_frames c k),
       retransmit := retransmit c @ xs\<rparr>
     \<and> set xs = {f. \<exists>p fs. p \<in> set ps \<and> sent_frames c (i, sp_pn p) = Some fs \<and> f \<in> set fs \<and> retransmittable f}"
proof (induction ps arbitrary: c)
  case Nil
  show ?case by simp
next
  case (Cons p ps)
  show ?case
  proof (cases "sent_frames c (i, sp_pn p)")
    case None
    from Cons.IH [of c] obtain xs where x: "requeue_lost c i ps = c\<lparr>sent_frames := (\<lambda>k. if k \<in> (\<lambda>p. (i, sp_pn p)) ` set ps then None else sent_frames c k),
       retransmit := retransmit c @ xs\<rparr>" "set xs = {f. \<exists>p fs. p \<in> set ps \<and> sent_frames c (i, sp_pn p) = Some fs \<and> f \<in> set fs \<and> retransmittable f}"
      by blast
    have "(\<lambda>k. if k \<in> (\<lambda>p. (i, sp_pn p)) ` set ps then None else sent_frames c k)
        = (\<lambda>k. if k \<in> (\<lambda>p. (i, sp_pn p)) ` set (p # ps) then None else sent_frames c k)" using None by (auto simp: fun_eq_iff)
    with x None show ?thesis by (intro exI [of _ xs]) auto
  next
    case (Some fs)
    define d where "d = c\<lparr>sent_frames := (sent_frames c)((i, sp_pn p) := None), retransmit := retransmit c @ filter retransmittable fs\<rparr>"
    from Cons.IH [of d] obtain xs where x: "requeue_lost d i ps = d\<lparr>sent_frames := (\<lambda>k. if k \<in> (\<lambda>p. (i, sp_pn p)) ` set ps then None else sent_frames d k),
       retransmit := retransmit d @ xs\<rparr>" "set xs = {f. \<exists>p fs. p \<in> set ps \<and> sent_frames d (i, sp_pn p) = Some fs \<and> f \<in> set fs \<and> retransmittable f}"
      by blast
    have "(\<lambda>k. if k \<in> (\<lambda>p. (i, sp_pn p)) ` set ps then None else sent_frames d k)
        = (\<lambda>k. if k \<in> (\<lambda>p. (i, sp_pn p)) ` set (p # ps) then None else sent_frames c k)" by (auto simp: d_def fun_eq_iff)
    moreover have "set (filter retransmittable fs @ xs)
        = {f. \<exists>q gs. q \<in> set (p # ps) \<and> sent_frames c (i, sp_pn q) = Some gs \<and> f \<in> set gs \<and> retransmittable f}"
      using Some unfolding set_append x(2) d_def by (auto split: if_splits) (metis option.inject)
    ultimately show ?thesis using x(1) Some
      by (intro exI [of _ "filter retransmittable fs @ xs"]) (simp add: d_def)
  qed
qed

text \<open>Packets leave the table, and the frames kept for them leave with them.\<close>

lemma keeps_retired:
  assumes "\<And>j. conn_inv c \<Longrightarrow> j < 3 \<Longrightarrow> set (om_keys (sent (lr_spaces (recovery c) ! j))) =
      set (om_keys (sent (lr_spaces lr ! j))) \<union> (if j = i then sp_pn ` set ps else {})"
    and "lr_inv (recovery c) \<Longrightarrow> lr_inv lr" "conn_inv c \<Longrightarrow> list_all retransmittable xs"
  shows "keeps c (c\<lparr>recovery := lr, sent_frames := (\<lambda>k. if k \<in> (\<lambda>p. (i, sp_pn p)) ` set ps then None else sent_frames c k),
     retransmit := retransmit c @ xs\<rparr>)"
  unfolding keeps_def
proof
  assume inv: "conn_inv c"
  let ?c = "c\<lparr>recovery := lr, sent_frames := (\<lambda>k. if k \<in> (\<lambda>p. (i, sp_pn p)) ` set ps then None else sent_frames c k),
     retransmit := retransmit c @ xs\<rparr>"
  have k: "in_flight c j = in_flight ?c j \<union> (if j = i then sp_pn ` set ps else {})" if "j < 3" for j
    using assms(1) [OF inv that] by (simp only: in_flight_def) simp
  have sub: "\<forall>j < 3. in_flight ?c j \<subseteq> in_flight c j" using k by blast
  have "kept_ok ?c" unfolding kept_ok_def
  proof (intro conjI allI impI)
    show "list_all retransmittable (retransmit ?c)" using inv assms(3) by (simp add: conn_inv_def kept_ok_def)
    fix j pn fs
    assume "sent_frames ?c (j, pn) = Some fs"
    then have s: "sent_frames c (j, pn) = Some fs" "(j, pn) \<notin> (\<lambda>p. (i, sp_pn p)) ` set ps" by (auto split: if_splits)
    have "kept_ok c" using inv by (simp add: conn_inv_def)
    with s(1) have f: "j < 3" "list_all retransmittable fs" "pn \<in> in_flight c j" unfolding kept_ok_def by blast+
    then show "j < 3" "list_all retransmittable fs" by blast+
    have "pn \<notin> (if j = i then sp_pn ` set ps else {})" using s(2) by auto
    with f(3) show "pn \<in> in_flight ?c j" unfolding k [OF f(1)] by blast
  qed
  moreover have "\<forall>j < 3. \<forall>pn \<in> in_flight ?c j. pn < next_pn (spaces ?c ! j)" using sub inv by (auto simp: conn_inv_def)
  ultimately show "conn_inv ?c \<and> (\<forall>i < 3. next_pn (spaces c ! i) \<le> next_pn (spaces ?c ! i))"
    using inv assms(2) by (simp add: conn_inv_def)
qed

lemma keeps_lost:
  assumes "detect_lost (recovery c) i t = (lost, lr)" "i < 3"
  shows "keeps c (requeue_lost (c\<lparr>recovery := lr\<rparr>) i lost)"
proof -
  obtain xs where x: "requeue_lost (c\<lparr>recovery := lr\<rparr>) i lost = c\<lparr>recovery := lr,
      sent_frames := (\<lambda>k. if k \<in> (\<lambda>p. (i, sp_pn p)) ` set lost then None else sent_frames c k), retransmit := retransmit c @ xs\<rparr>"
    "set xs = {f. \<exists>p fs. p \<in> set lost \<and> sent_frames c (i, sp_pn p) = Some fs \<and> f \<in> set fs \<and> retransmittable f}"
    using requeue_lost_parts [of "c\<lparr>recovery := lr\<rparr>" i lost] by (auto cong: if_cong)
  show ?thesis unfolding x(1)
  proof (rule keeps_retired)
    show "lr_inv lr" if "lr_inv (recovery c)" using detect_lost_inv [OF assms(1) that assms(2)] .
    show "list_all retransmittable xs" using x(2) by (auto simp: list_all_iff)
    fix j :: nat
    assume "conn_inv c" "j < 3"
    then show "set (om_keys (sent (lr_spaces (recovery c) ! j))) = set (om_keys (sent (lr_spaces lr ! j))) \<union> (if j = i then sp_pn ` set lost else {})"
      using detect_lost_keys [OF assms(1) _ assms(2)] by (simp only: conn_inv_def)
  qed
qed

lemma keeps_acked:
  assumes "on_ack (recovery c) i largest first_range ranges delay t = (acked, lr)" "i < 3"
  shows "keeps c (c\<lparr>recovery := lr, sent_frames := (\<lambda>k. if k \<in> (\<lambda>p. (i, sp_pn p)) ` set acked then None else sent_frames c k)\<rparr>)"
proof -
  have "keeps c (c\<lparr>recovery := lr, sent_frames := (\<lambda>k. if k \<in> (\<lambda>p. (i, sp_pn p)) ` set acked then None else sent_frames c k),
     retransmit := retransmit c @ []\<rparr>)"
  proof (rule keeps_retired)
    show "lr_inv lr" if "lr_inv (recovery c)" using on_ack_inv [OF assms(1) that assms(2)] .
    fix j :: nat
    assume "conn_inv c" "j < 3"
    then show "set (om_keys (sent (lr_spaces (recovery c) ! j))) = set (om_keys (sent (lr_spaces lr ! j))) \<union> (if j = i then sp_pn ` set acked else {})"
      using on_ack_keys [OF assms(1) _ assms(2)] by (simp only: conn_inv_def)
  qed simp
  then show ?thesis by simp
qed

section \<open>Every operation keeps the invariant\<close>

lemma keeps_streams [simp]: "keeps c (c\<lparr>streams := m\<rparr>)"
  by (rule keeps_frame) simp_all

lemma handle_frame_keeps: "keeps c (snd (handle_frame c level f))"
proof (cases f)
  case (Ack largest delay first_range ranges)
  obtain acked lr where a: "on_ack (recovery c) (level_idx level) largest first_range ranges delay (now c) = (acked, lr)" by fastforce
  define d where "d = c\<lparr>recovery := lr, sent_frames := (\<lambda>k. if k \<in> (\<lambda>p. (level_idx level, sp_pn p)) ` set acked then None else sent_frames c k)\<rparr>"
  obtain lost lr' where l: "detect_lost (recovery d) (level_idx level) (now c) = (lost, lr')" by fastforce
  have "keeps c d" unfolding d_def by (rule keeps_acked [OF a level_idx_less])
  also have "keeps d (requeue_lost (d\<lparr>recovery := lr'\<rparr>) (level_idx level) lost)" by (rule keeps_lost [OF l level_idx_less])
  also have "requeue_lost (d\<lparr>recovery := lr'\<rparr>) (level_idx level) lost = snd (handle_frame c level f)"
    using l by (simp add: Ack handle_frame_def a d_def Let_def)
  finally show ?thesis .
next
  case (Crypto off d)
  then show ?thesis by (simp add: handle_frame_def Let_def keeps_space)
next
  case (StreamF i off fin d)
  obtain b fc where "fc_consume (recv_fc c) (length d) = (b, fc)" by fastforce
  with fc_consume_parts [OF this] show ?thesis
    by (intro keeps_frame; cases b) (auto simp: StreamF handle_frame_def Let_def)
qed (auto simp: handle_frame_def fc_set_limit_parts dq_ops_ok intro!: keeps_frame)

lemma handle_frames_keeps: "keeps c (snd (handle_frames c level fs))"
proof (induction fs arbitrary: c)
  case (Cons f fs)
  obtain r d where h: "handle_frame c level f = (r, d)" by fastforce
  then have "keeps c d" using handle_frame_keeps [of c level f] by simp
  with h Cons.IH [of d] show ?case by (auto split: sum.splits intro: keeps_trans)
qed simp

lemma accept_payload_keeps: "keeps c (snd (accept_payload c level pn body))"
proof -
  define s where "s = spaces c ! level_idx level"
  define d where "d = c\<lparr>spaces := (spaces c)[level_idx level := s\<lparr>largest_recv := option_max (largest_recv s) pn,
    recv_count := recv_count s + 1, ack_pending := True\<rparr>]\<rparr>"
  have "keeps c d" unfolding d_def by (rule keeps_space) (simp add: s_def)
  then show ?thesis using handle_frames_keeps [of d level]
    by (auto simp: accept_payload_def Let_def d_def s_def split: sum.splits intro: keeps_trans)
qed

lemma decrypt_and_handle_keeps: "keeps c (snd (decrypt_and_handle X c level buf off e))"
  using accept_payload_keeps [of c level] by (auto simp: decrypt_and_handle_def accept_payload_def Let_def split: option.splits sum.splits)

lemma install_initial_keys_keeps: "keeps c (snd (install_initial_keys X T c d))"
  by (auto simp: install_initial_keys_def Let_def split: Side.splits intro!: keeps_frame)

lemma recv_one_keeps: "keeps c (snd (recv_one X T c buf))"
proof -
  have short: "keeps c (snd (recv_short X c buf))"
    by (auto simp: recv_short_def decrypt_and_handle_keeps split: sum.splits)
  have ins: "keeps c (snd (install_initial_keys X T (c\<lparr>dcid := x\<rparr>) d))" for x d
    by (rule keeps_trans [OF _ install_initial_keys_keeps]) (rule keeps_frame; simp)
  have "keeps c (snd (recv_long X T c buf))"
  proof (cases "parse_long_header buf")
    case (Inr p)
    obtain hdr l e where p: "p = (hdr, l, e)" by (cases p)
    let ?lv = "if lh_ty hdr = TInitial then LInitial else LHandshake"
    obtain r d where rd: "(if side c = Server \<and> ?lv = LInitial \<and> rx_keys c ! 0 = None
        then install_initial_keys X T (c\<lparr>dcid := lh_scid hdr\<rparr>) (cid_slice (lh_dcid hdr)) else (Ok (), c)) = (r, d)" by fastforce
    have "keeps c d" using rd ins [of "lh_scid hdr" "cid_slice (lh_dcid hdr)"] by (auto split: if_splits)
    moreover from this have "keeps c (snd (decrypt_and_handle X d lv b o' e))" for lv b o' e
      by (rule keeps_trans [OF _ decrypt_and_handle_keeps])
    ultimately show ?thesis unfolding recv_long_def Inr p sum.case prod.case Let_def rd by (auto split: sum.splits)
  qed (simp add: recv_long_def)
  with short show ?thesis by (simp add: recv_one_def split: list.split)
qed

lemma feed_tls_keeps: "keeps c (snd (feed_tls T c ls))"
proof (induction ls arbitrary: c)
  case (Cons l ls)
  define s where "s = spaces c ! level_idx l"
  obtain p cs where r: "cs_read_in_order (space_crypto s) = (p, cs)" by fastforce
  define d where "d = c\<lparr>spaces := (spaces c)[level_idx l := s\<lparr>space_crypto := cs\<rparr>]\<rparr>"
  have d: "keeps c d" unfolding d_def by (rule keeps_space) (simp add: s_def)
  have t: "keeps c (d\<lparr>tls := x\<rparr>)" for x by (rule keeps_trans [OF d]) (rule keeps_frame; simp)
  have "snd (feed_tls T c (l # ls)) \<in> {d, snd (feed_tls T d ls)} \<union> range (\<lambda>x. snd (feed_tls T (d\<lparr>tls := x\<rparr>) ls))"
    using r by (auto simp: s_def d_def Let_def split: sum.splits)
  with d keeps_trans [OF d Cons.IH] keeps_trans [OF t Cons.IH] show ?case by auto
qed simp

lemma drive_tls_keeps: "keeps c (snd (drive_tls T c))"
proof -
  obtain buf ch t where w: "tls_write_hs T (tls c) = (buf, ch, t)" by (cases "tls_write_hs T (tls c)")
  define i where "i = level_idx (write_level c)"
  define d where "d = (if buf \<noteq> [] then c\<lparr>spaces := (spaces c)[i := (spaces c ! i)\<lparr>space_crypto := cs_push_tx (space_crypto (spaces c ! i)) buf\<rparr>]\<rparr> else c)"
  have "keeps c d" by (simp add: d_def keeps_space)
  moreover have "keeps d (snd (drive_tls T c))"
    by (rule keeps_frame; cases ch)
      (auto simp: drive_tls_def w Let_def d_def i_def split: option.splits KeyChange.splits)
  ultimately show ?thesis by (rule keeps_trans)
qed

lemma drive_loop_keeps:
  assumes "drive_loop T c = Some c'"
  shows "keeps c c'"
proof (rule drive_loop.raw_induct [where P = "\<lambda>T. keeps", OF _ assms])
  fix f T and c c' :: "('a, 'b) Conn"
  assume ih: "\<And>T c c'. f T c = Some c' \<Longrightarrow> keeps c c'" and r: "(case drive_tls T c of (go, c) \<Rightarrow> if go then f T c else Some c) = Some c'"
  obtain go d where d: "drive_tls T c = (go, d)" by fastforce
  then have "keeps c d" using drive_tls_keeps [of c T] by simp
  with ih [of T d c'] r d show "keeps c c'" by (auto split: if_splits intro: keeps_trans)
qed

lemma pump_tls_keeps:
  assumes "pump_tls T c = Some (r, c')"
  shows "keeps c c'"
proof -
  obtain q d where f: "feed_tls T c [LInitial, LHandshake, LData] = (q, d)" by fastforce
  then have d: "keeps c d" using feed_tls_keeps [of c T "[LInitial, LHandshake, LData]"] by simp
  show ?thesis
  proof (cases q)
    case (Inl e)
    with assms f d show ?thesis by (simp add: pump_tls_def)
  next
    case (Inr u)
    from assms f Inr obtain e where e: "drive_loop T d = Some e" by (auto simp: pump_tls_def split: option.splits)
    have "keeps e c'"
      using assms f Inr e by (intro keeps_frame)
        (auto simp: pump_tls_def adopt_peer_params_def Let_def fc_set_limit_parts split: option.splits if_splits sum.splits)
    with d drive_loop_keeps [OF e] show ?thesis by (blast intro: keeps_trans)
  qed
qed

lemma recv_pass_keeps: "keeps c (snd (recv_pass X T c ps))"
proof (induction ps arbitrary: c)
  case (Cons p ps)
  obtain r d where "recv_one X T c p = (r, d)" by fastforce
  moreover from this have "keeps c d" using recv_one_keeps [of c X T p] by simp
  moreover from this have "keeps c (snd (recv_pass X T d ps))" by (rule keeps_trans [OF _ Cons.IH])
  ultimately show ?case by (auto split: sum.splits prod.splits)
qed simp

lemma recv_loop_keeps: "recv_loop X T c q = Some (r, c') \<Longrightarrow> keeps c c'"
proof (induction X T c q arbitrary: r c' rule: recv_loop.induct)
  case (1 X T c q)
  obtain p d where p: "recv_pass X T c q = (p, d)" by fastforce
  then have d: "keeps c d" using recv_pass_keeps [of c X T q] by simp
  note unf = "1.prems" [unfolded recv_loop.simps [of X T c q] p prod.case]
  show ?case
  proof (cases p)
    case (Inl e)
    with unf d show ?thesis by simp
  next
    case (Inr x)
    obtain ds b where x: "x = (ds, b)" by (cases x)
    with unf Inr obtain s e where e: "pump_tls T d = Some (s, e)" by (auto split: option.splits)
    have ke: "keeps c e" by (rule keeps_trans [OF d pump_tls_keeps [OF e]])
    show ?thesis
    proof (cases "e = c'")
      case False
      with unf Inr x e have "recv_loop X T e ds = Some (r, c')" "\<not> (ds = [] \<or> \<not> b)" "s = Inr ()"
        by (auto split: sum.splits if_splits)
      with "1.IH" [OF p [symmetric] Inr x [symmetric] e refl] ke show ?thesis by (blast intro: keeps_trans)
    qed (use ke in simp)
  qed
qed

lemma conn_recv_keeps: "conn_recv X T c d = Some (r, c') \<Longrightarrow> keeps c c'"
  by (auto simp: conn_recv_def split: sum.splits intro: recv_loop_keeps)

lemma detect_spaces_keeps: "list_all (\<lambda>i. i < 3) is \<Longrightarrow> keeps c (snd (detect_spaces is c t))"
proof (induction "is" arbitrary: c)
  case (Cons i "is")
  obtain lost lr where l: "detect_lost (recovery c) i t = (lost, lr)" by fastforce
  define d where "d = (if lost \<noteq> [] then requeue_lost (c\<lparr>recovery := lr\<rparr>) i lost else c\<lparr>recovery := lr\<rparr>)"
  have "d = requeue_lost (c\<lparr>recovery := lr\<rparr>) i lost" by (simp add: d_def)
  with keeps_lost [OF l] Cons.prems have "keeps c d" by simp
  moreover have "keeps d (snd (detect_spaces is d t))" using Cons by simp
  moreover have "snd (detect_spaces (i # is) c t) = snd (detect_spaces is d t)" using l by (simp add: d_def split: prod.split)
  ultimately show ?case by (auto intro: keeps_trans)
qed simp

lemma keeps_pto: "keeps c (c\<lparr>recovery := on_pto_expired (recovery c)\<rparr>)"
proof -
  have "lr_spaces (on_pto_expired lr) = lr_spaces lr" for lr by (simp add: on_pto_expired_def)
  then show ?thesis by (simp add: keeps_def conn_inv_def kept_ok_def in_flight_def on_pto_expired_inv del: set_map)
qed

lemma on_timeout_keeps: "keeps c (on_timeout c t)"
proof -
  define d where "d = c\<lparr>now := t\<rparr>"
  have d: "keeps c d" unfolding d_def by (rule keeps_frame) simp_all
  obtain b e where e: "detect_spaces [0, 1, 2] d t = (b, e)" by fastforce
  then have "keeps c e" using detect_spaces_keeps [of "[0, 1, 2]" d t] d by (auto intro: keeps_trans)
  moreover have "keeps c (d\<lparr>closed := True\<rparr>)" by (rule keeps_trans [OF d]) (rule keeps_frame; simp)
  ultimately show ?thesis using e
    by (auto simp: on_timeout_def Let_def d_def split: option.splits intro: keeps_trans [OF _ keeps_pto])
qed

section \<open>Building packets\<close>

text \<open>The bytes of stream data in a list of frames.\<close>

definition stream_bytes :: "Frame list \<Rightarrow> nat" where
  "stream_bytes fs = sum_list (map (\<lambda>f. case f of StreamF _ _ _ d \<Rightarrow> length d | _ \<Rightarrow> 0) fs)"

lemma stream_bytes_simps [simp]:
  "stream_bytes [] = 0" "stream_bytes (StreamF i off fin d # fs) = length d + stream_bytes fs" "stream_bytes (fs @ gs) = stream_bytes fs + stream_bytes gs"
  by (simp_all add: stream_bytes_def)

lemma stream_frames_of_parts:
  "stream_frames_of i m fc rem = (fs, m', fc', rem') \<Longrightarrow> rem \<le> fc_available fc \<Longrightarrow> fc_ok fc \<Longrightarrow>
     fc_ok fc' \<and> limit fc' = limit fc \<and> rem' \<le> fc_available fc' \<and> used fc' = used fc + stream_bytes fs
     \<and> rem = rem' + stream_bytes fs"
proof (induction i m fc rem arbitrary: fs m' fc' rem' rule: stream_frames_of.induct)
  case (1 i m fc rem)
  obtain o' s where t: "send_take (stream_send (sm_entry m i)) (min rem APP_FRAME_BUDGET) = (o', s)" by fastforce
  note unf = "1.prems"(1) [unfolded stream_frames_of.simps [of i m fc rem]]
  show ?case
  proof (cases "0 < rem \<and> o' \<noteq> None")
    case False
    then have "rem = 0 \<or> o' = None" by (cases o') auto
    with unf t have "fs = [] \<and> fc' = fc \<and> rem' = rem" by (elim disjE) (auto split: if_splits)
    with "1.prems"(2,3) show ?thesis by simp
  next
    case True
    then obtain off d fin where o': "o' = Some (off, d, fin)" by (cases o') auto
    have len: "length d \<le> rem" using t o' by (auto simp: send_take_def Let_def split: if_splits)
    define fc1 where "fc1 = snd (fc_consume fc (length d))"
    have c1: "fc_ok fc1" "limit fc1 = limit fc" "used fc1 = used fc + length d" "rem - length d \<le> fc_available fc1"
      using len "1.prems"(2,3) by (auto simp: fc1_def fc_consume_def fc_available_def fc_ok_def)
    define m1 where "m1 = sm_update m i (\<lambda>x. x\<lparr>stream_send := s\<rparr>)"
    obtain gs m2 fc2 rem2 where g: "stream_frames_of i m1 fc1 (rem - length d) = (gs, m2, fc2, rem2)" by (metis prod_cases4)
    show ?thesis
    proof (cases fin)
      case fin: True
      have "fs = [StreamF i off fin d]" "fc' = fc1" "rem' = rem - length d"
        using unf True t o' fin by (simp_all add: Let_def fc1_def)
      with c1 len show ?thesis by simp
    next
      case False
      have e: "fs = StreamF i off fin d # gs" "fc' = fc2" "rem' = rem2"
        using unf True t o' False g by (simp_all add: Let_def fc1_def m1_def)
      have "0 < rem" using True by simp
      from "1.IH" [OF this t [symmetric] o' refl refl refl m1_def fc1_def refl False g c1(4,1)] e c1 len
      show ?thesis by auto
    qed
  qed
qed

lemma stream_frames_all_parts:
  "stream_frames_all is m fc rem = (fs, m', fc') \<Longrightarrow> rem \<le> fc_available fc \<Longrightarrow> fc_ok fc \<Longrightarrow>
     fc_ok fc' \<and> limit fc' = limit fc \<and> used fc' = used fc + stream_bytes fs \<and> stream_bytes fs \<le> rem"
proof (induction "is" arbitrary: m fc rem fs)
  case (Cons i "is")
  obtain gs m1 fc1 rem1 where g: "stream_frames_of i m fc rem = (gs, m1, fc1, rem1)" by (metis prod_cases4)
  obtain hs where h: "stream_frames_all is m1 fc1 rem1 = (hs, m', fc')" "fs = gs @ hs"
    using Cons.prems(1) g by (auto split: prod.splits)
  note p = stream_frames_of_parts [OF g Cons.prems(2,3)]
  with Cons.IH [OF h(1)] h(2) show ?case by simp
qed simp

lemma collect_stream_frames_parts:
  assumes "collect_stream_frames c = (fs, c')" "fc_ok (send_fc c)"
  shows "\<exists>m fc. c' = c\<lparr>streams := m, send_fc := fc\<rparr> \<and> fc_ok fc \<and> limit fc = limit (send_fc c) \<and> used fc = used (send_fc c) + stream_bytes fs
    \<and> stream_bytes fs \<le> fc_available (send_fc c) \<and> stream_bytes fs \<le> cc_available (lr_cc (recovery c))"
proof -
  let ?r = "min (fc_available (send_fc c)) (cc_available (lr_cc (recovery c)))"
  obtain m fc where s: "stream_frames_all (sm_sendable (streams c)) (streams c) (send_fc c) ?r = (fs, m, fc)"
      "c' = c\<lparr>streams := m, send_fc := fc\<rparr>"
    using assms(1) by (auto simp: collect_stream_frames_def Let_def split: prod.splits)
  from stream_frames_all_parts [OF s(1) _ assms(2)] s(2) show ?thesis by auto
qed

lemma drain_datagrams_ok: "dq_ok q \<Longrightarrow> dq_ok (snd (drain_datagrams q))"
proof (induction q rule: drain_datagrams.induct)
  case (1 q)
  obtain d r where d: "dq_take_outgoing q APP_FRAME_BUDGET = (d, r)" by fastforce
  have r: "dq_ok r" using dq_ops_ok(2) [OF "1.prems", of APP_FRAME_BUDGET] d by simp
  show ?case
  proof (cases "outgoing q = [] \<or> d = None")
    case True
    with d r "1.prems" show ?thesis by (subst drain_datagrams.simps) auto
  next
    case False
    then obtain x where x: "d = Some x" "outgoing q \<noteq> []" by auto
    obtain fs r' where r': "drain_datagrams r = (fs, r')" by fastforce
    with "1.IH" [OF x(2) d [symmetric] x(1) r] d x show ?thesis by (subst drain_datagrams.simps) simp
  qed
qed

text \<open>What collecting the frames of a packet leaves alone.\<close>

definition quiet :: "('k, 't) Conn \<Rightarrow> ('k, 't) Conn \<Rightarrow> bool" where
  "quiet c c' \<longleftrightarrow> recovery c' = recovery c \<and> sent_frames c' = sent_frames c \<and> map next_pn (spaces c') = map next_pn (spaces c)
     \<and> tx_keys c' = tx_keys c \<and> now c' = now c \<and> (fc_ok (send_fc c) \<longrightarrow> fc_ok (send_fc c')) \<and> (fc_ok (recv_fc c) \<longrightarrow> fc_ok (recv_fc c'))
     \<and> (dq_ok (datagrams c) \<longrightarrow> dq_ok (datagrams c'))"

lemma quiet_trans [trans]: "quiet a b \<Longrightarrow> quiet b c \<Longrightarrow> quiet a c"
  by (simp add: quiet_def)

lemma quiet_space: "next_pn s = next_pn (spaces c ! i) \<Longrightarrow> quiet c (c\<lparr>spaces := (spaces c)[i := s]\<rparr>)"
  by (simp add: quiet_def map_update) (metis list_update_beyond list_update_id length_map nth_map not_le_imp_less)

lemma ack_frames_parts: "ack_frames c level = (fs, c') \<Longrightarrow> quiet c c' \<and> retransmit c' = retransmit c"
  using quiet_space [of "(spaces c ! level_idx level)\<lparr>ack_pending := False\<rparr>" c "level_idx level"]
  by (auto simp: ack_frames_def Let_def quiet_def split: bool.splits option.splits)

lemma crypto_frames_parts:
  assumes "crypto_frames c level = (fs, c')"
  shows "quiet c c' \<and> retransmit c' = retransmit c"
proof -
  obtain cr cs where d: "drain_crypto (space_crypto (spaces c ! level_idx level)) = (cr, cs)" by fastforce
  from quiet_space [of "(spaces c ! level_idx level)\<lparr>space_crypto := cs\<rparr>" c "level_idx level"] assms d
  show ?thesis by (auto simp: crypto_frames_def Let_def quiet_def split: if_splits)
qed

lemma data_frames_parts:
  assumes "data_frames c level = (fs, closing, c')" "fc_ok (send_fc c)" "fc_ok (recv_fc c)"
  shows "quiet c c' \<and> (retransmit c' = retransmit c \<or> retransmit c' = [] \<and> set (retransmit c) \<subseteq> set fs)"
proof (cases "level = LData \<and> close_pending c = None")
  case True
  obtain ext rf where x: "fc_maybe_extend (recv_fc c) (recv_window c) = (ext, rf)" by fastforce
  obtain gs e where g: "collect_stream_frames (c\<lparr>recv_fc := rf, retransmit := []\<rparr>) = (gs, e)" by fastforce
  from collect_stream_frames_parts [OF g] assms(2) obtain m fc where
    e: "e = c\<lparr>recv_fc := rf, retransmit := [], streams := m, send_fc := fc\<rparr>" "fc_ok fc" by auto
  obtain ds q where q: "drain_datagrams (datagrams c) = (ds, q)" by fastforce
  have "c' = e\<lparr>datagrams := q\<rparr>" "set (retransmit c) \<subseteq> set fs" using assms(1) True x g e(1) q by (auto simp: data_frames_def Let_def)
  moreover have "fc_ok rf" using fc_maybe_extend_parts [OF x assms(3)] by simp
  moreover have "dq_ok (datagrams c) \<longrightarrow> dq_ok q" using drain_datagrams_ok [of "datagrams c"] q by simp
  ultimately show ?thesis using e by (simp add: quiet_def)
next
  case False
  with assms show ?thesis by (auto simp: data_frames_def quiet_def split: if_splits)
qed

lemma collect_frames_parts:
  assumes "collect_frames c level = (fs, closing, c')" "fc_ok (send_fc c)" "fc_ok (recv_fc c)"
  shows "quiet c c' \<and> (retransmit c' = retransmit c \<or> retransmit c' = [] \<and> set (retransmit c) \<subseteq> set fs)"
proof -
  obtain ack c1 where a: "ack_frames c level = (ack, c1)" by fastforce
  note pa = ack_frames_parts [OF a]
  obtain data cl c2 where d: "data_frames c1 level = (data, cl, c2)" by (cases "data_frames c1 level")
  have "fc_ok (send_fc c1)" "fc_ok (recv_fc c1)" using pa assms(2,3) by (simp_all add: quiet_def)
  note pd = data_frames_parts [OF d this]
  obtain rest c3 where r: "crypto_frames c2 level = (rest, c3)" by fastforce
  note pr = crypto_frames_parts [OF r]
  have q: "quiet c c2" "quiet c c3" using pa pd pr by (blast intro: quiet_trans)+
  show ?thesis using assms(1) a d r pa pd pr q by (auto simp: collect_frames_def split: if_splits)
qed

text \<open>The state after a packet has been recorded as sent.\<close>

definition record_sent :: "('k, 't) Conn \<Rightarrow> nat \<Rightarrow> SentPacket \<Rightarrow> Frame list \<Rightarrow> ('k, 't) Conn" where
  "record_sent c i p keep =
     c\<lparr>spaces := (spaces c)[i := (spaces c ! i)\<lparr>next_pn := next_pn (spaces c ! i) + 1\<rparr>], recovery := on_packet_sent (recovery c) i p,
       sent_frames := (if keep \<noteq> [] then (sent_frames c)((i, sp_pn p) \<mapsto> keep) else sent_frames c)\<rparr>"

lemma record_sent_keeps:
  assumes "i < 3" "sp_pn p = next_pn (spaces c ! i)" "list_all retransmittable keep"
  shows "keeps c (record_sent c i p keep)"
  unfolding keeps_def
proof
  assume inv: "conn_inv c"
  let ?c = "record_sent c i p keep"
  from inv have lr: "lr_inv (recovery c)" and len: "length (spaces c) = 3" and k: "kept_ok c"
    and fl: "\<forall>i < 3. \<forall>pn \<in> in_flight c i. pn < next_pn (spaces c ! i)" by (simp_all add: conn_inv_def)
  have fresh: "sp_pn p \<notin> in_flight c i" using fl assms(1,2) by auto
  have f: "in_flight ?c j = (if j = i then insert (sp_pn p) (in_flight c j) else in_flight c j)" if "j < 3" for j
    using on_packet_sent_keys [OF lr assms(1) that] by (simp add: record_sent_def in_flight_def del: set_map)
  have n: "next_pn (spaces ?c ! j) = (if j = i then Suc (next_pn (spaces c ! j)) else next_pn (spaces c ! j))" for j
    using len assms(1) by (simp add: record_sent_def nth_list_update)
  have "kept_ok ?c" unfolding kept_ok_def
  proof (intro conjI allI impI)
    show "list_all retransmittable (retransmit ?c)" using k by (simp add: record_sent_def kept_ok_def)
    fix j pn fs
    assume a: "sent_frames ?c (j, pn) = Some fs"
    have "sent_frames ?c (j, pn) = (if keep \<noteq> [] \<and> j = i \<and> pn = sp_pn p then Some keep else sent_frames c (j, pn))"
      by (simp add: record_sent_def)
    with a have "j < 3 \<and> (pn \<in> in_flight c j \<or> j = i \<and> pn = sp_pn p) \<and> list_all retransmittable fs"
      using k assms(1,3) unfolding kept_ok_def by (metis option.inject)
    with f show "j < 3" "pn \<in> in_flight ?c j" "list_all retransmittable fs" by auto
  qed
  moreover have "lr_inv (recovery ?c)"
    using on_packet_sent_inv [OF lr assms(1)] fresh by (simp add: record_sent_def in_flight_def om_get_None)
  moreover have "\<forall>j < 3. \<forall>pn \<in> in_flight ?c j. pn < next_pn (spaces ?c ! j)"
    using fl assms(2) by (auto simp: f n less_Suc_eq)
  ultimately show "conn_inv ?c \<and> (\<forall>i < 3. next_pn (spaces c ! i) \<le> next_pn (spaces ?c ! i))"
    using inv n by (simp add: conn_inv_def) (simp add: record_sent_def)
qed

lemma build_packet_parts:
  assumes "build_packet X c level = Some (out, c')"
  shows "out = None \<and> (c' = c \<or> (\<exists>cl. collect_frames c level = ([], cl, c'))) \<or>
    (\<exists>fs cl c1 p la cd. collect_frames c level = (fs, cl, c1) \<and> sp_pn p = next_pn (spaces c1 ! level_idx level)
      \<and> c' = (record_sent c1 (level_idx level) p (filter retransmittable fs))\<lparr>last_activity := la, closed := cd\<rparr>)"
proof (cases "tx_keys c ! level_idx level = None")
  case True
  with assms show ?thesis by (simp add: build_packet_def)
next
  case False
  obtain fs cl c1 where f: "collect_frames c level = (fs, cl, c1)" by (cases "collect_frames c level")
  show ?thesis
  proof (cases "fs = []")
    case True
    with assms False f show ?thesis by (simp add: build_packet_def)
  next
    case ne: False
    let ?i = "level_idx level" and ?keep = "filter retransmittable fs"
    from assms False f ne obtain pkt c2 where p: "protect X c1 level (concat (map frame_encode fs)) = Some (pkt, c2)"
      by (auto simp: build_packet_def Let_def split: option.splits)
    from protect_parts [OF p] have c2: "c2 = c1\<lparr>spaces := (spaces c1)[?i := (spaces c1 ! ?i)\<lparr>next_pn := next_pn (spaces c1 ! ?i) + 1\<rparr>]\<rparr>"
      by blast
    define sp where "sp = \<lparr>sp_pn = next_pn (spaces c1 ! ?i), time_sent = now c1, sp_size = length pkt, ack_eliciting = list_ex eliciting fs\<rparr>"
    have "c' = (record_sent c1 ?i sp ?keep)\<lparr>last_activity := (if list_ex eliciting fs then now c1 else last_activity c1), closed := cl \<or> closed c1\<rparr>"
      using assms False f ne p by (auto simp: build_packet_def Let_def c2 record_sent_def sp_def)
    with f show ?thesis unfolding sp_def by (metis SentPacket.select_convs(1))
  qed
qed

lemma keeps_collected:
  assumes "collect_frames c level = (fs, cl, c')"
  shows "keeps c c'"
  unfolding keeps_def
proof
  assume inv: "conn_inv c"
  then have "fc_ok (send_fc c)" "fc_ok (recv_fc c)" by (simp_all add: conn_inv_def)
  note p = collect_frames_parts [OF assms this]
  then have m: "map next_pn (spaces c') = map next_pn (spaces c)" by (simp add: quiet_def)
  have len: "length (spaces c') = 3" "length (spaces c) = 3" using map_eq_imp_length_eq [OF m] inv by (simp_all add: conn_inv_def)
  have "next_pn (spaces c' ! i) = next_pn (spaces c ! i)" if "i < 3" for i
    using arg_cong [OF m, of "\<lambda>xs. xs ! i"] len that by simp
  moreover have "kept_ok c'" using p inv unfolding conn_inv_def kept_ok_def in_flight_def quiet_def by auto
  ultimately show "conn_inv c' \<and> (\<forall>i < 3. next_pn (spaces c ! i) \<le> next_pn (spaces c' ! i))"
    using p inv len by (simp add: conn_inv_def in_flight_def quiet_def del: set_map)
qed

lemma build_packet_keeps:
  assumes "build_packet X c level = Some (out, c')"
  shows "keeps c c'"
  using build_packet_parts [OF assms]
proof (elim disjE conjE exE)
  fix fs cl c1 p la cd
  assume f: "collect_frames c level = (fs, cl, c1)" and p: "sp_pn p = next_pn (spaces c1 ! level_idx level)"
    and c': "c' = (record_sent c1 (level_idx level) p (filter retransmittable fs))\<lparr>last_activity := la, closed := cd\<rparr>"
  have "list_all retransmittable (filter retransmittable fs)" by (simp add: list_all_iff)
  note keeps_trans [OF keeps_collected [OF f] record_sent_keeps [OF level_idx_less p this]]
  also have "keeps (record_sent c1 (level_idx level) p (filter retransmittable fs)) c'"
    unfolding c' by (rule keeps_frame) simp_all
  finally show "keeps c c'" .
qed (simp_all add: keeps_collected)

lemma build_levels_keeps: "build_levels X c ls = Some (out, c') \<Longrightarrow> keeps c c'"
proof (induction ls arbitrary: c out)
  case (Cons l ls)
  then obtain p d bs where "build_packet X c l = Some (p, d)" "build_levels X d ls = Some (bs, c')" by (auto split: option.splits)
  with Cons.IH build_packet_keeps show ?case by (blast intro: keeps_trans)
qed simp

text \<open>\<^verbatim>\<open>poll_transmit\<close> turns the TLS session once at the start of a client, then builds the packets.\<close>

lemma poll_transmit_parts:
  assumes "poll_transmit X T c = Some (out, c')"
  shows "c' = c \<or> (\<exists>d e r bs. (d = c \<or> pump_tls T c = Some (r, d)) \<and> build_levels X d [LInitial, LHandshake, LData] = Some (bs, e)
    \<and> (c' = e \<or> c' = e\<lparr>initial_sent := True\<rparr>))"
proof (cases "closed c")
  case True
  with assms show ?thesis by (simp add: poll_transmit_def)
next
  case False
  with assms obtain d where d: "(if side c = Client \<and> \<not> initial_sent c then map_option snd (pump_tls T c) else Some c) = Some d"
    by (auto simp: poll_transmit_def simp del: build_levels.simps split: option.splits)
  then have "\<exists>r. d = c \<or> pump_tls T c = Some (r, d)" by (auto split: if_splits)
  moreover from assms False obtain bs e where e: "build_levels X d [LInitial, LHandshake, LData] = Some (bs, e)"
    unfolding poll_transmit_def d by (auto simp del: build_levels.simps split: option.splits)
  moreover have "c' = e \<or> c' = e\<lparr>initial_sent := True\<rparr>"
    using assms False unfolding poll_transmit_def d by (auto simp: e simp del: build_levels.simps split: if_splits)
  ultimately show ?thesis by blast
qed

lemma poll_transmit_keeps:
  assumes "poll_transmit X T c = Some (out, c')"
  shows "keeps c c'"
  using poll_transmit_parts [OF assms]
proof (elim disjE [where P = "c' = c"] exE conjE)
  fix d e r bs
  assume a: "d = c \<or> pump_tls T c = Some (r, d)" "build_levels X d [LInitial, LHandshake, LData] = Some (bs, e)"
    "c' = e \<or> c' = e\<lparr>initial_sent := True\<rparr>"
  have "keeps c d" using a(1) pump_tls_keeps by auto
  also have "keeps d e" by (rule build_levels_keeps [OF a(2)])
  also have "keeps e c'" using a(3) by (auto intro: keeps_frame)
  finally show ?thesis .
qed simp

section \<open>Reachable states\<close>

text \<open>The public operations, and the steps inside \<^verbatim>\<open>recv\<close> and \<^verbatim>\<open>poll_transmit\<close>, so that the states in the middle of a
  datagram are reachable too: a packet has been opened, one of its frames handled, the TLS session driven, a
  packet built.\<close>

inductive conn_step :: "'k Primitives \<Rightarrow> ('k, 't) TlsOps \<Rightarrow> ('k, 't) Conn \<Rightarrow> ('k, 't) Conn \<Rightarrow> bool" for X T where
  clock: "conn_step X T c (set_now c t)"
| timeout: "conn_step X T c (on_timeout c t)"
| opened: "open_stream c bidi = (r, c') \<Longrightarrow> conn_step X T c c'"
| written: "conn_step X T c (write_stream c i d fin)"
| was_read: "read_stream c i = (d, c') \<Longrightarrow> conn_step X T c c'"
| queued_datagram: "send_datagram c d = (b, c') \<Longrightarrow> conn_step X T c c'"
| taken_datagram: "recv_datagram c = (d, c') \<Longrightarrow> conn_step X T c c'"
| closing: "conn_step X T c (conn_close c app code reason)"
| received: "conn_recv X T c d = Some (r, c') \<Longrightarrow> conn_step X T c c'"
| transmitted: "poll_transmit X T c = Some (out, c') \<Longrightarrow> conn_step X T c c'"
| packet_opened: "s = spaces c ! level_idx level \<Longrightarrow>
    conn_step X T c (c\<lparr>spaces := (spaces c)[level_idx level := s\<lparr>largest_recv := option_max (largest_recv s) pn,
      recv_count := recv_count s + 1, ack_pending := True\<rparr>]\<rparr>)"
| frame_handled: "handle_frame c level f = (r, c') \<Longrightarrow> conn_step X T c c'"
| tls_driven: "pump_tls T c = Some (r, c') \<Longrightarrow> conn_step X T c c'"
| packet_built: "build_packet X c level = Some (out, c') \<Longrightarrow> conn_step X T c c'"

inductive conn_reach :: "'k Primitives \<Rightarrow> ('k, 't) TlsOps \<Rightarrow> ('k, 't) Conn \<Rightarrow> bool" for X T where
  client: "conn_client X T ver dc sc t = Ok c \<Longrightarrow> conn_reach X T c"
| server: "conn_server ver sc t = Ok c \<Longrightarrow> conn_reach X T c"
| step: "conn_reach X T c \<Longrightarrow> conn_step X T c c' \<Longrightarrow> conn_reach X T c'"

lemma conn_step_keeps: "conn_step X T c c' \<Longrightarrow> keeps c c'"
proof (induction rule: conn_step.induct)
  case (frame_handled c level f r c')
  then show ?case using handle_frame_keeps [of c level f] by simp
next
  case (packet_opened s c level pn)
  then show ?case by (intro keeps_space) simp
next
  case (queued_datagram c d b c')
  then show ?case using dq_ops_ok(1) [of "datagrams c" d]
    by (intro keeps_frame) (auto simp: send_datagram_def split: prod.splits)
next
  case (taken_datagram c d c')
  then show ?case using dq_ops_ok(4) [of "datagrams c"]
    by (intro keeps_frame) (auto simp: recv_datagram_def split: prod.splits)
qed (auto simp: on_timeout_keeps conn_recv_keeps poll_transmit_keeps pump_tls_keeps build_packet_keeps set_now_def Let_def open_stream_def write_stream_def read_stream_def
    conn_close_def split: prod.splits intro!: keeps_frame)

lemma conn_new_inv: "conn_inv (conn_new sd ver dc sc t :: ('k, 't) Conn)"
proof -
  define c :: "('k, 't) Conn" where "c = conn_new sd ver dc sc t"
  have f: "spaces c = replicate 3 space_new" "recovery c = lr_default" "retransmit c = []" "sent_frames c = Map.empty"
    "fc_ok (send_fc c)" "fc_ok (recv_fc c)" "dq_ok (datagrams c)"
    by (simp_all add: c_def conn_new_def Let_def fc_ok_def fc_new_def dq_ok_def dq_new_def)
  have "in_flight c i = {}" if "i < 3" for i using that by (simp add: in_flight_def f lr_default_def space_default_def)
  with f lr_default_inv have "conn_inv c" by (simp add: conn_inv_def kept_ok_def)
  then show ?thesis by (simp add: c_def)
qed

lemma conn_reach_inv: "conn_reach X T c \<Longrightarrow> conn_inv c"
proof (induction rule: conn_reach.induct)
  case (client ver dc sc t c)
  then obtain u r where "t = Inr u" "install_initial_keys X T (conn_new Client ver dc sc u) (cid_slice dc) = (r, c)"
    by (cases t) (auto simp: conn_client_def res_bind_def split: prod.splits sum.splits)
  with install_initial_keys_keeps [of "conn_new Client ver dc sc u" X T "cid_slice dc"] conn_new_inv show ?case
    by (metis keeps_def snd_conv)
next
  case (server ver sc t c)
  then show ?case using conn_new_inv by (cases t) (auto simp: conn_server_def res_bind_def)
next
  case (step c c')
  with conn_step_keeps show ?case by (metis keeps_def)
qed


section \<open>Frames held for retransmission\<close>

lemma held_cong: "retransmit c' = retransmit c \<Longrightarrow> sent_frames c' = sent_frames c \<Longrightarrow> held c' = held c"
  by (simp add: held_def)

lemma held_lost:
  assumes "conn_inv c"
  shows "held (requeue_lost (c\<lparr>recovery := lr\<rparr>) i lost) = held c"
proof -
  obtain xs where x: "requeue_lost (c\<lparr>recovery := lr\<rparr>) i lost = c\<lparr>recovery := lr,
      sent_frames := (\<lambda>k. if k \<in> (\<lambda>p. (i, sp_pn p)) ` set lost then None else sent_frames c k), retransmit := retransmit c @ xs\<rparr>"
    "set xs = {f. \<exists>p fs. p \<in> set lost \<and> sent_frames c (i, sp_pn p) = Some fs \<and> f \<in> set fs \<and> retransmittable f}"
    using requeue_lost_parts [of "c\<lparr>recovery := lr\<rparr>" i lost] by (auto cong: if_cong)
  have all: "retransmittable f" if "sent_frames c (j, pn) = Some fs" "f \<in> set fs" for j pn fs f
    using assms that unfolding conn_inv_def kept_ok_def list_all_iff by blast
  let ?gone = "(\<lambda>p. (i, sp_pn p)) ` set lost"
  have "held (requeue_lost (c\<lparr>recovery := lr\<rparr>) i lost) = set (retransmit c) \<union> set xs \<union> {f. \<exists>k fs. k \<notin> ?gone \<and> sent_frames c k = Some fs \<and> f \<in> set fs}"
    unfolding x(1) held_def by (auto split: if_splits)
  also have "set xs = {f. \<exists>k fs. k \<in> ?gone \<and> sent_frames c k = Some fs \<and> f \<in> set fs}"
    unfolding x(2) using all by blast
  finally show ?thesis unfolding held_def by blast
qed

lemma held_detect_spaces: "conn_inv c \<Longrightarrow> list_all (\<lambda>i. i < 3) is \<Longrightarrow> held (snd (detect_spaces is c t)) = held c"
proof (induction "is" arbitrary: c)
  case (Cons i "is")
  obtain lost lr where l: "detect_lost (recovery c) i t = (lost, lr)" by fastforce
  let ?d = "requeue_lost (c\<lparr>recovery := lr\<rparr>) i lost"
  have d: "conn_inv ?d" using keeps_lost [OF l] Cons.prems by (simp add: keeps_def)
  have "snd (detect_spaces (i # is) c t) = snd (detect_spaces is ?d t)"
    using l by (cases "lost = []") (simp_all split: prod.split)
  with Cons.IH [OF d] Cons.prems held_lost show ?case by simp
qed simp

lemma held_timeout:
  assumes "conn_inv c"
  shows "held (on_timeout c t) = held c"
proof -
  define d where "d = c\<lparr>now := t\<rparr>"
  obtain b e where e: "detect_spaces [0, 1, 2] d t = (b, e)" by fastforce
  have "keeps c d" unfolding d_def by (rule keeps_frame) simp_all
  with held_detect_spaces [of d "[0, 1, 2]" t] assms e have h: "held e = held d" by (simp add: keeps_def)
  have d: "held d = held c" unfolding d_def by (rule held_cong) simp_all
  have "on_timeout c t \<in> {d\<lparr>closed := True\<rparr>, e, e\<lparr>recovery := on_pto_expired (recovery e)\<rparr>}"
    using e by (auto simp: on_timeout_def Let_def d_def split: option.splits)
  moreover have "held (d\<lparr>closed := True\<rparr>) = held d" "held (e\<lparr>recovery := on_pto_expired (recovery e)\<rparr>) = held e"
    by (simp_all add: held_def)
  ultimately show ?thesis using h d by auto
qed

lemma held_build:
  assumes "build_packet X c level = Some (out, c')" "conn_inv c"
  shows "held c \<subseteq> held c'"
proof -
  have fc: "fc_ok (send_fc c)" "fc_ok (recv_fc c)" using assms(2) by (simp_all add: conn_inv_def)
  show ?thesis using build_packet_parts [OF assms(1)]
  proof (elim disjE conjE exE)
    fix cl
    assume "collect_frames c level = ([], cl, c')"
    from collect_frames_parts [OF this fc] show ?thesis by (auto simp: quiet_def held_def)
  next
    fix fs cl c1 p la cd
    assume f: "collect_frames c level = (fs, cl, c1)" and p: "sp_pn p = next_pn (spaces c1 ! level_idx level)"
      and c': "c' = (record_sent c1 (level_idx level) p (filter retransmittable fs))\<lparr>last_activity := la, closed := cd\<rparr>"
    let ?k = "(level_idx level, sp_pn p)" and ?keep = "filter retransmittable fs"
    note q = collect_frames_parts [OF f fc]
    have inv1: "conn_inv c1" using keeps_collected [OF f] assms(2) by (simp add: keeps_def)
    then have "sp_pn p \<notin> in_flight c1 (level_idx level)" using p level_idx_less [of level] unfolding conn_inv_def by (metis nat_neq_iff)
    with inv1 have none: "sent_frames c1 ?k = None" unfolding conn_inv_def kept_ok_def by (metis not_None_eq)
    have s: "sent_frames c1 = sent_frames c" "retransmit c' = retransmit c1" using q by (simp_all add: quiet_def c' record_sent_def)
    have s': "sent_frames c' = (if ?keep \<noteq> [] then (sent_frames c)(?k \<mapsto> ?keep) else sent_frames c)" by (simp add: c' record_sent_def s(1))
    have "set ?keep \<subseteq> held c'" unfolding held_def s' by (cases "?keep = []") auto
    moreover have "sent_frames c' k = Some gs" if "sent_frames c k = Some gs" for k gs using that none s(1) by (auto simp: s')
    then have "{f. \<exists>k fs. sent_frames c k = Some fs \<and> f \<in> set fs} \<subseteq> held c'" unfolding held_def by blast
    moreover have "list_all retransmittable (retransmit c)" using assms(2) by (simp add: conn_inv_def kept_ok_def)
    then have "set (retransmit c) \<subseteq> set (retransmit c') \<union> set ?keep" using q s(2) by (auto simp: list_all_iff)
    ultimately show ?thesis by (auto simp: held_def)
  qed simp
qed

lemma feed_tls_kept: "retransmit (snd (feed_tls T c ls)) = retransmit c \<and> sent_frames (snd (feed_tls T c ls)) = sent_frames c"
  by (induction T c ls rule: feed_tls.induct) (auto simp: Let_def split: prod.splits sum.splits)

lemma drive_tls_kept: "drive_tls T c = (b, c') \<Longrightarrow> retransmit c' = retransmit c \<and> sent_frames c' = sent_frames c"
  by (auto simp: drive_tls_def Let_def split: prod.splits option.splits KeyChange.splits if_splits)

lemma drive_loop_kept:
  assumes "drive_loop T c = Some c'"
  shows "retransmit c' = retransmit c \<and> sent_frames c' = sent_frames c"
proof (rule drive_loop.raw_induct [where P = "\<lambda>T c c'. retransmit c' = retransmit c \<and> sent_frames c' = sent_frames c", OF _ assms])
  fix f T and c c' :: "('a, 'b) Conn"
  assume ih: "\<And>T c c'. f T c = Some c' \<Longrightarrow> retransmit c' = retransmit c \<and> sent_frames c' = sent_frames c"
    and r: "(case drive_tls T c of (go, c) \<Rightarrow> if go then f T c else Some c) = Some c'"
  obtain go d where "drive_tls T c = (go, d)" by fastforce
  with drive_tls_kept [OF this] ih [of T d c'] r show "retransmit c' = retransmit c \<and> sent_frames c' = sent_frames c"
    by (auto split: if_splits)
qed

lemma pump_tls_kept:
  assumes "pump_tls T c = Some (r, c')"
  shows "held c' = held c"
proof -
  obtain q d where f: "feed_tls T c [LInitial, LHandshake, LData] = (q, d)" by fastforce
  then have d: "retransmit d = retransmit c \<and> sent_frames d = sent_frames c"
    using feed_tls_kept [of T c "[LInitial, LHandshake, LData]"] by simp
  show ?thesis
  proof (cases q)
    case (Inl e)
    with assms f d show ?thesis by (simp add: pump_tls_def held_def)
  next
    case (Inr u)
    from assms f Inr obtain e where e: "drive_loop T d = Some e" by (auto simp: pump_tls_def split: option.splits)
    have "retransmit c' = retransmit e \<and> sent_frames c' = sent_frames e"
      using assms f Inr e by (auto simp: pump_tls_def adopt_peer_params_def Let_def split: option.splits if_splits sum.splits)
    with d drive_loop_kept [OF e] show ?thesis by (simp add: held_def)
  qed
qed

lemma held_levels: "build_levels X c ls = Some (out, c') \<Longrightarrow> conn_inv c \<Longrightarrow> held c \<subseteq> held c'"
proof (induction ls arbitrary: c out)
  case (Cons l ls)
  then obtain p d bs where b: "build_packet X c l = Some (p, d)" "build_levels X d ls = Some (bs, c')" by (auto split: option.splits)
  have "conn_inv d" using build_packet_keeps [OF b(1)] Cons.prems by (simp add: keeps_def)
  with Cons.IH [OF b(2)] held_build [OF b(1)] Cons.prems show ?case by blast
qed simp

lemma held_transmit:
  assumes "poll_transmit X T c = Some (out, c')" "conn_inv c"
  shows "held c \<subseteq> held c'"
  using poll_transmit_parts [OF assms(1)]
proof (elim disjE [where P = "c' = c"] exE conjE)
  fix d e r bs
  assume a: "d = c \<or> pump_tls T c = Some (r, d)" "build_levels X d [LInitial, LHandshake, LData] = Some (bs, e)"
    "c' = e \<or> c' = e\<lparr>initial_sent := True\<rparr>"
  have "conn_inv d" using a(1) pump_tls_keeps assms(2) by (auto simp: keeps_def)
  moreover have "held d = held c" using a(1) pump_tls_kept by blast
  moreover have "held c' = held e" using a(3) by (elim disjE) (simp_all add: held_def)
  ultimately show ?thesis using held_levels [OF a(2)] by simp
qed simp

lemma acked_in_blocks:
  assumes "on_ack lr i largest first_range ranges delay t = (newly, lr')" "lr_inv lr" "i < 3" "p \<in> set newly"
  shows "\<exists>lo hi. (lo, hi) \<in> set (acked_numbers largest first_range ranges) \<and> lo \<le> sp_pn p \<and> sp_pn p \<le> hi"
proof -
  from assms(1) obtain m where m: "remove_blocks (acked_numbers largest first_range ranges) (sent (lr_spaces lr ! i)) = (newly, m)"
    by (rule on_ack_parts)
  have "om_ok (sent (lr_spaces lr ! i))" "list_all (\<lambda>(pn, p). sp_pn p = pn) (sent (lr_spaces lr ! i))"
    using lr_inv_space [OF assms(2,3)] by (simp_all add: space_ok_def)
  from remove_blocks_parts [OF m this] assms(4) show ?thesis by fast
qed

text \<open>Handling a frame releases nothing, unless it acknowledges the packet that carried it.\<close>

lemma held_handle:
  assumes "handle_frame c level fr = (r, c')" "conn_inv c" "f \<in> held c" "f \<notin> held c'"
  shows "\<exists>largest delay first_range ranges pn fs lo hi. fr = Ack largest delay first_range ranges
    \<and> sent_frames c (level_idx level, pn) = Some fs \<and> f \<in> set fs
    \<and> (lo, hi) \<in> set (acked_numbers largest first_range ranges) \<and> lo \<le> pn \<and> pn \<le> hi"
proof (cases fr)
  case (Ack largest delay first_range ranges)
  let ?i = "level_idx level"
  obtain acked lr where a: "on_ack (recovery c) ?i largest first_range ranges delay (now c) = (acked, lr)" by fastforce
  define d where "d = c\<lparr>recovery := lr, sent_frames := (\<lambda>k. if k \<in> (\<lambda>p. (?i, sp_pn p)) ` set acked then None else sent_frames c k)\<rparr>"
  obtain lost lr' where l: "detect_lost (recovery d) ?i (now c) = (lost, lr')" by fastforce
  have "c' = requeue_lost (d\<lparr>recovery := lr'\<rparr>) ?i lost" using assms(1) l by (simp add: Ack handle_frame_def a d_def Let_def)
  moreover have "conn_inv d" using keeps_acked [OF a level_idx_less] assms(2) by (simp add: keeps_def d_def)
  ultimately have "held c' = held d" by (simp add: held_lost)
  with assms(4) have nd: "f \<notin> held d" by simp
  moreover have "retransmit d = retransmit c" by (simp add: d_def)
  ultimately have "f \<notin> set (retransmit c)" by (simp add: held_def)
  with assms(3) obtain k fs where k: "sent_frames c k = Some fs" "f \<in> set fs" unfolding held_def by blast
  with nd have "sent_frames d k \<noteq> Some fs" unfolding held_def by blast
  with k(1) obtain p where p: "p \<in> set acked" "k = (?i, sp_pn p)" by (auto simp: d_def split: if_splits)
  have "lr_inv (recovery c)" using assms(2) by (simp add: conn_inv_def)
  from acked_in_blocks [OF a this level_idx_less p(1)] k(1,2) p(2) Ack show ?thesis by blast
next
  case (StreamF i off fin d)
  obtain b fc where "fc_consume (recv_fc c) (length d) = (b, fc)" by fastforce
  with assms StreamF show ?thesis by (cases b) (auto simp: handle_frame_def held_def Let_def split: if_splits)
qed (use assms in \<open>auto simp: handle_frame_def held_def Let_def split: if_splits\<close>)

section \<open>The numbers of the packets\<close>



section \<open>The loops over the TLS session end\<close>

lemma drive_loop_returns:
  fixes \<mu> :: "'t \<Rightarrow> nat"
  assumes "\<And>t buf ch t'. tls_write_hs T t = (buf, Some ch, t') \<Longrightarrow> \<mu> t' < \<mu> t"
  shows "\<exists>c'. drive_loop T c = Some c'"
proof (induction "\<mu> (tls c)" arbitrary: c rule: less_induct)
  case less
  obtain buf ch t where w: "tls_write_hs T (tls c) = (buf, ch, t)" by (cases "tls_write_hs T (tls c)")
  obtain go d where d: "drive_tls T c = (go, d)" by fastforce
  show ?case
  proof (cases go)
    case True
    with d w obtain x where "ch = Some x" "tls d = t"
      by (auto simp: drive_tls_def Let_def split: option.splits KeyChange.splits if_splits)
    with assms w have "\<mu> (tls d) < \<mu> (tls c)" by blast
    from less [OF this] d True show ?thesis by (subst drive_loop.simps) simp
  next
    case False
    with d show ?thesis by (subst drive_loop.simps) simp
  qed
qed

lemma pump_tls_returns:
  fixes \<mu> :: "'t \<Rightarrow> nat"
  assumes "\<And>t buf ch t'. tls_write_hs T t = (buf, Some ch, t') \<Longrightarrow> \<mu> t' < \<mu> t"
  shows "\<exists>x. pump_tls T c = Some x"
proof -
  obtain q d where f: "feed_tls T c [LInitial, LHandshake, LData] = (q, d)" by fastforce
  obtain e where "drive_loop T d = Some e" using drive_loop_returns [of T \<mu>] assms by blast
  with f show ?thesis by (cases q) (auto simp: pump_tls_def Let_def)
qed

lemma recv_loop_returns:
  assumes "\<And>c. \<exists>x. pump_tls T c = Some x"
  shows "\<exists>y. recv_loop X T c q = Some y"
proof (induction q arbitrary: c rule: length_induct)
  case (1 q)
  obtain p d where p: "recv_pass X T c q = (p, d)" by fastforce
  obtain s e where e: "pump_tls T d = Some (s, e)" using assms [of d] by auto
  show ?case
  proof (cases p)
    case (Inl x)
    with p show ?thesis by (subst recv_loop.simps) simp
  next
    case (Inr x)
    obtain ds b where x: "x = (ds, b)" by (cases x)
    have "\<exists>y. recv_loop X T e ds = Some y" if b using recv_pass_deferred [of X T c q ds b d] p Inr x that "1.IH" by blast
    with p Inr x e show ?thesis by (subst recv_loop.simps) (auto split: sum.split)
  qed
qed

section \<open>A small instance\<close>

text \<open>Primitives that append sixteen bytes and mask nothing, and a TLS session that has one message to send.\<close>

definition plain_primitives :: "unit Primitives" where
  "plain_primitives =
     \<lparr>hkdf_extract = (\<lambda>salt ikm. []), hkdf_expand = (\<lambda>prk info n. replicate n 0),
      aead_seal = (\<lambda>k n a p. Some (p @ replicate 16 0)), aead_open = (\<lambda>k n a c. Some (take (length c - 16) c)),
      hp_mask = (\<lambda>k s. Some (replicate 5 0)), rustls_seal = (\<lambda>k n a p. Some (p @ replicate 16 0)),
      rustls_open = (\<lambda>k n a c. Some (take (length c - 16) c)), rustls_mask = (\<lambda>k s. Some (replicate 5 0))\<rparr>"

definition one_message :: "(unit, nat) TlsOps" where
  "one_message =
     \<lparr>tls_read_hs = (\<lambda>t m. Inr t), tls_write_hs = (\<lambda>t. if t = 0 then ([], None, 0) else ([1, 2, 3], None, t - 1)),
      tls_peer_params = (\<lambda>t. None), tls_is_handshaking = (\<lambda>t. True), tls_initial_suite = True\<rparr>"

definition sample_cid :: ConnectionId where
  "sample_cid = \<lparr>cid_bytes = replicate 20 0, cid_len = 8\<rparr>"

lemma plain_primitives_ok: "primitives_ok plain_primitives"
  by (simp add: primitives_ok_def plain_primitives_def AEAD_TAG_LEN_def)

lemma plain_protect:
  assumes "tx_keys c ! level_idx level = Some k" "2 \<le> length body"
  shows "\<exists>pkt c'. protect plain_primitives c level body = Some (pkt, c')"
proof -
  define n where "n = max (packet_number_len (next_pn (spaces c ! level_idx level)) None) 2"
  have n: "2 \<le> n" "n \<le> 8" using pn_len_range [of "next_pn (spaces c ! level_idx level)"] by (auto simp: n_def)
  have ps: "pkt_seal plain_primitives k pn hdr body = Ok (body @ replicate 16 0)" for pn hdr
    by (cases k) (simp_all add: pkt_seal_def plain_primitives_def)
  have hm: "header_mask plain_primitives k sample = Ok (replicate 5 0)" if "length sample = 16" for sample
    using that by (cases k) (simp_all add: header_mask_def plain_primitives_def)
  have "\<exists>out. seal_packet plain_primitives k hdr pn n body = Some out" for hdr pn
  proof -
    define out where "out = hdr @ encode_packet_number pn n @ body @ replicate 16 0"
    have len: "length hdr + 20 \<le> length out" using n assms(2) by (simp add: out_def encode_packet_number_def)
    then have "header_mask plain_primitives k (slice out (length hdr + 4) 16) = Ok (replicate 5 0)" by (intro hm) (simp add: slice_def)
    with len show ?thesis unfolding seal_packet_def Let_def ps sum.case by (simp add: out_def)
  qed
  then obtain out where o': "seal_packet plain_primitives k (packet_header (c\<lparr>spaces := (spaces c)[level_idx level := (spaces c ! level_idx level)
      \<lparr>next_pn := next_pn (spaces c ! level_idx level) + 1\<rparr>]\<rparr>) level n (length body)) (next_pn (spaces c ! level_idx level)) n body = Some out"
    by blast
  then show ?thesis using assms(1) by (simp add: protect_def Let_def n_def)
qed

definition sample_client :: "(unit, nat) Conn" where
  "sample_client = snd (install_initial_keys plain_primitives one_message (conn_new Client V1 sample_cid sample_cid 1) (cid_slice sample_cid))"

lemma install_initial_keys_ok: "tls_initial_suite T \<Longrightarrow> fst (install_initial_keys X T c d) = Ok ()"
  by (simp add: install_initial_keys_def Let_def case_prod_beta)

lemma sample_client_reach: "conn_reach plain_primitives one_message sample_client"
proof (rule conn_reach.client)
  obtain r c where "install_initial_keys plain_primitives one_message (conn_new Client V1 sample_cid sample_cid 1) (cid_slice sample_cid) = (r, c)"
    by fastforce
  moreover from this have "r = Ok ()"
    using install_initial_keys_ok [of one_message plain_primitives "conn_new Client V1 sample_cid sample_cid 1" "cid_slice sample_cid"]
    by (simp add: one_message_def)
  ultimately show "conn_client plain_primitives one_message V1 sample_cid sample_cid (Inr 1) = Ok sample_client"
    by (simp add: conn_client_def sample_client_def)
qed

text \<open>The client after its TLS session has been driven, and after its first packet.\<close>

definition sample_ready :: "(unit, nat) Conn" where
  "sample_ready = sample_client\<lparr>tls := 0, spaces := [space_new\<lparr>space_crypto := cs_default\<lparr>cs_tx := [1, 2, 3]\<rparr>\<rparr>, space_new, space_new]\<rparr>"

definition sample_sent :: "(unit, nat) Conn" where
  "sample_sent = (case build_packet plain_primitives sample_ready LInitial of None \<Rightarrow> sample_ready | Some (_, c) \<Rightarrow> c)"

lemma sample_client_parts:
  "tls sample_client = 1" "spaces sample_client = replicate 3 space_new" "write_level sample_client = LInitial" "side sample_client = Client"
  "peer_params sample_client = None" "retransmit sample_client = []" "tx_keys sample_client ! 0 \<noteq> None"
  by (simp_all add: sample_client_def install_initial_keys_def one_message_def Let_def case_prod_beta conn_new_def)

lemma sample_ready_pumped: "pump_tls one_message sample_client = Some (Ok (), sample_ready)"
proof -
  have s: "spaces sample_client = [space_new, space_new, space_new]" by (simp add: sample_client_parts numeral_3_eq_3)
  have r: "cs_read_in_order cs_default = ([], cs_default)" by (simp add: cs_read_in_order_def cs_default_def)
  have self: "sample_client\<lparr>spaces := [space_new, space_new, space_new]\<rparr> = sample_client" using s by (metis Conn.surjective Conn.update_convs(7))
  have sp: "space_new\<lparr>space_crypto := cs_default\<rparr> = space_new" "space_crypto space_new = cs_default" by (simp_all add: space_new_def)
  have f: "feed_tls one_message sample_client [LInitial, LHandshake, LData] = (Ok (), sample_client)"
    by (simp add: s r sp self level_idx_def Let_def)
  have "drive_tls one_message sample_client = (False, sample_ready)"
    by (simp add: drive_tls_def one_message_def sample_client_parts(1,3) s level_idx_def Let_def sample_ready_def sp cs_push_tx_def cs_default_def)
  then have "drive_loop one_message sample_client = Some sample_ready" by (subst drive_loop.simps) simp
  with f show ?thesis by (simp add: pump_tls_def sample_ready_def sample_client_parts one_message_def)
qed

lemma sample_ready_reach: "conn_reach plain_primitives one_message sample_ready"
  by (rule conn_reach.step [OF sample_client_reach conn_step.tls_driven [OF sample_ready_pumped]])

lemma sample_ready_frames:
  "collect_frames sample_ready LInitial = ([Crypto 0 [1, 2, 3]], False,
     sample_ready\<lparr>spaces := [space_new\<lparr>space_crypto := \<lparr>cs_tx = [], cs_tx_off = 3, cs_rx_next = 0, cs_rx_buf = []\<rparr>\<rparr>, space_new, space_new]\<rparr>)"
proof -
  have "drain_crypto \<lparr>cs_tx = [1, 2, 3], cs_tx_off = 0, cs_rx_next = 0, cs_rx_buf = []\<rparr>
      = ([Crypto 0 [1, 2, 3]], \<lparr>cs_tx = [], cs_tx_off = 3, cs_rx_next = 0, cs_rx_buf = []\<rparr>)"
    by (simp add: drain_crypto.simps cs_take_tx_def APP_FRAME_BUDGET_def)
  then show ?thesis
    by (simp add: collect_frames_def ack_frames_def data_frames_def crypto_frames_def level_idx_def sample_ready_def space_new_def
        cs_default_def Let_def)
qed

lemma sample_sent_built: "\<exists>pkt. build_packet plain_primitives sample_ready LInitial = Some (Some pkt, sample_sent)"
proof -
  let ?c = "sample_ready\<lparr>spaces := [space_new\<lparr>space_crypto := \<lparr>cs_tx = [], cs_tx_off = 3, cs_rx_next = 0, cs_rx_buf = []\<rparr>\<rparr>, space_new, space_new]\<rparr>"
  have k: "tx_keys ?c ! level_idx LInitial \<noteq> None" using sample_client_parts(7) by (simp add: sample_ready_def level_idx_def)
  then obtain key where "tx_keys ?c ! level_idx LInitial = Some key" by blast
  from plain_protect [OF this, of "concat (map frame_encode [Crypto 0 [1, 2, 3]])"]
  obtain pkt c' where "protect plain_primitives ?c LInitial (concat (map frame_encode [Crypto 0 [1, 2, 3]])) = Some (pkt, c')"
    by auto
  with k sample_ready_frames show ?thesis by (simp add: build_packet_def sample_sent_def Let_def)
qed

lemma sample_sent_reach: "conn_reach plain_primitives one_message sample_sent"
  using conn_reach.step [OF sample_ready_reach conn_step.packet_built] sample_sent_built by blast

section \<open>Properties\<close>

text \<open>C36: In every state a connection reaches through its operations, also in the middle of a datagram and whatever the peer
  acknowledges, the bytes in flight are the sizes of the packets in the three tables, the congestion window is at least two
  datagrams, a packet in flight has a number that has been used, and frames are kept for packets in flight only, all of
  them CRYPTO or STREAM frames.\<close>
theorem quic_flight_consistent:
  assumes "conn_reach X T c"
  shows "bytes_in_flight (lr_cc (recovery c)) = sum_list (map (\<lambda>s. sum_list (map (sp_size \<circ> snd) (sent s))) (lr_spaces (recovery c)))
    \<and> MIN_WINDOW \<le> cwnd (lr_cc (recovery c))
    \<and> (i < 3 \<and> pn \<in> in_flight c i \<longrightarrow> pn < next_pn (spaces c ! i))
    \<and> (sent_frames c (i, pn) = Some fs \<longrightarrow> i < 3 \<and> pn \<in> in_flight c i \<and> list_all retransmittable fs)"
proof -
  from conn_reach_inv [OF assms] have inv: "conn_inv c" .
  then have lr: "lr_inv (recovery c)" and "kept_ok c" and fl: "\<forall>i < 3. \<forall>pn \<in> in_flight c i. pn < next_pn (spaces c ! i)"
    by (simp_all add: conn_inv_def)
  then have "sent_frames c (i, pn) = Some fs \<longrightarrow> i < 3 \<and> pn \<in> in_flight c i \<and> list_all retransmittable fs"
    unfolding kept_ok_def by blast
  with lr fl show ?thesis by (simp add: lr_inv_def flight_def comp_def)
qed

lemma sample_sent_parts: "sent_frames sample_sent (0, 0) = Some [Crypto 0 [1, 2, 3]]" "tx_keys sample_sent = tx_keys sample_ready"
proof -
  obtain pkt where b: "build_packet plain_primitives sample_ready LInitial = Some (Some pkt, sample_sent)" using sample_sent_built by blast
  from build_packet_parts [OF b] sample_ready_frames obtain c1 p la cd where
    s: "sample_sent = (record_sent c1 (level_idx LInitial) p (filter retransmittable [Crypto 0 [1, 2, 3]]))\<lparr>last_activity := la, closed := cd\<rparr>"
      "sp_pn p = next_pn (spaces c1 ! level_idx LInitial)" "spaces c1 ! 0 = space_new\<lparr>space_crypto := \<lparr>cs_tx = [], cs_tx_off = 3, cs_rx_next = 0, cs_rx_buf = []\<rparr>\<rparr>"
      "tx_keys c1 = tx_keys sample_ready"
    by auto
  show "sent_frames sample_sent (0, 0) = Some [Crypto 0 [1, 2, 3]]" "tx_keys sample_sent = tx_keys sample_ready"
    unfolding s(1) using s(2-4) by (simp_all add: record_sent_def retransmittable_def level_idx_def space_new_def)
qed

theorem quic_flight_consistent_witness:
  "bytes_in_flight (lr_cc (recovery sample_sent))
     = sum_list (map (\<lambda>s. sum_list (map (sp_size \<circ> snd) (sent s))) (lr_spaces (recovery sample_sent)))
   \<and> 0 \<in> in_flight sample_sent 0 \<and> 0 < next_pn (spaces sample_sent ! 0)"
  using quic_flight_consistent [OF sample_sent_reach, of 0 0 "[Crypto 0 [1, 2, 3]]"] sample_sent_parts(1) by auto






lemma held_collected:
  assumes "build_packet X c level = Some (Some pkt, c')" "collect_frames c level = (fs, cl, d)"
  shows "set (filter retransmittable fs) \<subseteq> held c'"
proof -
  from build_packet_parts [OF assms(1)] assms(2) obtain p la cd where
    "c' = (record_sent d (level_idx level) p (filter retransmittable fs))\<lparr>last_activity := la, closed := cd\<rparr>" by auto
  then have "sent_frames c' (level_idx level, sp_pn p) = Some (filter retransmittable fs)" if "filter retransmittable fs \<noteq> []"
    using that by (simp add: record_sent_def)
  then show ?thesis unfolding held_def by (cases "filter retransmittable fs = []") (simp, blast)
qed

text \<open>C33: Stream and handshake data are held until they are acknowledged. From every reachable state: the CRYPTO and STREAM frames
  of a packet are held once it is built; a timeout, with all the packets it declares lost, releases no frame and adds none; transmitting
  releases none; and handling a frame of the peer releases one only if it is an acknowledgement whose ranges contain the number of
  the packet, of the same level, that carried it.\<close>
theorem quic_data_held:
  assumes "conn_reach X T c"
  shows "(build_packet X c level = Some (Some pkt, c0) \<and> collect_frames c level = (fs, cl, d) \<longrightarrow> set (filter retransmittable fs) \<subseteq> held c0)
    \<and> held (on_timeout c t) = held c
    \<and> (poll_transmit X T c = Some (out, c1) \<longrightarrow> held c \<subseteq> held c1)
    \<and> (handle_frame c level fr = (r, c2) \<and> f \<in> held c \<and> f \<notin> held c2 \<longrightarrow>
        (\<exists>largest delay first_range ranges pn gs lo hi. fr = Ack largest delay first_range ranges
          \<and> sent_frames c (level_idx level, pn) = Some gs \<and> f \<in> set gs
          \<and> (lo, hi) \<in> set (acked_numbers largest first_range ranges) \<and> lo \<le> pn \<and> pn \<le> hi))"
proof -
  have inv: "conn_inv c" by (rule conn_reach_inv [OF assms])
  have "handle_frame c level fr = (r, c2) \<and> f \<in> held c \<and> f \<notin> held c2 \<longrightarrow>
      (\<exists>largest delay first_range ranges pn gs lo hi. fr = Ack largest delay first_range ranges
        \<and> sent_frames c (level_idx level, pn) = Some gs \<and> f \<in> set gs
        \<and> (lo, hi) \<in> set (acked_numbers largest first_range ranges) \<and> lo \<le> pn \<and> pn \<le> hi)"
    using held_handle [OF _ inv] by blast
  with held_collected [of X c level pkt c0 fs cl d] held_timeout [OF inv] held_transmit [OF _ inv] show ?thesis by blast
qed

theorem quic_data_held_witness:
  "Crypto 0 [1, 2, 3] \<in> held sample_sent \<and> Crypto 0 [1, 2, 3] \<in> held (on_timeout sample_sent 5000000)"
proof -
  obtain pkt where b: "build_packet plain_primitives sample_ready LInitial = Some (Some pkt, sample_sent)" using sample_sent_built by blast
  with sample_ready_frames quic_data_held [OF sample_ready_reach]
  have "set (filter retransmittable [Crypto 0 [1, 2, 3]]) \<subseteq> held sample_sent" by blast
  then have "Crypto 0 [1, 2, 3] \<in> held sample_sent" by (simp add: retransmittable_def)
  with quic_data_held [OF sample_sent_reach] show ?thesis by blast
qed

lemma split_single:
  assumes "pkt \<noteq> []" "hd pkt AND 0x40 = 0x40" "packet_len (pkt @ zs) = Ok (length pkt)" "zs = [] \<or> (\<exists>m. zs = replicate m 0)"
  shows "split_packets (pkt @ zs) = Ok [pkt]"
proof -
  have "split_from (pkt @ zs) (length pkt) [pkt] = Ok [pkt]"
    using assms(4) by (subst split_from.simps) (auto simp: hd_replicate)
  moreover have "split_from (pkt @ zs) 0 [] = split_from (pkt @ zs) (length pkt) [pkt]"
    using assms(1-3) by (subst split_from.simps) (simp add: Let_def MAX_PACKETS_PER_DATAGRAM_def)
  ultimately show ?thesis by (simp add: split_packets_def)
qed

text \<open>C34: A packet reaches the frame handlers of the other end as it was built. A packet of any level that an endpoint protects, padded with
  zeros if its header has a length, is cut out of the datagram whole; and an endpoint with the same keys that finds the packet
  number in its window opens it, notes exactly that number, and handles exactly the frames of the packet in their order, runs
  of padding merged.\<close>
theorem quic_packet_delivered:
  assumes "primitives_ok X" "protect X c level (concat (map frame_encode fs)) = Some (pkt, c')" "list_all frame_good fs"
    and "tx_keys c ! level_idx level = rx_keys r ! level_idx level" "version r = version c"
    and "cid_wf (dcid c)" "cid_wf (scid c)" "scid r = dcid c" "length (concat (map frame_encode fs)) \<le> 2 ^ 60"
    and "pn_in_window (largest_recv (spaces r ! level_idx level)) (next_pn (spaces c ! level_idx level))"
    and "level = LInitial \<longrightarrow> side r = Client \<or> rx_keys r ! 0 \<noteq> None"
  shows "split_packets (if level = LData then pkt else pkt @ replicate n 0) = Ok [pkt]
    \<and> recv_one X T r pkt =
        (let i = level_idx level; s = spaces r ! i
         in handle_frames (r\<lparr>spaces := (spaces r)[i := s\<lparr>largest_recv := option_max (largest_recv s) (next_pn (spaces c ! i)),
              recv_count := recv_count s + 1, ack_pending := True\<rparr>]\<rparr>) level (merge_padding fs))"
proof -
  let ?body = "concat (map frame_encode fs)" and ?pn = "next_pn (spaces c ! level_idx level)"
  define zs :: bytes where "zs = (if level = LData then [] else replicate n 0)"
  have "recv_one X T r pkt = accept_payload r level ?pn ?body \<and> hd pkt AND 0x40 = 0x40 \<and> pkt \<noteq> [] \<and> packet_len (pkt @ zs) = Ok (length pkt)"
  proof (cases "level = LData")
    case True
    note a = assms(4,10) [unfolded True level_idx_def Level.case]
    note received = short_packet_received [OF assms(1) assms(2) [unfolded True] a(1) assms(6,8) a(2)]
    show ?thesis using received(1) [of T] received(2-4) by (simp add: True level_idx_def zs_def)
  next
    case False
    note received = long_packet_received [OF assms(1,2) False assms(4,6,7,5,9,10)]
    show ?thesis using received(1) [of T] received(2) received(3) [of zs] received(4) assms(11) by blast
  qed
  moreover have "accept_payload r level ?pn ?body =
      (let i = level_idx level; s = spaces r ! i
       in handle_frames (r\<lparr>spaces := (spaces r)[i := s\<lparr>largest_recv := option_max (largest_recv s) (next_pn (spaces c ! i)),
            recv_count := recv_count s + 1, ack_pending := True\<rparr>]\<rparr>) level (merge_padding fs))"
    using payload_read_back [of fs] assms(3) by (simp add: accept_payload_def Let_def)
  ultimately show ?thesis using split_single [of pkt zs] by (auto simp: zs_def)
qed

text \<open>The server end of the sample, with the keys of the client.\<close>

definition sample_peer :: "(unit, nat) Conn" where
  "sample_peer = (conn_new Server V1 cid_default sample_cid 1)\<lparr>rx_keys := tx_keys sample_ready\<rparr>"

theorem quic_packet_delivered_witness:
  "case protect plain_primitives sample_ready LInitial (concat (map frame_encode [Crypto 0 [1, 2, 3]])) of
     None \<Rightarrow> False
   | Some (pkt, _) \<Rightarrow> split_packets (pkt @ replicate 1000 0) = Ok [pkt]
       \<and> recv_one plain_primitives one_message sample_peer pkt =
           handle_frames (sample_peer\<lparr>spaces := [space_new\<lparr>largest_recv := Some 0, recv_count := 1, ack_pending := True\<rparr>, space_new, space_new]\<rparr>)
             LInitial [Crypto 0 [1, 2, 3]]"
proof -
  let ?fs = "[Crypto 0 [1, 2, 3]]"
  have parts: "dcid sample_ready = sample_cid" "scid sample_ready = sample_cid" "version sample_ready = V1" "next_pn (spaces sample_ready ! 0) = 0"
    by (simp_all add: sample_ready_def sample_client_def install_initial_keys_def one_message_def Let_def case_prod_beta conn_new_def space_new_def)
  have peer: "scid sample_peer = sample_cid" "version sample_peer = V1" "spaces sample_peer = [space_new, space_new, space_new]"
    "rx_keys sample_peer = tx_keys sample_ready"
    by (simp_all add: sample_peer_def conn_new_def Let_def numeral_3_eq_3)
  have k: "tx_keys sample_ready ! 0 \<noteq> None" using sample_client_parts(7) by (simp add: sample_ready_def)
  then obtain key where "tx_keys sample_ready ! level_idx LInitial = Some key" by (auto simp: level_idx_def)
  from plain_protect [OF this, of "concat (map frame_encode ?fs)"]
  obtain pkt c' where p: "protect plain_primitives sample_ready LInitial (concat (map frame_encode ?fs)) = Some (pkt, c')" by auto
  have w: "cid_wf sample_cid" by (simp add: cid_wf_def sample_cid_def)
  have "split_packets (if LInitial = LData then pkt else pkt @ replicate 1000 0) = Ok [pkt]
    \<and> recv_one plain_primitives one_message sample_peer pkt =
        (let i = level_idx LInitial; s = spaces sample_peer ! i
         in handle_frames (sample_peer\<lparr>spaces := (spaces sample_peer)[i := s\<lparr>largest_recv := option_max (largest_recv s) (next_pn (spaces sample_ready ! i)),
              recv_count := recv_count s + 1, ack_pending := True\<rparr>]\<rparr>) LInitial (merge_padding ?fs))"
    by (rule quic_packet_delivered [OF plain_primitives_ok p])
      (use w k in \<open>simp_all add: parts peer level_idx_def frame_good_def VARINT_MAX_def MAX_FRAME_PAYLOAD_def pn_in_window_def space_new_def encode_varint_def\<close>)
  with p show ?thesis by (simp add: level_idx_def Let_def peer parts) (simp add: space_new_def option_max_def)
qed

text \<open>C37: Reception returns. If each new set of keys brings the TLS session closer to having none left (it hands out
  every set once), then \<^verbatim>\<open>recv\<close> returns for every datagram in every state, with a result or an error, although it drives the
  session in a loop without a bound and goes over the packets it has no keys for again.\<close>
theorem quic_recv_returns:
  fixes \<mu> :: "'t \<Rightarrow> nat"
  assumes "\<forall>t buf ch t'. tls_write_hs T t = (buf, Some ch, t') \<longrightarrow> \<mu> t' < \<mu> t"
  shows "\<exists>r c'. conn_recv X T c datagram = Some (r, c')"
proof -
  have "\<exists>x. pump_tls T d = Some x" for d using pump_tls_returns [of T \<mu>] assms by blast
  then have "\<exists>y. recv_loop X T c q = Some y" for q using recv_loop_returns by blast
  then show ?thesis by (cases "split_packets datagram") (auto simp: conn_recv_def)
qed

text \<open>A session that hands out as many sets of keys as its state says.\<close>

definition some_keys :: "(unit, nat) TlsOps" where
  "some_keys = one_message\<lparr>tls_write_hs := (\<lambda>t. if t = 0 then ([], None, 0) else ([1], Some (if t = 1 then OneRttKeys () () else HandshakeKeys () ()), t - 1))\<rparr>"

theorem quic_recv_returns_witness:
  "\<exists>r c'. conn_recv plain_primitives some_keys (sample_client\<lparr>tls := 2\<rparr>) [0x40, 1, 2, 3] = Some (r, c')"
  by (rule quic_recv_returns [where \<mu> = "\<lambda>t. t"]) (auto simp: some_keys_def split: if_splits)

section \<open>Where the engine departs from the protocol\<close>

text \<open>Every acknowledgement names all numbers up to the largest one received, whatever of them has arrived; the sender at
  the other end then releases data that never came.\<close>

lemma ack_names_all_below:
  assumes "ack_frames c level = (fs, c')" "fs \<noteq> []"
  shows "\<exists>largest. largest_recv (spaces c ! level_idx level) = Some largest \<and> fs = [Ack largest 0 largest []]
    \<and> acked_numbers largest largest [] = [(0, largest)]"
  using assms by (auto simp: ack_frames_def acked_numbers_def wrapping_sub_def Let_def split: bool.splits option.splits)

text \<open>A packet with a body of one byte, such as HANDSHAKE_DONE alone, is too short for the sample of the header protection, and
  protecting it panics.\<close>

lemma protect_short_body_panics:
  assumes "primitives_ok X" "packet_number_len (next_pn (spaces c ! level_idx level)) None \<le> 2" "length body \<le> 1"
  shows "protect X c level body = None"
proof (rule ccontr)
  let ?pn = "next_pn (spaces c ! level_idx level)"
  assume "protect X c level body \<noteq> None"
  then obtain pkt c' where p: "protect X c level body = Some (pkt, c')" by auto
  from p obtain k where s: "seal_packet X k (packet_header c level 2 (length body)) ?pn 2 body = Some pkt"
    by (rule protect_parts) (use assms(2) in simp)
  have "length (encode_packet_number ?pn 2) = 2" by (simp add: encode_packet_number_def)
  moreover have "length sl = length body + 16" if "pkt_seal X k n h body = Ok sl" for n h sl
    using that assms(1) by (cases k) (auto simp: pkt_seal_def primitives_ok_def AEAD_TAG_LEN_def ok_or_def split: option.splits)
  ultimately show False using s assms(3) by (auto simp: seal_packet_def Let_def split: sum.splits if_splits)
qed

end
