(* ===== verification/Spec2Isabelle.thy ===== *)
theory Spec2Isabelle
  imports Meshsec Reorder Path_Control Forwarding Balance Pipeline_Run Dispatch_Routing Rule_Yaml DNS_Codec Socks5 Http_Proxy Quic_Reach
begin

text \<open>
  MeshBus: a verification development for the Rust workspace under \<^verbatim>\<open>src/\<close>. MeshBus is a proxy and overlay
  network. Ingress plugins turn client traffic (SOCKS5, HTTP CONNECT, plain TCP and UDP, other mesh nodes) into frames; a
  kernel runs configured pipelines of hooks over them, chooses exits with a scheduler and hands the frames to egress plugins; exit health
  and path measurements flow back over an observation bus; nodes talk to each other over a sealed UDP protocol.

  \<^bold>\<open>Conventions.\<close> A struct is a record, an enum a datatype with the source's constructors behind a short prefix, a method
  a function that takes and returns the state. \<^verbatim>\<open>Result\<close> is the sum type with \<open>Err\<close>/\<open>Ok\<close>, a panic a value of an error type.
  A \<^verbatim>\<open>u64\<close> or \<^verbatim>\<open>usize\<close> the code compares, subtracts under a guard or saturates is a natural number; an unchecked
  addition of numbers a peer chooses wraps as a release build does, while sums of own bytes, counts and clock times (the congestion
  and round-trip arithmetic, the tallies of effects) stay natural numbers because they cannot come near the width; wire fields and bit vectors are machine words. A \<^verbatim>\<open>BTreeMap\<close> is a sorted association
  list, a \<^verbatim>\<open>HashMap\<close> that is not iterated a partial function. An \<^verbatim>\<open>f64\<close> is a rational rounded to the format after every
  operation. Code outside the repository (hash functions, ciphers, serialisers, CIDR and regular-expression libraries) is a
  parameter; what is assumed of it is a named hypothesis with an instance that satisfies it.

  \<^bold>\<open>Shared theories.\<close>
  \<^item> \<open>Mesh_Prelude\<close>: results, unsigned arithmetic, byte images of integers, decimal text, sequences of calls (\<open>run_steps\<close>).
  \<^item> \<open>Text_Ops\<close>, \<open>Net_Addr\<close>, \<open>Byte_Text\<close>: the string, address and UTF-8 functions of the standard library, and the contract
    \<open>positional_codec\<close> of a decoder with a cursor.
  \<^item> \<open>Framing\<close>: the contract \<open>framing\<close> of a self-delimiting stream codec, proved once and interpreted for mesh frames and events, DNS over
    TCP, SOCKS5 greetings, requests and authentication.
  \<^item> \<open>Ordered_Map\<close> (\<open>ordered_dict\<close>), \<open>Cycle_Search\<close> (the depth-first search both registries use), \<open>Float64\<close>.

  \<^bold>\<open>The mesh protocol.\<close>
  \<^item> \<open>Endpoint\<close> (\<^verbatim>\<open>lib/mb-endpoint\<close>): hosts and ports; printing and parsing are inverse exactly for printable hosts.
  \<^item> \<open>Wire\<close> (\<^verbatim>\<open>lib/mb-proto-mesh/src/lib.rs\<close>): frames, events, XOR parity; framing is self-delimiting, one lost chunk is
    recovered.
  \<^item> \<open>Replay\<close> (\<^verbatim>\<open>replay.rs\<close>): the bitmap window refines a reference that remembers every counter (\<open>anti_replay\<close>); the width
    must be a multiple of 64 or at most 64.
  \<^item> \<open>Meshsec\<close> (\<^verbatim>\<open>meshsec.rs\<close>): sealing and opening are inverse, a packet is accepted at most once, a forged one leaves the window alone.
  \<^item> \<open>Reorder\<close> (\<^verbatim>\<open>lib/mb-reorder\<close>): both buffers deliver in order, exactly once (\<open>sequencer\<close>), and describe their gaps exactly.
  \<^item> \<open>Path_Control\<close> (\<^verbatim>\<open>lib/mb-mesh-control\<close>): bytes in flight are exact, an acknowledgement partitions the packages in flight.

  \<^bold>\<open>The kernel.\<close> (\<^verbatim>\<open>crates/mesh-bus-core/src\<close>)
  \<^item> \<open>Forwarding\<close>: frames, capabilities, schedules (\<^verbatim>\<open>transport/forwarding\<close>).
  \<^item> \<open>Kernel_Registry\<close>, \<open>Pipeline_Run\<close>: registration and verification of hooks and pipelines; the run loop; compilation is equivalent to
    it; a verified registry never ends in an inadmissible state. A run makes at most \<open>MAX_JUMP_DEPTH\<close> jumps, which bounds its recursion.
  \<^item> \<open>Observation\<close>, \<open>Health\<close>: the observation bus and the health library; the health decision is a function of the history of an exit.
  \<^item> \<open>Balance\<close>, \<open>Schedulers\<close>: weighted, smooth and hashed picking, CAKE and replication; every scheduler answers every request with a
    permutation of the candidates (\<open>scheduler_plugin\<close>).
  \<^item> \<open>Dispatch\<close>, \<open>Dispatch_Invariants\<close>, \<open>Dispatch_Routing\<close>: the dispatcher with its tables; invariants of every reachable state through
    \<open>dispatch_invariant\<close>; frames go only where their policy allows.

  \<^bold>\<open>Rules and codecs.\<close>
  \<^item> \<open>Rules\<close>, \<open>Rule_Yaml\<close> (\<^verbatim>\<open>lib/mb-rule\<close>): evaluation, validation and the reader of rule documents; a document the
    reader accepts can fail validation only by conflicting effects or the field of a ruleset; when reading panics.
  \<^item> \<open>DNS_Codec\<close> (\<^verbatim>\<open>lib/mb-proto-dns\<close>): decoding undoes encoding, is bounded by the message, and its results can be encoded again.
  \<^item> \<open>Socks5\<close>, \<open>Http_Proxy\<close> (\<^verbatim>\<open>lib/mb-proto-socks5\<close>, \<^verbatim>\<open>lib/mb-proto-http-proxy\<close>): what one end writes the other reads,
    from any cut of the stream; a forwarded HTTP head has one Host header and none of the proxy's.

  \<^bold>\<open>The QUIC engine.\<close> (\<^verbatim>\<open>lib/mb-quic/src\<close>)
  \<^item> \<open>Quic_Packet\<close>, \<open>Quic_Frame\<close> (\<^verbatim>\<open>packet.rs\<close>, \<^verbatim>\<open>frame.rs\<close>, \<^verbatim>\<open>transport_params.rs\<close>): variable-length integers, headers,
    packet numbers, frames and transport parameters; each decoder undoes its encoder.
  \<^item> \<open>Quic_Stream\<close> (\<^verbatim>\<open>stream.rs\<close>, \<^verbatim>\<open>flow_control.rs\<close>, \<^verbatim>\<open>datagram.rs\<close>): the reader of a stream gets a prefix of what was written whatever the network does to the frames, and
    all of it once they have arrived (\<open>stream_frames\<close>); credit and identifiers.
  \<^item> \<open>Quic_Recovery\<close> (\<^verbatim>\<open>recovery.rs\<close>): round-trip time, congestion window, acknowledgements, loss; the loss timer makes progress.
  \<^item> \<open>Quic_Crypto\<close>, \<open>Quic_Conn\<close> (\<^verbatim>\<open>crypto.rs\<close>, \<^verbatim>\<open>conn.rs\<close>): packet protection over abstract primitives and the whole connection, with the TLS
    session as a parameter; \<open>None\<close> of its operations is a panic or a loop that does not end.
  \<^item> \<open>Quic_Reach\<close>: the states a connection reaches (\<open>conn_step\<close>, \<open>conn_reach\<close>); the tables of packets in flight are consistent, no nonce is used twice,
    data are held until acknowledged, a packet reaches the handlers of the other end, reception returns.

  \<^bold>\<open>Termination and bounds.\<close> Recursion is structural or has a termination proof; a loop that the source leaves only by its
  own condition is a \<open>partial_function\<close> or carries a bound shown to suffice (weighted round robin, the pipeline run, the handshake loop of QUIC). Name decoding terminates by
  the hop budget and the message length.

  \<^bold>\<open>Not modelled.\<close>
  \<^item> The ingress and egress crates, the UDP loop, the session halves and the operator interface: sockets, timers, task spawning and channels of the
    runtime (tokio, the operating system). The tables of sessions and flows they keep beside the modelled libraries are not
    modelled either.
  \<^item> Concurrency: a call of the dispatcher is one step, although the source runs many such tasks; the port serialises those of one session.
  \<^item> The set-up of TLS sessions of the QUIC engine (\<^verbatim>\<open>tls.rs\<close>), which only configures rustls.
  \<^item> Third-party formats and cryptography (bincode, serde, AEAD, HKDF, rustls): parameters where the models need them.
\<close>

end
